(* ===== verification/Prelude.thy ===== *)
theory Prelude
  imports Main "HOL-Library.Word" "HOL-Library.Multiset"
begin

text \<open>
  Shared vocabulary of the development: the machine sizes of the C++ types the headers
  use, the exceptions they throw, the ordering contract of the \<open>Compare\<close> functors, and
  the generic list and multiset lemmas the component theories rely on.

  \<^item> \<open>size_t\<close> values are natural numbers below \<open>2 ^ 64\<close>; where the code can wrap
    (\<open>num_nodes--\<close>, \<open>heap_index = -1\<close>) the wrap-around is written out with \<open>size_dec\<close>
    and \<open>size_max\<close>.
  \<^item> C++ \<open>int\<close> arithmetic that can overflow is undefined behaviour; \<open>int_ck\<close> returns
    \<open>None\<close> for it.
  \<^item> A throwing operation has type \<open>exn + 'a\<close>, \<open>Inl\<close> carrying the exception.
\<close>

named_theorems dsq_split "case and conditional splits used throughout the development"

declare if_splits [dsq_split] option.splits [dsq_split] sum.splits [dsq_split] prod.splits [dsq_split] bool.splits [dsq_split]

section \<open>Machine integers and exceptions\<close>

definition size_max :: nat where
  "size_max = 2 ^ 64 - 1"

definition size_dec :: "nat \<Rightarrow> nat" where
  "size_dec n = (if n = 0 then size_max else n - 1)"

definition int_ck :: "int \<Rightarrow> int option" where
  "int_ck i = (if - (2 ^ 31) \<le> i \<and> i < 2 ^ 31 then Some i else None)"

text \<open>Conversion of a wider integer to \<open>int\<close> keeps the low 32 bits; \<open>/\<close> and \<open>%\<close> truncate.\<close>

definition to_int :: "int \<Rightarrow> int" where
  "to_int i = (i + 2 ^ 31) mod 2 ^ 32 - 2 ^ 31"

definition c_div :: "int \<Rightarrow> int \<Rightarrow> int" where
  "c_div a b = sgn a * sgn b * (\<bar>a\<bar> div \<bar>b\<bar>)"

definition c_mod :: "int \<Rightarrow> int \<Rightarrow> int" where
  "c_mod a b = a - b * c_div a b"

datatype exn = Bad_alloc | System_error int

lemma size_dec_pos [simp]: "0 < n \<Longrightarrow> size_dec n = n - 1"
  by (simp add: size_dec_def)

lemma int_ck_ok: "- (2 ^ 31) \<le> i \<Longrightarrow> i < 2 ^ 31 \<Longrightarrow> int_ck i = Some i"
  by (simp add: int_ck_def)

lemma to_int_id: "- (2 ^ 31) \<le> i \<Longrightarrow> i < 2 ^ 31 \<Longrightarrow> to_int i = i"
  by (simp add: to_int_def)

lemma c_div_pos [simp]: "0 \<le> a \<Longrightarrow> 0 < b \<Longrightarrow> c_div a b = a div b"
  by (cases "a = 0") (simp_all add: c_div_def)

lemma c_mod_pos [simp]: "0 \<le> a \<Longrightarrow> 0 < b \<Longrightarrow> c_mod a b = a mod b"
  by (simp add: c_mod_def minus_mult_div_eq_mod)

section \<open>Lists updated by index\<close>

lemma nth_upd_if: "i < length xs \<Longrightarrow> xs[j := x] ! i = (if i = j then x else xs ! i)"
  by (simp add: nth_list_update)

lemma take_Suc_upd: "n < length xs \<Longrightarrow> take (Suc n) (xs[n := x]) = take n xs @ [x]"
  by (simp add: take_Suc_conv_app_nth)

definition swap :: "'a list \<Rightarrow> nat \<Rightarrow> nat \<Rightarrow> 'a list" where
  "swap xs i j = xs[i := xs ! j, j := xs ! i]"

lemma length_swap [simp]: "length (swap xs i j) = length xs"
  by (simp add: swap_def)

lemma nth_swap:
  "i < length xs \<Longrightarrow> j < length xs \<Longrightarrow> k < length xs \<Longrightarrow>
   swap xs i j ! k = (if k = i then xs ! j else if k = j then xs ! i else xs ! k)"
  by (auto simp: swap_def nth_list_update)

lemma mset_swap_eq [simp]: "i < length xs \<Longrightarrow> j < length xs \<Longrightarrow> mset (swap xs i j) = mset xs"
  by (simp add: swap_def mset_swap)

lemma set_swap [simp]: "i < length xs \<Longrightarrow> j < length xs \<Longrightarrow> set (swap xs i j) = set xs"
  using mset_swap_eq mset_eq_setD by blast

lemma map_swap: "i < length xs \<Longrightarrow> j < length xs \<Longrightarrow> map f (swap xs i j) = swap (map f xs) i j"
  by (simp add: swap_def map_update)

lemma distinct_swap_iff [simp]:
  "i < length xs \<Longrightarrow> j < length xs \<Longrightarrow> distinct (swap xs i j) = distinct xs"
  by (simp add: swap_def)

lemma swap_upd: \<comment> \<open>moving an entry into a hole is a swap of the list with the hole filled\<close>
  "i < length xs \<Longrightarrow> j < length xs \<Longrightarrow> i \<noteq> j \<Longrightarrow> (xs[i := xs ! j])[j := x] = swap (xs[i := x]) i j"
  by (auto simp: swap_def nth_list_update list_update_swap)

section \<open>The ordering contract of a comparison functor\<close>

text \<open>
  The containers take a \<open>Compare\<close> functor. They need what the C++ library asks of one: a
  strict weak ordering.
\<close>

locale strict_weak_order =
  fixes lt :: "'p \<Rightarrow> 'p \<Rightarrow> bool"
  assumes irrefl: "\<not> lt x x"
    and trans: "lt x y \<Longrightarrow> lt y z \<Longrightarrow> lt x z"
    and incomp_trans: "\<not> lt x y \<Longrightarrow> \<not> lt y z \<Longrightarrow> \<not> lt x z"
begin

lemma asym: "lt x y \<Longrightarrow> \<not> lt y x"
  using irrefl trans by blast

lemma ge_lt_trans: "\<not> lt y x \<Longrightarrow> lt y z \<Longrightarrow> lt x z"
  using incomp_trans by blast

lemma lt_ge_trans: "lt x y \<Longrightarrow> \<not> lt z y \<Longrightarrow> lt x z"
  using incomp_trans by blast

end

section \<open>Parts of a state\<close>

text \<open>
  A base class has its own part of the state of a derived one: \<open>get\<close> reads it, \<open>put\<close> replaces it.
\<close>

locale state_part =
  fixes get :: "'m \<Rightarrow> 'c" and put :: "'c \<Rightarrow> 'm \<Rightarrow> 'm"
  assumes part_put: "get (put c m) = c"
    and put_put: "put c (put c' m) = put c m"
    and put_get: "put (get m) m = m"
begin

lemma put_upd: "put (f (get (put c m))) (put c m) = put (f c) m"
  by (simp add: part_put put_put)

end

end
