(* ===== verification/Svec.thy ===== *)
theory Svec
  imports Prelude
begin

text \<open>
  \<open>svec.h\<close>: the vector whose capacity can be shrunk to any size. A \<open>svector\<close> is its three
  data members. \<open>array\<close> lists the slots that hold a constructed element: \<open>pop_back\<close> only
  decrements \<open>size_v\<close>, so the slot it gives up keeps its element until the storage is
  replaced, and the list may be longer than \<open>size_v\<close> (never longer than \<open>capacity_v\<close>).

  The storage comes from \<open>new (std::nothrow) char[c * sizeof(T)]\<close>. Whether an allocation of a
  number of bytes succeeds is the parameter \<open>alloc\<close>; \<open>sz\<close> is \<open>sizeof(T)\<close>. The element moves
  of \<open>move_helper\<close> are the copy of the first \<open>size_v\<close> slots.
\<close>

record 'a svector =
  array :: "'a list"
  size_v :: nat
  capacity_v :: nat

definition svec_new :: "'a svector" where
  "svec_new = \<lparr>array = [], size_v = 0, capacity_v = 0\<rparr>"

definition svec_max_size :: "nat \<Rightarrow> nat" where
  "svec_max_size sz = size_max div sz"

definition change_capacity :: "(nat \<Rightarrow> bool) \<Rightarrow> nat \<Rightarrow> 'a svector \<Rightarrow> nat \<Rightarrow> bool \<times> 'a svector" where
  "change_capacity alloc sz v c =
     (if \<not> alloc (c * sz mod 2 ^ 64) then (False, v)
      else (True, v\<lparr>array := take (size_v v) (array v), capacity_v := c\<rparr>))"

definition ensure_capacity ::
  "(nat \<Rightarrow> bool) \<Rightarrow> nat \<Rightarrow> 'a svector \<Rightarrow> nat \<Rightarrow> bool \<Rightarrow> bool \<times> 'a svector" where
  "ensure_capacity alloc sz v c exact =
     (if capacity_v v \<ge> c then (True, v)
      else if c > svec_max_size sz then (False, v)
      else let new_capacity =
             (if \<not> exact then
                (if svec_max_size sz div 2 \<le> capacity_v v then svec_max_size sz
                 else if capacity_v v = 0 then 4 else capacity_v v * 2)
              else c)
           in change_capacity alloc sz v new_capacity)"

definition emplace_back :: "(nat \<Rightarrow> bool) \<Rightarrow> nat \<Rightarrow> 'a svector \<Rightarrow> 'a \<Rightarrow> exn + 'a svector" where
  "emplace_back alloc sz v x =
     (case ensure_capacity alloc sz v (size_v v + 1) False of
        (False, _) \<Rightarrow> Inl Bad_alloc
      | (True, w) \<Rightarrow>
          Inr (w\<lparr>array := take (size_v w) (array w) @ x # drop (Suc (size_v w)) (array w),
                 size_v := size_v w + 1\<rparr>))"

definition pop_back :: "'a svector \<Rightarrow> 'a svector" where
  "pop_back v = v\<lparr>size_v := size_dec (size_v v)\<rparr>"

definition svec_at :: "'a svector \<Rightarrow> nat \<Rightarrow> 'a" where
  "svec_at v i = array v ! i"

definition svec_set :: "'a svector \<Rightarrow> nat \<Rightarrow> 'a \<Rightarrow> 'a svector" where
  "svec_set v i x = v\<lparr>array := (array v)[i := x]\<rparr>"

definition svec_back :: "'a svector \<Rightarrow> 'a" where
  "svec_back v = array v ! size_dec (size_v v)"

definition svec_empty :: "'a svector \<Rightarrow> bool" where
  "svec_empty v \<longleftrightarrow> size_v v = 0"

definition svec_reserve :: "(nat \<Rightarrow> bool) \<Rightarrow> nat \<Rightarrow> 'a svector \<Rightarrow> nat \<Rightarrow> exn + 'a svector" where
  "svec_reserve alloc sz v amount =
     (case ensure_capacity alloc sz v amount True of
        (False, _) \<Rightarrow> Inl Bad_alloc
      | (True, w) \<Rightarrow> Inr w)"

definition svec_shrink_to :: "(nat \<Rightarrow> bool) \<Rightarrow> nat \<Rightarrow> 'a svector \<Rightarrow> nat \<Rightarrow> 'a svector" where
  "svec_shrink_to alloc sz v amount =
     (if capacity_v v > amount then snd (change_capacity alloc sz v amount) else v)"

section \<open>Invariant and abstraction\<close>

definition svec_inv :: "nat \<Rightarrow> 'a svector \<Rightarrow> bool" where
  "svec_inv sz v \<longleftrightarrow>
     size_v v \<le> length (array v) \<and> length (array v) \<le> capacity_v v \<and>
     capacity_v v \<le> svec_max_size sz"

definition elems :: "'a svector \<Rightarrow> 'a list" where
  "elems v = take (size_v v) (array v)"

lemma svec_invD:
  assumes "svec_inv sz v"
  shows "size_v v \<le> length (array v)" "length (array v) \<le> capacity_v v"
    "size_v v \<le> capacity_v v" "capacity_v v \<le> svec_max_size sz"
  using assms by (auto simp: svec_inv_def)

lemma svec_inv_new [simp]: "svec_inv sz svec_new" "elems svec_new = []"
  by (auto simp: svec_inv_def svec_new_def elems_def)

lemma length_elems: "svec_inv sz v \<Longrightarrow> length (elems v) = size_v v"
  by (auto simp: elems_def svec_inv_def)

lemma elems_nth: "i < size_v v \<Longrightarrow> elems v ! i = svec_at v i"
  by (simp add: elems_def svec_at_def)

lemma svec_set_simps [simp]:
  "size_v (svec_set v i x) = size_v v"
  "capacity_v (svec_set v i x) = capacity_v v"
  "length (array (svec_set v i x)) = length (array v)"
  "elems (svec_set v i x) = (elems v)[i := x]"
  "svec_inv sz (svec_set v i x) = svec_inv sz v"
  by (auto simp: svec_set_def elems_def take_update_swap svec_inv_def)

lemma svec_at_set:
  "svec_inv sz v \<Longrightarrow> j < size_v v \<Longrightarrow> svec_at (svec_set v i x) j = (if j = i then x else svec_at v j)"
  by (auto simp: svec_at_def svec_set_def svec_inv_def nth_list_update)

lemma change_capacity_inv:
  assumes "svec_inv sz v" "size_v v \<le> c" "c \<le> svec_max_size sz"
    and "change_capacity alloc sz v c = (b, w)"
  shows "svec_inv sz w" "elems w = elems v" "size_v w = size_v v"
    "capacity_v w = (if b then c else capacity_v v)"
  using assms by (auto simp: change_capacity_def svec_inv_def elems_def split: dsq_split)

text \<open>
  The capacity that growing asks for covers the request: always for an exact request
  (\<open>reserve\<close>), and for the one-element growth of \<open>emplace_back\<close>.
\<close>

definition growth_ok :: "nat \<Rightarrow> 'a svector \<Rightarrow> nat \<Rightarrow> bool \<Rightarrow> bool" where
  "growth_ok sz v c exact \<longleftrightarrow> exact \<or> c \<le> capacity_v v + 1 \<and> 4 \<le> svec_max_size sz"

lemma ensure_capacity_inv:
  assumes inv: "svec_inv sz v" and le: "size_v v \<le> c" and g: "growth_ok sz v c exact"
    and r: "ensure_capacity alloc sz v c exact = (b, w)"
  shows "svec_inv sz w" "elems w = elems v" "size_v w = size_v v"
    "b \<Longrightarrow> c \<le> capacity_v w" "\<not> b \<Longrightarrow> w = v" "capacity_v v \<le> capacity_v w"
proof -
  have "svec_inv sz w \<and> elems w = elems v \<and> size_v w = size_v v \<and> (b \<longrightarrow> c \<le> capacity_v w) \<and>
        (\<not> b \<longrightarrow> w = v) \<and> capacity_v v \<le> capacity_v w"
  proof (cases "capacity_v v \<ge> c \<or> c > svec_max_size sz")
    case True
    with r inv show ?thesis by (auto simp: ensure_capacity_def split: dsq_split)
  next
    case False
    then obtain n where n: "change_capacity alloc sz v n = (b, w)"
      and "c \<le> n" "n \<le> svec_max_size sz"
      using r g by (auto simp: ensure_capacity_def growth_ok_def Let_def split: if_splits)
    with le have size: "size_v v \<le> n" and max: "n \<le> svec_max_size sz" and "c \<le> n" by auto
    have "\<not> b \<longrightarrow> w = v" using n by (simp add: change_capacity_def split: if_splits)
    with False \<open>c \<le> n\<close> show ?thesis
      by (simp add: change_capacity_inv [OF inv size max n])
  qed
  then show "svec_inv sz w" "elems w = elems v" "size_v w = size_v v"
    "b \<Longrightarrow> c \<le> capacity_v w" "\<not> b \<Longrightarrow> w = v" "capacity_v v \<le> capacity_v w" by auto
qed

lemma emplace_back_room:
  assumes "svec_inv sz v" "size_v v < capacity_v v"
  shows "\<exists>w. emplace_back alloc sz v x = Inr w \<and> svec_inv sz w \<and> elems w = elems v @ [x] \<and>
     size_v w = Suc (size_v v) \<and> capacity_v w = capacity_v v"
  using assms
  by (auto simp: emplace_back_def ensure_capacity_def svec_inv_def elems_def)

lemma pop_back_inv:
  assumes "svec_inv sz v" "0 < size_v v"
  shows "svec_inv sz (pop_back v)" "elems (pop_back v) = butlast (elems v)"
    "size_v (pop_back v) = size_v v - 1" "array (pop_back v) = array v"
    "capacity_v (pop_back v) = capacity_v v"
  using assms by (auto simp: pop_back_def svec_inv_def elems_def butlast_take)

lemma svec_back_last: "svec_inv sz v \<Longrightarrow> 0 < size_v v \<Longrightarrow> svec_back v = last (elems v)"
  by (subst last_conv_nth) (auto simp: svec_back_def elems_def svec_inv_def min_absorb2)

lemma svec_reserve_inv:
  assumes "svec_inv sz v" "size_v v \<le> c" "svec_reserve alloc sz v c = Inr w"
  shows "svec_inv sz w" "elems w = elems v" "size_v w = size_v v" "c \<le> capacity_v w"
    "capacity_v v \<le> capacity_v w"
  using assms ensure_capacity_inv [OF assms(1,2), of True alloc]
  by (auto simp: svec_reserve_def growth_ok_def split: dsq_split)

lemma svec_shrink_to_inv:
  assumes "svec_inv sz v" "size_v v \<le> c"
  shows "svec_inv sz (svec_shrink_to alloc sz v c)" "elems (svec_shrink_to alloc sz v c) = elems v"
    "size_v (svec_shrink_to alloc sz v c) = size_v v"
    "capacity_v (svec_shrink_to alloc sz v c) \<ge> min c (capacity_v v)"
  using assms by (auto simp: svec_shrink_to_def change_capacity_def svec_inv_def elems_def)

end
