(* ===== verification/Daryheap.thy ===== *)
theory Daryheap
  imports Svec
begin

text \<open>
  \<open>daryheap.h\<close>: the priority queue behind the event queue and the timer queues. Nodes live in
  an \<open>svector\<close>, the children of position \<open>p\<close> at \<open>p * N + 1 .. p * N + N\<close>; each node points
  to a client-owned handle that records the node's position, so that a node can be removed or
  re-prioritised without a search.

  Handles are addresses of type \<open>'h\<close>; \<open>handles\<close> is the memory that holds them. A handle's
  \<open>hd_u\<close> is the client's data \<open>T\<close> and \<open>heap_index\<close> its position, \<open>size_max\<close> (that is \<open>-1\<close>)
  when not queued. The template parameters \<open>Compare\<close> and \<open>N\<close> are the arguments \<open>lt\<close> and \<open>N\<close>;
  \<open>alloc\<close> and \<open>sz\<close> are those of \<open>svector\<close>. In the source's words \<open>bubble_down\<close> moves towards the
  root and \<open>bubble_up\<close> towards the leaves; the model keeps those names.
\<close>

record ('h, 'p) heap_node =
  prio :: 'p
  hnd :: 'h

record 't handle_t =
  hd_u :: 't
  heap_index :: nat

record ('h, 'p, 't) dary_heap =
  hvec :: "('h, 'p) heap_node svector"
  num_nodes :: nat
  handles :: "'h \<Rightarrow> 't handle_t"

definition dary_new :: "('h \<Rightarrow> 't handle_t) \<Rightarrow> ('h, 'p, 't) dary_heap" where
  "dary_new mem = \<lparr>hvec = svec_new, num_nodes = 0, handles = mem\<rparr>"

text \<open>\<open>hnd->heap_index = i\<close>, \<open>hvec[pos] = hvec[from]\<close> with its handle update, and the final
  store of the node in its slot.\<close>

definition set_index :: "('h, 'p, 't) dary_heap \<Rightarrow> 'h \<Rightarrow> nat \<Rightarrow> ('h, 'p, 't) dary_heap" where
  "set_index q h i = q\<lparr>handles := (handles q)(h := (handles q h)\<lparr>heap_index := i\<rparr>)\<rparr>"

definition move_node :: "('h, 'p, 't) dary_heap \<Rightarrow> nat \<Rightarrow> nat \<Rightarrow> ('h, 'p, 't) dary_heap" where
  "move_node q pos from =
     set_index (q\<lparr>hvec := svec_set (hvec q) pos (svec_at (hvec q) from)\<rparr>)
       (hnd (svec_at (hvec q) from)) pos"

definition place_node ::
  "('h, 'p, 't) dary_heap \<Rightarrow> nat \<Rightarrow> 'h \<Rightarrow> 'p \<Rightarrow> ('h, 'p, 't) dary_heap" where
  "place_node q pos h p =
     set_index (q\<lparr>hvec := svec_set (hvec q) pos \<lparr>prio = p, hnd = h\<rparr>\<rparr>) h pos"

function bubble_down ::
  "('p \<Rightarrow> 'p \<Rightarrow> bool) \<Rightarrow> nat \<Rightarrow> nat \<Rightarrow> 'h \<Rightarrow> 'p \<Rightarrow> ('h, 'p, 't) dary_heap \<Rightarrow>
   bool \<times> ('h, 'p, 't) dary_heap" where
  "bubble_down lt N pos ohndl op q =
     (let parent = (pos - 1) div N in
      if 0 < pos \<and> lt op (prio (svec_at (hvec q) parent))
      then bubble_down lt N parent ohndl op (move_node q pos parent)
      else (pos = 0, place_node q pos ohndl op))"
  by pat_completeness auto
termination
proof (relation "measure (\<lambda>(lt, N, pos, ohndl, op, q). pos)", goal_cases)
  case (2 lt N pos ohndl op q x)
  have "(pos - 1) div N \<le> pos - 1" by (rule div_le_dividend)
  moreover have "pos - 1 < pos" using 2 by simp
  ultimately have "(pos - 1) div N < pos" by (rule le_less_trans)
  with 2 show ?case by simp
qed simp

definition bubble_down_at ::
  "('p \<Rightarrow> 'p \<Rightarrow> bool) \<Rightarrow> nat \<Rightarrow> nat \<Rightarrow> ('h, 'p, 't) dary_heap \<Rightarrow> bool \<times> ('h, 'p, 't) dary_heap" where
  "bubble_down_at lt N pos q =
     bubble_down lt N pos (hnd (svec_at (hvec q) pos)) (prio (svec_at (hvec q) pos)) q"

text \<open>The \<open>for\<close> loop of \<open>bubble_up\<close> that selects the child to compare with.\<close>

definition select_child ::
  "('p \<Rightarrow> 'p \<Rightarrow> bool) \<Rightarrow> nat \<Rightarrow> nat \<Rightarrow> nat \<Rightarrow> ('h, 'p) heap_node list \<Rightarrow> nat" where
  "select_child lt N rmax pos xs =
     (let lchild = pos * N + 1; rchild = min (lchild + N) rmax in
      fold (\<lambda>i selchild. if lt (prio (xs ! i)) (prio (xs ! selchild)) then i else selchild)
        [lchild + 1 ..< rchild] lchild)"

lemma fold_select_ge:
  "b \<le> c \<Longrightarrow> \<forall>i \<in> set is. b \<le> i \<Longrightarrow> b \<le> fold (\<lambda>i s. if P i s then i else s) is c"
  by (induction "is" arbitrary: c) auto

lemma select_child_ge: "pos * N + 1 \<le> select_child lt N rmax pos xs"
  by (auto simp: select_child_def Let_def intro!: fold_select_ge)

function bubble_up_loop ::
  "('p \<Rightarrow> 'p \<Rightarrow> bool) \<Rightarrow> nat \<Rightarrow> nat \<Rightarrow> nat \<Rightarrow> 'h \<Rightarrow> 'p \<Rightarrow> ('h, 'p, 't) dary_heap \<Rightarrow>
   ('h, 'p, 't) dary_heap" where
  "bubble_up_loop lt N rmax pos h p q =
     (if pos \<le> (rmax - 1) div N then
        let selchild = select_child lt N rmax pos (array (hvec q)) in
        if \<not> lt (prio (svec_at (hvec q) selchild)) p then place_node q pos h p
        else bubble_up_loop lt N rmax selchild h p (move_node q pos selchild)
      else place_node q pos h p)"
  by pat_completeness auto
termination
proof (relation "measure (\<lambda>(lt, N, rmax, pos, h, p, q). Suc ((rmax - 1) div N) - pos)", goal_cases)
  case (2 lt N rmax pos h p q x)
  have "pos * N + 1 \<le> x" using 2 select_child_ge by simp
  moreover have "N = 0 \<Longrightarrow> pos = 0" using 2 by simp
  moreover have "0 < N \<Longrightarrow> pos \<le> pos * N" by simp
  ultimately have "pos < x" by (cases "N = 0") linarith+
  with 2 show ?case by simp
qed simp

definition bubble_up ::
  "('p \<Rightarrow> 'p \<Rightarrow> bool) \<Rightarrow> nat \<Rightarrow> nat \<Rightarrow> 'h \<Rightarrow> 'p \<Rightarrow> ('h, 'p, 't) dary_heap \<Rightarrow>
   ('h, 'p, 't) dary_heap" where
  "bubble_up lt N pos h p q =
     (let rmax = size_dec (size_v (hvec q)) in
      if rmax = 0 then q else bubble_up_loop lt N rmax pos h p q)"

definition bubble_up_at ::
  "('p \<Rightarrow> 'p \<Rightarrow> bool) \<Rightarrow> nat \<Rightarrow> nat \<Rightarrow> ('h, 'p, 't) dary_heap \<Rightarrow> ('h, 'p, 't) dary_heap" where
  "bubble_up_at lt N pos q =
     bubble_up lt N pos (hnd (svec_at (hvec q) pos)) (prio (svec_at (hvec q) pos)) q"

definition remove_h ::
  "('p \<Rightarrow> 'p \<Rightarrow> bool) \<Rightarrow> nat \<Rightarrow> nat \<Rightarrow> ('h, 'p, 't) dary_heap \<Rightarrow> ('h, 'p, 't) dary_heap" where
  "remove_h lt N hidx q =
     (let q1 = set_index q (hnd (svec_at (hvec q) hidx)) size_max in
      if size_v (hvec q1) \<noteq> hidx + 1 then
        let back = svec_back (hvec q1);
            q2 = bubble_up lt N hidx (hnd back) (prio back) q1
        in q2\<lparr>hvec := pop_back (hvec q2)\<rparr>
      else q1\<lparr>hvec := pop_back (hvec q1)\<rparr>)"

definition dary_node_data :: "('h, 'p, 't) dary_heap \<Rightarrow> 'h \<Rightarrow> 't" where
  "dary_node_data q h = hd_u (handles q h)"

definition dary_set_node_data :: "('h, 'p, 't) dary_heap \<Rightarrow> 'h \<Rightarrow> 't \<Rightarrow> ('h, 'p, 't) dary_heap" where
  "dary_set_node_data q h d = q\<lparr>handles := (handles q)(h := (handles q h)\<lparr>hd_u := d\<rparr>)\<rparr>"

definition dary_allocate ::
  "(nat \<Rightarrow> bool) \<Rightarrow> nat \<Rightarrow> ('h, 'p, 't) dary_heap \<Rightarrow> 'h \<Rightarrow> 't \<Rightarrow> exn + ('h, 'p, 't) dary_heap" where
  "dary_allocate alloc sz q h u =
     (let max_allowed = svec_max_size sz in
      if num_nodes q = max_allowed then Inl Bad_alloc
      else
        let n = num_nodes q + 1;
            grown =
              (if capacity_v (hvec q) < n then
                 let half_point = max_allowed div 2;
                     first = svec_reserve alloc sz (hvec q) (if n < half_point then n * 2 else max_allowed)
                 in (case first of
                       Inr v \<Rightarrow> Inr v
                     | Inl _ \<Rightarrow> svec_reserve alloc sz (hvec q) n)
               else Inr (hvec q))
        in (case grown of
              Inl e \<Rightarrow> Inl e
            | Inr v \<Rightarrow>
                Inr (q\<lparr>hvec := v, num_nodes := n,
                       handles := (handles q)(h := \<lparr>hd_u = u, heap_index = size_max\<rparr>)\<rparr>)))"

definition dary_deallocate ::
  "(nat \<Rightarrow> bool) \<Rightarrow> nat \<Rightarrow> ('h, 'p, 't) dary_heap \<Rightarrow> 'h \<Rightarrow> ('h, 'p, 't) dary_heap" where
  "dary_deallocate alloc sz q h =
     (let n = size_dec (num_nodes q) in
      if n < capacity_v (hvec q) div 4
      then q\<lparr>num_nodes := n, hvec := svec_shrink_to alloc sz (hvec q) (n * 2 mod 2 ^ 64)\<rparr>
      else q\<lparr>num_nodes := n\<rparr>)"

text \<open>
  \<open>insert\<close> emplaces a node whose fields are uninitialised and lets \<open>bubble_down\<close> store it;
  \<open>bubble_down\<close> never reads the new slot, so the model emplaces the node to be stored. \<open>insert\<close>
  is \<open>noexcept\<close>: an \<open>Inl\<close> here is a call of \<open>std::terminate\<close>.
\<close>

definition dary_insert ::
  "(nat \<Rightarrow> bool) \<Rightarrow> nat \<Rightarrow> ('p \<Rightarrow> 'p \<Rightarrow> bool) \<Rightarrow> nat \<Rightarrow> ('h, 'p, 't) dary_heap \<Rightarrow> 'h \<Rightarrow> 'p \<Rightarrow>
   exn + (bool \<times> ('h, 'p, 't) dary_heap)" where
  "dary_insert alloc sz lt N q h p =
     (let q1 = set_index q h (size_v (hvec q)) in
      case emplace_back alloc sz (hvec q1) \<lparr>prio = p, hnd = h\<rparr> of
        Inl e \<Rightarrow> Inl e
      | Inr v \<Rightarrow> Inr (bubble_down lt N (size_v v - 1) h p (q1\<lparr>hvec := v\<rparr>)))"

definition dary_get_root :: "('h, 'p, 't) dary_heap \<Rightarrow> 'h" where
  "dary_get_root q = hnd (svec_at (hvec q) 0)"

definition dary_get_root_priority :: "('h, 'p, 't) dary_heap \<Rightarrow> 'p" where
  "dary_get_root_priority q = prio (svec_at (hvec q) 0)"

definition dary_pull_root ::
  "('p \<Rightarrow> 'p \<Rightarrow> bool) \<Rightarrow> nat \<Rightarrow> ('h, 'p, 't) dary_heap \<Rightarrow> ('h, 'p, 't) dary_heap" where
  "dary_pull_root lt N q = remove_h lt N 0 q"

definition dary_remove ::
  "('p \<Rightarrow> 'p \<Rightarrow> bool) \<Rightarrow> nat \<Rightarrow> ('h, 'p, 't) dary_heap \<Rightarrow> 'h \<Rightarrow> ('h, 'p, 't) dary_heap" where
  "dary_remove lt N q h = remove_h lt N (heap_index (handles q h)) q"

definition dary_empty :: "('h, 'p, 't) dary_heap \<Rightarrow> bool" where
  "dary_empty q = svec_empty (hvec q)"

definition dary_size :: "('h, 'p, 't) dary_heap \<Rightarrow> nat" where
  "dary_size q = size_v (hvec q)"

definition dary_is_queued :: "('h, 'p, 't) dary_heap \<Rightarrow> 'h \<Rightarrow> bool" where
  "dary_is_queued q h \<longleftrightarrow> heap_index (handles q h) \<noteq> size_max"

text \<open>\<open>int heap_index = hnd.heap_index\<close> narrows the index to a 32-bit \<open>int\<close>, which is then
  converted back to \<open>size_t\<close> (sign-extended) by the indexing.\<close>

definition narrow_index :: "nat \<Rightarrow> nat" where
  "narrow_index i =
     (let m = i mod 2 ^ 32 in if m < 2 ^ 31 then m else m + (2 ^ 64 - 2 ^ 32))"

definition dary_set_priority ::
  "('p \<Rightarrow> 'p \<Rightarrow> bool) \<Rightarrow> nat \<Rightarrow> ('h, 'p, 't) dary_heap \<Rightarrow> 'h \<Rightarrow> 'p \<Rightarrow>
   bool \<times> ('h, 'p, 't) dary_heap" where
  "dary_set_priority lt N q h p =
     (let i = narrow_index (heap_index (handles q h));
          node = svec_at (hvec q) i;
          q1 = q\<lparr>hvec := svec_set (hvec q) i (node\<lparr>prio := p\<rparr>)\<rparr>
      in if lt (prio node) p then (False, bubble_up_at lt N i q1)
         else bubble_down_at lt N i q1)"

declare bubble_down.simps [simp del] bubble_up_loop.simps [simp del]

end
