(* ===== verification/Heap_Order.thy ===== *)
theory Heap_Order
  imports Prelude
begin

text \<open>
  The reference level for the heaps: heap order of a list under a fan-out \<open>N\<close>, and the two
  repairs of a heap with one defect by exchanges, \<open>swim\<close> (towards the root) and \<open>sink\<close>
  (towards the leaves). \<open>sink\<close> takes the selection of the child as a parameter, since the code
  does not always look at all children. The theory of the d-ary heap shows that the code's
  hole-moving loops compute these functions.
\<close>

definition heap_parent :: "nat \<Rightarrow> nat \<Rightarrow> nat" where
  "heap_parent N i = (i - 1) div N"

definition heap_ord :: "('a \<Rightarrow> 'a \<Rightarrow> bool) \<Rightarrow> nat \<Rightarrow> 'a list \<Rightarrow> bool" where
  "heap_ord lt N xs \<longleftrightarrow> (\<forall>i < length xs. 0 < i \<longrightarrow> \<not> lt (xs ! i) (xs ! heap_parent N i))"

lemma heap_parent_less: "0 < i \<Longrightarrow> heap_parent N i < i"
  using div_le_dividend [of "i - 1" N] unfolding heap_parent_def by linarith

lemma heap_parent_child: "0 < N \<Longrightarrow> p * N + 1 \<le> i \<Longrightarrow> i < p * N + 1 + N \<Longrightarrow> heap_parent N i = p"
  unfolding heap_parent_def by (intro div_nat_eqI) (auto simp: mult.commute)

lemma heap_parent_range:
  assumes "0 < N" "0 < i" "heap_parent N i = p"
  shows "p * N + 1 \<le> i" "i < p * N + 1 + N"
proof -
  from assms(3) have "p * N \<le> i - 1" by (auto simp: heap_parent_def)
  with assms(2) show "p * N + 1 \<le> i" by linarith
  have "i - 1 < Suc p * N"
    using assms(1,3) by (simp only: heap_parent_def less_mult_imp_div_less dividend_less_div_times
        flip: assms(3)) (metis dividend_less_times_div mult.commute mult_Suc_right)
  with assms(2) show "i < p * N + 1 + N" by simp
qed

function swim :: "('a \<Rightarrow> 'a \<Rightarrow> bool) \<Rightarrow> nat \<Rightarrow> nat \<Rightarrow> 'a list \<Rightarrow> 'a list" where
  "swim lt N pos xs =
     (if 0 < pos \<and> lt (xs ! pos) (xs ! heap_parent N pos)
      then swim lt N (heap_parent N pos) (swap xs pos (heap_parent N pos)) else xs)"
  by pat_completeness auto
termination
  by (relation "measure (\<lambda>(lt, N, pos, xs). pos)") (auto intro: heap_parent_less)

declare swim.simps [simp del]

function sink ::
  "('a \<Rightarrow> 'a \<Rightarrow> bool) \<Rightarrow> nat \<Rightarrow> ('a list \<Rightarrow> nat \<Rightarrow> nat) \<Rightarrow> nat \<Rightarrow> 'a list \<Rightarrow> 'a list" where
  "sink lt N sel pos xs =
     (if pos < sel xs pos \<and> sel xs pos < length xs \<and> lt (xs ! sel xs pos) (xs ! pos)
      then sink lt N sel (sel xs pos) (swap xs pos (sel xs pos)) else xs)"
  by pat_completeness auto
termination
  by (relation "measure (\<lambda>(lt, N, sel, pos, xs). length xs - pos)") auto

declare sink.simps [simp del]

text \<open>One defect at \<open>k\<close>: \<open>k\<close> may be too small for its parent, or too big for its children.\<close>

definition swim_inv :: "('a \<Rightarrow> 'a \<Rightarrow> bool) \<Rightarrow> nat \<Rightarrow> nat \<Rightarrow> 'a list \<Rightarrow> bool" where
  "swim_inv lt N k xs \<longleftrightarrow> k < length xs \<and>
     (\<forall>i < length xs. 0 < i \<and> i \<noteq> k \<longrightarrow> \<not> lt (xs ! i) (xs ! heap_parent N i)) \<and>
     (\<forall>i < length xs. 0 < i \<and> 0 < k \<and> heap_parent N i = k \<longrightarrow>
        \<not> lt (xs ! i) (xs ! heap_parent N k))"

definition sink_inv :: "('a \<Rightarrow> 'a \<Rightarrow> bool) \<Rightarrow> nat \<Rightarrow> nat \<Rightarrow> 'a list \<Rightarrow> bool" where
  "sink_inv lt N k xs \<longleftrightarrow> k < length xs \<and>
     (\<forall>i < length xs. 0 < i \<and> heap_parent N i \<noteq> k \<longrightarrow> \<not> lt (xs ! i) (xs ! heap_parent N i)) \<and>
     (\<forall>i < length xs. 0 < i \<and> 0 < k \<and> heap_parent N i = k \<longrightarrow>
        \<not> lt (xs ! i) (xs ! heap_parent N k))"

text \<open>A selection that looks at all children returns one that is not above any other.\<close>

definition least_child :: "('a \<Rightarrow> 'a \<Rightarrow> bool) \<Rightarrow> nat \<Rightarrow> ('a list \<Rightarrow> nat \<Rightarrow> nat) \<Rightarrow> nat \<Rightarrow> bool" where
  "least_child lt N sel n \<longleftrightarrow>
     (\<forall>xs k. length xs = n \<longrightarrow> k * N + 1 \<le> sel xs k) \<and>
     (\<forall>xs k. length xs = n \<longrightarrow> k * N + 1 < n \<longrightarrow>
        sel xs k < n \<and> heap_parent N (sel xs k) = k \<and> 0 < sel xs k \<and>
        (\<forall>i < n. 0 < i \<and> heap_parent N i = k \<longrightarrow> \<not> lt (xs ! i) (xs ! sel xs k)))"

lemma mset_swim: "pos < length xs \<Longrightarrow> mset (swim lt N pos xs) = mset xs"
proof (induction lt N pos xs rule: swim.induct)
  case (1 lt N pos xs)
  have "0 < pos \<Longrightarrow> heap_parent N pos < length xs"
    using 1(2) heap_parent_less less_trans by blast
  with 1 show ?case by (subst swim.simps) auto
qed

lemma mset_sink: "pos < length xs \<Longrightarrow> mset (sink lt N sel pos xs) = mset xs"
proof (induction lt N sel pos xs rule: sink.induct)
  case (1 lt N sel pos xs)
  then show ?case by (subst sink.simps) auto
qed

lemma length_swim [simp]: "length (swim lt N pos xs) = length xs"
proof (induction lt N pos xs rule: swim.induct)
  case (1 lt N pos xs)
  then show ?case by (subst swim.simps) auto
qed

lemma length_sink [simp]: "length (sink lt N sel pos xs) = length xs"
proof (induction lt N sel pos xs rule: sink.induct)
  case (1 lt N sel pos xs)
  then show ?case by (subst sink.simps) auto
qed

context strict_weak_order
begin

lemma heap_ord_root:
  assumes "heap_ord lt N xs" "i < length xs"
  shows "\<not> lt (xs ! i) (xs ! 0)"
  using assms(2)
proof (induction i rule: less_induct)
  case (less i)
  show ?case
  proof (cases "i = 0")
    case True
    then show ?thesis by (simp add: irrefl)
  next
    case False
    then have "heap_parent N i < i" by (simp add: heap_parent_less)
    with less have "\<not> lt (xs ! heap_parent N i) (xs ! 0)" by simp
    moreover have "\<not> lt (xs ! i) (xs ! heap_parent N i)"
      using assms(1) less.prems False by (simp add: heap_ord_def)
    ultimately show ?thesis using incomp_trans by blast
  qed
qed

lemma swim_inv_step:
  assumes inv: "swim_inv lt N k xs" and k: "0 < k" and less: "lt (xs ! k) (xs ! heap_parent N k)"
  shows "swim_inv lt N (heap_parent N k) (swap xs k (heap_parent N k))" (is "swim_inv lt N ?p ?ys")
proof -
  have kl: "k < length xs" using inv by (simp add: swim_inv_def)
  have pk: "?p < k" using k by (rule heap_parent_less)
  have nth: "\<And>i. i < length xs \<Longrightarrow> ?ys ! i = (if i = k then xs ! ?p else if i = ?p then xs ! k else xs ! i)"
    using kl pk by (simp add: nth_swap)
  have ord: "\<And>i. i < length xs \<Longrightarrow> 0 < i \<Longrightarrow> i \<noteq> k \<Longrightarrow> \<not> lt (xs ! i) (xs ! heap_parent N i)"
    and kids: "\<And>i. i < length xs \<Longrightarrow> 0 < i \<Longrightarrow> heap_parent N i = k \<Longrightarrow> \<not> lt (xs ! i) (xs ! ?p)"
    using inv k by (auto simp: swim_inv_def)
  have par: "\<And>i. i < length xs \<Longrightarrow> 0 < i \<Longrightarrow> heap_parent N i < length xs"
    using heap_parent_less less_trans by blast
  have "\<not> lt (?ys ! i) (?ys ! heap_parent N i)" if i: "i < length xs" "0 < i" "i \<noteq> ?p" for i
  proof -
    consider "i = k" | "i \<noteq> k" "heap_parent N i = k" | "i \<noteq> k" "heap_parent N i = ?p"
      | "i \<noteq> k" "heap_parent N i \<noteq> k" "heap_parent N i \<noteq> ?p" by blast
    then show ?thesis
    proof cases
      case 1 then show ?thesis using less pk i par by (simp add: nth asym)
    next
      case 2 then show ?thesis using kids i kl by (simp add: nth par)
    next
      case 3 then show ?thesis using ord [of i] i pk kl less by (auto simp: nth dest: lt_ge_trans asym)
    next
      case 4 then show ?thesis using ord i by (simp add: nth par)
    qed
  qed
  moreover have "\<not> lt (?ys ! i) (?ys ! heap_parent N ?p)"
    if i: "i < length xs" "0 < i" "0 < ?p" "heap_parent N i = ?p" for i
  proof -
    have pp: "heap_parent N ?p < ?p" using i(3) by (rule heap_parent_less)
    have top: "\<not> lt (xs ! ?p) (xs ! heap_parent N ?p)" using ord [of ?p] i(3) pk kl by simp
    have "i \<noteq> ?p" using heap_parent_less [OF i(2), of N] i(4) by simp
    then have "\<not> lt (?ys ! i) (xs ! heap_parent N ?p)"
      using top ord [of i] i incomp_trans by (cases "i = k") (auto simp: nth)
    with pp pk kl show ?thesis by (simp add: nth)
  qed
  ultimately show ?thesis using kl pk by (simp add: swim_inv_def)
qed

lemma swim_heap_ord: "swim_inv lt N pos xs \<Longrightarrow> heap_ord lt N (swim lt N pos xs)"
proof (induction pos arbitrary: xs rule: less_induct)
  case (less pos)
  show ?case
  proof (cases "0 < pos \<and> lt (xs ! pos) (xs ! heap_parent N pos)")
    case True
    with less show ?thesis
      by (subst swim.simps) (simp add: heap_parent_less swim_inv_step)
  next
    case False
    with less.prems show ?thesis
      by (subst swim.simps) (auto simp: heap_ord_def swim_inv_def)
  qed
qed

lemma sink_inv_step:
  assumes inv: "sink_inv lt N k xs" and less: "lt (xs ! s) (xs ! k)"
    and s: "s < length xs" "0 < s" "heap_parent N s = k"
    and least: "\<And>i. i < length xs \<Longrightarrow> 0 < i \<Longrightarrow> heap_parent N i = k \<Longrightarrow> \<not> lt (xs ! i) (xs ! s)"
  shows "sink_inv lt N s (swap xs k s)" (is "sink_inv lt N s ?ys")
proof -
  have kl: "k < length xs" using inv by (simp add: sink_inv_def)
  have ks: "k < s" using heap_parent_less [OF s(2), of N] s(3) by simp
  have nth: "\<And>i. i < length xs \<Longrightarrow> ?ys ! i = (if i = k then xs ! s else if i = s then xs ! k else xs ! i)"
    using kl s by (simp add: nth_swap)
  have ord: "\<And>i. i < length xs \<Longrightarrow> 0 < i \<Longrightarrow> heap_parent N i \<noteq> k \<Longrightarrow> \<not> lt (xs ! i) (xs ! heap_parent N i)"
    and kids: "\<And>i. i < length xs \<Longrightarrow> 0 < i \<Longrightarrow> 0 < k \<Longrightarrow> heap_parent N i = k \<Longrightarrow> \<not> lt (xs ! i) (xs ! heap_parent N k)"
    using inv by (auto simp: sink_inv_def)
  have par: "\<And>i. i < length xs \<Longrightarrow> 0 < i \<Longrightarrow> heap_parent N i < length xs"
    using heap_parent_less less_trans by blast
  have "\<not> lt (?ys ! i) (?ys ! heap_parent N i)" if i: "i < length xs" "0 < i" "heap_parent N i \<noteq> s" for i
  proof -
    consider "i = k" | "i = s" | "i \<noteq> k" "i \<noteq> s" "heap_parent N i = k"
      | "i \<noteq> k" "i \<noteq> s" "heap_parent N i \<noteq> k" by blast
    then show ?thesis
    proof cases
      case 1
      with i have "heap_parent N k < k" "0 < k" by (auto intro: heap_parent_less)
      with 1 kl ks show ?thesis using kids [OF s(1,2) _ s(3)] by (simp add: nth)
    next
      case 2 then show ?thesis using less s kl ks by (simp add: nth asym)
    next
      case 3 then show ?thesis using least i kl by (simp add: nth)
    next
      case 4 then show ?thesis using ord i by (simp add: nth par)
    qed
  qed
  moreover have "\<not> lt (?ys ! i) (?ys ! heap_parent N s)"
    if i: "i < length xs" "0 < i" "heap_parent N i = s" for i
  proof -
    have "s < i" using heap_parent_less [OF i(2), of N] i(3) by simp
    moreover have "\<not> lt (xs ! i) (xs ! s)" using ord [of i] i ks by simp
    ultimately show ?thesis using i s kl ks by (simp add: nth)
  qed
  ultimately show ?thesis using s by (simp add: sink_inv_def)
qed

lemma sink_inv_exit:
  assumes "sink_inv lt N k xs"
    and "\<And>i. i < length xs \<Longrightarrow> 0 < i \<Longrightarrow> heap_parent N i = k \<Longrightarrow> \<not> lt (xs ! i) (xs ! k)"
  shows "heap_ord lt N xs"
  unfolding heap_ord_def
proof (intro allI impI)
  fix i
  assume "i < length xs" "0 < i"
  with assms show "\<not> lt (xs ! i) (xs ! heap_parent N i)"
    by (cases "heap_parent N i = k") (simp_all add: sink_inv_def)
qed

lemma sink_heap_ord:
  assumes "0 < N" "least_child lt N sel (length xs)" "sink_inv lt N k xs"
  shows "heap_ord lt N (sink lt N sel k xs)"
  using assms(2,3)
proof (induction "length xs - k" arbitrary: k xs rule: less_induct)
  case less
  let ?s = "sel xs k"
  note lc = less.prems(1) [unfolded least_child_def]
  show ?case
  proof (cases "k * N + 1 < length xs")
    case True
    then have s: "?s < length xs" "0 < ?s" "heap_parent N ?s = k"
      and least: "\<And>i. i < length xs \<Longrightarrow> 0 < i \<Longrightarrow> heap_parent N i = k \<Longrightarrow> \<not> lt (xs ! i) (xs ! ?s)"
      using lc by blast+
    have ks: "k < ?s" using heap_parent_less [OF s(2), of N] s(3) by simp
    show ?thesis
    proof (cases "lt (xs ! ?s) (xs ! k)")
      case True
      have "heap_ord lt N (sink lt N sel ?s (swap xs k ?s))"
      proof (rule less.hyps)
        show "length (swap xs k ?s) - ?s < length xs - k"
          using ks s(1) unfolding length_swap by linarith
        show "least_child lt N sel (length (swap xs k ?s))" using less.prems(1) by simp
        show "sink_inv lt N ?s (swap xs k ?s)"
          by (rule sink_inv_step [OF less.prems(2) True s least])
      qed
      with True ks s show ?thesis by (subst sink.simps) simp
    next
      case False
      then have "heap_ord lt N xs"
        using sink_inv_exit [OF less.prems(2)] least incomp_trans by blast
      with False show ?thesis by (subst sink.simps) simp
    qed
  next
    case False
    moreover have "k * N + 1 \<le> ?s" using lc by blast
    ultimately have "\<not> ?s < length xs" by simp
    moreover have "heap_ord lt N xs"
    proof (rule sink_inv_exit [OF less.prems(2)])
      fix i
      assume i: "i < length xs" "0 < i" "heap_parent N i = k"
      have "k * N + 1 \<le> i" by (rule heap_parent_range(1) [OF assms(1) i(2,3)])
      with i(1) False show "\<not> lt (xs ! i) (xs ! k)" by linarith
    qed
    ultimately show ?thesis by (subst sink.simps) simp
  qed
qed

end

end
