(* ===== verification/Daryheap_Facts.thy ===== *)
theory Daryheap_Facts
  imports Daryheap Heap_Order
begin

text \<open>
  Correctness of the d-ary heap. The loops of \<open>bubble_down\<close> and \<open>bubble_up\<close> keep one slot free
  (a hole) and store the node at the end; filling the hole in thought turns every move into an
  exchange, so that the loops compute \<open>swim\<close> and \<open>sink\<close> of the reference level. The structural
  invariant \<open>heap_wf\<close> ties the slots to the handles and the storage to the allocated handles.
\<close>

abbreviation node_lt :: "('p \<Rightarrow> 'p \<Rightarrow> bool) \<Rightarrow> ('h, 'p) heap_node \<Rightarrow> ('h, 'p) heap_node \<Rightarrow> bool" where
  "node_lt lt a b \<equiv> lt (prio a) (prio b)"

abbreviation nodes :: "('h, 'p, 't) dary_heap \<Rightarrow> ('h, 'p) heap_node list" where
  "nodes q \<equiv> elems (hvec q)"

definition node :: "'p \<Rightarrow> 'h \<Rightarrow> ('h, 'p) heap_node" where
  "node p h = \<lparr>prio = p, hnd = h\<rparr>"

lemma node_sel [simp]: "prio (node p h) = p" "hnd (node p h) = h" "node (prio n) (hnd n) = n"
  by (simp_all add: node_def)

lemma node_lt_swo: "strict_weak_order lt \<Longrightarrow> strict_weak_order (node_lt lt)"
  unfolding strict_weak_order_def by blast

section \<open>The handle memory\<close>

definition frame :: "'h set \<Rightarrow> ('h, 'p, 't) dary_heap \<Rightarrow> ('h, 'p, 't) dary_heap \<Rightarrow> bool" where
  "frame H q q' \<longleftrightarrow> num_nodes q' = num_nodes q \<and> size_v (hvec q') = size_v (hvec q) \<and>
     capacity_v (hvec q') = capacity_v (hvec q) \<and>
     (\<forall>h. hd_u (handles q' h) = hd_u (handles q h)) \<and> (\<forall>h. h \<notin> H \<longrightarrow> handles q' h = handles q h)"

lemma frame_refl [simp]: "frame H q q"
  by (simp add: frame_def)

lemma frame_trans: "frame H q q' \<Longrightarrow> frame H q' q'' \<Longrightarrow> frame H q q''"
  by (simp add: frame_def)

lemma frame_mono: "frame H q q' \<Longrightarrow> H \<subseteq> H' \<Longrightarrow> frame H' q q'"
  by (auto simp: frame_def)

lemma set_index_simps [simp]:
  "hvec (set_index q h i) = hvec q" "num_nodes (set_index q h i) = num_nodes q"
  "hd_u (handles (set_index q h i) g) = hd_u (handles q g)"
  "heap_index (handles (set_index q h i) g) = (if g = h then i else heap_index (handles q g))"
  by (auto simp: set_index_def)

lemma set_index_other: "g \<noteq> h \<Longrightarrow> handles (set_index q h i) g = handles q g"
  by (simp add: set_index_def)

text \<open>
  \<open>hole_inv sz q m pos n\<close>: the first \<open>m\<close> slots are a heap vector with a hole at \<open>pos\<close> that will
  receive the node \<open>n\<close>. \<open>m\<close> is the size, or one less while the last node is being moved.
\<close>

definition pre :: "nat \<Rightarrow> ('h, 'p, 't) dary_heap \<Rightarrow> ('h, 'p) heap_node list" where
  "pre m q = take m (array (hvec q))"

definition indexed_except :: "nat \<Rightarrow> ('h \<Rightarrow> 't handle_t) \<Rightarrow> ('h, 'p) heap_node list \<Rightarrow> bool" where
  "indexed_except pos mem xs \<longleftrightarrow>
     (\<forall>i < length xs. i \<noteq> pos \<longrightarrow> heap_index (mem (hnd (xs ! i))) = i)"

definition indexed :: "('h \<Rightarrow> 't handle_t) \<Rightarrow> ('h, 'p) heap_node list \<Rightarrow> bool" where
  "indexed mem xs \<longleftrightarrow> (\<forall>i < length xs. heap_index (mem (hnd (xs ! i))) = i)"

definition hole_inv :: "nat \<Rightarrow> ('h, 'p, 't) dary_heap \<Rightarrow> nat \<Rightarrow> nat \<Rightarrow> ('h, 'p) heap_node \<Rightarrow> bool" where
  "hole_inv sz q m pos n \<longleftrightarrow> svec_inv sz (hvec q) \<and> pos < m \<and> m \<le> size_v (hvec q) \<and>
     distinct (map hnd ((pre m q)[pos := n])) \<and> indexed_except pos (handles q) (pre m q)"

definition fill :: "nat \<Rightarrow> ('h, 'p, 't) dary_heap \<Rightarrow> nat \<Rightarrow> ('h, 'p) heap_node \<Rightarrow> ('h, 'p) heap_node list" where
  "fill m q pos n = (pre m q)[pos := n]"

lemma length_pre: "hole_inv sz q m pos n \<Longrightarrow> length (pre m q) = m"
  by (auto simp: hole_inv_def pre_def svec_inv_def)

lemma length_fill: "hole_inv sz q m pos n \<Longrightarrow> length (fill m q pos n) = m"
  using length_pre by (fastforce simp: fill_def)

lemma pre_nth: "i < m \<Longrightarrow> pre m q ! i = svec_at (hvec q) i"
  by (simp add: pre_def svec_at_def)

lemma fill_nth: "hole_inv sz q m pos n \<Longrightarrow> i < m \<Longrightarrow> fill m q pos n ! i = (if i = pos then n else svec_at (hvec q) i)"
  using length_pre [of sz q m pos n] by (simp add: fill_def nth_upd_if pre_nth)

lemma pre_svec_set: "pre m (q\<lparr>hvec := svec_set (hvec q) i x\<rparr>) = (pre m q)[i := x]"
  by (simp add: pre_def svec_set_def take_update_swap)

lemma move_hole:
  assumes inv: "hole_inv sz q m pos n" and j: "j < m" "j \<noteq> pos"
  shows "hole_inv sz (move_node q pos j) m j n"
    and "fill m (move_node q pos j) j n = swap (fill m q pos n) pos j"
    and "frame (set (map hnd (fill m q pos n))) q (move_node q pos j)"
proof -
  let ?xs = "pre m q" and ?q = "move_node q pos j"
  have len: "length ?xs = m" and pos: "pos < m" using inv length_pre [OF inv] by (auto simp: hole_inv_def)
  have pre': "pre m ?q = ?xs[pos := ?xs ! j]"
    using j by (simp add: move_node_def pre_def svec_set_def svec_at_def take_update_swap)
  have hj: "hnd (svec_at (hvec q) j) = hnd (?xs ! j)" using j by (simp add: pre_nth)
  have idx: "heap_index (handles ?q g) = (if g = hnd (?xs ! j) then pos else heap_index (handles q g))" for g
    by (simp add: move_node_def hj)
  show fill': "fill m ?q j n = swap (fill m q pos n) pos j"
    unfolding fill_def pre' using j pos len by (intro swap_upd) auto
  have dist: "distinct (map hnd (fill m q pos n))" using inv by (simp add: hole_inv_def fill_def)
  have "distinct (map hnd (fill m ?q j n))"
    unfolding fill' using dist j pos len by (simp add: map_swap fill_def)
  moreover have "indexed_except j (handles ?q) (pre m ?q)"
    unfolding indexed_except_def
  proof (intro allI impI)
    fix i
    assume i: "i < length (pre m ?q)" "i \<noteq> j"
    then have im: "i < m" by (simp add: pre' len)
    show "heap_index (handles ?q (hnd (pre m ?q ! i))) = i"
    proof (cases "i = pos")
      case True
      then show ?thesis using j len pos by (simp add: pre' idx)
    next
      case False
      have "hnd (?xs ! i) \<noteq> hnd (?xs ! j)"
        using nth_eq_iff_index_eq [OF dist, of i j] i im j False len pos
        by (simp add: fill_def nth_upd_if)
      moreover have "heap_index (handles q (hnd (?xs ! i))) = i"
        using inv im False len by (simp add: hole_inv_def indexed_except_def)
      ultimately show ?thesis using False im len by (simp add: pre' idx nth_upd_if)
    qed
  qed
  moreover have "svec_inv sz (hvec ?q)" "m \<le> size_v (hvec ?q)"
    using inv by (simp_all add: hole_inv_def move_node_def)
  ultimately show "hole_inv sz ?q m j n" using j by (simp add: hole_inv_def fill_def)
  have "?xs ! j \<in> set (fill m q pos n)"
    using j len pos by (metis fill_def length_list_update nth_list_update_neq nth_mem)
  then show "frame (set (map hnd (fill m q pos n))) q ?q"
    by (auto simp: frame_def move_node_def hj set_index_def)
qed

lemma place_hole:
  assumes inv: "hole_inv sz q m pos n" and n: "n = node p h"
  defines "q' \<equiv> place_node q pos h p"
  shows "pre m q' = fill m q pos n" "svec_inv sz (hvec q')"
    and "indexed (handles q') (fill m q pos n)"
    and "frame (set (map hnd (fill m q pos n))) q q'"
proof -
  have len: "length (pre m q) = m" and pos: "pos < m" using inv length_pre [OF inv] by (auto simp: hole_inv_def)
  show pre': "pre m q' = fill m q pos n"
    by (simp add: q'_def place_node_def pre_def svec_set_def fill_def n node_def take_update_swap)
  show "svec_inv sz (hvec q')" using inv by (simp add: q'_def place_node_def hole_inv_def)
  have dist: "distinct (map hnd (fill m q pos n))" using inv by (simp add: hole_inv_def fill_def)
  show "indexed (handles q') (fill m q pos n)"
    unfolding indexed_def
  proof (intro allI impI)
    fix i
    assume i: "i < length (fill m q pos n)"
    show "heap_index (handles q' (hnd (fill m q pos n ! i))) = i"
    proof (cases "i = pos")
      case True
      then show ?thesis using i by (simp add: q'_def place_node_def fill_def n)
    next
      case False
      have "hnd (fill m q pos n ! i) \<noteq> hnd (fill m q pos n ! pos)"
        using nth_eq_iff_index_eq [OF dist, of i pos] i False pos len by (simp add: fill_def)
      moreover have "heap_index (handles q (hnd (pre m q ! i))) = i"
        using inv i False len by (simp add: hole_inv_def indexed_except_def fill_def)
      ultimately show ?thesis using False pos len by (simp add: q'_def place_node_def fill_def n)
    qed
  qed
  have "h \<in> set (map hnd (fill m q pos n))"
    using pos len set_update_memI [of pos "pre m q" n] by (auto simp: fill_def n rev_image_eqI)
  then show "frame (set (map hnd (fill m q pos n))) q q'"
    by (auto simp: frame_def q'_def place_node_def set_index_def)
qed

section \<open>The loops compute the reference functions\<close>

lemma bubble_down_correct:
  assumes "hole_inv sz q m pos (node op oh)" "bubble_down lt N pos oh op q = (b, q')"
  shows "pre m q' = swim (node_lt lt) N pos (fill m q pos (node op oh)) \<and> svec_inv sz (hvec q') \<and>
    indexed (handles q') (pre m q') \<and> frame (set (map hnd (fill m q pos (node op oh)))) q q' \<and>
    (b \<longleftrightarrow> hnd (pre m q' ! 0) = oh)"
  using assms
proof (induction pos arbitrary: q rule: less_induct)
  case (less pos)
  let ?n = "node op oh" and ?par = "heap_parent N pos"
  have pos: "pos < m" using less.prems(1) by (simp add: hole_inv_def)
  have at_pos: "fill m q pos ?n ! pos = ?n" using fill_nth [OF less.prems(1)] pos by simp
  show ?case
  proof (cases "0 < pos \<and> lt op (prio (svec_at (hvec q) ?par))")
    case True
    then have par: "?par < pos" by (simp add: heap_parent_less)
    have step: "bubble_down lt N ?par oh op (move_node q pos ?par) = (b, q')"
      using less.prems(2) True by (subst (asm) bubble_down.simps) (simp add: heap_parent_def Let_def)
    have parm: "?par < m" "?par \<noteq> pos" using par pos by auto
    note mv = move_hole [OF less.prems(1) parm]
    have IH: "pre m q' = swim (node_lt lt) N ?par (swap (fill m q pos ?n) pos ?par) \<and>
        svec_inv sz (hvec q') \<and> indexed (handles q') (pre m q') \<and>
        frame (set (map hnd (swap (fill m q pos ?n) pos ?par))) (move_node q pos ?par) q' \<and>
        (b \<longleftrightarrow> hnd (pre m q' ! 0) = oh)"
      using less.IH [OF par mv(1) step] unfolding mv(2) .
    have "fill m q pos ?n ! ?par = svec_at (hvec q) ?par"
      using fill_nth [OF less.prems(1), of ?par] par pos by simp
    with True at_pos have "swim (node_lt lt) N pos (fill m q pos ?n) =
        swim (node_lt lt) N ?par (swap (fill m q pos ?n) pos ?par)"
      by (subst swim.simps) simp
    moreover have "frame (set (map hnd (fill m q pos ?n))) q q'"
      using mv(3) IH parm pos length_fill [OF less.prems(1)] by (auto intro: frame_trans)
    ultimately show ?thesis using IH by metis
  next
    case False
    then have res: "b = (pos = 0)" "q' = place_node q pos oh op"
      using less.prems(2) by (subst (asm) bubble_down.simps; auto simp: heap_parent_def Let_def)+
    have "swim (node_lt lt) N pos (fill m q pos ?n) = fill m q pos ?n"
      using False at_pos fill_nth [OF less.prems(1), of ?par] heap_parent_less [of pos N] pos
      by (subst swim.simps) (auto dest: less_trans)
    moreover have "pos = 0 \<longleftrightarrow> hnd (fill m q pos ?n ! 0) = oh"
    proof -
      have "distinct (map hnd (fill m q pos ?n))" using less.prems(1) by (simp add: hole_inv_def fill_def)
      from nth_eq_iff_index_eq [OF this, of 0 pos] show ?thesis
        using at_pos pos length_fill [OF less.prems(1)] by auto
    qed
    ultimately show ?thesis
      using place_hole [OF less.prems(1) refl] unfolding res by simp
  qed
qed

lemma fold_select_cong:
  "\<forall>i \<in> set is. xs ! i = ys ! i \<Longrightarrow> xs ! c = ys ! c \<Longrightarrow>
   fold (\<lambda>i s. if lt (xs ! i) (xs ! s) then i else s) is c =
   fold (\<lambda>i s. if lt (ys ! i) (ys ! s) then i else s) is c"
  by (induction "is" arbitrary: c) auto

lemma fold_select_mem: "fold (\<lambda>i s. if P i s then i else s) is c \<in> set (c # is)"
proof (induction "is" arbitrary: c)
  case (Cons a "is")
  from Cons.IH [of a] Cons.IH [of c] show ?case by auto
qed simp

lemma select_child_cong:
  assumes "\<And>i. pos * N + 1 \<le> i \<Longrightarrow> i < m \<Longrightarrow> xs ! i = ys ! i" "rmax \<le> m"
  shows "select_child lt N rmax pos xs = select_child lt N rmax pos ys"
proof (cases "pos * N + 1 < m")
  case True
  with assms show ?thesis
    unfolding select_child_def Let_def by (intro fold_select_cong [where lt = "node_lt lt"]) auto
next
  case False
  with assms(2) show ?thesis by (simp add: select_child_def)
qed

lemma select_child_cases: "select_child lt N rmax pos xs = pos * N + 1 \<or> select_child lt N rmax pos xs < rmax"
proof -
  have "select_child lt N rmax pos xs \<in>
      set ((pos * N + 1) # [pos * N + 1 + 1 ..< min (pos * N + 1 + N) rmax])"
    unfolding select_child_def Let_def by (rule fold_select_mem)
  then show ?thesis by auto
qed

lemma loop_guard: "0 < (N :: nat) \<Longrightarrow> 0 < rmax \<Longrightarrow> pos \<le> (rmax - 1) div N \<longleftrightarrow> pos * N + 1 \<le> rmax"
  using less_eq_div_iff_mult_less_eq [of N pos "rmax - 1"] by linarith

text \<open>
  The child selection of the code as a parameter of \<open>sink\<close>: it considers the children up to
  \<open>rmax - 1\<close>, and the first child in any case.
\<close>

abbreviation code_select :: "('p \<Rightarrow> 'p \<Rightarrow> bool) \<Rightarrow> nat \<Rightarrow> nat \<Rightarrow> ('h, 'p) heap_node list \<Rightarrow> nat \<Rightarrow> nat" where
  "code_select lt N rmax xs pos \<equiv> select_child lt N rmax pos xs"

definition back_ok :: "('p \<Rightarrow> 'p \<Rightarrow> bool) \<Rightarrow> ('h, 'p, 't) dary_heap \<Rightarrow> nat \<Rightarrow> nat \<Rightarrow> 'p \<Rightarrow> bool" where
  "back_ok lt q m rmax p \<longleftrightarrow> m = Suc rmax \<or> m = rmax \<and> \<not> lt (prio (svec_at (hvec q) rmax)) p"

lemma bubble_up_loop_correct:
  assumes "0 < N" "0 < rmax"
    and "hole_inv sz q m pos (node p h)" "back_ok lt q m rmax p"
  shows "pre m (bubble_up_loop lt N rmax pos h p q) =
      sink (node_lt lt) N (code_select lt N rmax) pos (fill m q pos (node p h)) \<and>
    svec_inv sz (hvec (bubble_up_loop lt N rmax pos h p q)) \<and>
    indexed (handles (bubble_up_loop lt N rmax pos h p q)) (pre m (bubble_up_loop lt N rmax pos h p q)) \<and>
    frame (set (map hnd (fill m q pos (node p h)))) q (bubble_up_loop lt N rmax pos h p q)"
  using assms(3,4)
proof (induction "m - pos" arbitrary: pos q rule: less_induct)
  case less
  let ?n = "node p h" and ?s = "select_child lt N rmax pos (array (hvec q))"
  let ?f = "fill m q pos ?n" and ?r = "bubble_up_loop lt N rmax pos h p q"
  have pos: "pos < m" using less.prems(1) by (simp add: hole_inv_def)
  have le: "rmax \<le> m" "m \<le> Suc rmax" using less.prems(2) by (auto simp: back_ok_def)
  have at_pos: "?f ! pos = ?n" using fill_nth [OF less.prems(1)] pos by simp
  have pos_le: "pos \<le> pos * N" using assms(1) by simp
  have above: "\<And>i. pos * N + 1 \<le> i \<Longrightarrow> pos < i" using pos_le by linarith
  have sel: "select_child lt N rmax pos ?f = ?s"
  proof (rule select_child_cong [OF _ le(1)])
    fix i
    assume "pos * N + 1 \<le> i" "i < m"
    with above [of i] show "?f ! i = array (hvec q) ! i"
      by (simp add: fill_nth [OF less.prems(1)] svec_at_def)
  qed
  have ge: "pos * N + 1 \<le> ?s" by (rule select_child_ge)
  have stop: "?r = place_node q pos h p \<Longrightarrow>
      sink (node_lt lt) N (code_select lt N rmax) pos ?f = ?f \<Longrightarrow> ?case"
    using place_hole [OF less.prems(1) refl] by simp
  show ?case
  proof (cases "pos * N + 1 \<le> rmax \<and> lt (prio (svec_at (hvec q) ?s)) p")
    case True
    have "?s \<noteq> rmax \<or> m = Suc rmax" using True less.prems(2) by (auto simp: back_ok_def)
    then have sm: "?s < m" using select_child_cases [of lt N rmax pos "array (hvec q)"] True le by auto
    have ps: "pos < ?s" using ge by (rule above)
    then have ps': "?s \<noteq> pos" by simp
    note mv = move_hole [OF less.prems(1) sm ps']
    let ?q = "move_node q pos ?s"
    have r: "?r = bubble_up_loop lt N rmax ?s h p ?q"
      using True assms(1,2) by (subst bubble_up_loop.simps) (simp add: Let_def loop_guard del: One_nat_def)
    have "back_ok lt ?q m rmax p"
      using less.prems(2) pos ps sm by (auto simp: back_ok_def move_node_def svec_at_def svec_set_def)
    then have IH: "pre m ?r = sink (node_lt lt) N (code_select lt N rmax) ?s (swap ?f pos ?s) \<and>
        svec_inv sz (hvec ?r) \<and> indexed (handles ?r) (pre m ?r) \<and>
        frame (set (map hnd (swap ?f pos ?s))) ?q ?r"
      using less.hyps [OF diff_less_mono2 [OF ps pos] mv(1)] unfolding r mv(2) by blast
    have "?f ! ?s = svec_at (hvec q) ?s" using fill_nth [OF less.prems(1) sm] ps by simp
    then have "sink (node_lt lt) N (code_select lt N rmax) pos ?f =
        sink (node_lt lt) N (code_select lt N rmax) ?s (swap ?f pos ?s)"
      using True ps sm at_pos length_fill [OF less.prems(1)] by (subst sink.simps) (simp add: sel)
    moreover have "frame (set (map hnd ?f)) q ?r"
      using IH mv(3) ps pos sm length_fill [OF less.prems(1)] by (auto intro: frame_trans)
    ultimately show ?thesis using IH by metis
  next
    case False
    then have "?r = place_node q pos h p"
      using assms(1,2) by (subst bubble_up_loop.simps) (auto simp add: Let_def loop_guard simp del: One_nat_def)
    moreover have "sink (node_lt lt) N (code_select lt N rmax) pos ?f = ?f"
      using False ge le at_pos length_fill [OF less.prems(1)] fill_nth [OF less.prems(1), of ?s] pos_le
      by (subst sink.simps) (auto simp: sel)
    ultimately show ?thesis by (rule stop)
  qed
qed

section \<open>The structural invariant and the operations\<close>

text \<open>
  \<open>A\<close> is the set of handles that have been allocated and not yet deallocated. The queue holds a
  node for some of them; every other allocated handle is marked as not queued; and the vector
  has room for all of them.
\<close>

definition queued :: "('h, 'p, 't) dary_heap \<Rightarrow> 'h set" where
  "queued q = hnd ` set (nodes q)"

definition contents :: "('h, 'p, 't) dary_heap \<Rightarrow> ('h, 'p) heap_node multiset" where
  "contents q = mset (nodes q)"

definition dary_ord :: "('p \<Rightarrow> 'p \<Rightarrow> bool) \<Rightarrow> nat \<Rightarrow> ('h, 'p, 't) dary_heap \<Rightarrow> bool" where
  "dary_ord lt N q \<longleftrightarrow> heap_ord (node_lt lt) N (nodes q)"

definition heap_wf :: "nat \<Rightarrow> 'h set \<Rightarrow> ('h, 'p, 't) dary_heap \<Rightarrow> bool" where
  "heap_wf sz A q \<longleftrightarrow> svec_inv sz (hvec q) \<and> finite A \<and> num_nodes q = card A \<and>
     card A \<le> capacity_v (hvec q) \<and> distinct (map hnd (nodes q)) \<and> queued q \<subseteq> A \<and>
     indexed (handles q) (nodes q) \<and>
     (\<forall>h \<in> A - queued q. heap_index (handles q h) = size_max)"

lemma pre_size: "pre (size_v (hvec q)) q = nodes q"
  by (simp add: pre_def elems_def)

lemma queued_contents: "queued q = hnd ` set_mset (contents q)"
  by (simp add: queued_def contents_def)

lemma length_nodes: "heap_wf sz A q \<Longrightarrow> length (nodes q) = size_v (hvec q)"
  using length_elems by (auto simp: heap_wf_def)

lemma heap_wf_size_le: "heap_wf sz A q \<Longrightarrow> size_v (hvec q) \<le> card A"
proof -
  assume wf: "heap_wf sz A q"
  then have "card (queued q) = length (nodes q)"
    by (metis heap_wf_def distinct_card length_map list.set_map queued_def)
  with wf show ?thesis by (metis card_mono heap_wf_def length_nodes)
qed

lemma heap_wf_room:
  assumes "heap_wf sz A q" "h \<in> A" "h \<notin> queued q"
  shows "size_v (hvec q) < capacity_v (hvec q)"
proof -
  have "card (queued q) < card A"
    using assms by (intro psubset_card_mono) (auto simp: heap_wf_def)
  moreover have "card (queued q) = size_v (hvec q)"
    using assms(1) by (metis distinct_card heap_wf_def length_map length_nodes list.set_map queued_def)
  ultimately show ?thesis using assms(1) by (simp add: heap_wf_def)
qed

lemma size_less_max: "heap_wf sz A q \<Longrightarrow> size_v (hvec q) \<le> size_max"
  using div_le_dividend [of size_max sz] unfolding heap_wf_def svec_inv_def svec_max_size_def by linarith

lemma is_queued_iff:
  assumes "heap_wf sz A q" "h \<in> A"
  shows "dary_is_queued q h \<longleftrightarrow> h \<in> queued q"
proof
  assume "h \<in> queued q"
  then obtain i where "i < size_v (hvec q)" "hnd (nodes q ! i) = h"
    using length_nodes [OF assms(1)] by (auto simp: queued_def in_set_conv_nth)
  with assms(1) have "heap_index (handles q h) = i" "i < size_max"
    using length_nodes [OF assms(1)] size_less_max [OF assms(1)]
    by (auto simp: heap_wf_def indexed_def)
  then show "dary_is_queued q h" by (simp add: dary_is_queued_def)
qed (use assms in \<open>auto simp: dary_is_queued_def heap_wf_def\<close>)

lemma queued_index:
  assumes "heap_wf sz A q" "h \<in> queued q"
  shows "heap_index (handles q h) < size_v (hvec q)" "hnd (nodes q ! heap_index (handles q h)) = h"
proof -
  obtain i where "i < size_v (hvec q)" "hnd (nodes q ! i) = h"
    using assms length_nodes [OF assms(1)] by (auto simp: queued_def in_set_conv_nth)
  with assms(1) have "heap_index (handles q h) = i"
    using length_nodes [OF assms(1)] by (auto simp: heap_wf_def indexed_def)
  with \<open>i < _\<close> \<open>hnd _ = h\<close> show "heap_index (handles q h) < size_v (hvec q)"
    "hnd (nodes q ! heap_index (handles q h)) = h" by auto
qed

lemma heap_wf_new: "heap_wf sz {} (dary_new mem)"
  by (simp add: heap_wf_def dary_new_def queued_def indexed_def)

lemma mset_map_distinct: "mset xs = mset ys \<Longrightarrow> distinct (map f xs) = distinct (map f ys)"
  by (metis mset_eq_imp_distinct_iff mset_map)

lemma fill_pos_mset: "pos < length xs \<Longrightarrow> mset (xs[pos := x]) = add_mset x (mset xs - {#xs ! pos#})"
  by (simp add: mset_update)

text \<open>Storing over a full vector: what both loops establish, as a step of \<open>heap_wf\<close>.\<close>

lemma heap_wf_hole:
  assumes wf: "heap_wf sz A q" and fr: "frame H q q'" and inv: "svec_inv sz (hvec q')"
    and m: "mset (map hnd (nodes q')) = mset (map hnd (nodes q))"
    and idx: "indexed (handles q') (nodes q')" and H: "H \<subseteq> queued q"
  shows "heap_wf sz A q'" "queued q' = queued q"
proof -
  show qq: "queued q' = queued q" using m by (metis list.set_map mset_eq_setD queued_def)
  have "distinct (map hnd (nodes q'))" using wf m mset_eq_imp_distinct_iff by (metis heap_wf_def)
  moreover have "\<forall>h \<in> A - queued q'. heap_index (handles q' h) = size_max"
    using wf fr H unfolding qq by (auto simp: heap_wf_def frame_def)
  ultimately show "heap_wf sz A q'" using wf fr inv idx qq by (simp add: heap_wf_def frame_def)
qed

lemma insert_correct:
  assumes wf: "heap_wf sz A q" and h: "h \<in> A" "h \<notin> queued q"
  obtains b q' where "dary_insert alloc sz lt N q h p = Inr (b, q')" "heap_wf sz A q'"
    "nodes q' = swim (node_lt lt) N (length (nodes q)) (nodes q @ [node p h])"
    "b \<longleftrightarrow> dary_get_root q' = h" "\<And>g. dary_node_data q' g = dary_node_data q g"
proof -
  let ?n = "node p h" and ?s = "size_v (hvec q)"
  note len = length_nodes [OF wf]
  obtain v where v: "emplace_back alloc sz (hvec q) ?n = Inr v" "svec_inv sz v"
      "elems v = nodes q @ [?n]" "size_v v = Suc ?s" "capacity_v v = capacity_v (hvec q)"
    using emplace_back_room [OF _ heap_wf_room [OF wf h], of sz alloc ?n] wf by (auto simp: heap_wf_def)
  let ?q = "(set_index q h ?s)\<lparr>hvec := v\<rparr>"
  obtain b q' where bq: "bubble_down lt N ?s h p ?q = (b, q')" by force
  have ins: "dary_insert alloc sz lt N q h p = Inr (b, q')"
    using v(1,4) bq by (simp add: dary_insert_def Let_def node_def)
  have pre: "pre (Suc ?s) ?q = nodes q @ [?n]" using v(3,4) by (simp add: pre_def elems_def)
  have fill: "fill (Suc ?s) ?q ?s ?n = nodes q @ [?n]"
    unfolding fill_def pre by (simp add: list_update_append len)
  have new: "hnd (nodes q ! i) \<noteq> h" if "i < ?s" for i
    using h(2) len that by (metis imageI nth_mem queued_def)
  have dist: "distinct (map hnd (nodes q @ [?n]))" using wf h by (auto simp: heap_wf_def queued_def)
  have hole: "hole_inv sz ?q (Suc ?s) ?s ?n"
    using wf new dist v(2,4) len
    by (auto simp: hole_inv_def pre heap_wf_def indexed_except_def indexed_def nth_append less_Suc_eq
        list_update_append)
  note bd = bubble_down_correct [OF hole bq, unfolded fill]
  then have fr: "frame (insert h (queued q)) ?q q'" by (simp add: queued_def)
  then have sz': "size_v (hvec q') = Suc ?s" using v(4) by (simp add: frame_def)
  then have nodes': "nodes q' = swim (node_lt lt) N ?s (nodes q @ [?n])" "indexed (handles q') (nodes q')"
    using bd pre_size [of q'] by auto
  have ms: "mset (nodes q') = mset (nodes q @ [?n])"
    unfolding nodes' by (rule mset_swim) (simp add: len)
  have "distinct (map hnd (nodes q'))" using mset_map_distinct [OF ms] dist by blast
  moreover have "queued q' = insert h (queued q)"
    using mset_eq_setD [OF ms] by (simp add: queued_def)
  moreover have "\<forall>g \<in> A - insert h (queued q). heap_index (handles q' g) = size_max"
    using wf fr by (auto simp: heap_wf_def frame_def)
  ultimately have wf': "heap_wf sz A q'"
    using wf fr bd nodes' h v(5) by (simp add: heap_wf_def frame_def)
  have nodes_q': "nodes q' = swim (node_lt lt) N (length (nodes q)) (nodes q @ [?n])"
    using nodes'(1) len by simp
  have root: "b \<longleftrightarrow> dary_get_root q' = h" using bd by (simp add: dary_get_root_def pre_nth)
  have data: "\<And>g. dary_node_data q' g = dary_node_data q g"
    using fr by (simp add: frame_def dary_node_data_def)
  show thesis by (rule that [OF ins wf' nodes_q' root data])
qed

lemma remove_last:
  assumes wf: "heap_wf sz A q" and i: "Suc hidx = size_v (hvec q)"
    and q': "q' = remove_h lt N hidx q"
  shows "nodes q' = butlast (nodes q)" "indexed (handles q') (nodes q')" "svec_inv sz (hvec q')"
    "capacity_v (hvec q') = capacity_v (hvec q)" "num_nodes q' = num_nodes q"
    "\<And>g. hd_u (handles q' g) = hd_u (handles q g)"
    "\<And>g. g \<notin> queued q \<Longrightarrow> handles q' g = handles q g"
    "heap_index (handles q' (hnd (nodes q ! hidx))) = size_max"
proof -
  let ?h = "hnd (nodes q ! hidx)"
  have at_idx: "hnd (svec_at (hvec q) hidx) = ?h" using i by (simp add: elems_nth)
  have eq: "q' = (set_index q ?h size_max)\<lparr>hvec := pop_back (hvec q)\<rparr>"
    unfolding q' remove_h_def Let_def at_idx using i by simp
  have inv: "svec_inv sz (hvec q)" using wf by (simp add: heap_wf_def)
  note len = length_nodes [OF wf]
  note pb = pop_back_inv [OF inv]
  show nodes': "nodes q' = butlast (nodes q)" "svec_inv sz (hvec q')"
    "capacity_v (hvec q') = capacity_v (hvec q)" "num_nodes q' = num_nodes q"
    "\<And>g. hd_u (handles q' g) = hd_u (handles q g)"
    using pb i eq by simp_all
  have dist: "distinct (map hnd (nodes q))" using wf by (simp add: heap_wf_def)
  have "?h \<in> queued q" using i len by (auto simp: queued_def)
  then show "\<And>g. g \<notin> queued q \<Longrightarrow> handles q' g = handles q g"
    using eq by (auto simp: set_index_def)
  show "heap_index (handles q' ?h) = size_max" using eq by simp
  show "indexed (handles q') (nodes q')"
    unfolding indexed_def
  proof (intro allI impI)
    fix j
    assume "j < length (nodes q')"
    then have j: "j < hidx" using nodes'(1) len i by simp
    have "hnd (nodes q ! j) \<noteq> ?h"
      using nth_eq_iff_index_eq [OF dist, of j hidx] j i len by simp
    then show "heap_index (handles q' (hnd (nodes q' ! j))) = j"
      using wf eq nodes'(1) j i len by (simp add: heap_wf_def indexed_def nth_butlast)
  qed
qed

lemma remove_inner:
  assumes wf: "heap_wf sz A q" and i: "Suc hidx < size_v (hvec q)" and N: "0 < N"
    and irr: "\<And>x. \<not> lt x x" and q': "q' = remove_h lt N hidx q"
  shows "nodes q' = sink (node_lt lt) N (code_select lt N (size_v (hvec q) - 1)) hidx
             ((butlast (nodes q))[hidx := last (nodes q)])"
    "indexed (handles q') (nodes q')" "svec_inv sz (hvec q')"
    "capacity_v (hvec q') = capacity_v (hvec q)" "num_nodes q' = num_nodes q"
    "\<And>g. hd_u (handles q' g) = hd_u (handles q g)"
    "\<And>g. g \<notin> queued q \<Longrightarrow> handles q' g = handles q g"
    "heap_index (handles q' (hnd (nodes q ! hidx))) = size_max"
proof -
  let ?h = "hnd (nodes q ! hidx)" and ?q = "set_index q (hnd (nodes q ! hidx)) size_max"
  let ?b = "last (nodes q)"
  obtain m where m: "size_v (hvec q) = Suc m" "hidx < m" "size_v (hvec q) - 1 = m"
    using i by (cases "size_v (hvec q)") auto
  note len = length_nodes [OF wf]
  have inv: "svec_inv sz (hvec q)" using wf by (simp add: heap_wf_def)
  have at_idx: "hnd (svec_at (hvec q) hidx) = ?h" using i by (simp add: elems_nth)
  have last_b: "svec_back (hvec q) = ?b" using svec_back_last [OF inv] i by simp
  have ne: "nodes q \<noteq> []" using len i by auto
  have b: "svec_at (hvec q) m = ?b" using elems_nth [of m "hvec q"] m len ne by (simp add: last_conv_nth)
  define q2 where "q2 = bubble_up_loop lt N m hidx (hnd ?b) (prio ?b) ?q"
  have eq: "q' = q2\<lparr>hvec := pop_back (hvec q2)\<rparr>"
    unfolding q' remove_h_def Let_def at_idx q2_def bubble_up_def set_index_simps last_b using m by simp
  have pre: "pre m ?q = butlast (nodes q)"
    using m inv by (simp add: pre_def elems_def butlast_take svec_inv_def)
  have fill: "fill m ?q hidx ?b = (butlast (nodes q))[hidx := ?b]" unfolding fill_def pre ..
  have dist: "distinct (map hnd (nodes q))" using wf by (simp add: heap_wf_def)
  have split: "nodes q = butlast (nodes q) @ [?b]" using ne by simp
  have bl: "distinct (map hnd (butlast (nodes q)))" "hnd ?b \<notin> hnd ` set (butlast (nodes q))"
    using dist by (subst (asm) split; simp)+
  have dist': "distinct (map hnd ((butlast (nodes q))[hidx := ?b]))"
    using bl by (simp add: map_update distinct_list_update)
  have other: "hnd (nodes q ! j) \<noteq> ?h" if "j < size_v (hvec q)" "j \<noteq> hidx" for j
    using nth_eq_iff_index_eq [OF dist, of j hidx] that i len by simp
  have hole: "hole_inv sz ?q m hidx (node (prio ?b) (hnd ?b))"
    using inv m dist' other len wf
    by (auto simp: hole_inv_def pre indexed_except_def nth_butlast heap_wf_def indexed_def)
  have bo: "back_ok lt ?q m m (prio ?b)" using b irr by (simp add: back_ok_def)
  have "0 < m" using m by simp
  from bubble_up_loop_correct [OF N this hole bo, folded q2_def, unfolded node_sel fill]
  have bu: "pre m q2 = sink (node_lt lt) N (code_select lt N m) hidx ((butlast (nodes q))[hidx := ?b])"
    "svec_inv sz (hvec q2)" "indexed (handles q2) (pre m q2)"
    "frame (set (map hnd ((butlast (nodes q))[hidx := ?b]))) ?q q2" by auto
  have s2: "size_v (hvec q2) = size_v (hvec q)" using bu(4) by (simp add: frame_def)
  have nodes': "nodes q' = pre m q2"
    using pop_back_inv [OF bu(2)] s2 m bu(2) by (simp add: eq pre_def elems_def butlast_take svec_inv_def)
  show "nodes q' = sink (node_lt lt) N (code_select lt N (size_v (hvec q) - 1)) hidx
      ((butlast (nodes q))[hidx := ?b])" using nodes' bu(1) m by simp
  show "indexed (handles q') (nodes q')" using bu(3) nodes' eq by simp
  show "svec_inv sz (hvec q')" using pop_back_inv(1) [OF bu(2)] s2 i eq by simp
  show "capacity_v (hvec q') = capacity_v (hvec q)" "num_nodes q' = num_nodes q"
    "\<And>g. hd_u (handles q' g) = hd_u (handles q g)"
    using bu(4) eq by (auto simp: frame_def pop_back_def)
  have sub: "set (map hnd ((butlast (nodes q))[hidx := ?b])) \<subseteq> queued q - {?h}"
  proof -
    have "hnd ((butlast (nodes q))[hidx := ?b] ! j) \<in> queued q - {?h}" if j: "j < m" for j
    proof (cases "j = hidx")
      case True
      then show ?thesis
        using other [of m] ne m len j b elems_nth [of m "hvec q"] by (auto simp: queued_def)
    next
      case False
      then show ?thesis using other [of j] j len m by (auto simp: queued_def nth_butlast)
    qed
    then show ?thesis using len m by (auto simp: in_set_conv_nth)
  qed
  have out: "handles q' g = handles ?q g" if "g \<notin> queued q - {?h}" for g
  proof -
    have "g \<notin> set (map hnd ((butlast (nodes q))[hidx := ?b]))" using sub that by blast
    then show ?thesis using bu(4) eq unfolding frame_def by simp
  qed
  show "heap_index (handles q' ?h) = size_max" using out [of ?h] by simp
  have "?h \<in> queued q" using i len by (auto simp: queued_def)
  then show "handles q' g = handles q g" if "g \<notin> queued q" for g
    using out [of g] that by (auto simp: set_index_def)
qed

lemma mset_replace_last:
  assumes "Suc i < length xs"
  shows "mset ((butlast xs)[i := last xs]) = mset xs - {#xs ! i#}"
proof -
  have "xs = butlast xs @ [last xs]" using assms by (cases xs rule: rev_cases) auto
  then have m: "mset xs = add_mset (last xs) (mset (butlast xs))"
    by (metis mset_append mset_single_iff add_mset_add_single mset.simps)
  have "butlast xs ! i \<in># mset (butlast xs)" using assms by (intro nth_mem_mset) simp
  then show ?thesis using assms by (simp add: fill_pos_mset m nth_butlast)
qed

lemma mset_butlast: "xs \<noteq> [] \<Longrightarrow> mset (butlast xs) = mset xs - {#xs ! (length xs - 1)#}"
  by (cases xs rule: rev_cases) auto

lemma remove_h_correct:
  assumes wf: "heap_wf sz A q" and i: "hidx < size_v (hvec q)" and N: "0 < N"
    and irr: "\<And>x. \<not> lt x x" and q': "q' = remove_h lt N hidx q"
  shows "heap_wf sz A q'" "contents q' = contents q - {#nodes q ! hidx#}"
    "queued q' = queued q - {hnd (nodes q ! hidx)}"
    "\<And>g. dary_node_data q' g = dary_node_data q g"
    "\<And>g. g \<notin> queued q \<Longrightarrow> handles q' g = handles q g"
proof -
  let ?h = "hnd (nodes q ! hidx)"
  note len = length_nodes [OF wf]
  have fr: "indexed (handles q') (nodes q')" "svec_inv sz (hvec q')"
      "capacity_v (hvec q') = capacity_v (hvec q)" "num_nodes q' = num_nodes q"
      "\<And>g. hd_u (handles q' g) = hd_u (handles q g)"
      "\<And>g. g \<notin> queued q \<Longrightarrow> handles q' g = handles q g" "heap_index (handles q' ?h) = size_max"
    and c: "mset (nodes q') = mset (nodes q) - {#nodes q ! hidx#}"
  proof -
    consider "Suc hidx = size_v (hvec q)" | "Suc hidx < size_v (hvec q)" using i by linarith
    then have "(indexed (handles q') (nodes q') \<and> svec_inv sz (hvec q') \<and>
      capacity_v (hvec q') = capacity_v (hvec q) \<and> num_nodes q' = num_nodes q \<and>
      (\<forall>g. hd_u (handles q' g) = hd_u (handles q g)) \<and>
      (\<forall>g. g \<notin> queued q \<longrightarrow> handles q' g = handles q g) \<and> heap_index (handles q' ?h) = size_max) \<and>
      mset (nodes q') = mset (nodes q) - {#nodes q ! hidx#}"
    proof cases
      case 1
      have "mset (nodes q') = mset (nodes q) - {#nodes q ! hidx#}"
        using remove_last(1) [OF wf 1 q'] mset_butlast [of "nodes q"] len 1
        by (metis Zero_not_Suc diff_Suc_1 list.size(3))
      then show ?thesis using remove_last(2-) [OF wf 1 q'] by blast
    next
      case 2
      note ri = remove_inner [where q' = q', OF wf 2 N irr q']
      have "mset (nodes q') = mset (nodes q) - {#nodes q ! hidx#}"
        unfolding ri(1) using 2 len by (subst mset_sink) (simp_all add: mset_replace_last)
      then show ?thesis using ri(2-) by blast
    qed
    then show "indexed (handles q') (nodes q')" "svec_inv sz (hvec q')"
      "capacity_v (hvec q') = capacity_v (hvec q)" "num_nodes q' = num_nodes q"
      "\<And>g. hd_u (handles q' g) = hd_u (handles q g)"
      "\<And>g. g \<notin> queued q \<Longrightarrow> handles q' g = handles q g" "heap_index (handles q' ?h) = size_max"
      "mset (nodes q') = mset (nodes q) - {#nodes q ! hidx#}" by blast+
  qed
  show "contents q' = contents q - {#nodes q ! hidx#}" by (simp add: contents_def c)
  have mem: "nodes q ! hidx \<in># mset (nodes q)" using i len by simp
  have hm: "mset (map hnd (nodes q')) = mset (map hnd (nodes q)) - {#?h#}"
    using c mem by (simp add: image_mset_Diff)
  have dist: "distinct (map hnd (nodes q))" using wf by (simp add: heap_wf_def)
  have hm': "mset (map hnd (nodes q')) = mset (remove1 ?h (map hnd (nodes q)))"
    unfolding hm mset_remove1 ..
  from mset_eq_setD [OF this] show qq: "queued q' = queued q - {?h}"
    using dist by (simp add: queued_def)
  have "distinct (map hnd (nodes q'))"
    using mset_eq_imp_distinct_iff [OF hm'] dist by (simp add: distinct_remove1)
  moreover have "\<forall>h \<in> A - queued q'. heap_index (handles q' h) = size_max"
    using wf fr(6,7) qq by (auto simp: heap_wf_def)
  ultimately show "heap_wf sz A q'" using wf fr qq by (auto simp: heap_wf_def)
  show "\<And>g. dary_node_data q' g = dary_node_data q g" using fr(5) by (simp add: dary_node_data_def)
  show "\<And>g. g \<notin> queued q \<Longrightarrow> handles q' g = handles q g" by (rule fr(6))
qed

end
