(* ===== verification/Daryheap_Order.thy ===== *)
theory Daryheap_Order
  imports Daryheap_Facts
begin

text \<open>
  Which operations of the d-ary heap keep the heap order. \<open>insert\<close>, \<open>pull_root\<close> and a
  decrease-key do. \<open>remove\<close> of an inner node moves the last node into its slot and only looks at
  the children, and an increase-key never looks at the last node unless it is a first child:
  these two keep the order only under the conditions stated here.
\<close>

section \<open>Child selection\<close>

context strict_weak_order
begin

lemma fold_select_least:
  "j \<in> set (c # is) \<Longrightarrow>
   \<not> lt (xs ! j) (xs ! fold (\<lambda>i s. if lt (xs ! i) (xs ! s) then i else s) is c)"
proof (induction "is" arbitrary: c j)
  case Nil
  then show ?case by (simp add: irrefl)
next
  case (Cons a "is")
  let ?c = "if lt (xs ! a) (xs ! c) then a else c"
  have c: "\<not> lt (xs ! ?c) (xs ! fold (\<lambda>i s. if lt (xs ! i) (xs ! s) then i else s) is ?c)"
    by (rule Cons.IH) simp
  have "\<not> lt (xs ! c) (xs ! ?c)" "\<not> lt (xs ! a) (xs ! ?c)" by (auto simp: irrefl dest: asym)
  with c have "\<not> lt (xs ! k) (xs ! fold (\<lambda>i s. if lt (xs ! i) (xs ! s) then i else s) is ?c)"
    if "k \<in> {a, c}" for k using that incomp_trans by blast
  with Cons.prems Cons.IH [of j ?c] show ?case by auto
qed

end

lemma select_child_least:
  assumes "strict_weak_order lt" "j = pos * N + 1 \<or> pos * N + 1 \<le> j \<and> j < min (pos * N + 1 + N) rmax"
  shows "\<not> lt (prio (xs ! j)) (prio (xs ! select_child lt N rmax pos xs))"
  unfolding select_child_def Let_def
  by (rule strict_weak_order.fold_select_least [OF node_lt_swo [OF assms(1)]]) (use assms(2) in auto)

lemma select_child_bound: "0 < N \<Longrightarrow> select_child lt N rmax pos xs < pos * N + 1 + N"
proof -
  assume "0 < N"
  moreover have "select_child lt N rmax pos xs \<in>
      set ((pos * N + 1) # [pos * N + 1 + 1 ..< min (pos * N + 1 + N) rmax])"
    unfolding select_child_def Let_def by (rule fold_select_mem)
  ultimately show ?thesis by auto
qed

text \<open>
  With \<open>rmax\<close> the length, all children are considered (\<open>remove\<close>); with \<open>rmax\<close> one less, all are
  if the last node is a first child (increase-key).
\<close>

lemma code_select_least:
  assumes swo: "strict_weak_order lt" and N: "0 < N"
    and rmax: "rmax = n \<or> n = Suc rmax \<and> (\<exists>k. rmax = k * N + 1)"
  shows "least_child (node_lt lt) N (code_select lt N rmax) n"
  unfolding least_child_def
proof (intro conjI allI impI)
  fix xs :: "('b, 'a) heap_node list" and k
  assume n: "length xs = n"
  show "k * N + 1 \<le> select_child lt N rmax k xs" by (rule select_child_ge)
  assume k: "k * N + 1 < n"
  show par: "heap_parent N (select_child lt N rmax k xs) = k"
    by (rule heap_parent_child [OF N select_child_ge select_child_bound [OF N]])
  show "0 < select_child lt N rmax k xs" using select_child_ge [of k N lt rmax xs] by linarith
  show "select_child lt N rmax k xs < n"
    using select_child_cases [of lt N rmax k xs] k rmax by auto
  fix i
  assume i: "i < n" "0 < i \<and> heap_parent N i = k"
  then have ik: "k * N + 1 \<le> i" "i < k * N + 1 + N"
    using heap_parent_range [OF N, of i k] by simp_all
  have "i = k * N + 1 \<or> i < rmax"
  proof (rule disjCI)
    assume ir: "\<not> i < rmax"
    with i(1) rmax have "i = rmax" "\<exists>l. rmax = l * N + 1" by auto
    then obtain l where l: "rmax = l * N + 1" "i = rmax" by blast
    have "heap_parent N (l * N + 1) = l" using N by (intro heap_parent_child) auto
    with l i(2) show "i = k * N + 1" by simp
  qed
  with ik show "\<not> lt (prio (xs ! i)) (prio (xs ! select_child lt N rmax k xs))"
    by (intro select_child_least [OF swo]) auto
qed

section \<open>Heap order of the operations\<close>

lemma swim_inv_append:
  assumes "heap_ord lt N xs"
  shows "swim_inv lt N (length xs) (xs @ [x])"
proof -
  have "heap_parent N i \<noteq> length xs" if "i < Suc (length xs)" "0 < i" for i
    using heap_parent_less [OF that(2), of N] that(1) by simp
  moreover have "\<not> lt (xs ! i) ((xs @ [x]) ! heap_parent N i)" if "i < length xs" "0 < i" for i
    using assms that heap_parent_less [OF that(2), of N] by (simp add: heap_ord_def nth_append)
  ultimately show ?thesis by (auto simp: swim_inv_def nth_append less_Suc_eq)
qed


lemma sink_inv_replace:
  assumes swo: "strict_weak_order lt" and ord: "heap_ord lt N xs" and k: "Suc k < length xs"
    and par: "k = 0 \<or> \<not> lt (last xs) (xs ! heap_parent N k)"
  shows "sink_inv lt N k ((butlast xs)[k := last xs])" (is "sink_inv lt N k ?ys")
proof -
  have ordD: "\<not> lt (xs ! i) (xs ! heap_parent N i)" if "i < length xs" "0 < i" for i
    using ord that by (simp add: heap_ord_def)
  have nth: "?ys ! i = (if i = k then last xs else xs ! i)" if "Suc i < length xs" for i
    using that k by (simp add: nth_list_update nth_butlast)
  have small: "Suc (heap_parent N i) < length xs" if "Suc i < length xs" "0 < i" for i
    using heap_parent_less [OF that(2), of N] that(1) by linarith
  have "\<not> lt (?ys ! i) (?ys ! heap_parent N i)"
    if i: "Suc i < length xs" "0 < i" "heap_parent N i \<noteq> k" for i
    using i par ordD [of i] nth [OF i(1)] nth [OF small [OF i(1,2)]] by (cases "i = k") auto
  moreover have "\<not> lt (?ys ! i) (?ys ! heap_parent N k)"
    if i: "Suc i < length xs" "0 < i" "0 < k" "heap_parent N i = k" for i
  proof -
    have ne: "i \<noteq> k" "heap_parent N k \<noteq> k"
      using heap_parent_less [OF i(2), of N] heap_parent_less [OF i(3), of N] i(4) by auto
    have "\<not> lt (xs ! i) (xs ! k)" "\<not> lt (xs ! k) (xs ! heap_parent N k)"
      using ordD [of i] ordD [of k] i k by auto
    then have "\<not> lt (xs ! i) (xs ! heap_parent N k)"
      using strict_weak_order.incomp_trans [OF swo] by blast
    with ne show ?thesis using nth [OF i(1)] nth [OF small [OF k i(3)]] by simp
  qed
  ultimately show ?thesis using k by (auto simp: sink_inv_def)
qed

lemma heap_ord_butlast: "heap_ord lt N xs \<Longrightarrow> heap_ord lt N (butlast xs)"
proof -
  assume ord: "heap_ord lt N xs"
  have "\<not> lt (butlast xs ! i) (butlast xs ! heap_parent N i)" if i: "i < length xs - 1" "0 < i" for i
  proof -
    have "heap_parent N i < length xs - 1" using heap_parent_less [OF i(2), of N] i(1) by linarith
    then show ?thesis using ord i by (simp add: heap_ord_def nth_butlast)
  qed
  then show ?thesis by (simp add: heap_ord_def)
qed

lemma insert_ord:
  assumes "strict_weak_order lt" "heap_wf sz A q" "h \<in> A" "h \<notin> queued q" "dary_ord lt N q"
    and ins: "dary_insert alloc sz lt N q h p = Inr (b, q')"
  shows "dary_ord lt N q'"
proof -
  obtain b2 q2 where "dary_insert alloc sz lt N q h p = Inr (b2, q2)"
      "nodes q2 = swim (node_lt lt) N (length (nodes q)) (nodes q @ [node p h])"
    using insert_correct [OF assms(2-4)] by metis
  with ins have "nodes q' = swim (node_lt lt) N (length (nodes q)) (nodes q @ [node p h])" by simp
  moreover have "heap_ord (node_lt lt) N (swim (node_lt lt) N (length (nodes q)) (nodes q @ [node p h]))"
    using assms(5) unfolding dary_ord_def
    by (intro strict_weak_order.swim_heap_ord [OF node_lt_swo [OF assms(1)]] swim_inv_append)
  ultimately show ?thesis by (simp add: dary_ord_def)
qed

text \<open>Removal keeps the order when the moved node is not below the removed node's parent.\<close>

definition removal_safe :: "('p \<Rightarrow> 'p \<Rightarrow> bool) \<Rightarrow> nat \<Rightarrow> ('h, 'p, 't) dary_heap \<Rightarrow> nat \<Rightarrow> bool" where
  "removal_safe lt N q hidx \<longleftrightarrow> hidx = 0 \<or> Suc hidx = size_v (hvec q) \<or>
     \<not> lt (prio (last (nodes q))) (prio (nodes q ! heap_parent N hidx))"

lemma remove_h_ord:
  assumes swo: "strict_weak_order lt" and wf: "heap_wf sz A q" and i: "hidx < size_v (hvec q)"
    and N: "0 < N" and ord: "dary_ord lt N q" and safe: "removal_safe lt N q hidx"
  shows "dary_ord lt N (remove_h lt N hidx q)"
proof -
  let ?q = "remove_h lt N hidx q" and ?ys = "(butlast (nodes q))[hidx := last (nodes q)]"
  note len = length_nodes [OF wf]
  note nlt = node_lt_swo [OF swo]
  consider "Suc hidx = size_v (hvec q)" | "Suc hidx < size_v (hvec q)" using i by linarith
  then show ?thesis
  proof cases
    case 1
    then show ?thesis
      using remove_last(1) [OF wf 1 refl, of lt N] ord heap_ord_butlast by (auto simp: dary_ord_def)
  next
    case 2
    then have len2: "Suc hidx < length (nodes q)" using len by simp
    have "hidx = 0 \<or> \<not> node_lt lt (last (nodes q)) (nodes q ! heap_parent N hidx)"
      using safe 2 by (auto simp: removal_safe_def)
    then have "sink_inv (node_lt lt) N hidx ?ys"
      using sink_inv_replace [OF nlt _ len2] ord by (simp add: dary_ord_def)
    moreover have "least_child (node_lt lt) N (code_select lt N (size_v (hvec q) - 1)) (length ?ys)"
      by (rule code_select_least [OF swo N]) (simp add: len)
    ultimately have "heap_ord (node_lt lt) N
        (sink (node_lt lt) N (code_select lt N (size_v (hvec q) - 1)) hidx ?ys)"
      by (intro strict_weak_order.sink_heap_ord [OF nlt N])
    then show ?thesis
      using remove_inner(1) [where lt = lt, OF wf 2 N strict_weak_order.irrefl [OF swo] refl] by (simp add: dary_ord_def)
  qed
qed

section \<open>Changing a priority\<close>

lemma narrow_index_id: "i < 2 ^ 31 \<Longrightarrow> narrow_index i = i"
  by (simp add: narrow_index_def)

lemma set_priority_correct:
  assumes wf: "heap_wf sz A q" and h: "h \<in> queued q" and N: "0 < N" and irr: "\<And>x. \<not> lt x x"
    and small: "size_v (hvec q) \<le> 2 ^ 31"
    and r: "dary_set_priority lt N q h p = (b, q')"
  defines "i \<equiv> heap_index (handles q h)"
  defines "xs \<equiv> (nodes q)[i := node p h]"
  shows "heap_wf sz A q' \<and> queued q' = queued q \<and>
    nodes q' = (if lt (prio (nodes q ! i)) p
                then sink (node_lt lt) N (code_select lt N (size_v (hvec q) - 1)) i xs
                else swim (node_lt lt) N i xs) \<and>
    (b \<longleftrightarrow> \<not> lt (prio (nodes q ! i)) p \<and> dary_get_root q' = h) \<and>
    (\<forall>g. dary_node_data q' g = dary_node_data q g)"
proof -
  let ?s = "size_v (hvec q)"
  note len = length_nodes [OF wf]
  have i: "i < ?s" "hnd (nodes q ! i) = h" using queued_index [OF wf h] by (simp_all add: i_def)
  have ni: "narrow_index (heap_index (handles q h)) = i"
    using i(1) small by (simp add: narrow_index_id i_def [symmetric])
  define q1 where "q1 = q\<lparr>hvec := svec_set (hvec q) i (node p h)\<rparr>"
  have inv: "svec_inv sz (hvec q)" using wf by (simp add: heap_wf_def)
  have at1: "svec_at (hvec q1) i = node p h" using svec_at_set [OF inv i(1)] by (simp add: q1_def)
  have old: "svec_at (hvec q) i = nodes q ! i" using i by (simp add: elems_nth)
  have upd: "(nodes q ! i)\<lparr>prio := p\<rparr> = node p h" using i(2) by (simp add: node_def)
  have body: "dary_set_priority lt N q h p =
      (if lt (prio (nodes q ! i)) p then (False, bubble_up lt N i h p q1) else bubble_down lt N i h p q1)"
    unfolding dary_set_priority_def Let_def ni old upd q1_def [symmetric]
    by (simp add: bubble_up_at_def bubble_down_at_def at1)
  have pre1: "pre ?s q1 = xs"
    by (simp add: q1_def pre_def svec_set_def take_update_swap xs_def elems_def)
  have fill1: "fill ?s q1 i (node p h) = xs" by (simp add: fill_def pre1 xs_def)
  have hnds: "map hnd xs = map hnd (nodes q)"
    unfolding xs_def using i len by (simp add: map_update list_update_same_conv)
  have nth_h: "hnd (xs ! j) = hnd (nodes q ! j)" if "j < ?s" for j
    using hnds len that by (metis nth_map length_map)
  have q1: "svec_inv sz (hvec q1)" "size_v (hvec q1) = ?s" "handles q1 = handles q"
    using inv by (simp_all add: q1_def)
  have "indexed_except i (handles q) xs"
    using wf nth_h len by (simp add: heap_wf_def indexed_except_def indexed_def xs_def)
  moreover have "distinct (map hnd (xs[i := node p h]))"
    using wf hnds by (simp add: heap_wf_def xs_def)
  ultimately have hole: "hole_inv sz q1 ?s i (node p h)"
    using q1 i(1) by (simp add: hole_inv_def pre1)
  have H: "set (map hnd xs) = queued q" unfolding hnds by (simp add: queued_def)
  have fin: "heap_wf sz A q' \<and> queued q' = queued q \<and> (\<forall>g. dary_node_data q' g = dary_node_data q g)"
    if fr: "frame (set (map hnd xs)) q1 q'" and inv': "svec_inv sz (hvec q')"
      and idx: "indexed (handles q') (nodes q')" and m: "mset (nodes q') = mset xs"
  proof -
    have f: "frame (queued q) q q'" using fr H by (simp add: frame_def q1_def)
    have "mset (map hnd (nodes q')) = mset (map hnd (nodes q))" using m hnds by (metis mset_map)
    from heap_wf_hole [OF wf f inv' this idx subset_refl] f show ?thesis
      by (simp add: frame_def dary_node_data_def)
  qed
  have s_eq: "size_v (hvec q') = ?s" if "frame (set (map hnd xs)) q1 q'"
    using that by (simp add: frame_def q1_def)
  have il: "i < length xs" using i len by (simp add: xs_def)
  show ?thesis
  proof (cases "lt (prio (nodes q ! i)) p")
    case True
    then have q': "q' = bubble_up lt N i h p q1" "\<not> b" using r body by auto
    have bu: "pre ?s q' = sink (node_lt lt) N (code_select lt N (?s - 1)) i xs \<and> svec_inv sz (hvec q') \<and>
        indexed (handles q') (pre ?s q') \<and> frame (set (map hnd xs)) q1 q'"
    proof (cases "?s = 1")
      case one: True
      then have i0: "i = 0" using i by simp
      have "q' = q1" using one unfolding q' by (simp add: bubble_up_def q1_def)
      moreover have "sink (node_lt lt) N (code_select lt N 0) 0 xs = xs"
        using one len by (subst sink.simps) (simp add: select_child_def xs_def)
      moreover have "indexed (handles q1) xs"
        using wf nth_h len by (simp add: indexed_def heap_wf_def xs_def q1_def)
      ultimately show ?thesis using one i0 pre1 inv by (simp add: q1_def)
    next
      case False
      then have "0 < ?s - 1" using i by simp
      moreover have "back_ok lt q1 ?s (?s - 1) p" using i by (simp add: back_ok_def)
      moreover have eq: "q' = bubble_up_loop lt N (?s - 1) i h p q1"
        using False i unfolding q' by (simp add: bubble_up_def q1_def Let_def)
      ultimately show ?thesis
        unfolding eq using bubble_up_loop_correct [OF N _ hole, unfolded fill1] by blast
    qed
    then have nodes': "nodes q' = sink (node_lt lt) N (code_select lt N (?s - 1)) i xs"
      using s_eq pre_size [of q'] by simp
    with bu s_eq il have "heap_wf sz A q' \<and> queued q' = queued q \<and> (\<forall>g. dary_node_data q' g = dary_node_data q g)"
      using pre_size [of q'] by (intro fin) (auto simp: mset_sink)
    with nodes' True q'(2) show ?thesis by simp
  next
    case False
    then have bd: "bubble_down lt N i h p q1 = (b, q')" using r body by simp
    note bdc = bubble_down_correct [OF hole bd, unfolded fill1]
    then have nodes': "nodes q' = swim (node_lt lt) N i xs" using s_eq pre_size [of q'] by simp
    with bdc s_eq il have "heap_wf sz A q' \<and> queued q' = queued q \<and> (\<forall>g. dary_node_data q' g = dary_node_data q g)"
      using pre_size [of q'] by (intro fin) (auto simp: mset_swim)
    moreover have "b \<longleftrightarrow> dary_get_root q' = h"
      using bdc i by (auto simp: dary_get_root_def pre_nth)
    ultimately show ?thesis using nodes' False by simp
  qed
qed

end
