(* ===== verification/Daryheap_Props.thy ===== *)
theory Daryheap_Props
  imports Daryheap_Order
begin

text \<open>
  The contract of the d-ary heap: what each public operation does to the set of queued handles,
  to their priorities and to the order, with the storage guarantee that makes \<open>insert\<close>
  exception-free; the two operations that can break the heap order; and the priority-queue
  interface the event queue and the timer queues rely on.
\<close>

section \<open>Order under a changed priority\<close>

context strict_weak_order
begin

lemma grandparent_upd:
  assumes ordD: "\<And>i. i < length xs \<Longrightarrow> 0 < i \<Longrightarrow> \<not> lt (xs ! i) (xs ! heap_parent N i)"
    and k: "k < length xs" and i: "i < length xs" "0 < i" "0 < k" "heap_parent N i = k"
  shows "\<not> lt (xs[k := n] ! i) (xs[k := n] ! heap_parent N k)"
proof -
  have "i \<noteq> k" "heap_parent N k \<noteq> k"
    using heap_parent_less [OF i(2), of N] heap_parent_less [OF i(3), of N] i(4) by auto
  moreover have "\<not> lt (xs ! i) (xs ! heap_parent N k)"
    using incomp_trans [OF ordD [OF i(1,2), unfolded i(4)] ordD [OF k i(3)]] .
  ultimately show ?thesis by simp
qed

lemma swim_inv_decrease:
  assumes ord: "heap_ord lt N xs" and k: "k < length xs" and le: "\<not> lt (xs ! k) n"
  shows "swim_inv lt N k (xs[k := n])"
proof -
  have ordD: "\<not> lt (xs ! i) (xs ! heap_parent N i)" if "i < length xs" "0 < i" for i
    using ord that by (simp add: heap_ord_def)
  have "\<not> lt (xs[k := n] ! i) (xs[k := n] ! heap_parent N i)"
    if i: "i < length xs" "0 < i" "i \<noteq> k" for i
  proof (cases "heap_parent N i = k")
    case True
    with ordD [OF i(1,2)] have "\<not> lt (xs ! i) n" using incomp_trans [OF _ le] by simp
    with True i k show ?thesis by simp
  next
    case False
    with ordD [OF i(1,2)] i show ?thesis by simp
  qed
  moreover have "\<not> lt (xs[k := n] ! i) (xs[k := n] ! heap_parent N k)"
    if i: "i < length xs" "0 < i" "0 < k" "heap_parent N i = k" for i
    by (rule grandparent_upd [OF ordD k i])
  ultimately show ?thesis using k by (simp add: swim_inv_def)
qed

lemma sink_inv_increase:
  assumes ord: "heap_ord lt N xs" and k: "k < length xs" and gt: "lt (xs ! k) n"
  shows "sink_inv lt N k (xs[k := n])"
proof -
  have ordD: "\<not> lt (xs ! i) (xs ! heap_parent N i)" if "i < length xs" "0 < i" for i
    using ord that by (simp add: heap_ord_def)
  have "\<not> lt (xs[k := n] ! i) (xs[k := n] ! heap_parent N i)"
    if i: "i < length xs" "0 < i" "heap_parent N i \<noteq> k" for i
  proof (cases "i = k")
    case True
    with ordD [OF i(1,2)] have "\<not> lt n (xs ! heap_parent N i)"
      using incomp_trans [OF asym [OF gt]] by simp
    with True i k show ?thesis by simp
  next
    case False
    with ordD [OF i(1,2)] i show ?thesis by simp
  qed
  moreover have "\<not> lt (xs[k := n] ! i) (xs[k := n] ! heap_parent N k)"
    if i: "i < length xs" "0 < i" "0 < k" "heap_parent N i = k" for i
    by (rule grandparent_upd [OF ordD k i])
  ultimately show ?thesis using k by (simp add: sink_inv_def)
qed

end

section \<open>Allocation of handles\<close>

lemma allocate_correct:
  assumes wf: "heap_wf sz A q" and h: "h \<notin> A" and r: "dary_allocate alloc sz q h u = Inr q'"
  shows "heap_wf sz (insert h A) q'" "nodes q' = nodes q" "dary_node_data q' h = u"
    "\<And>g. g \<noteq> h \<Longrightarrow> handles q' g = handles q g" "num_nodes q' = Suc (num_nodes q)"
proof -
  let ?n = "num_nodes q + 1" and ?max = "svec_max_size sz"
  have inv: "svec_inv sz (hvec q)" and num: "num_nodes q = card A" and fin: "finite A"
    using wf by (simp_all add: heap_wf_def)
  have size: "size_v (hvec q) \<le> card A" by (rule heap_wf_size_le [OF wf])
  have cap: "capacity_v (hvec q) \<le> ?max" using inv by (simp add: svec_inv_def)
  obtain v where q': "q' = q\<lparr>hvec := v, num_nodes := ?n,
      handles := (handles q)(h := \<lparr>hd_u = u, heap_index = size_max\<rparr>)\<rparr>"
    and v: "v = hvec q \<and> ?n \<le> capacity_v (hvec q) \<or>
      (\<exists>c. svec_reserve alloc sz (hvec q) c = Inr v \<and> ?n \<le> c)"
  proof -
    have le: "num_nodes q \<le> ?max" "num_nodes q \<noteq> ?max"
      using wf cap r by (auto simp: heap_wf_def dary_allocate_def Let_def)
    define c where "c = (if ?n < ?max div 2 then ?n * 2 else ?max)"
    have c: "?n \<le> c" using le by (simp add: c_def)
    define g where "g = (if capacity_v (hvec q) < ?n then
        (case svec_reserve alloc sz (hvec q) c of Inr v \<Rightarrow> Inr v
         | Inl _ \<Rightarrow> svec_reserve alloc sz (hvec q) ?n) else Inr (hvec q))"
    have "dary_allocate alloc sz q h u = (case g of Inl e \<Rightarrow> Inl e | Inr v \<Rightarrow>
        Inr (q\<lparr>hvec := v, num_nodes := ?n,
          handles := (handles q)(h := \<lparr>hd_u = u, heap_index = size_max\<rparr>)\<rparr>))"
      unfolding dary_allocate_def Let_def g_def c_def using le(2) by (simp only: if_False)
    then obtain v where g: "g = Inr v" and q': "q' = q\<lparr>hvec := v, num_nodes := ?n,
        handles := (handles q)(h := \<lparr>hd_u = u, heap_index = size_max\<rparr>)\<rparr>"
      using r by (cases g) auto
    have "v = hvec q \<and> ?n \<le> capacity_v (hvec q) \<or>
        (\<exists>c. svec_reserve alloc sz (hvec q) c = Inr v \<and> ?n \<le> c)"
      using g c by (auto simp: g_def split: if_splits sum.splits)
    with q' show ?thesis by (rule that)
  qed
  have v': "svec_inv sz v \<and> elems v = nodes q \<and> size_v v = size_v (hvec q) \<and> ?n \<le> capacity_v v"
    using v
  proof (elim disjE exE conjE)
    fix c
    assume c: "svec_reserve alloc sz (hvec q) c = Inr v" "?n \<le> c"
    with size num have "size_v (hvec q) \<le> c" by linarith
    from svec_reserve_inv [OF inv this c(1)] c(2)
    show ?thesis by auto
  qed (use inv in simp_all)
  show nodes': "nodes q' = nodes q" by (simp add: q' v')
  have nq: "h \<notin> queued q" using wf h by (auto simp: heap_wf_def)
  have "\<And>n. n \<in> set (nodes q) \<Longrightarrow> hnd n \<noteq> h" using nq by (auto simp: queued_def)
  then have "indexed (handles q') (nodes q)"
    using wf by (auto simp: heap_wf_def indexed_def q')
  moreover have "queued q' = queued q" by (simp add: queued_def nodes')
  moreover have "num_nodes q' = card (insert h A)" using fin h num by (simp add: q')
  moreover have "\<forall>g \<in> insert h A - queued q. heap_index (handles q' g) = size_max"
    using wf by (auto simp: heap_wf_def q')
  ultimately show "heap_wf sz (insert h A) q'"
    using wf v' num fin h nodes' by (auto simp: heap_wf_def q')
  show "dary_node_data q' h = u" "\<And>g. g \<noteq> h \<Longrightarrow> handles q' g = handles q g"
    "num_nodes q' = Suc (num_nodes q)" by (simp_all add: q' dary_node_data_def)
qed

lemma deallocate_correct:
  assumes wf: "heap_wf sz A q" and h: "h \<in> A" "h \<notin> queued q"
  shows "heap_wf sz (A - {h}) (dary_deallocate alloc sz q h)"
    "nodes (dary_deallocate alloc sz q h) = nodes q" "handles (dary_deallocate alloc sz q h) = handles q"
proof -
  let ?n = "num_nodes q - 1" and ?q = "dary_deallocate alloc sz q h"
  have inv: "svec_inv sz (hvec q)" and num: "num_nodes q = card A" and fin: "finite A"
    using wf by (simp_all add: heap_wf_def)
  have pos: "0 < num_nodes q" using num fin h by (auto simp: card_gt_0_iff)
  have "card (queued q) \<le> card (A - {h})"
    using wf fin h by (intro card_mono) (auto simp: heap_wf_def)
  moreover have "card (queued q) = size_v (hvec q)"
    using wf by (metis distinct_card heap_wf_def length_map length_nodes list.set_map queued_def)
  ultimately have size: "size_v (hvec q) \<le> ?n" using num fin h by simp
  have le: "capacity_v (hvec q) \<le> size_max"
    using inv div_le_dividend [of size_max sz] unfolding svec_inv_def svec_max_size_def by linarith
  have nowrap: "?n * 2 mod 2 ^ 64 = ?n * 2" if "?n < capacity_v (hvec q) div 4"
    using that le by (simp add: size_max_def)
  obtain v where v: "?q = q\<lparr>num_nodes := ?n, hvec := v\<rparr>" "svec_inv sz v" "elems v = nodes q"
    "size_v v = size_v (hvec q)" "?n \<le> capacity_v v"
  proof (cases "?n < capacity_v (hvec q) div 4")
    case True
    with size have "size_v (hvec q) \<le> ?n * 2" by linarith
    note sh = svec_shrink_to_inv [OF inv this, of alloc]
    have "?n \<le> min (?n * 2) (capacity_v (hvec q))" using True by linarith
    with sh show ?thesis
      using True pos nowrap
      by (intro that [of "svec_shrink_to alloc sz (hvec q) (?n * 2)"]) (simp_all add: dary_deallocate_def Let_def)
  next
    case False
    with inv pos wf show ?thesis
      by (intro that [of "hvec q"]) (auto simp: dary_deallocate_def Let_def heap_wf_def)
  qed
  show nodes': "nodes ?q = nodes q" "handles ?q = handles q" by (simp_all add: v)
  have "queued ?q = queued q" by (simp add: queued_def nodes')
  then show "heap_wf sz (A - {h}) ?q"
    using wf v num fin h nodes' by (auto simp: heap_wf_def)
qed

section \<open>The operations, specified\<close>

text \<open>
  \<open>sample_heap ps n\<close> is a heap with \<open>n\<close> allocated handles \<open>0 .. n - 1\<close>, the first of them queued
  in slot order with the priorities \<open>ps\<close>: the concrete inputs of the witnesses.
\<close>

definition sample_heap :: "'p list \<Rightarrow> nat \<Rightarrow> (nat, 'p, nat) dary_heap" where
  "sample_heap ps n =
     \<lparr>hvec = \<lparr>array = map (\<lambda>i. node (ps ! i) i) [0..<length ps], size_v = length ps, capacity_v = n\<rparr>,
      num_nodes = n,
      handles = (\<lambda>h. \<lparr>hd_u = h, heap_index = (if h < length ps then h else size_max)\<rparr>)\<rparr>"

lemma nodes_sample: "nodes (sample_heap ps n) = map (\<lambda>i. node (ps ! i) i) [0..<length ps]"
  by (simp add: sample_heap_def elems_def)

lemma queued_sample: "queued (sample_heap ps n) = {..<length ps}"
  by (auto simp: queued_def nodes_sample image_image lessThan_atLeast0)

lemma heap_wf_sample:
  "length ps \<le> n \<Longrightarrow> n \<le> svec_max_size sz \<Longrightarrow> heap_wf sz {..<n} (sample_heap ps n)"
  by (auto simp: heap_wf_def queued_sample nodes_sample indexed_def svec_inv_def comp_def)
     (auto simp: sample_heap_def)

lemma dary_ord_sample:
  "dary_ord lt N (sample_heap ps n) \<longleftrightarrow> (\<forall>i < length ps. 0 < i \<longrightarrow> \<not> lt (ps ! i) (ps ! heap_parent N i))"
proof -
  have "heap_parent N i < length ps" if "i < length ps" "0 < i" for i
    using heap_parent_less [OF that(2), of N] that(1) by linarith
  then show ?thesis by (auto simp: dary_ord_def heap_ord_def nodes_sample)
qed

lemma is_queued_sample:
  "length ps \<le> size_max \<Longrightarrow> dary_is_queued (sample_heap ps n) h \<longleftrightarrow> h < length ps"
  by (auto simp: dary_is_queued_def sample_heap_def)

lemma swo_less: "strict_weak_order ((<) :: 'a::linorder \<Rightarrow> 'a \<Rightarrow> bool)"
  by unfold_locales auto

lemma svec_max_size_16: "svec_max_size 16 = 1152921504606846975"
  by (simp add: svec_max_size_def size_max_def)

lemma all_less_numeral: "(\<forall>i < numeral k. P i) \<longleftrightarrow> P (pred_numeral k) \<and> (\<forall>i < pred_numeral k. P i)"
  by (simp add: numeral_eq_Suc All_less_Suc)

lemmas sample_simps = nodes_sample queued_sample heap_wf_sample dary_ord_sample svec_max_size_16
  is_queued_sample size_max_def all_less_numeral All_less_Suc heap_parent_def

lemmas heap_eval = dary_remove_def remove_h_def dary_set_priority_def bubble_up_at_def
  sample_heap_def bubble_up_def bubble_up_loop.simps select_child_def svec_at_def svec_back_def
  place_node_def svec_set_def move_node_def set_index_def pop_back_def elems_def heap_parent_def
  narrow_index_def

lemma dary_ordD:
  "dary_ord lt N q \<Longrightarrow> 0 < i \<Longrightarrow> i < length (nodes q) \<Longrightarrow>
   \<not> lt (prio (nodes q ! i)) (prio (nodes q ! heap_parent N i))"
  by (simp add: dary_ord_def heap_ord_def)

lemma insert_facts:
  assumes "strict_weak_order lt" "heap_wf sz A q" "dary_ord lt N q" "h \<in> A" "\<not> dary_is_queued q h"
  shows "\<exists>b q'. dary_insert alloc sz lt N q h p = Inr (b, q') \<and> heap_wf sz A q' \<and> dary_ord lt N q' \<and>
    contents q' = add_mset (node p h) (contents q) \<and> (b \<longleftrightarrow> dary_get_root q' = h) \<and>
    dary_is_queued q' h \<and> (\<forall>g. dary_node_data q' g = dary_node_data q g)"
proof -
  have nq: "h \<notin> queued q" using assms(4,5) is_queued_iff [OF assms(2)] by simp
  obtain b q' where q': "dary_insert alloc sz lt N q h p = Inr (b, q')" "heap_wf sz A q'"
    "nodes q' = swim (node_lt lt) N (length (nodes q)) (nodes q @ [node p h])"
    "b \<longleftrightarrow> dary_get_root q' = h" "\<And>g. dary_node_data q' g = dary_node_data q g"
    by (rule insert_correct [OF assms(2,4) nq, of alloc lt N p]) (rule that)
  have c: "contents q' = add_mset (node p h) (contents q)"
    by (simp add: contents_def q' mset_swim)
  then have "h \<in> queued q'" by (simp add: queued_contents)
  then show ?thesis
    using q' c insert_ord [OF assms(1,2,4) nq assms(3) q'(1)] is_queued_iff [OF q'(2) assms(4)] by blast
qed

text \<open>
  C8: \<open>insert\<close> never throws (the slot was reserved by \<open>allocate\<close>, whatever the allocator does),
  keeps the structural invariant and the heap order, adds exactly the given node, leaves the data of all
  handles alone, and reports whether the node is the new root.
\<close>

theorem insert_spec:
  assumes "strict_weak_order lt" "heap_wf sz A q" "dary_ord lt N q" "h \<in> A" "\<not> dary_is_queued q h"
  shows "\<exists>b q'. dary_insert alloc sz lt N q h p = Inr (b, q') \<and> heap_wf sz A q' \<and> dary_ord lt N q' \<and>
    contents q' = add_mset (node p h) (contents q) \<and> (b \<longleftrightarrow> dary_get_root q' = h) \<and>
    dary_is_queued q' h \<and> (\<forall>g. dary_node_data q' g = dary_node_data q g)"
  by (rule insert_facts [OF assms])

theorem insert_spec_witness:
  "\<exists>b q'. dary_insert (\<lambda>_. False) 16 (<) 4 (sample_heap [3, 5, 9 :: int] 5) 4 2 = Inr (b, q') \<and>
    dary_ord (<) 4 q' \<and> (b \<longleftrightarrow> dary_get_root q' = 4)"
proof -
  let ?q = "sample_heap [3, 5, 9 :: int] 5"
  have "heap_wf 16 {..<5} ?q" "dary_ord (<) 4 ?q" "\<not> dary_is_queued ?q 4"
    by (simp_all add: sample_simps)
  from insert_spec [OF swo_less this(1,2) _ this(3), of "\<lambda>_. False" 2] show ?thesis by auto
qed

lemma pull_root_facts:
  assumes "strict_weak_order lt" "0 < N" "heap_wf sz A q" "dary_ord lt N q" "\<not> dary_empty q"
  defines "root \<equiv> node (dary_get_root_priority q) (dary_get_root q)"
    and "q' \<equiv> dary_pull_root lt N q"
  shows "root \<in># contents q" "\<forall>n \<in># contents q. \<not> lt (prio n) (prio root)"
    "heap_wf sz A q'" "dary_ord lt N q'" "contents q' = contents q - {#root#}"
    "\<not> dary_is_queued q' (hnd root)" "\<forall>g. dary_node_data q' g = dary_node_data q g"
proof -
  note wf = assms(3) and len = length_nodes [OF assms(3)]
  have pos: "0 < size_v (hvec q)" using assms(5) by (simp add: dary_empty_def svec_empty_def)
  then have root: "root = nodes q ! 0"
    by (simp add: root_def dary_get_root_priority_def dary_get_root_def elems_nth)
  have irr: "\<And>x. \<not> lt x x" by (rule strict_weak_order.irrefl [OF assms(1)])
  note rc = remove_h_correct [where lt = lt, OF wf pos assms(2) irr q'_def [unfolded dary_pull_root_def, THEN meta_eq_to_obj_eq]]
  show mem: "root \<in># contents q" using pos len by (simp add: root contents_def)
  show "\<forall>n \<in># contents q. \<not> lt (prio n) (prio root)"
    using strict_weak_order.heap_ord_root [OF node_lt_swo [OF assms(1)]] assms(4) len
    unfolding root contents_def dary_ord_def by (fastforce simp: in_set_conv_nth)
  show wf': "heap_wf sz A q'" "contents q' = contents q - {#root#}"
    and "\<forall>g. dary_node_data q' g = dary_node_data q g"
    using rc by (simp_all add: root)
  show "dary_ord lt N q'"
    unfolding q'_def dary_pull_root_def
    by (rule remove_h_ord [OF assms(1) wf pos assms(2,4)]) (simp add: removal_safe_def)
  have "hnd root \<in> A" using mem wf by (auto simp: heap_wf_def queued_contents)
  then show "\<not> dary_is_queued q' (hnd root)" using is_queued_iff [OF wf'(1)] rc(3) by (simp add: root)
qed

text \<open>
  C9: the root of a non-empty heap is a queued node no other node precedes, and \<open>pull_root\<close>
  removes exactly that node, marks its handle unqueued and keeps the invariant and the order.
\<close>

theorem pull_root_spec:
  assumes "strict_weak_order lt" "0 < N" "heap_wf sz A q" "dary_ord lt N q" "\<not> dary_empty q"
  shows "let root = node (dary_get_root_priority q) (dary_get_root q); q' = dary_pull_root lt N q in
    root \<in># contents q \<and> (\<forall>n \<in># contents q. \<not> lt (prio n) (prio root)) \<and>
    heap_wf sz A q' \<and> dary_ord lt N q' \<and> contents q' = contents q - {#root#} \<and>
    \<not> dary_is_queued q' (hnd root) \<and> (\<forall>g. dary_node_data q' g = dary_node_data q g)"
  unfolding Let_def using pull_root_facts [OF assms] by (intro conjI)

theorem pull_root_spec_witness:
  "let q = sample_heap [3, 5, 9, 7, 4, 8 :: int] 6 in
   (\<forall>n \<in># contents q. \<not> prio n < dary_get_root_priority q) \<and> dary_ord (<) 4 (dary_pull_root (<) 4 q) \<and>
   contents (dary_pull_root (<) 4 q) = contents q - {#node 3 0#}"
proof -
  let ?q = "sample_heap [3, 5, 9, 7, 4, 8 :: int] 6"
  have "heap_wf 16 {..<6} ?q" "dary_ord (<) 4 ?q" "\<not> dary_empty ?q"
    by (simp_all add: sample_simps) (simp add: dary_empty_def svec_empty_def sample_heap_def)
  moreover have "dary_get_root_priority ?q = 3" "dary_get_root ?q = 0"
    by (simp_all add: dary_get_root_priority_def dary_get_root_def svec_at_def sample_heap_def)
  ultimately show ?thesis
    using pull_root_spec [OF swo_less, of 4 16 "{..<6}" ?q] by (simp add: Let_def)
qed

lemma remove_facts:
  assumes "strict_weak_order lt" "0 < N" "heap_wf sz A q" "h \<in> A" "dary_is_queued q h"
  defines "i \<equiv> heap_index (handles q h)" and "q' \<equiv> dary_remove lt N q h"
  shows "heap_wf sz A q'" "contents q' = contents q - {#node (prio (nodes q ! i)) h#}"
    "\<not> dary_is_queued q' h" "\<forall>g. dary_node_data q' g = dary_node_data q g"
    "dary_ord lt N q \<Longrightarrow> removal_safe lt N q i \<Longrightarrow> dary_ord lt N q'"
    "\<And>g. g \<notin> queued q \<Longrightarrow> handles q' g = handles q g"
proof -
  note wf = assms(3)
  have "h \<in> queued q" using is_queued_iff [OF wf assms(4)] assms(5) by simp
  from queued_index [OF wf this] have i: "i < size_v (hvec q)" "hnd (nodes q ! i) = h"
    by (simp_all add: i_def)
  have q': "q' = remove_h lt N i q" by (simp add: q'_def dary_remove_def i_def)
  have irr: "\<And>x. \<not> lt x x" by (rule strict_weak_order.irrefl [OF assms(1)])
  note rc = remove_h_correct [where lt = lt, OF wf i(1) assms(2) irr q']
  have "node (prio (nodes q ! i)) h = nodes q ! i" by (metis i(2) node_sel(3))
  with rc show wf': "heap_wf sz A q'" "contents q' = contents q - {#node (prio (nodes q ! i)) h#}"
    "\<forall>g. dary_node_data q' g = dary_node_data q g" by simp_all
  show "\<not> dary_is_queued q' h" using is_queued_iff [OF wf'(1) assms(4)] rc(3) i(2) by simp
  show "dary_ord lt N q'" if "dary_ord lt N q" "removal_safe lt N q i"
    unfolding q' by (rule remove_h_ord [OF assms(1) wf i(1) assms(2) that])
  show "\<And>g. g \<notin> queued q \<Longrightarrow> handles q' g = handles q g" by (rule rc(5))
qed

text \<open>
  C14: \<open>remove\<close> of a queued handle takes exactly its node out of the heap and keeps the
  structural invariant; it keeps the heap order when the last node is not smaller than the parent of
  the removed one, in particular when the removed node is the root or the last.
\<close>

theorem remove_spec:
  assumes "strict_weak_order lt" "0 < N" "heap_wf sz A q" "h \<in> A" "dary_is_queued q h"
  shows "let i = heap_index (handles q h); q' = dary_remove lt N q h in
    heap_wf sz A q' \<and> contents q' = contents q - {#node (prio (nodes q ! i)) h#} \<and>
    \<not> dary_is_queued q' h \<and> (\<forall>g. dary_node_data q' g = dary_node_data q g) \<and>
    (dary_ord lt N q \<and> removal_safe lt N q i \<longrightarrow> dary_ord lt N q')"
  unfolding Let_def using remove_facts [OF assms] by (intro conjI impI) auto

theorem remove_spec_witness:
  "let q = sample_heap [3, 5, 9, 7, 4, 8 :: int] 6; q' = dary_remove (<) 4 q 2 in
   heap_wf 16 {..<6} q' \<and> \<not> dary_is_queued q' 2 \<and> dary_ord (<) 4 q' \<and>
   contents q' = contents q - {#node 9 2#}"
proof -
  let ?q = "sample_heap [3, 5, 9, 7, 4, 8 :: int] 6"
  have "heap_wf 16 {..<6} ?q" "dary_ord (<) 4 ?q" "dary_is_queued ?q 2"
    by (simp_all add: sample_simps)
  moreover have "heap_index (handles ?q 2) = 2" "nodes ?q ! 2 = node 9 2" "removal_safe (<) 4 ?q 2"
    by (simp_all add: removal_safe_def sample_simps) (simp_all add: sample_heap_def)
  ultimately show ?thesis
    using remove_spec [OF swo_less, of 4 16 "{..<6}" ?q 2] by (simp add: Let_def)
qed

text \<open>
  \<open>remove\<close> of an inner node can break the heap order: the last node, moved into the freed
  slot, is only compared with the children of that slot, never with its parent.
\<close>

theorem remove_breaks_order:
  "let q = sample_heap [1, 100, 2, 3, 4, 101, 102, 103, 104, 5, 6 :: int] 11 in
   heap_wf 16 {..<11} q \<and> dary_ord (<) 4 q \<and> \<not> dary_ord (<) 4 (dary_remove (<) 4 q 5)"
proof -
  let ?q = "sample_heap [1, 100, 2, 3, 4, 101, 102, 103, 104, 5, 6 :: int] 11"
  let ?r = "dary_remove (<) 4 ?q 5"
  have "length (nodes ?r) = 10" "prio (nodes ?r ! 5) = 6" "prio (nodes ?r ! heap_parent 4 5) = 100"
    by (simp_all add: heap_eval)
  then have "\<not> dary_ord (<) 4 ?r" using dary_ordD [of "(<)" 4 ?r 5] by auto
  then show ?thesis by (simp add: Let_def sample_simps)
qed

lemma remove_filter:
  assumes wf: "heap_wf sz A q" and h: "h \<in> A" "dary_is_queued q h"
    and q': "heap_wf sz A q'" "contents q' = contents q - {#node (prio (nodes q ! heap_index (handles q h))) h#}"
      "\<not> dary_is_queued q' h"
  shows "contents q' = filter_mset (\<lambda>n. hnd n \<noteq> h) (contents q)"
proof -
  let ?n = "node (prio (nodes q ! heap_index (handles q h))) h"
  have "h \<in> queued q" using is_queued_iff [OF wf h(1)] h(2) by simp
  from queued_index [OF wf this] have "?n \<in># contents q"
    using length_nodes [OF wf] by (metis contents_def node_sel(3) nth_mem set_mset_mset)
  then have split: "contents q = add_mset ?n (contents q')" using q'(2) by simp
  have "h \<notin> hnd ` set_mset (contents q')" using is_queued_iff [OF q'(1) h(1)] q'(3) by (simp add: queued_contents)
  then have "\<forall>n \<in># contents q'. hnd n \<noteq> h" by (metis imageI)
  then have "filter_mset (\<lambda>n. hnd n \<noteq> h) (contents q') = contents q'" by (simp add: filter_mset_eq_conv)
  then show ?thesis unfolding split by simp
qed

lemma set_priority_facts:
  assumes "strict_weak_order lt" "0 < N" "heap_wf sz A q" "h \<in> A" "dary_is_queued q h"
    and "dary_size q \<le> 2 ^ 31" and "dary_set_priority lt N q h p = (b, q')"
  defines "i \<equiv> heap_index (handles q h)"
  shows "heap_wf sz A q'"
    "contents q' = add_mset (node p h) (contents q - {#node (prio (nodes q ! i)) h#})"
    "b \<longleftrightarrow> \<not> lt (prio (nodes q ! i)) p \<and> dary_get_root q' = h"
    "\<forall>g. dary_node_data q' g = dary_node_data q g"
    "dary_ord lt N q \<Longrightarrow> \<not> lt (prio (nodes q ! i)) p \<or> (\<exists>k. dary_size q - 1 = k * N + 1) \<Longrightarrow>
     dary_ord lt N q'"
proof -
  note wf = assms(3) and swo = assms(1)
  have hq: "h \<in> queued q" using is_queued_iff [OF wf assms(4)] assms(5) by simp
  from queued_index [OF wf this] have i: "i < length (nodes q)" "hnd (nodes q ! i) = h"
    using length_nodes [OF wf] by (simp_all add: i_def)
  have irr: "\<And>x. \<not> lt x x" by (rule strict_weak_order.irrefl [OF swo])
  have small: "size_v (hvec q) \<le> 2 ^ 31" using assms(6) by (simp add: dary_size_def)
  let ?xs = "(nodes q)[i := node p h]"
  note sp = set_priority_correct [where lt = lt, OF wf hq assms(2) irr small assms(7), folded i_def]
  then have nodes': "nodes q' = (if lt (prio (nodes q ! i)) p
      then sink (node_lt lt) N (code_select lt N (size_v (hvec q) - 1)) i ?xs
      else swim (node_lt lt) N i ?xs)" by blast
  then have "mset (nodes q') = mset ?xs" using i by (simp add: mset_sink mset_swim)
  moreover have "node (prio (nodes q ! i)) h = nodes q ! i" by (metis i(2) node_sel(3))
  ultimately show "contents q' = add_mset (node p h) (contents q - {#node (prio (nodes q ! i)) h#})"
    using i(1) by (simp add: contents_def fill_pos_mset)
  show "heap_wf sz A q'" "b \<longleftrightarrow> \<not> lt (prio (nodes q ! i)) p \<and> dary_get_root q' = h"
    "\<forall>g. dary_node_data q' g = dary_node_data q g" using sp by blast+
  note nlt = node_lt_swo [OF swo]
  assume ord: "dary_ord lt N q" and safe: "\<not> lt (prio (nodes q ! i)) p \<or> (\<exists>k. dary_size q - 1 = k * N + 1)"
  show "dary_ord lt N q'"
  proof (cases "lt (prio (nodes q ! i)) p")
    case True
    with safe obtain k where k: "size_v (hvec q) - 1 = k * N + 1" by (auto simp: dary_size_def)
    have "least_child (node_lt lt) N (code_select lt N (size_v (hvec q) - 1)) (length ?xs)"
      using k length_nodes [OF wf] i(1) by (intro code_select_least [OF swo assms(2)]) auto
    moreover have "sink_inv (node_lt lt) N i ?xs"
      using True ord i(1) by (intro strict_weak_order.sink_inv_increase [OF nlt]) (simp_all add: dary_ord_def)
    ultimately have "heap_ord (node_lt lt) N
        (sink (node_lt lt) N (code_select lt N (size_v (hvec q) - 1)) i ?xs)"
      by (rule strict_weak_order.sink_heap_ord [OF nlt assms(2)])
    with True nodes' show ?thesis by (simp add: dary_ord_def)
  next
    case False
    have "swim_inv (node_lt lt) N i ?xs"
      using False ord i(1) by (intro strict_weak_order.swim_inv_decrease [OF nlt]) (simp_all add: dary_ord_def)
    then show ?thesis
      using strict_weak_order.swim_heap_ord [OF nlt] False nodes' by (simp add: dary_ord_def)
  qed
qed

text \<open>
  \<open>set_priority\<close> gives the node of a queued handle the new priority and leaves the set of
  queued handles, the invariant and the data alone. A decrease keeps the heap order; an increase
  keeps it when the last slot is the first child of its parent. The result is true exactly when
  the key was not increased and the node is the root afterwards.
\<close>

theorem set_priority_spec:
  assumes "strict_weak_order lt" "0 < N" "heap_wf sz A q" "h \<in> A" "dary_is_queued q h"
    and "dary_size q \<le> 2 ^ 31" and "dary_set_priority lt N q h p = (b, q')"
  shows "let old = prio (nodes q ! heap_index (handles q h)) in
    heap_wf sz A q' \<and> contents q' = add_mset (node p h) (contents q - {#node old h#}) \<and>
    (b \<longleftrightarrow> \<not> lt old p \<and> dary_get_root q' = h) \<and>
    (\<forall>g. dary_node_data q' g = dary_node_data q g) \<and>
    (dary_ord lt N q \<and> (\<not> lt old p \<or> (\<exists>k. dary_size q - 1 = k * N + 1)) \<longrightarrow> dary_ord lt N q')"
  unfolding Let_def using set_priority_facts [OF assms] by (intro conjI impI) auto

theorem set_priority_spec_witness:
  "let q = sample_heap [3, 5, 9, 7, 4, 8 :: int] 6; q' = snd (dary_set_priority (<) 4 q 0 10) in
   heap_wf 16 {..<6} q' \<and> dary_ord (<) 4 q' \<and>
   contents q' = add_mset (node 10 0) (contents q - {#node 3 0#})"
proof -
  let ?q = "sample_heap [3, 5, 9, 7, 4, 8 :: int] 6"
  have "heap_wf 16 {..<6} ?q" "dary_ord (<) 4 ?q" "dary_is_queued ?q 0"
    by (simp_all add: sample_simps)
  moreover have "heap_index (handles ?q 0) = 0" "nodes ?q ! 0 = node 3 0" "dary_size ?q = 6"
    by (simp_all add: sample_simps) (simp_all add: sample_heap_def dary_size_def)
  moreover have "(6 :: nat) - 1 = 1 * 4 + 1" by simp
  ultimately show ?thesis
    using set_priority_spec [OF swo_less, of 4 16 "{..<6}" ?q 0 10] by (simp add: Let_def prod_eq_iff)
qed

text \<open>
  Increasing a key through \<open>set_priority\<close> can break the heap order: the loop looks at the
  children below \<open>size() - 1\<close>, so the last node is never selected unless it is a first child.
\<close>

theorem increase_key_breaks_order:
  "let q = sample_heap [1, 5, 3 :: int] 3 in
   heap_wf 16 {..<3} q \<and> dary_ord (<) 4 q \<and> \<not> dary_ord (<) 4 (snd (dary_set_priority (<) 4 q 0 10))"
proof -
  let ?q = "sample_heap [1, 5, 3 :: int] 3"
  let ?r = "snd (dary_set_priority (<) 4 ?q 0 10)"
  have "length (nodes ?r) = 3" "prio (nodes ?r ! 2) = 3" "prio (nodes ?r ! heap_parent 4 2) = 5"
    by (simp_all add: heap_eval)
  then have "\<not> dary_ord (<) 4 ?r" using dary_ordD [of "(<)" 4 ?r 2] by auto
  then show ?thesis by (simp add: Let_def sample_simps)
qed

end
