(* ===== verification/Prio_Queue.thy ===== *)
theory Prio_Queue
  imports Daryheap_Props
begin

text \<open>
  The interface of a priority queue the event queue and the timer queues rely on, as a locale: a
  root that no queued node precedes, and a removal of exactly the root. \<open>drain\<close> is the client
  that takes roots until the queue is empty; it returns the nodes in priority order.
\<close>

fun drain :: "('q \<Rightarrow> bool) \<Rightarrow> ('q \<Rightarrow> 'n) \<Rightarrow> ('q \<Rightarrow> 'q) \<Rightarrow> nat \<Rightarrow> 'q \<Rightarrow> 'n list" where
  "drain emp root pull 0 q = []"
| "drain emp root pull (Suc n) q =
     (if emp q then [] else root q # drain emp root pull n (pull q))"

locale prio_queue = strict_weak_order lt
  for lt :: "'p \<Rightarrow> 'p \<Rightarrow> bool" +
  fixes inv :: "'q \<Rightarrow> bool"
    and items :: "'q \<Rightarrow> ('h, 'p) heap_node multiset"
    and emp :: "'q \<Rightarrow> bool"
    and root :: "'q \<Rightarrow> ('h, 'p) heap_node"
    and pull :: "'q \<Rightarrow> 'q"
  assumes emp_items: "inv q \<Longrightarrow> emp q \<longleftrightarrow> items q = {#}"
    and root_item: "inv q \<Longrightarrow> \<not> emp q \<Longrightarrow> root q \<in># items q"
    and root_least: "inv q \<Longrightarrow> \<not> emp q \<Longrightarrow> n \<in># items q \<Longrightarrow> \<not> lt (prio n) (prio (root q))"
    and pull_inv: "inv q \<Longrightarrow> \<not> emp q \<Longrightarrow> inv (pull q)"
    and pull_items: "inv q \<Longrightarrow> \<not> emp q \<Longrightarrow> items (pull q) = items q - {#root q#}"
begin

lemma drain_items: "inv q \<Longrightarrow> size (items q) \<le> n \<Longrightarrow> mset (drain emp root pull n q) = items q"
proof (induction n arbitrary: q)
  case (Suc n)
  show ?case
  proof (cases "emp q")
    case True
    with Suc.prems show ?thesis by (simp add: emp_items)
  next
    case False
    note q = Suc.prems(1) False
    have "size (items (pull q)) \<le> n"
      using Suc.prems(2) root_item [OF q] by (simp add: pull_items [OF q] size_Diff_singleton)
    with Suc.IH [OF pull_inv [OF q]] have "mset (drain emp root pull n (pull q)) = items q - {#root q#}"
      by (simp add: pull_items [OF q])
    with False root_item [OF q] show ?thesis by simp
  qed
qed simp

lemma drain_subset: "inv q \<Longrightarrow> n \<in> set (drain emp root pull k q) \<Longrightarrow> n \<in># items q"
proof (induction k arbitrary: q)
  case (Suc k)
  show ?case
  proof (cases "emp q")
    case True
    with Suc.prems show ?thesis by simp
  next
    case False
    note q = Suc.prems(1) False
    have "n = root q \<or> n \<in> set (drain emp root pull k (pull q))" using Suc.prems(2) False by simp
    then show ?thesis
      using root_item [OF q] Suc.IH [OF pull_inv [OF q]] by (auto simp: pull_items [OF q] dest: in_diffD)
  qed
qed simp

lemma drain_sorted:
  "inv q \<Longrightarrow> sorted_wrt (\<lambda>a b. \<not> lt (prio b) (prio a)) (drain emp root pull n q)"
proof (induction n arbitrary: q)
  case (Suc n)
  show ?case
  proof (cases "emp q")
    case False
    note q = Suc.prems False
    have "\<not> lt (prio m) (prio (root q))" if "m \<in> set (drain emp root pull n (pull q))" for m
      using root_least [OF q] drain_subset [OF pull_inv [OF q] that] by (auto simp: pull_items [OF q] dest: in_diffD)
    with False Suc.IH [OF pull_inv [OF q]] show ?thesis by simp
  qed simp
qed simp

end

section \<open>The d-ary heap is a priority queue\<close>

definition root_node :: "('h, 'p, 't) dary_heap \<Rightarrow> ('h, 'p) heap_node" where
  "root_node q = node (dary_get_root_priority q) (dary_get_root q)"

definition heap_ok :: "nat \<Rightarrow> ('p \<Rightarrow> 'p \<Rightarrow> bool) \<Rightarrow> nat \<Rightarrow> 'h set \<Rightarrow> ('h, 'p, 't) dary_heap \<Rightarrow> bool" where
  "heap_ok sz lt N A q \<longleftrightarrow> heap_wf sz A q \<and> dary_ord lt N q"

lemma empty_contents: "heap_wf sz A q \<Longrightarrow> dary_empty q \<longleftrightarrow> contents q = {#}"
  using length_nodes by (fastforce simp: dary_empty_def svec_empty_def contents_def)

lemma heap_prio_queue:
  assumes swo: "strict_weak_order lt" and N: "0 < N"
  shows "prio_queue lt (heap_ok sz lt N A) contents dary_empty root_node (dary_pull_root lt N)"
proof (intro prio_queue.intro prio_queue_axioms.intro swo)
  fix q :: "('b, 'a, 'c) dary_heap"
  assume q: "heap_ok sz lt N A q"
  then have wf: "heap_wf sz A q" "dary_ord lt N q" by (simp_all add: heap_ok_def)
  show "dary_empty q \<longleftrightarrow> contents q = {#}" by (rule empty_contents [OF wf(1)])
  assume "\<not> dary_empty q"
  note facts = pull_root_facts [OF swo N wf this, folded root_node_def]
  show "root_node q \<in># contents q" "heap_ok sz lt N A (dary_pull_root lt N q)"
    "contents (dary_pull_root lt N q) = contents q - {#root_node q#}"
    "n \<in># contents q \<Longrightarrow> \<not> lt (prio n) (prio (root_node q))" for n
    using facts by (simp_all add: heap_ok_def)
qed

end
