(* ===== verification/Time_val.thy ===== *)
theory Time_val
  imports Prelude "HOL-Library.Monad_Syntax"
begin

text \<open>
  The time arithmetic of \<open>timerbase.h\<close>: \<open>time_val\<close>, a wrapper of \<open>struct timespec\<close> with
  operators, and \<open>divide_timespec\<close>. A time is a record of seconds (\<open>time_t\<close>) and nanoseconds
  (\<open>long\<close>), both 64-bit signed integers: arithmetic that leaves their range is undefined behaviour, and
  \<open>long_ck\<close> makes every operator that can do so return \<open>None\<close>. \<open>ns\<close> is the time in
  nanoseconds and \<open>norm\<close> a time as the clocks deliver it and the kernel accepts it: seconds
  from zero to the largest \<open>time_t\<close>, nanoseconds below one second.

  \<open>divide_timespec\<close> counts in \<open>int\<close>: \<open>None\<close> is again the undefined behaviour of an overflow or of a
  division by zero, or a loop that does not end.
\<close>

record timespec =
  tv_sec :: int
  tv_nsec :: int

type_synonym time_val = timespec

definition mk_time :: "int \<Rightarrow> int \<Rightarrow> time_val" where
  "mk_time s n = \<lparr>tv_sec = s, tv_nsec = n\<rparr>"

definition long_ck :: "int \<Rightarrow> int option" where
  "long_ck i = (if - (2 ^ 63) \<le> i \<and> i < 2 ^ 63 then Some i else None)"

definition time_minus :: "time_val \<Rightarrow> time_val \<Rightarrow> time_val option" where
  "time_minus t1 t2 = do {
     s \<leftarrow> long_ck (tv_sec t1 - tv_sec t2);
     if tv_nsec t1 \<ge> tv_nsec t2 then do { n \<leftarrow> long_ck (tv_nsec t1 - tv_nsec t2); Some (mk_time s n) }
     else do {
       n \<leftarrow> long_ck (1000000000 - tv_nsec t2);
       n \<leftarrow> long_ck (n + tv_nsec t1);
       s \<leftarrow> long_ck (s - 1);
       Some (mk_time s n)
     }
   }"

definition time_plus :: "time_val \<Rightarrow> time_val \<Rightarrow> time_val option" where
  "time_plus t1 t2 = do {
     n \<leftarrow> long_ck (tv_nsec t1 + tv_nsec t2);
     s \<leftarrow> long_ck (tv_sec t1 + tv_sec t2);
     if n \<ge> 1000000000 then do { s \<leftarrow> long_ck (s + 1); Some (mk_time s (n - 1000000000)) }
     else Some (mk_time s n)
   }"

definition time_plus_assign :: "time_val \<Rightarrow> time_val \<Rightarrow> time_val option" where
  "time_plus_assign t1 t2 = do {
     nsum \<leftarrow> long_ck (tv_nsec t1 + tv_nsec t2);
     s \<leftarrow> long_ck (tv_sec t1 + tv_sec t2);
     let t = t1\<lparr>tv_sec := s\<rparr>;
     (nsum, t) \<leftarrow> (if nsum \<ge> 1000000000
                   then do { s \<leftarrow> long_ck (tv_sec t + 1); Some (nsum - 1000000000, t\<lparr>tv_sec := s\<rparr>) }
                   else Some (nsum, t));
     Some (t\<lparr>tv_nsec := nsum\<rparr>)
   }"

definition time_minus_assign :: "time_val \<Rightarrow> time_val \<Rightarrow> time_val option" where
  "time_minus_assign t1 t2 = do {
     s \<leftarrow> long_ck (tv_sec t1 - tv_sec t2);
     let t = t1\<lparr>tv_sec := s\<rparr>;
     if tv_nsec t \<ge> tv_nsec t2 then do { n \<leftarrow> long_ck (tv_nsec t - tv_nsec t2); Some (t\<lparr>tv_nsec := n\<rparr>) }
     else do {
       n \<leftarrow> long_ck (1000000000 - tv_nsec t2);
       n \<leftarrow> long_ck (n + tv_nsec t);
       s \<leftarrow> long_ck (tv_sec t - 1);
       Some (t\<lparr>tv_nsec := n, tv_sec := s\<rparr>)
     }
   }"

definition time_less :: "time_val \<Rightarrow> time_val \<Rightarrow> bool" where
  "time_less t1 t2 =
     (if tv_sec t1 < tv_sec t2 then True
      else if tv_sec t1 = tv_sec t2 \<and> tv_nsec t1 < tv_nsec t2 then True else False)"

definition time_eq :: "time_val \<Rightarrow> time_val \<Rightarrow> bool" where
  "time_eq t1 t2 \<longleftrightarrow> tv_sec t1 = tv_sec t2 \<and> tv_nsec t1 = tv_nsec t2"

definition time_le :: "time_val \<Rightarrow> time_val \<Rightarrow> bool" where
  "time_le t1 t2 =
     (if tv_sec t1 < tv_sec t2 then True
      else if tv_sec t1 = tv_sec t2 \<and> tv_nsec t1 \<le> tv_nsec t2 then True else False)"

definition shl1 :: "time_val \<Rightarrow> time_val option" where
  "shl1 t = do {
     s \<leftarrow> long_ck (tv_sec t * 2);
     n \<leftarrow> long_ck (tv_nsec t * 2);
     if n \<ge> 1000000000 then do { s \<leftarrow> long_ck (s + 1); Some (mk_time s (n - 1000000000)) }
     else Some (mk_time s n)
   }"

definition shr1 :: "time_val \<Rightarrow> time_val" where
  "shr1 t = mk_time (c_div (tv_sec t) 2)
     (c_div (tv_nsec t) 2 + (if tv_sec t mod 2 = 1 then 500000000 else 0))"

definition shl_assign :: "time_val \<Rightarrow> int \<Rightarrow> time_val option" where
  "shl_assign t n = ((\<lambda>r. Option.bind r shl1) ^^ nat n) (Some t)"

definition shr_assign :: "time_val \<Rightarrow> int \<Rightarrow> time_val" where
  "shr_assign t n = (shr1 ^^ nat n) t"

definition compare_timespec :: "timespec \<Rightarrow> timespec \<Rightarrow> bool" where
  "compare_timespec a b =
     (if tv_sec a < tv_sec b then True
      else if tv_sec a = tv_sec b then tv_nsec a < tv_nsec b
      else False)"

text \<open>The two loops of \<open>divide_timespec\<close>: doubling the denominator, then subtracting on the way
  back.\<close>

partial_function (option) shift_loop :: "time_val \<Rightarrow> int \<Rightarrow> time_val \<Rightarrow> (time_val \<times> int) option" where
  "shift_loop d nval r =
     (if tv_sec d < tv_sec r then
        Option.bind (shl_assign d 1) (\<lambda>d. Option.bind (int_ck (nval * 2)) (\<lambda>nval. shift_loop d nval r))
      else Some (d, nval))"

function sub_loop :: "time_val \<Rightarrow> int \<Rightarrow> time_val \<Rightarrow> int \<Rightarrow> (int \<times> time_val) option" where
  "sub_loop d nval r rval =
     (if nval > 0 then
        (if time_le d r then
           Option.bind (time_minus_assign r d) (\<lambda>r. Option.bind (int_ck (rval + nval))
             (\<lambda>rval. sub_loop (shr_assign d 1) (c_div nval 2) r rval))
         else sub_loop (shr_assign d 1) (c_div nval 2) r rval)
      else Some (rval, r))"
  by pat_completeness auto
termination by (relation "measure (\<lambda>(d, nval, r, rval). nat nval)") auto

definition divide_timespec :: "timespec \<Rightarrow> timespec \<Rightarrow> (int \<times> timespec) option" where
  "divide_timespec num den =
     (if tv_sec num < tv_sec den then Some (0, num)
      else if tv_sec num = tv_sec den then
        if tv_nsec num < tv_nsec den then Some (0, num)
        else if tv_sec num = 0 then
          if tv_nsec den = 0 then None
          else Some (to_int (c_div (tv_nsec num) (tv_nsec den)), mk_time 0 (c_mod (tv_nsec num) (tv_nsec den)))
        else do { n \<leftarrow> long_ck (tv_nsec num - tv_nsec den); Some (1, mk_time 0 n) }
      else do {
        let n = mk_time (tv_sec num) (tv_nsec num);
        let d = mk_time (tv_sec den) (tv_nsec den);
        r \<leftarrow> time_minus_assign n d;
        if time_less r d then Some (1, r)
        else do { (d, nval) \<leftarrow> shift_loop d 1 r; sub_loop d nval r 1 }
      })"

definition time_divide :: "time_val \<Rightarrow> time_val \<Rightarrow> int option" where
  "time_divide t1 t2 = map_option fst (divide_timespec t1 t2)"

declare sub_loop.simps [simp del]

section \<open>Times as nanoseconds\<close>

definition ns :: "timespec \<Rightarrow> int" where
  "ns t = tv_sec t * 1000000000 + tv_nsec t"

definition norm :: "timespec \<Rightarrow> bool" where
  "norm t \<longleftrightarrow> 0 \<le> tv_sec t \<and> tv_sec t < 2 ^ 63 \<and> 0 \<le> tv_nsec t \<and> tv_nsec t < 1000000000"

text \<open>The first instant that no \<open>timespec\<close> can hold.\<close>

definition time_end :: int where
  "time_end = 2 ^ 63 * 1000000000"

lemma mk_time_sel [simp]: "tv_sec (mk_time s n) = s" "tv_nsec (mk_time s n) = n"
  by (simp_all add: mk_time_def)

lemma mk_time_eta [simp]: "mk_time (tv_sec t) (tv_nsec t) = t"
  by (simp add: mk_time_def)

lemma long_ck_ok: "- (2 ^ 63) \<le> i \<Longrightarrow> i < 2 ^ 63 \<Longrightarrow> long_ck i = Some i"
  by (simp add: long_ck_def)

lemma norm_ns: "norm t \<Longrightarrow> 0 \<le> ns t" "norm t \<Longrightarrow> ns t < time_end"
  by (auto simp: norm_def ns_def time_end_def)

text \<open>A difference of such times always fits; it is one of them if it is not negative.\<close>

lemma time_minus_ns:
  assumes "norm a" "norm b"
  shows "\<exists>c. time_minus a b = Some c \<and> ns c = ns a - ns b \<and> 0 \<le> tv_nsec c \<and> tv_nsec c < 1000000000 \<and>
    (norm c \<longleftrightarrow> ns b \<le> ns a)"
  using assms by (auto simp: time_minus_def norm_def ns_def long_ck_ok)

lemma time_minus_norm:
  assumes "norm a" "norm b" "ns b \<le> ns a"
  obtains c where "time_minus a b = Some c" "norm c" "ns c = ns a - ns b"
  using time_minus_ns [OF assms(1,2)] assms(3) by blast

lemma time_minus_assign_eq: "time_minus_assign a b = time_minus a b"
  by (cases a) (simp add: time_minus_assign_def time_minus_def mk_time_def Let_def cong: if_cong)

lemma time_plus_ns:
  assumes "norm a" "norm b"
  shows "if ns a + ns b < time_end then \<exists>c. time_plus a b = Some c \<and> norm c \<and> ns c = ns a + ns b
    else time_plus a b = None"
  using assms by (auto simp: time_plus_def norm_def ns_def long_ck_def time_end_def Option.bind_eq_None_conv)

lemma time_plus_assign_eq: "time_plus_assign a b = time_plus a b"
  by (cases a) (auto simp: time_plus_assign_def time_plus_def mk_time_def Let_def split: Option.bind_splits)

lemma time_less_ns: "norm a \<Longrightarrow> norm b \<Longrightarrow> time_less a b \<longleftrightarrow> ns a < ns b"
  by (auto simp: time_less_def norm_def ns_def)

lemma time_le_ns: "norm a \<Longrightarrow> norm b \<Longrightarrow> time_le a b \<longleftrightarrow> ns a \<le> ns b"
  by (auto simp: time_le_def norm_def ns_def)

lemma compare_timespec_less: "compare_timespec = time_less"
  by (auto simp: fun_eq_iff compare_timespec_def time_less_def)

lemma shl1_ns:
  assumes "norm t"
  shows "if 2 * ns t < time_end then \<exists>c. shl1 t = Some c \<and> norm c \<and> ns c = 2 * ns t else shl1 t = None"
  using assms by (auto simp: shl1_def norm_def ns_def long_ck_def time_end_def)

lemma shr1_ns:
  assumes "norm t"
  shows "norm (shr1 t)" "ns (shr1 t) = ns t div 2"
proof -
  obtain k b where k: "tv_sec t = 2 * k + b" "b = 0 \<or> b = 1"
    by (metis add_diff_cancel_left' div_mult_mod_eq mod2_eq_if mult.commute that)
  with assms show "norm (shr1 t)" "ns (shr1 t) = ns t div 2"
    by (auto simp: shr1_def norm_def ns_def)
qed

lemma compare_timespec_swo: "strict_weak_order compare_timespec"
  by unfold_locales (auto simp: compare_timespec_def split: if_splits)

section \<open>Division\<close>

lemma shift_loop_correct:
  assumes "norm d" "0 < ns d" "norm r" "1 \<le> nval" "ns r * nval < 2 ^ 29 * ns d" "tv_sec r \<le> 2 ^ 62"
  shows "\<exists>k d'. shift_loop d nval r = Some (d', nval * 2 ^ k) \<and> norm d' \<and> ns d' = ns d * 2 ^ k \<and>
    (k = 0 \<or> nval * 2 ^ k < 2 ^ 30) \<and> (1 \<le> tv_sec r \<or> ns r < 2 * ns d \<longrightarrow> ns r < 2 * ns d')"
  using assms
proof (induction "nat (ns r - ns d)" arbitrary: d nval rule: less_induct)
  case less
  show ?case
  proof (cases "tv_sec d < tv_sec r")
    case True
    then have dr: "ns d < ns r" using less.prems by (auto simp: ns_def norm_def)
    then have "ns d * nval < ns r * nval" using less.prems by simp
    with less.prems(5) have "ns d * nval < ns d * 2 ^ 29" by (simp only: mult.commute [of _ "ns d"])
    then have n: "nval < 2 ^ 29" using mult_less_cancel_left_pos [OF less.prems(2)] by blast
    have "2 * ns d < time_end" using True less.prems(1,6) by (simp add: ns_def norm_def time_end_def)
    then obtain d2 where d': "shl1 d = Some d2" "norm d2" "ns d2 = 2 * ns d"
      using shl1_ns [OF less.prems(1)] by auto
    have "\<exists>k d'. shift_loop d2 (nval * 2) r = Some (d', nval * 2 * 2 ^ k) \<and> norm d' \<and>
        ns d' = ns d2 * 2 ^ k \<and> (k = 0 \<or> nval * 2 * 2 ^ k < 2 ^ 30) \<and>
        (1 \<le> tv_sec r \<or> ns r < 2 * ns d2 \<longrightarrow> ns r < 2 * ns d')"
      using less.prems dr d' by (intro less.hyps) (auto simp: mult.commute mult.left_commute)
    then obtain k d'' where k: "shift_loop d2 (nval * 2) r = Some (d'', nval * 2 * 2 ^ k)"
        "norm d''" "ns d'' = ns d2 * 2 ^ k" "k = 0 \<or> nval * 2 * 2 ^ k < 2 ^ 30"
        "1 \<le> tv_sec r \<or> ns r < 2 * ns d2 \<longrightarrow> ns r < 2 * ns d''" by blast
    have "shift_loop d nval r = Some (d'', nval * 2 ^ Suc k)"
      using True n k(1) less.prems(4) by (subst shift_loop.simps) (simp add: shl_assign_def mult.assoc int_ck_def d'(1))
    moreover have "1 \<le> tv_sec r"
      using True less.prems(1,2) by (auto simp: ns_def norm_def)
    moreover have "nval * 2 ^ Suc k < 2 ^ 30"
      using k(4) n by (auto simp: mult.assoc)
    moreover have "ns d'' = ns d * 2 ^ Suc k" using k(3) d'(3) by simp
    ultimately show ?thesis using k(2,5) by blast
  next
    case False
    then have "shift_loop d nval r = Some (d, nval * 2 ^ 0)" by (subst shift_loop.simps) simp
    moreover have "1 \<le> tv_sec r \<Longrightarrow> ns r < 2 * ns d"
      using False less.prems by (auto simp: ns_def norm_def)
    ultimately show ?thesis using less.prems by (intro exI [of _ 0] exI [of _ d]) auto
  qed
qed

lemma sub_loop_correct:
  assumes "norm d" "0 < den" "ns d = den * 2 ^ k" "norm r"
    and "1 \<le> rval" "rval + 2 * 2 ^ k \<le> 2 ^ 31"
  shows "\<exists>q r'. sub_loop d (2 ^ k) r rval = Some (q, r') \<and> norm r' \<and>
    ns r = (q - rval) * den + ns r' \<and> (ns r < 2 * ns d \<longrightarrow> ns r' < den)"
  using assms
proof (induction k arbitrary: d r rval)
  case 0
  show ?case
  proof (cases "time_le d r")
    case True
    then have "ns d \<le> ns r" using 0 time_le_ns by simp
    then obtain r' where r': "time_minus r d = Some r'" "norm r'" "ns r' = ns r - ns d"
      using time_minus_norm [OF 0(4,1)] by blast
    then have "sub_loop d 1 r rval = Some (rval + 1, r')"
      using True 0 by (subst sub_loop.simps) (simp add: sub_loop.simps time_minus_assign_eq int_ck_def c_div_def)
    then show ?thesis using 0 r' by simp
  next
    case False
    then have "sub_loop d 1 r rval = Some (rval, r)" by (subst sub_loop.simps) (simp add: sub_loop.simps c_div_def)
    with False 0 time_le_ns show ?thesis by simp
  qed
next
  case (Suc k)
  have d: "norm (shr1 d)" "ns (shr1 d) = den * 2 ^ k"
    using shr1_ns [of d] Suc.prems by simp_all
  have half: "c_div (2 ^ Suc k) 2 = 2 ^ k" by simp
  show ?case
  proof (cases "time_le d r")
    case True
    then have dr: "ns d \<le> ns r" using Suc.prems time_le_ns by simp
    obtain r1 where r: "norm r1" "ns r1 = ns r - ns d" "time_minus r d = Some r1"
      using time_minus_norm [OF Suc.prems(4,1) dr] by blast
    have "\<exists>q r'. sub_loop (shr1 d) (2 ^ k) r1 (rval + 2 ^ Suc k) = Some (q, r') \<and> norm r' \<and>
        ns r1 = (q - (rval + 2 ^ Suc k)) * den + ns r' \<and> (ns r1 < 2 * ns (shr1 d) \<longrightarrow> ns r' < den)"
      using Suc.prems d r dr by (intro Suc.IH) (simp_all add: add_increasing2)
    moreover have "sub_loop d (2 ^ Suc k) r rval = sub_loop (shr1 d) (2 ^ k) r1 (rval + 2 ^ Suc k)"
    proof -
      have "(0 :: int) < 2 ^ Suc k" by simp
      then have "rval + 2 ^ Suc k < 2 ^ 31" "- (2 ^ 31) \<le> rval + 2 ^ Suc k" using Suc.prems(5,6) by linarith+
      with True half show ?thesis
        by (subst sub_loop.simps) (simp add: shr_assign_def time_minus_assign_eq int_ck_def r(3))
    qed
    ultimately show ?thesis using r d Suc.prems(3) by (auto simp: algebra_simps)
  next
    case False
    then have dr: "ns r < ns d" using Suc.prems time_le_ns by simp
    have "sub_loop d (2 ^ Suc k) r rval = sub_loop (shr1 d) (2 ^ k) r rval"
      using False half by (subst sub_loop.simps) (simp add: shr_assign_def)
    moreover have "(0 :: int) < 2 ^ k" by simp
    then have "rval + 2 * 2 ^ k \<le> 2 ^ 31" using Suc.prems(6) unfolding power_Suc by linarith
    ultimately show ?thesis using Suc.IH [OF d(1) Suc.prems(2) d(2) Suc.prems(4,5)] dr d Suc.prems(3) by auto
  qed
qed

text \<open>The quotient is right unless both the denominator and the first difference are below a second.\<close>

definition divide_safe :: "timespec \<Rightarrow> timespec \<Rightarrow> bool" where
  "divide_safe num den \<longleftrightarrow>
     1 \<le> tv_sec den \<or> tv_sec num = 0 \<or> 1000000000 \<le> ns num - ns den \<or> ns num < 3 * ns den"

lemma divide_timespec_facts:
  assumes n: "norm num" "tv_sec num \<le> 2 ^ 62" and d: "norm den" "0 < ns den" and q: "ns num < 2 ^ 29 * ns den"
  shows "\<exists>q rem. divide_timespec num den = Some (q, rem) \<and> norm rem \<and>
    ns num = q * ns den + ns rem \<and> (divide_safe num den \<longrightarrow> ns rem < ns den)"
proof -
  have sec: "0 \<le> tv_sec num" "0 \<le> tv_sec den" using n d by (simp_all add: norm_def)
  consider (less) "tv_sec num < tv_sec den" | (eq) "tv_sec num = tv_sec den" | (gr) "tv_sec num > tv_sec den"
    by linarith
  then show ?thesis
  proof cases
    case less
    then have "ns num < ns den" using n d by (auto simp: ns_def norm_def)
    with less n show ?thesis by (simp add: divide_timespec_def)
  next
    case eq
    have ns_eq: "ns num - ns den = tv_nsec num - tv_nsec den" using eq by (simp add: ns_def)
    consider "tv_nsec num < tv_nsec den" | (big) "tv_nsec den \<le> tv_nsec num" "1 \<le> tv_sec num"
      | (small) "tv_nsec den \<le> tv_nsec num" "tv_sec num = 0" using sec by linarith
    then show ?thesis
    proof cases
      case 1
      with eq n ns_eq show ?thesis by (simp add: divide_timespec_def)
    next
      case big
      let ?rem = "mk_time 0 (tv_nsec num - tv_nsec den)"
      have "divide_timespec num den = Some (1, ?rem)"
        using big eq n(1) d(1) by (simp add: divide_timespec_def norm_def long_ck_ok)
      moreover have "norm ?rem" "ns ?rem = ns num - ns den" "ns ?rem < ns den"
        using big eq n d by (auto simp: norm_def ns_def)
      ultimately show ?thesis using big ns_eq by simp
    next
      case small
      let ?a = "tv_nsec num" and ?b = "tv_nsec den"
      have b: "0 < ?b" "?b < 1000000000" "ns den = ?b" "ns num = ?a" "0 \<le> ?a" "?a < 1000000000"
        using small eq d n by (auto simp: ns_def norm_def)
      have m: "0 \<le> ?a mod ?b" "?a mod ?b < ?b" using b(1) by simp_all
      have "0 \<le> ?a div ?b" "?a div ?b \<le> ?a"
        using b zdiv_mono2 [of ?a 1 ?b] by (simp_all add: pos_imp_zdiv_nonneg_iff)
      then have "divide_timespec num den = Some (?a div ?b, mk_time 0 (?a mod ?b))"
        using small eq b by (simp add: divide_timespec_def to_int_id)
      moreover have "norm (mk_time 0 (?a mod ?b))" "ns (mk_time 0 (?a mod ?b)) = ?a mod ?b"
        using m(1) less_trans [OF m(2) b(2)] by (simp_all add: norm_def ns_def)
      ultimately show ?thesis using m b by simp
    qed
  next
    case gr
    have "ns den \<le> ns num" using gr n d by (auto simp: ns_def norm_def)
    then obtain r1 where r: "norm r1" "ns r1 = ns num - ns den" "time_minus num den = Some r1"
      using time_minus_norm [OF n(1) d(1)] by blast
    have "tv_sec r1 \<le> tv_sec num" using r(1,2) n(1) d by (simp add: norm_def ns_def)
    then have r2: "tv_sec r1 \<le> 2 ^ 62" using n(2) by simp
    show ?thesis
    proof (cases "time_less r1 den")
      case True
      then have "divide_timespec num den = Some (1, r1)"
        using gr by (simp add: divide_timespec_def Let_def time_minus_assign_eq r(3))
      with True r time_less_ns [OF r(1) d(1)] show ?thesis by simp
    next
      case False
      then have dr: "ns den \<le> ns r1" using time_less_ns [OF r(1) d(1)] by simp
      obtain k d' where k: "shift_loop den 1 r1 = Some (d', 1 * 2 ^ k)" "norm d'" "ns d' = ns den * 2 ^ k"
          "k = 0 \<or> 1 * 2 ^ k < (2 ^ 30 :: int)" "1 \<le> tv_sec r1 \<or> ns r1 < 2 * ns den \<longrightarrow> ns r1 < 2 * ns d'"
      proof -
        have "ns r1 * 1 < 2 ^ 29 * ns den" using q r(2) d(2) by linarith
        from shift_loop_correct [OF d r(1) order_refl this r2] that show ?thesis by blast
      qed
      obtain q rem where s: "sub_loop d' (2 ^ k) r1 1 = Some (q, rem)" "norm rem"
          "ns r1 = (q - 1) * ns den + ns rem" "ns r1 < 2 * ns d' \<longrightarrow> ns rem < ns den"
        using sub_loop_correct [OF k(2) d(2) k(3) r(1), of 1] k(4) by fastforce
      have "divide_timespec num den = Some (q, rem)"
        using gr False k(1) s(1) by (simp add: divide_timespec_def Let_def time_minus_assign_eq r(3))
      moreover have "ns num = q * ns den + ns rem" using s(3) r(2) by (simp add: algebra_simps)
      moreover have "ns rem < ns den" if "divide_safe num den"
      proof -
        have "1 \<le> tv_sec r1" if "1000000000 \<le> ns r1" using that r(1) by (auto simp: ns_def norm_def)
        moreover have "1000000000 \<le> ns r1" if "1 \<le> tv_sec den" using that dr d(1) by (auto simp: ns_def norm_def)
        ultimately have "1 \<le> tv_sec r1 \<or> ns r1 < 2 * ns den"
          using that gr sec r(2) by (auto simp: divide_safe_def)
        with k(5) s(4) show ?thesis by blast
      qed
      ultimately show ?thesis using s(2) by blast
    qed
  qed
qed

text \<open>
  C28: the time operators compute on nanoseconds, within the range of a 64-bit \<open>time_t\<close>, for times as the
  clocks deliver them (no negative seconds, nanoseconds below a second). A sum and a doubled time
  are exact and such times again if they are below \<open>2 ^ 63\<close> seconds, and their computation overflows otherwise; a difference never
  overflows and is exact, with its nanoseconds between zero and one second; the assigning operators agree with
  the others; the comparisons are those of the nanosecond values; halving rounds down.
\<close>

theorem time_arithmetic:
  assumes "norm a" "norm b"
  shows "(if ns a + ns b < time_end then \<exists>c. time_plus a b = Some c \<and> norm c \<and> ns c = ns a + ns b
      else time_plus a b = None) \<and> time_plus_assign a b = time_plus a b \<and>
    (\<exists>c. time_minus a b = Some c \<and> ns c = ns a - ns b \<and> 0 \<le> tv_nsec c \<and> tv_nsec c < 1000000000 \<and>
       (norm c \<longleftrightarrow> ns b \<le> ns a)) \<and> time_minus_assign a b = time_minus a b \<and>
    (time_less a b \<longleftrightarrow> ns a < ns b) \<and> (time_le a b \<longleftrightarrow> ns a \<le> ns b) \<and> (compare_timespec a b \<longleftrightarrow> ns a < ns b) \<and>
    (if 2 * ns a < time_end then \<exists>c. shl_assign a 1 = Some c \<and> norm c \<and> ns c = 2 * ns a
      else shl_assign a 1 = None) \<and>
    norm (shr_assign a 1) \<and> ns (shr_assign a 1) = ns a div 2"
  using time_plus_ns [OF assms] time_minus_ns [OF assms] time_less_ns [OF assms]
    time_le_ns [OF assms] shl1_ns [OF assms(1)] shr1_ns [OF assms(1)]
  by (simp add: time_plus_assign_eq time_minus_assign_eq compare_timespec_less shl_assign_def shr_assign_def)

theorem time_arithmetic_witness:
  "(\<exists>c. time_minus (mk_time 5 100) (mk_time 2 300) = Some c \<and> ns c = 2999999800) \<and>
   time_plus (mk_time (2 ^ 63 - 1) 600000000) (mk_time 0 400000000) = None"
  using time_arithmetic [of "mk_time 5 100" "mk_time 2 300"]
    time_arithmetic [of "mk_time (2 ^ 63 - 1) 600000000" "mk_time 0 400000000"]
  by (auto simp: norm_def ns_def time_end_def)

text \<open>
  C27: \<open>divide_timespec\<close> of a time of at most \<open>2 ^ 62\<close> seconds by a positive one, with a quotient below \<open>2 ^ 29\<close>,
  terminates without overflow of its \<open>int\<close> counters or its 64-bit seconds and returns
  \<open>q\<close> and a normal remainder with \<open>num = q * den + rem\<close>; it is the true quotient and
  remainder whenever \<open>divide_safe\<close> holds (in particular for intervals of a second or more).
\<close>

theorem divide_timespec_correct:
  assumes "norm num" "tv_sec num \<le> 2 ^ 62" "norm den" "0 < ns den" "ns num < 2 ^ 29 * ns den"
  shows "\<exists>q rem. divide_timespec num den = Some (q, rem) \<and> norm rem \<and>
    ns num = q * ns den + ns rem \<and>
    (divide_safe num den \<longrightarrow> q = ns num div ns den \<and> ns rem = ns num mod ns den)"
proof -
  obtain q rem where r: "divide_timespec num den = Some (q, rem)" "norm rem"
      "ns num = q * ns den + ns rem" "divide_safe num den \<longrightarrow> ns rem < ns den"
    using divide_timespec_facts [OF assms] by blast
  have "q = ns num div ns den \<and> ns rem = ns num mod ns den" if "ns rem < ns den"
    using that norm_ns(1) [OF r(2)] assms(4) by (simp add: r(3))
  with r show ?thesis by blast
qed

theorem divide_timespec_correct_witness:
  "\<exists>q rem. divide_timespec (mk_time 10 500000000) (mk_time 3 0) = Some (q, rem) \<and> q = 3 \<and> ns rem = 1500000000"
proof -
  let ?n = "mk_time 10 500000000" and ?d = "mk_time 3 0"
  have "norm ?n" "tv_sec ?n \<le> 2 ^ 62" "norm ?d" "0 < ns ?d" "ns ?n < 2 ^ 29 * ns ?d" "divide_safe ?n ?d"
    by (simp_all add: norm_def ns_def divide_safe_def)
  moreover have "ns ?n div ns ?d = 3" "ns ?n mod ns ?d = 1500000000" by (simp_all add: ns_def)
  ultimately show ?thesis using divide_timespec_correct [of ?n ?d] by auto
qed

text \<open>
  A sub-second interval and an overrun of at least a second but less than a second more than
  the interval give a wrong quotient: one second divided by a tenth of a second is 2, with 0.8
  seconds remaining.
\<close>

theorem divide_timespec_wrong:
  "divide_timespec (mk_time 1 0) (mk_time 0 100000000) = Some (2, mk_time 0 800000000)"
  by (simp add: divide_timespec_def time_minus_assign_def time_less_def time_le_def Let_def
      shift_loop.simps sub_loop.simps int_ck_def c_div_def mk_time_def long_ck_def)

text \<open>
  The bound on the seconds is needed: the doubling of the denominator overflows for a numerator at the
  end of the range, although quotient and remainder are representable.
\<close>

theorem divide_timespec_overflows:
  "divide_timespec (mk_time (2 ^ 63 - 1) 0) (mk_time (2 ^ 61 + 1) 0) = None"
  by (simp add: divide_timespec_def time_minus_assign_def time_less_def Let_def
      shift_loop.simps shl_assign_def shl1_def int_ck_def mk_time_def long_ck_def)

end
