(* ===== verification/Timerbase.thy ===== *)
theory Timerbase
  imports Prio_Queue Time_val
begin

text \<open>
  \<open>timer_base\<close> of \<open>timerbase.h\<close>: the timer queues and the processing of expired timers.

  \<open>Base\<close>, the class template parameter, is the event dispatcher; the only thing \<open>timer_base\<close>
  calls in it is \<open>receive_timer_expiry\<close>, the argument \<open>recv\<close> over a state \<open>'b\<close>. \<open>clk\<close> is
  \<open>clock_gettime\<close>. \<open>None\<close> is undefined behaviour (an overflow of an \<open>int\<close> or of a time, or \<open>insert\<close> throwing out of a
  \<open>noexcept\<close> function) or a loop that does not end.

  In \<open>process_timer_queue\<close> the variable \<open>timeout\<close> is a pointer to the priority in slot 0, and it is
  read again after \<open>pull_root\<close> has put another node there (or, in a queue of one, has left the
  old one behind); the model reads slot 0 in the same places.
\<close>

datatype clock_type = SYSTEM | MONOTONIC

record 'u timer_data =
  interval_time :: time_val
  expiry_count :: int
  enabled :: bool
  userdata :: 'u

definition timer_data_new :: "'u \<Rightarrow> 'u timer_data" where
  "timer_data_new udata =
     \<lparr>interval_time = mk_time 0 0, expiry_count = 0, enabled = True, userdata = udata\<rparr>"

type_synonym ('h, 'u) timer_queue_t = "('h, time_val, 'u timer_data) dary_heap"

abbreviation timer_pull :: "('h, 'u) timer_queue_t \<Rightarrow> ('h, 'u) timer_queue_t" where
  "timer_pull \<equiv> dary_pull_root compare_timespec 4"

text \<open>The block that reports an expiry if the timer is enabled, the same in both branches.\<close>

definition deliver ::
  "('h \<Rightarrow> 'u \<Rightarrow> int \<Rightarrow> 'b \<Rightarrow> 'b) \<Rightarrow> 'h \<Rightarrow> ('h, 'u) timer_queue_t \<times> 'b \<Rightarrow> ('h, 'u) timer_queue_t \<times> 'b" where
  "deliver recv th st =
     (let (q, b) = st; data = dary_node_data q th in
      if enabled data
      then (dary_set_node_data q th (data\<lparr>enabled := False, expiry_count := 0\<rparr>),
            recv th (userdata data) (expiry_count data) b)
      else (q, b))"

partial_function (option) timer_loop ::
  "(nat \<Rightarrow> bool) \<Rightarrow> nat \<Rightarrow> ('h \<Rightarrow> 'u \<Rightarrow> int \<Rightarrow> 'b \<Rightarrow> 'b) \<Rightarrow> timespec \<Rightarrow> ('h, 'u) timer_queue_t \<Rightarrow> 'b \<Rightarrow>
   (('h, 'u) timer_queue_t \<times> 'b) option" where
  "timer_loop alloc sz recv curtime q b =
     (if time_le (dary_get_root_priority q) curtime then
        let th = dary_get_root q; data = dary_node_data q th; interval = interval_time data in
        Option.bind (int_ck (expiry_count data + 1)) (\<lambda>ec.
          let q1 = timer_pull (dary_set_node_data q th (data\<lparr>expiry_count := ec\<rparr>)) in
          if tv_sec interval = 0 \<and> tv_nsec interval = 0 then
            let st = deliver recv th (q1, b) in
            if dary_empty (fst st) then Some st else timer_loop alloc sz recv curtime (fst st) (snd st)
          else
            Option.bind (time_minus curtime (dary_get_root_priority q1)) (\<lambda>overrun.
            Option.bind (divide_timespec overrun interval) (\<lambda>nrem.
            Option.bind (int_ck (ec + fst nrem)) (\<lambda>ec'.
            Option.bind (Option.bind (time_plus curtime interval) (\<lambda>t. time_minus t (snd nrem))) (\<lambda>newtime.
              let q2 = dary_set_node_data q1 th (data\<lparr>expiry_count := ec'\<rparr>)
              in (case dary_insert alloc sz compare_timespec 4 q2 th newtime of
                    Inl e \<Rightarrow> None
                  | Inr r \<Rightarrow>
                      let st = deliver recv th (snd r, b)
                      in timer_loop alloc sz recv curtime (fst st) (snd st)))))))
      else Some (q, b))"

definition process_timer_queue ::
  "(nat \<Rightarrow> bool) \<Rightarrow> nat \<Rightarrow> ('h \<Rightarrow> 'u \<Rightarrow> int \<Rightarrow> 'b \<Rightarrow> 'b) \<Rightarrow> ('h, 'u) timer_queue_t \<Rightarrow> timespec \<Rightarrow> 'b \<Rightarrow>
   (('h, 'u) timer_queue_t \<times> 'b) option" where
  "process_timer_queue alloc sz recv q curtime b =
     (if dary_empty q then Some (q, b) else timer_loop alloc sz recv curtime q b)"

record ('h, 'u, 'b) timer_base =
  timer_queue :: "('h, 'u) timer_queue_t"
  mono_timer_queue :: "('h, 'u) timer_queue_t"
  base :: 'b

definition queue_for_clock :: "clock_type \<Rightarrow> ('h, 'u, 'b, 'z) timer_base_scheme \<Rightarrow> ('h, 'u) timer_queue_t" where
  "queue_for_clock clock t = (if clock = MONOTONIC then mono_timer_queue t else timer_queue t)"

definition set_queue ::
  "clock_type \<Rightarrow> ('h, 'u) timer_queue_t \<Rightarrow> ('h, 'u, 'b, 'z) timer_base_scheme \<Rightarrow> ('h, 'u, 'b, 'z) timer_base_scheme" where
  "set_queue clock q t = (if clock = MONOTONIC then t\<lparr>mono_timer_queue := q\<rparr> else t\<lparr>timer_queue := q\<rparr>)"

definition timer_queues_empty :: "('h, 'u, 'b, 'z) timer_base_scheme \<Rightarrow> bool" where
  "timer_queues_empty t \<longleftrightarrow> dary_empty (timer_queue t) \<and> dary_empty (mono_timer_queue t)"

text \<open>\<open>process_timer_queue\<close> as the member function it is: it updates the queue of a clock and \<open>Base\<close>.\<close>

definition run_queue ::
  "(nat \<Rightarrow> bool) \<Rightarrow> nat \<Rightarrow> ('h \<Rightarrow> 'u \<Rightarrow> int \<Rightarrow> 'b \<Rightarrow> 'b) \<Rightarrow> clock_type \<Rightarrow> timespec \<Rightarrow>
   ('h, 'u, 'b, 'z) timer_base_scheme \<Rightarrow> ('h, 'u, 'b, 'z) timer_base_scheme option" where
  "run_queue alloc sz recv clock now t =
     map_option (\<lambda>(q, b). (set_queue clock q t)\<lparr>base := b\<rparr>)
       (process_timer_queue alloc sz recv (queue_for_clock clock t) now (base t))"

text \<open>
  \<open>process_timers\<close> with its reference parameters \<open>do_wait\<close> and \<open>ts\<close> as values and results, and
  the pointer \<open>wait_ts\<close> as an option (\<open>None\<close> for null).
\<close>

definition process_timers_ts ::
  "(nat \<Rightarrow> bool) \<Rightarrow> nat \<Rightarrow> ('h \<Rightarrow> 'u \<Rightarrow> int \<Rightarrow> 'b \<Rightarrow> 'b) \<Rightarrow> (clock_type \<Rightarrow> timespec) \<Rightarrow> clock_type \<Rightarrow> bool \<Rightarrow>
   timespec \<Rightarrow> timespec option \<Rightarrow> ('h, 'u, 'b, 'z) timer_base_scheme \<Rightarrow>
   (('h, 'u, 'b, 'z) timer_base_scheme \<times> bool \<times> timespec \<times> timespec option) option" where
  "process_timers_ts alloc sz recv clk clock do_wait ts wait_ts t =
     (let now = clk clock; q = queue_for_clock clock t in
      if \<not> dary_empty q then
        let timeout = dary_get_root_priority q in
        if time_le timeout now then
          map_option (\<lambda>t. (t, False, ts, wait_ts)) (run_queue alloc sz recv clock now t)
        else if do_wait then
          map_option (\<lambda>ts. (t, do_wait, ts, Some ts)) (time_minus timeout now)
        else Some (t, do_wait, ts, wait_ts)
      else Some (t, do_wait, ts, wait_ts))"

record timeval =
  tv_sec' :: int
  tv_usec :: int

definition process_timers_tv ::
  "(nat \<Rightarrow> bool) \<Rightarrow> nat \<Rightarrow> ('h \<Rightarrow> 'u \<Rightarrow> int \<Rightarrow> 'b \<Rightarrow> 'b) \<Rightarrow> (clock_type \<Rightarrow> timespec) \<Rightarrow> clock_type \<Rightarrow> bool \<Rightarrow>
   timeval \<Rightarrow> timeval option \<Rightarrow> ('h, 'u, 'b, 'z) timer_base_scheme \<Rightarrow>
   (('h, 'u, 'b, 'z) timer_base_scheme \<times> bool \<times> timeval \<times> timeval option) option" where
  "process_timers_tv alloc sz recv clk clock do_wait tv wait_tv t =
     (let now = clk clock; q = queue_for_clock clock t in
      if \<not> dary_empty q then
        let timeout = dary_get_root_priority q in
        if time_le timeout now then
          map_option (\<lambda>t. (t, False, tv, wait_tv)) (run_queue alloc sz recv clock now t)
        else if do_wait then
          map_option (\<lambda>delay.
              let tv = \<lparr>tv_sec' = tv_sec delay, tv_usec = c_div (tv_nsec delay + 999) 1000\<rparr>
              in (t, do_wait, tv, Some tv))
            (time_minus timeout now)
        else Some (t, do_wait, tv, wait_tv)
      else Some (t, do_wait, tv, wait_tv))"

definition process_monotonic_timers ::
  "(nat \<Rightarrow> bool) \<Rightarrow> nat \<Rightarrow> ('h \<Rightarrow> 'u \<Rightarrow> int \<Rightarrow> 'b \<Rightarrow> 'b) \<Rightarrow> (clock_type \<Rightarrow> timespec) \<Rightarrow>
   ('h, 'u, 'b, 'z) timer_base_scheme \<Rightarrow> ('h, 'u, 'b, 'z) timer_base_scheme option" where
  "process_monotonic_timers alloc sz recv clk t = run_queue alloc sz recv MONOTONIC (clk MONOTONIC) t"

definition add_timer_nolock ::
  "(nat \<Rightarrow> bool) \<Rightarrow> nat \<Rightarrow> 'h \<Rightarrow> 'u \<Rightarrow> clock_type \<Rightarrow> ('h, 'u, 'b, 'z) timer_base_scheme \<Rightarrow>
   exn + ('h, 'u, 'b, 'z) timer_base_scheme" where
  "add_timer_nolock alloc sz h udata clock t =
     (case dary_allocate alloc sz (queue_for_clock clock t) h (timer_data_new udata) of
        Inl e \<Rightarrow> Inl e
      | Inr q \<Rightarrow> Inr (set_queue clock q t))"

definition remove_timer_nolock ::
  "(nat \<Rightarrow> bool) \<Rightarrow> nat \<Rightarrow> 'h \<Rightarrow> clock_type \<Rightarrow> ('h, 'u, 'b, 'z) timer_base_scheme \<Rightarrow> ('h, 'u, 'b, 'z) timer_base_scheme" where
  "remove_timer_nolock alloc sz h clock t =
     (let q = queue_for_clock clock t;
          q = (if dary_is_queued q h then dary_remove compare_timespec 4 q h else q)
      in set_queue clock (dary_deallocate alloc sz q h) t)"

definition enable_timer_nolock ::
  "('h \<Rightarrow> 'u \<Rightarrow> int \<Rightarrow> 'b \<Rightarrow> 'b) \<Rightarrow> 'h \<Rightarrow> bool \<Rightarrow> clock_type \<Rightarrow> ('h, 'u, 'b, 'z) timer_base_scheme \<Rightarrow>
   ('h, 'u, 'b, 'z) timer_base_scheme" where
  "enable_timer_nolock recv h enable clock t =
     (let q = queue_for_clock clock t; data = dary_node_data q h in
      if expiry_count data \<noteq> 0 \<and> enable
      then (set_queue clock (dary_set_node_data q h (data\<lparr>expiry_count := 0\<rparr>)) t)
             \<lparr>base := recv h (userdata data) (expiry_count data) (base t)\<rparr>
      else set_queue clock (dary_set_node_data q h (data\<lparr>enabled := enable\<rparr>)) t)"

end
