(* ===== verification/Timerbase_Props.thy ===== *)
theory Timerbase_Props
  imports Timerbase
begin

text \<open>
  What the processing of a timer queue does: one-shot timers are delivered exactly when they have
  expired, in the order of their times; a periodic timer alone in its queue is delivered with the
  right count and re-queued for the next multiple of its interval; a periodic timer that shares
  the queue with another can be re-queued for a wrong time.
\<close>

interpretation timer_q: prio_queue compare_timespec "heap_ok sz compare_timespec 4 A" contents dary_empty
  root_node "timer_pull :: ('h, 'u) timer_queue_t \<Rightarrow> ('h, 'u) timer_queue_t" for sz A
  by (rule heap_prio_queue [OF compare_timespec_swo]) simp

section \<open>Node data\<close>

lemma set_node_data_simps [simp]:
  "hvec (dary_set_node_data q h d) = hvec q"
  "num_nodes (dary_set_node_data q h d) = num_nodes q"
  "heap_index (handles (dary_set_node_data q h d) g) = heap_index (handles q g)"
  "dary_node_data (dary_set_node_data q h d) g = (if g = h then d else dary_node_data q g)"
  "dary_empty (dary_set_node_data q h d) = dary_empty q"
  "dary_get_root (dary_set_node_data q h d) = dary_get_root q"
  "dary_get_root_priority (dary_set_node_data q h d) = dary_get_root_priority q"
  "root_node (dary_set_node_data q h d) = root_node q"
  "contents (dary_set_node_data q h d) = contents q"
  "queued (dary_set_node_data q h d) = queued q"
  by (simp_all add: dary_set_node_data_def dary_node_data_def dary_empty_def dary_get_root_def
      dary_get_root_priority_def root_node_def contents_def queued_def)

lemma heap_ok_set_node_data [simp]:
  "heap_ok sz lt N A (dary_set_node_data q h d) = heap_ok sz lt N A q"
  by (simp add: heap_ok_def heap_wf_def dary_ord_def indexed_def)

lemma root_node_sel: "dary_get_root q = hnd (root_node q)" "dary_get_root_priority q = prio (root_node q)"
  by (simp_all add: root_node_def)

lemma deliver_simps:
  "hvec (fst (deliver recv th (q, b))) = hvec q"
  "contents (fst (deliver recv th (q, b))) = contents q"
  "dary_empty (fst (deliver recv th (q, b))) = dary_empty q"
  "heap_ok sz lt N A (fst (deliver recv th (q, b))) = heap_ok sz lt N A q"
  "g \<noteq> th \<Longrightarrow> dary_node_data (fst (deliver recv th (q, b))) g = dary_node_data q g"
  "snd (deliver recv th (q, b)) = (let d = dary_node_data q th in
     if enabled d then recv th (userdata d) (expiry_count d) b else b)"
  by (simp_all add: deliver_def Let_def)

lemma pull_facts:
  fixes q :: "('h, 'u) timer_queue_t"
  assumes ok: "heap_ok sz compare_timespec 4 A q" and ne: "\<not> dary_empty q"
  shows "dary_node_data (timer_pull q) g = dary_node_data q g"
    "\<forall>n \<in># contents (timer_pull q). hnd n \<noteq> hnd (root_node q)"
    "\<not> dary_is_queued (timer_pull q) (hnd (root_node q))" "hnd (root_node q) \<in> A"
proof -
  have wf: "heap_wf sz A q" "dary_ord compare_timespec 4 q" using ok by (simp_all add: heap_ok_def)
  have "(0 :: nat) < 4" by simp
  note facts = pull_root_facts [OF compare_timespec_swo this wf ne, folded root_node_def]
  show "dary_node_data (timer_pull q) g = dary_node_data q g" using facts(7) by simp
  show A: "hnd (root_node q) \<in> A" using facts(1) wf(1) by (auto simp: heap_wf_def queued_contents)
  show nq: "\<not> dary_is_queued (timer_pull q) (hnd (root_node q))" by (rule facts(6))
  then have "hnd (root_node q) \<notin> queued (timer_pull q)" using is_queued_iff [OF facts(3) A] by simp
  then show "\<forall>n \<in># contents (timer_pull q). hnd n \<noteq> hnd (root_node q)" by (metis imageI queued_contents)
qed

section \<open>One-shot timers\<close>

definition one_shot :: "'u timer_data \<Rightarrow> bool" where
  "one_shot d \<longleftrightarrow> tv_sec (interval_time d) = 0 \<and> tv_nsec (interval_time d) = 0 \<and>
     0 \<le> expiry_count d \<and> expiry_count d < 2 ^ 31 - 1"

definition report ::
  "('h \<Rightarrow> 'u \<Rightarrow> int \<Rightarrow> 'b \<Rightarrow> 'b) \<Rightarrow> ('h, 'u) timer_queue_t \<Rightarrow> ('h, time_val) heap_node \<Rightarrow> 'b \<Rightarrow> 'b" where
  "report recv q n b =
     (let d = dary_node_data q (hnd n) in
      if enabled d then recv (hnd n) (userdata d) (expiry_count d + 1) b else b)"

definition expired :: "timespec \<Rightarrow> ('h, time_val) heap_node \<Rightarrow> bool" where
  "expired cur n = time_le (prio n) cur"

lemma expired_root: "\<not> expired cur r \<Longrightarrow> \<not> compare_timespec (prio n) (prio r) \<Longrightarrow> \<not> expired cur n"
  by (auto simp: expired_def time_le_def compare_timespec_def split: if_splits)

lemma one_shot_step:
  assumes "time_le (dary_get_root_priority q) cur" "one_shot (dary_node_data q (dary_get_root q))"
  defines "th \<equiv> dary_get_root q"
  defines "q1 \<equiv> timer_pull (dary_set_node_data q th
      ((dary_node_data q th)\<lparr>expiry_count := expiry_count (dary_node_data q th) + 1\<rparr>))"
  shows "timer_loop alloc sz recv cur q b = (let st = deliver recv th (q1, b) in
      if dary_empty q1 then Some st else timer_loop alloc sz recv cur (fst st) (snd st))"
proof -
  have "int_ck (expiry_count (dary_node_data q th) + 1) = Some (expiry_count (dary_node_data q th) + 1)"
    using assms(2) by (intro int_ck_ok) (simp_all add: one_shot_def th_def)
  moreover have "tv_sec (interval_time (dary_node_data q th)) = 0" "tv_nsec (interval_time (dary_node_data q th)) = 0"
    using assms(2) by (simp_all add: one_shot_def th_def)
  ultimately show ?thesis
    using assms(1) by (subst timer_loop.simps) (simp add: Let_def q1_def th_def deliver_simps)
qed

lemma one_shot_loop:
  fixes q :: "('h, 'u) timer_queue_t"
  assumes "heap_ok sz compare_timespec 4 A q" "\<not> dary_empty q"
    and "\<forall>n \<in># contents q. expired cur n \<longrightarrow> one_shot (dary_node_data q (hnd n))"
  shows "\<exists>q' ds. timer_loop alloc sz recv cur q b = Some (q', fold (report recv q) ds b) \<and>
    heap_ok sz compare_timespec 4 A q' \<and> mset ds = filter_mset (expired cur) (contents q) \<and>
    contents q' = filter_mset (\<lambda>n. \<not> expired cur n) (contents q) \<and>
    sorted_wrt (\<lambda>a b. \<not> compare_timespec (prio b) (prio a)) ds"
  using assms
proof (induction "size (contents q)" arbitrary: q b rule: less_induct)
  case less
  note q = less.prems(1,2)
  let ?r = "root_node q"
  have r: "?r \<in># contents q" by (rule timer_q.root_item [OF q])
  show ?case
  proof (cases "expired cur ?r")
    case False
    then have "timer_loop alloc sz recv cur q b = Some (q, b)"
      by (subst timer_loop.simps) (simp add: expired_def root_node_sel)
    moreover have "\<forall>n \<in># contents q. \<not> expired cur n"
      using expired_root [OF False] timer_q.root_least [OF q] by blast
    moreover from this have "filter_mset (\<lambda>n. \<not> expired cur n) (contents q) = contents q"
      by (simp add: filter_mset_eq_conv)
    ultimately show ?thesis using less.prems by (intro exI [of _ q] exI [of _ "[]"]) auto
  next
    case True
    let ?th = "hnd ?r"
    let ?d = "dary_node_data q ?th"
    let ?q0 = "dary_set_node_data q ?th (?d\<lparr>expiry_count := expiry_count ?d + 1\<rparr>)"
    let ?q1 = "timer_pull ?q0"
    let ?st = "deliver recv ?th (?q1, b)"
    let ?q2 = "fst ?st"
    have os: "one_shot ?d" using less.prems(3) r True by blast
    have q0: "heap_ok sz compare_timespec 4 A ?q0" "\<not> dary_empty ?q0" "root_node ?q0 = ?r" using q by simp_all
    have ok1: "heap_ok sz compare_timespec 4 A ?q1" by (rule timer_q.pull_inv [OF q0(1,2)])
    have c1: "contents ?q1 = contents q - {#?r#}" using timer_q.pull_items [OF q0(1,2)] by simp
    have other: "\<forall>n \<in># contents ?q1. hnd n \<noteq> ?th" using pull_facts(2) [OF q0(1,2)] by simp
    have data1: "dary_node_data ?q1 g = (if g = ?th then ?d\<lparr>expiry_count := expiry_count ?d + 1\<rparr> else dary_node_data q g)" for g
      using pull_facts(1) [OF q0(1,2)] by simp
    have step: "timer_loop alloc sz recv cur q b = (if dary_empty ?q1 then Some ?st
        else timer_loop alloc sz recv cur ?q2 (snd ?st))"
      using one_shot_step [of q cur alloc sz recv b] True os by (simp add: expired_def root_node_sel Let_def)
    have snd2: "snd ?st = report recv q ?r b" by (simp add: deliver_simps data1 report_def Let_def)
    have ok2: "heap_ok sz compare_timespec 4 A ?q2" and c2: "contents ?q2 = contents q - {#?r#}"
      using ok1 c1 by (simp_all add: deliver_simps)
    have data2: "dary_node_data ?q2 (hnd n) = dary_node_data q (hnd n)" if "n \<in># contents ?q2" for n
      using other that c1 c2 by (simp add: deliver_simps data1)
    have split: "contents q = add_mset ?r (contents ?q2)" using r c2 by simp
    show ?thesis
    proof (cases "dary_empty ?q1")
      case e: True
      then have "contents ?q2 = {#}" using timer_q.emp_items [OF ok1] by (simp add: deliver_simps)
      moreover have "timer_loop alloc sz recv cur q b = Some (?q2, fold (report recv q) [?r] b)"
        using step e snd2 by (simp add: prod_eq_iff)
      ultimately show ?thesis using ok2 True split by (intro exI [of _ ?q2] exI [of _ "[?r]"]) simp
    next
      case ne: False
      then have ne2: "\<not> dary_empty ?q2" by (simp add: deliver_simps)
      have os2: "\<forall>n \<in># contents ?q2. expired cur n \<longrightarrow> one_shot (dary_node_data ?q2 (hnd n))"
        using less.prems(3) data2 split by simp
      have "size (contents ?q2) < size (contents q)" using split by simp
      from less.hyps [OF this ok2 ne2 os2, of "snd ?st"]
      obtain q' ds where IH: "timer_loop alloc sz recv cur ?q2 (snd ?st) = Some (q', fold (report recv ?q2) ds (snd ?st))"
          "heap_ok sz compare_timespec 4 A q'" "mset ds = filter_mset (expired cur) (contents ?q2)"
          "contents q' = filter_mset (\<lambda>n. \<not> expired cur n) (contents ?q2)"
          "sorted_wrt (\<lambda>a b. \<not> compare_timespec (prio b) (prio a)) ds" by blast
      have sub: "\<forall>n \<in> set ds. n \<in># contents ?q2" using arg_cong [OF IH(3), of set_mset] by simp
      have "fold (report recv ?q2) ds c = fold (report recv q) ds c" for c
        using sub data2 by (intro fold_cong) (auto simp: report_def fun_eq_iff)
      then have "timer_loop alloc sz recv cur q b = Some (q', fold (report recv q) (?r # ds) b)"
        using step ne IH(1) snd2 by simp
      moreover have "\<forall>n \<in> set ds. \<not> compare_timespec (prio n) (prio ?r)"
        using sub timer_q.root_least [OF q] split by simp
      ultimately show ?thesis using IH True split
        by (intro exI [of _ q'] exI [of _ "?r # ds"]) simp
    qed
  qed
qed

text \<open>
  C19: if every expired timer is one-shot, processing the queue terminates, takes exactly the
  expired timers off it (the others stay, the heap stays a heap), and reports each enabled one
  once, with its expiry count, in the order of expiry times.
\<close>

theorem process_one_shot_timers:
  assumes "heap_ok sz compare_timespec 4 A q"
    and "\<forall>n \<in># contents q. expired cur n \<longrightarrow> one_shot (dary_node_data q (hnd n))"
  shows "\<exists>q' ds. process_timer_queue alloc sz recv q cur b = Some (q', fold (report recv q) ds b) \<and>
    heap_ok sz compare_timespec 4 A q' \<and> mset ds = filter_mset (expired cur) (contents q) \<and>
    contents q' = filter_mset (\<lambda>n. \<not> expired cur n) (contents q) \<and>
    sorted_wrt (\<lambda>a b. \<not> compare_timespec (prio b) (prio a)) ds"
proof (cases "dary_empty q")
  case True
  then have "contents q = {#}" using timer_q.emp_items [OF assms(1)] by simp
  then show ?thesis using True assms
    by (intro exI [of _ q] exI [of _ "[]"]) (simp add: process_timer_queue_def)
next
  case False
  then show ?thesis
    using one_shot_loop [OF assms(1) False assms(2), of alloc recv b] by (simp add: process_timer_queue_def)
qed

definition sample_timers :: "time_val list \<Rightarrow> (nat \<Rightarrow> nat timer_data) \<Rightarrow> nat \<Rightarrow> (nat, nat) timer_queue_t" where
  "sample_timers ps d n =
     \<lparr>hvec = \<lparr>array = map (\<lambda>i. node (ps ! i) i) [0..<length ps], size_v = length ps, capacity_v = n\<rparr>,
      num_nodes = n,
      handles = (\<lambda>h. \<lparr>hd_u = d h, heap_index = (if h < length ps then h else size_max)\<rparr>)\<rparr>"

definition one_shot_data :: "nat \<Rightarrow> nat timer_data" where
  "one_shot_data h = timer_data_new (h + 100)"

lemma sample_timers_facts:
  "nodes (sample_timers ps d n) = map (\<lambda>i. node (ps ! i) i) [0..<length ps]"
  "dary_node_data (sample_timers ps d n) h = d h"
  "length ps \<le> n \<Longrightarrow> n \<le> svec_max_size sz \<Longrightarrow> heap_wf sz {..<n} (sample_timers ps d n)"
  by (auto simp: sample_timers_def elems_def dary_node_data_def heap_wf_def indexed_def svec_inv_def
      comp_def queued_def image_image lessThan_atLeast0)

theorem process_one_shot_timers_witness:
  "\<exists>q' ds. process_timer_queue (\<lambda>_. False) 32 (\<lambda>h u c l. l @ [(h, u, c)])
      (sample_timers [mk_time 1 0, mk_time 7 0, mk_time 2 0] one_shot_data 3) (mk_time 5 0) [] =
      Some (q', fold (report (\<lambda>h u c l. l @ [(h, u, c)])
        (sample_timers [mk_time 1 0, mk_time 7 0, mk_time 2 0] one_shot_data 3)) ds []) \<and>
    mset ds = {#node (mk_time 1 0) 0, node (mk_time 2 0) 2#} \<and> contents q' = {#node (mk_time 7 0) 1#}"
proof -
  let ?q = "sample_timers [mk_time 1 0, mk_time 7 0, mk_time 2 0] one_shot_data 3"
  have wf: "heap_wf 32 {..<3} ?q"
    by (intro sample_timers_facts) (simp_all add: svec_max_size_def size_max_def)
  have c: "contents ?q = {#node (mk_time 1 0) 0, node (mk_time 7 0) 1, node (mk_time 2 0) 2#}"
    by (simp add: contents_def sample_timers_facts numeral_3_eq_3)
  have "dary_ord compare_timespec 4 ?q"
    by (simp add: dary_ord_def heap_ord_def sample_timers_facts numeral_3_eq_3 All_less_Suc heap_parent_def compare_timespec_def)
  with wf have ok: "heap_ok 32 compare_timespec 4 {..<3} ?q" by (simp add: heap_ok_def)
  have os: "\<forall>n \<in># contents ?q. expired (mk_time 5 0) n \<longrightarrow> one_shot (dary_node_data ?q (hnd n))"
    by (simp add: c one_shot_def sample_timers_facts one_shot_data_def timer_data_new_def)
  have "filter_mset (expired (mk_time 5 0)) (contents ?q) = {#node (mk_time 1 0) 0, node (mk_time 2 0) 2#}"
    "filter_mset (\<lambda>n. \<not> expired (mk_time 5 0) n) (contents ?q) = {#node (mk_time 7 0) 1#}"
    by (simp_all add: c expired_def time_le_def)
  with process_one_shot_timers [OF ok os, of "\<lambda>_. False" "\<lambda>h u c l. l @ [(h, u, c)]" "[]"]
  show ?thesis by auto
qed

section \<open>A periodic timer alone in its queue\<close>

lemma pull_single:
  "size_v (hvec q) = 1 \<Longrightarrow> dary_get_root_priority (dary_pull_root lt N q) = dary_get_root_priority q"
  by (simp add: dary_pull_root_def remove_h_def dary_get_root_priority_def svec_at_def pop_back_def set_index_def)

lemma next_expiry:
  assumes n: "norm t" "norm cur" "ns t \<le> ns cur" "norm iv" "0 < ns iv"
    and o: "time_minus cur t = Some ov" "divide_safe ov iv"
    and b: "ns cur - ns t < 2 ^ 29 * ns iv" "tv_sec cur < 2 ^ 62" "tv_sec iv < 2 ^ 62"
  defines "k \<equiv> (ns cur - ns t) div ns iv"
  shows "\<exists>rem newt. divide_timespec ov iv = Some (k, rem) \<and> 0 \<le> k \<and> k < 2 ^ 29 \<and>
    Option.bind (time_plus cur iv) (\<lambda>s. time_minus s rem) = Some newt \<and>
    norm newt \<and> ns newt = ns t + (k + 1) * ns iv \<and> ns cur < ns newt"
proof -
  have ov: "norm ov" "ns ov = ns cur - ns t" using time_minus_norm [OF n(2,1,3)] o(1) by auto
  have "tv_sec ov \<le> tv_sec cur" using ov n(1,2) norm_ns(1) [OF n(1)] by (simp add: norm_def ns_def)
  then have "tv_sec ov \<le> 2 ^ 62" using b(2) by simp
  from divide_timespec_facts [OF ov(1) this n(4,5)] ov(2) b(1) o(2)
  obtain m rem where m: "divide_timespec ov iv = Some (m, rem)" "norm rem" "ns ov = m * ns iv + ns rem" "ns rem < ns iv"
    by auto
  note rem = norm_ns(1) [OF m(2)]
  have mk: "m = k" using m(3,4) rem ov(2) n(5) by (simp add: k_def)
  have "0 \<le> k" using n(3,5) by (simp add: k_def pos_imp_zdiv_nonneg_iff)
  moreover have "m * ns iv < 2 ^ 29 * ns iv" using m(3) rem ov(2) b(1) by linarith
  then have "m < 2 ^ 29" using mult_less_cancel_right_pos [OF n(5)] by blast
  moreover have "ns cur + ns iv < time_end" using b(2,3) n(2,4) by (simp add: ns_def norm_def time_end_def)
  then obtain s where s: "time_plus cur iv = Some s" "norm s" "ns s = ns cur + ns iv"
    using time_plus_ns [OF n(2,4)] by auto
  moreover have "ns rem \<le> ns s" using s(3) m(4) norm_ns(1) [OF n(2)] by linarith
  then obtain newt where nt: "time_minus s rem = Some newt" "norm newt" "ns newt = ns cur + ns iv - ns rem"
    using time_minus_norm [OF s(2) m(2)] s(3) by auto
  moreover have "ns cur + ns iv - ns rem = ns t + (k + 1) * ns iv" using m(3) ov(2) mk by (simp add: algebra_simps)
  ultimately show ?thesis using m(1,4) mk by (intro exI [of _ rem] exI [of _ newt]) auto
qed

lemma requeue_alone:
  assumes "heap_ok sz compare_timespec 4 A q" "contents q = {#}" "\<not> dary_is_queued q h" "h \<in> A"
  shows "\<exists>b q'. dary_insert alloc sz compare_timespec 4 (dary_set_node_data q h x) h t = Inr (b, q') \<and>
    heap_ok sz compare_timespec 4 A q' \<and> contents q' = {#node t h#} \<and> dary_node_data q' h = x"
proof -
  let ?q = "dary_set_node_data q h x"
  have q: "heap_wf sz A ?q" "dary_ord compare_timespec 4 ?q" "\<not> dary_is_queued ?q h"
    using assms(1,3) heap_ok_set_node_data [of sz compare_timespec 4 A q] by (auto simp: heap_ok_def dary_is_queued_def)
  show ?thesis using insert_facts [OF compare_timespec_swo q(1,2) assms(4) q(3), of alloc t] assms(2) by (auto simp: heap_ok_def)
qed

text \<open>
  C22: an enabled periodic timer that is the only one in its queue and has expired, with less than \<open>2 ^ 30\<close> expiries
  held back, late by less than \<open>2 ^ 29\<close> intervals, where the division of the overrun by the interval is in the
  safe range of \<open>divide_safe\<close> (in particular for intervals of a second or more) and the current time and
  the interval are below \<open>2 ^ 62\<close> seconds, is reported once with one expiry plus
  one for every whole interval it is late, and is queued again for the first multiple of its
  interval after the current time; the processing terminates and nothing overflows.
\<close>

theorem process_single_periodic:
  assumes ok: "heap_ok sz compare_timespec 4 A q" and c: "contents q = {#node t h#}"
    and norm: "norm t" "norm cur" and late: "ns t \<le> ns cur"
  defines "d \<equiv> dary_node_data q h"
  defines "iv \<equiv> interval_time d" and "k \<equiv> (ns cur - ns t) div ns (interval_time d)"
  assumes d: "enabled d" "norm iv" "0 < ns iv" and safe: "time_minus cur t = Some overrun" "divide_safe overrun iv"
    and bound: "ns cur - ns t < 2 ^ 29 * ns iv" "0 \<le> expiry_count d" "expiry_count d < 2 ^ 30"
    and range: "tv_sec cur < 2 ^ 62" "tv_sec iv < 2 ^ 62"
  shows "\<exists>q' newt. process_timer_queue alloc sz recv q cur b =
      Some (q', recv h (userdata d) (expiry_count d + 1 + k) b) \<and>
    heap_ok sz compare_timespec 4 A q' \<and> contents q' = {#node newt h#} \<and>
    norm newt \<and> ns newt = ns t + (k + 1) * ns iv \<and> ns cur < ns newt"
proof -
  note wf = ok [unfolded heap_ok_def, THEN conjunct1]
  have ne: "\<not> dary_empty q" using timer_q.emp_items [OF ok] c by simp
  have root: "root_node q = node t h" using timer_q.root_item [OF ok ne] c by simp
  let ?ec = "expiry_count d + 1"
  let ?q0 = "dary_set_node_data q h (d\<lparr>expiry_count := ?ec\<rparr>)"
  let ?q1 = "timer_pull ?q0"
  have q0: "heap_ok sz compare_timespec 4 A ?q0" "\<not> dary_empty ?q0" "root_node ?q0 = node t h"
    using ok ne root by simp_all
  have q1: "heap_ok sz compare_timespec 4 A ?q1" "contents ?q1 = {#}" "\<not> dary_is_queued ?q1 h" "h \<in> A"
    using timer_q.pull_inv [OF q0(1,2)] timer_q.pull_items [OF q0(1,2)] pull_facts(3,4) [OF q0(1,2)] root c by simp_all
  have "size_v (hvec q) = 1"
    using length_nodes [OF wf] c by (metis contents_def size_mset size_single)
  then have stale: "dary_get_root_priority ?q1 = t"
    using pull_single [of ?q0 compare_timespec 4] root root_node_sel(2) [of q] by simp
  obtain rem newt where m: "divide_timespec overrun iv = Some (k, rem)" "0 \<le> k" "k < 2 ^ 29"
      "Option.bind (time_plus cur iv) (\<lambda>s. time_minus s rem) = Some newt"
      and newt: "norm newt" "ns newt = ns t + (k + 1) * ns iv" "ns cur < ns newt"
    using next_expiry [OF norm late d(2,3) safe bound(1) range] by (auto simp: k_def iv_def)
  obtain b3 q3 where q3: "dary_insert alloc sz compare_timespec 4 (dary_set_node_data ?q1 h (d\<lparr>expiry_count := ?ec + k\<rparr>)) h newt = Inr (b3, q3)"
      "heap_ok sz compare_timespec 4 A q3" "contents q3 = {#node newt h#}" "dary_node_data q3 h = d\<lparr>expiry_count := ?ec + k\<rparr>"
    using requeue_alone [OF q1] by blast
  let ?st = "deliver recv h (q3, b)"
  have ok4: "heap_ok sz compare_timespec 4 A (fst ?st)" and c4: "contents (fst ?st) = {#node newt h#}"
    using q3 by (simp_all add: deliver_simps)
  have "\<not> dary_empty (fst ?st)" using timer_q.emp_items [OF ok4] c4 by simp
  then have "root_node (fst ?st) = node newt h" using timer_q.root_item [OF ok4] c4 by simp
  then have stop: "timer_loop alloc sz recv cur (fst ?st) (snd ?st) = Some ?st"
    using time_le_ns [OF newt(1) norm(2)] newt(3) by (subst timer_loop.simps) (simp add: root_node_sel)
  have ck: "int_ck ?ec = Some ?ec" "int_ck (?ec + k) = Some (?ec + k)"
    using bound(2,3) m(2,3) by (simp_all add: int_ck_ok)
  have first: "time_le (dary_get_root_priority q) cur" "dary_get_root q = h"
    using root late time_le_ns [OF norm] by (simp_all add: root_node_sel)
  have nz: "\<not> (tv_sec iv = 0 \<and> tv_nsec iv = 0)" using d(3) by (auto simp: ns_def)
  have "timer_loop alloc sz recv cur q b = timer_loop alloc sz recv cur (fst ?st) (snd ?st)"
    using first(1) nz ck(1) ck(2) m(1) q3(1)
    by (subst timer_loop.simps)
       (simp only: if_True if_False Let_def first(2) d_def [symmetric] iv_def [symmetric] ck stale
         bind.bind_lunit safe(1) m(1,4) fst_conv snd_conv q3(1) sum.case)
  moreover have "snd ?st = recv h (userdata d) (?ec + k) b"
    using q3(4) d(1) by (simp add: deliver_simps Let_def)
  ultimately have "process_timer_queue alloc sz recv q cur b = Some (fst ?st, recv h (userdata d) (?ec + k) b)"
    using ne stop by (simp add: process_timer_queue_def prod_eq_iff)
  then show ?thesis using ok4 c4 newt by blast
qed

definition periodic_data :: "time_val \<Rightarrow> nat \<Rightarrow> nat timer_data" where
  "periodic_data iv h =
     (if h = 0 then (timer_data_new 100)\<lparr>interval_time := iv\<rparr> else timer_data_new (h + 100))"

theorem process_single_periodic_witness:
  "\<exists>q' newt. process_timer_queue (\<lambda>_. False) 32 (\<lambda>h u c l. l @ [(h, u, c)])
      (sample_timers [mk_time 1 0] (periodic_data (mk_time 2 0)) 3) (mk_time 6 0) [] =
      Some (q', [(0, 100, 3)]) \<and> contents q' = {#node newt 0#} \<and> ns newt = 7000000000"
proof -
  let ?q = "sample_timers [mk_time 1 0] (periodic_data (mk_time 2 0)) 3"
  have "heap_wf 32 {..<3} ?q"
    by (intro sample_timers_facts) (simp_all add: svec_max_size_def size_max_def)
  moreover have "dary_ord compare_timespec 4 ?q" by (simp add: dary_ord_def heap_ord_def sample_timers_facts)
  ultimately have ok: "heap_ok 32 compare_timespec 4 {..<3} ?q" by (simp add: heap_ok_def)
  have c: "contents ?q = {#node (mk_time 1 0) 0#}" by (simp add: contents_def sample_timers_facts)
  have d: "dary_node_data ?q 0 = (timer_data_new 100)\<lparr>interval_time := mk_time 2 0\<rparr>"
    by (simp add: sample_timers_facts periodic_data_def)
  have n: "norm (mk_time 1 0)" "norm (mk_time 6 0)" "ns (mk_time 1 0) \<le> ns (mk_time 6 0)" "norm (mk_time 2 0)"
    "0 < ns (mk_time 2 0)" "time_minus (mk_time 6 0) (mk_time 1 0) = Some (mk_time 5 0)" "divide_safe (mk_time 5 0) (mk_time 2 0)"
    by (simp_all add: norm_def ns_def divide_safe_def time_minus_def long_ck_def)
  have "enabled (timer_data_new (100 :: nat))" "expiry_count (timer_data_new (100 :: nat)) = 0"
    "userdata (timer_data_new (100 :: nat)) = 100"
    by (simp_all add: timer_data_new_def)
  with process_single_periodic [OF ok c n(1-3), unfolded d, of "mk_time 5 0" "\<lambda>_. False" "\<lambda>h u c l. l @ [(h, u, c)]" "[]"] n
  show ?thesis by (auto simp: ns_def)
qed

lemmas timer_eval = sample_timers_def dary_pull_root_def dary_insert_def emplace_back_def ensure_capacity_def
  bubble_down.simps dary_get_root_def dary_get_root_priority_def dary_node_data_def dary_set_node_data_def
  heap_eval

lemmas time_eval = time_le_def time_minus_def time_plus_def compare_timespec_def divide_timespec_def long_ck_def

text \<open>
  A periodic timer that shares its queue is re-queued for a wrong time. The overrun is computed
  from the time found in slot 0 after \<open>pull_root\<close>, which is that of the next timer: a timer with an
  interval of one second that expires on time at 1 s, in a queue with another timer for 100 s, is
  next queued for 101 s.
\<close>

theorem periodic_timer_rescheduled_late:
  "\<exists>q'. process_timer_queue (\<lambda>_. False) 32 (\<lambda>h u c l. l @ [(h, u, c)])
      (sample_timers [mk_time 1 0, mk_time 100 0] (periodic_data (mk_time 1 0)) 2) (mk_time 1 0) [] =
      Some (q', [(0, 100, 1)]) \<and> contents q' = {#node (mk_time 101 0) 0, node (mk_time 100 0) 1#}"
  by (simp add: process_timer_queue_def timer_eval time_eval Let_def int_ck_def contents_def
      deliver_def periodic_data_def timer_data_new_def dary_empty_def svec_empty_def timer_loop.simps)
     (simp add: node_def add_mset_commute)

end
