(* ===== verification/Timerfd.thy ===== *)
theory Timerfd
  imports Timerbase_Props
begin

text \<open>
  \<open>timerfd.h\<close>: timers driven by two Linux timerfds, one per clock. The state extends
  \<open>timer_base\<close> by the two descriptors, by \<open>armed\<close>, the absolute expiry last given to
  \<open>timerfd_settime\<close> for each descriptor (zero disarms), and by \<open>open_fds\<close>, the descriptors created and not
  closed. \<open>timerfd_create\<close>, \<open>add_fd_watch\<close> of the loop mechanism, and \<open>Base::init\<close>,
  \<open>Base::cleanup\<close> and \<open>Base::receive_fd_event\<close> are parameters. Each member runs under the loop's lock.
\<close>

record ('h, 'u, 'b) timer_fd_events = "('h, 'u, 'b) timer_base" +
  timerfd_fd :: int
  systemtime_fd :: int
  armed :: "int \<Rightarrow> timespec"
  open_fds :: "int set"

datatype 'w fd_userdata = Timerfd_addr | Systemtime_addr | Watcher 'w

definition set_timer_from_queue :: "int \<Rightarrow> ('h, 'u) timer_queue_t \<Rightarrow> (int \<Rightarrow> timespec) \<Rightarrow> (int \<Rightarrow> timespec)" where
  "set_timer_from_queue fd q arm =
     (if dary_empty q then arm(fd := mk_time 0 0) else arm(fd := dary_get_root_priority q))"

definition process_timer ::
  "(nat \<Rightarrow> bool) \<Rightarrow> nat \<Rightarrow> ('h \<Rightarrow> 'u \<Rightarrow> int \<Rightarrow> 'b \<Rightarrow> 'b) \<Rightarrow> (clock_type \<Rightarrow> timespec) \<Rightarrow> clock_type \<Rightarrow> int \<Rightarrow>
   ('h, 'u, 'b) timer_fd_events \<Rightarrow> ('h, 'u, 'b) timer_fd_events option" where
  "process_timer alloc sz recv clk clock fd t =
     map_option (\<lambda>t. t\<lparr>armed := set_timer_from_queue fd (queue_for_clock clock t) (armed t)\<rparr>)
       (run_queue alloc sz recv clock (clk clock) t)"

text \<open>The private \<open>set_timer\<close>: on a queue and the settings of its descriptor. \<open>None\<close>: \<open>insert\<close> threw.\<close>

definition set_timer_q ::
  "(nat \<Rightarrow> bool) \<Rightarrow> nat \<Rightarrow> 'h \<Rightarrow> timespec \<Rightarrow> timespec \<Rightarrow> int \<Rightarrow> bool \<Rightarrow>
   ('h, 'u) timer_queue_t \<times> (int \<Rightarrow> timespec) \<Rightarrow> (('h, 'u) timer_queue_t \<times> (int \<Rightarrow> timespec)) option" where
  "set_timer_q alloc sz h timeout interval fd enable st =
     (let (q, arm) = st;
          q = dary_set_node_data q h
                ((dary_node_data q h)\<lparr>interval_time := interval, expiry_count := 0, enabled := enable\<rparr>)
      in if dary_is_queued q h then
           let (b, q) = dary_set_priority compare_timespec 4 q h timeout in
           Some (q, if b then set_timer_from_queue fd q arm else arm)
         else
           (case dary_insert alloc sz compare_timespec 4 q h timeout of
              Inl e \<Rightarrow> None
            | Inr (b, q) \<Rightarrow> Some (q, if b then set_timer_from_queue fd q arm else arm)))"

definition fd_for_clock :: "clock_type \<Rightarrow> ('h, 'u, 'b) timer_fd_events \<Rightarrow> int" where
  "fd_for_clock clock t = (case clock of MONOTONIC \<Rightarrow> timerfd_fd t | SYSTEM \<Rightarrow> systemtime_fd t)"

definition tfd_set_timer ::
  "(nat \<Rightarrow> bool) \<Rightarrow> nat \<Rightarrow> 'h \<Rightarrow> timespec \<Rightarrow> timespec \<Rightarrow> bool \<Rightarrow> clock_type \<Rightarrow>
   ('h, 'u, 'b) timer_fd_events \<Rightarrow> ('h, 'u, 'b) timer_fd_events option" where
  "tfd_set_timer alloc sz h timeout interval enable clock t =
     map_option (\<lambda>(q, arm). (set_queue clock q t)\<lparr>armed := arm\<rparr>)
       (set_timer_q alloc sz h timeout interval (fd_for_clock clock t) enable (queue_for_clock clock t, armed t))"

definition tfd_set_timer_rel ::
  "(nat \<Rightarrow> bool) \<Rightarrow> nat \<Rightarrow> (clock_type \<Rightarrow> timespec) \<Rightarrow> 'h \<Rightarrow> timespec \<Rightarrow> timespec \<Rightarrow> bool \<Rightarrow> clock_type \<Rightarrow>
   ('h, 'u, 'b) timer_fd_events \<Rightarrow> ('h, 'u, 'b) timer_fd_events option" where
  "tfd_set_timer_rel alloc sz clk h timeout interval enable clock t =
     Option.bind (time_plus_assign (clk clock) timeout) (\<lambda>alarmtime.
       tfd_set_timer alloc sz h alarmtime interval enable clock t)"

definition stop_timer_q ::
  "'h \<Rightarrow> int \<Rightarrow> ('h, 'u) timer_queue_t \<times> (int \<Rightarrow> timespec) \<Rightarrow> ('h, 'u) timer_queue_t \<times> (int \<Rightarrow> timespec)" where
  "stop_timer_q h fd st =
     (let (q, arm) = st in
      if dary_is_queued q h then
        let was_first = (dary_get_root q = h); q = dary_remove compare_timespec 4 q h in
        (q, if was_first then set_timer_from_queue fd q arm else arm)
      else (q, arm))"

definition tfd_stop_timer_nolock ::
  "'h \<Rightarrow> clock_type \<Rightarrow> ('h, 'u, 'b) timer_fd_events \<Rightarrow> ('h, 'u, 'b) timer_fd_events" where
  "tfd_stop_timer_nolock h clock t =
     (let (q, arm) = stop_timer_q h (fd_for_clock clock t) (queue_for_clock clock t, armed t)
      in (set_queue clock q t)\<lparr>armed := arm\<rparr>)"

definition tfd_receive_fd_event ::
  "(nat \<Rightarrow> bool) \<Rightarrow> nat \<Rightarrow> ('h \<Rightarrow> 'u \<Rightarrow> int \<Rightarrow> 'b \<Rightarrow> 'b) \<Rightarrow> (clock_type \<Rightarrow> timespec) \<Rightarrow> bool \<Rightarrow>
   ('w \<Rightarrow> int \<Rightarrow> 'b \<Rightarrow> (int \<times> int) \<times> 'b) \<Rightarrow> 'w fd_userdata \<Rightarrow> int \<Rightarrow> ('h, 'u, 'b) timer_fd_events \<Rightarrow>
   ((int \<times> int) \<times> ('h, 'u, 'b) timer_fd_events) option" where
  "tfd_receive_fd_event alloc sz recv clk supports_non_oneshot_fd base_recv udata flags t =
     (let re_enable = (if supports_non_oneshot_fd then 0 else 1) in
      case udata of
        Timerfd_addr \<Rightarrow>
          map_option (\<lambda>t. ((re_enable, timerfd_fd t), t)) (process_timer alloc sz recv clk MONOTONIC (timerfd_fd t) t)
      | Systemtime_addr \<Rightarrow>
          map_option (\<lambda>t. ((re_enable, systemtime_fd t), t)) (process_timer alloc sz recv clk SYSTEM (systemtime_fd t) t)
      | Watcher w \<Rightarrow> (let (r, b) = base_recv w flags (base t) in Some (r, t\<lparr>base := b\<rparr>)))"

text \<open>\<open>init\<close>: the result is the exception thrown, if any, and the state it leaves.\<close>

definition tfd_init ::
  "(clock_type \<Rightarrow> int + int) \<Rightarrow> (int \<Rightarrow> 'w fd_userdata \<Rightarrow> 'b \<Rightarrow> exn option \<times> 'b) \<Rightarrow> ('b \<Rightarrow> exn option \<times> 'b) \<Rightarrow>
   ('h, 'u, 'b) timer_fd_events \<Rightarrow> exn option \<times> ('h, 'u, 'b) timer_fd_events" where
  "tfd_init timerfd_create add_fd_watch base_init t =
     (case timerfd_create MONOTONIC of
        Inl err \<Rightarrow> (Some (System_error err), t\<lparr>timerfd_fd := -1\<rparr>)
      | Inr fd1 \<Rightarrow>
          let t = t\<lparr>timerfd_fd := fd1, open_fds := insert fd1 (open_fds t)\<rparr> in
          (case timerfd_create SYSTEM of
             Inl err \<Rightarrow> (Some (System_error err), t\<lparr>systemtime_fd := -1, open_fds := open_fds t - {fd1}\<rparr>)
           | Inr fd2 \<Rightarrow>
               let t = t\<lparr>systemtime_fd := fd2, open_fds := insert fd2 (open_fds t)\<rparr>;
                   cleanup = (\<lambda>t. t\<lparr>open_fds := open_fds t - {fd1} - {fd2}\<rparr>) in
               (case add_fd_watch fd1 Timerfd_addr (base t) of
                  (Some e, b) \<Rightarrow> (Some e, cleanup (t\<lparr>base := b\<rparr>))
                | (None, b) \<Rightarrow>
                    (case add_fd_watch fd2 Systemtime_addr b of
                       (Some e, b) \<Rightarrow> (Some e, cleanup (t\<lparr>base := b\<rparr>))
                     | (None, b) \<Rightarrow>
                         (case base_init b of
                            (Some e, b) \<Rightarrow> (Some e, cleanup (t\<lparr>base := b\<rparr>))
                          | (None, b) \<Rightarrow> (None, t\<lparr>base := b\<rparr>))))))"

definition tfd_cleanup ::
  "('b \<Rightarrow> 'b) \<Rightarrow> ('h, 'u, 'b) timer_fd_events \<Rightarrow> ('h, 'u, 'b) timer_fd_events" where
  "tfd_cleanup base_cleanup t =
     t\<lparr>base := base_cleanup (base t), open_fds := open_fds t - {timerfd_fd t} - {systemtime_fd t}\<rparr>"

section \<open>The descriptor is armed early enough\<close>

text \<open>
  \<open>armed_ok fd M arm\<close>: if any timer is queued, the descriptor is armed (not with zero, which
  disarms it), for no later than any of them. \<open>M\<close> is the multiset of queued nodes.
\<close>

definition armed_ok :: "int \<Rightarrow> ('h, time_val) heap_node multiset \<Rightarrow> (int \<Rightarrow> timespec) \<Rightarrow> bool" where
  "armed_ok fd M arm \<longleftrightarrow> (\<forall>n \<in># M. 0 < ns (arm fd) \<and> ns (arm fd) \<le> ns (prio n))"

definition times_ok :: "('h, time_val) heap_node multiset \<Rightarrow> bool" where
  "times_ok M \<longleftrightarrow> (\<forall>n \<in># M. norm (prio n) \<and> 0 < ns (prio n))"

lemma armed_ok_set:
  assumes "heap_ok sz compare_timespec 4 A q" "times_ok (contents q)"
  shows "armed_ok fd (contents q) (set_timer_from_queue fd q arm)"
proof (cases "dary_empty q")
  case True
  then show ?thesis using timer_q.emp_items [OF assms(1)] by (simp add: armed_ok_def)
next
  case False
  have "root_node q \<in># contents q" by (rule timer_q.root_item [OF assms(1) False])
  then have r: "norm (prio (root_node q))" "0 < ns (prio (root_node q))" using assms(2) by (auto simp: times_ok_def)
  have "ns (prio (root_node q)) \<le> ns (prio n)" if "n \<in># contents q" for n
    using timer_q.root_least [OF assms(1) False that] assms(2) that r time_less_ns [of "prio n" "prio (root_node q)"]
    by (auto simp: times_ok_def compare_timespec_less)
  with False r show ?thesis by (simp add: armed_ok_def set_timer_from_queue_def root_node_sel)
qed

lemma armed_ok_add:
  assumes ok: "heap_ok sz compare_timespec 4 A q" and c: "contents q = add_mset (node p h) M"
    and t: "times_ok (contents q)" and arm: "armed_ok fd M arm" and b: "b \<longleftrightarrow> dary_get_root q = h"
  shows "armed_ok fd (contents q) (if b then set_timer_from_queue fd q arm else arm)"
proof (cases b)
  case True
  then show ?thesis using armed_ok_set [OF ok t] by simp
next
  case False
  let ?r = "root_node q"
  have ne: "\<not> dary_empty q" using timer_q.emp_items [OF ok] c by simp
  have "hnd ?r \<noteq> h" using False b by (simp add: root_node_sel)
  with timer_q.root_item [OF ok ne] have r: "?r \<in># M" by (auto simp: c)
  then have "norm (prio ?r)" "norm p" using t by (auto simp: times_ok_def c)
  with timer_q.root_least [OF ok ne, of "node p h"] have "ns (prio ?r) \<le> ns p"
    using time_less_ns [of p "prio ?r"] by (simp add: c compare_timespec_less)
  with r arm show ?thesis using False by (auto simp: armed_ok_def c)
qed

lemma minus_node_filter:
  "distinct (map f xs) \<Longrightarrow> x \<in> set xs \<Longrightarrow> mset xs - {#x#} = filter_mset (\<lambda>n. f n \<noteq> f x) (mset xs)"
proof (induction xs)
  case (Cons y ys)
  show ?case
  proof (cases "x = y")
    case True
    with Cons.prems have "\<forall>n \<in># mset ys. f n \<noteq> f x" by (metis image_eqI list.set_map set_mset_mset distinct.simps(2) list.simps(9))
    then have "filter_mset (\<lambda>n. f n \<noteq> f x) (mset ys) = mset ys" by (simp add: filter_mset_eq_conv)
    with True show ?thesis by simp
  next
    case False
    with Cons have "mset ys - {#x#} = filter_mset (\<lambda>n. f n \<noteq> f x) (mset ys)" "f y \<noteq> f x" by auto
    with False Cons.prems show ?thesis by (simp add: add_mset_remove_trivial_If)
  qed
qed simp

text \<open>The queue without the timer \<open>h\<close>, whether it is queued or not.\<close>

abbreviation others :: "'h \<Rightarrow> ('h, 'u) timer_queue_t \<Rightarrow> ('h, time_val) heap_node multiset" where
  "others h q \<equiv> filter_mset (\<lambda>n. hnd n \<noteq> h) (contents q)"

lemma others_unqueued:
  assumes "heap_wf sz A q" "h \<in> A" "\<not> dary_is_queued q h"
  shows "others h q = contents q"
  using is_queued_iff [OF assms(1,2)] assms(3) by (auto simp: queued_contents filter_mset_eq_conv)

lemma set_priority_armed:
  assumes ok: "heap_ok sz compare_timespec 4 A q" and t: "times_ok (contents q)" "norm p" "0 < ns p"
    and arm: "armed_ok fd (contents q) arm" and h: "h \<in> A" "dary_is_queued q h" and small: "dary_size q \<le> 2 ^ 31"
    and r: "dary_set_priority compare_timespec 4 q h p = (b, q')"
  shows "armed_ok fd (contents q') (if b then set_timer_from_queue fd q' arm else arm)"
    "times_ok (contents q')" "heap_wf sz A q'" "node p h \<in># contents q'"
    "\<forall>g. dary_node_data q' g = dary_node_data q g" "contents q' = add_mset (node p h) (others h q)"
    "ns p \<le> ns (prio (nodes q ! heap_index (handles q h))) \<or> (\<exists>k. dary_size q - 1 = k * 4 + 1) \<Longrightarrow>
     heap_ok sz compare_timespec 4 A q'"
proof -
  have wf: "heap_wf sz A q" "dary_ord compare_timespec 4 q" using ok by (simp_all add: heap_ok_def)
  have "(0 :: nat) < 4" by simp
  note facts = set_priority_facts [OF compare_timespec_swo this wf(1) h small r]
  let ?old = "prio (nodes q ! heap_index (handles q h))" and ?M = "contents q - {#node (prio (nodes q ! heap_index (handles q h))) h#}"
  have "h \<in> queued q" using is_queued_iff [OF wf(1) h(1)] h(2) by simp
  from queued_index [OF wf(1) this] have old: "node ?old h \<in># contents q"
    using length_nodes [OF wf(1)] by (metis contents_def node_sel(3) nth_mem set_mset_mset)
  have armM: "armed_ok fd ?M arm" using arm by (auto simp: armed_ok_def dest: in_diffD)
  have "?M = others h q"
    using minus_node_filter [of hnd "nodes q" "node ?old h"] wf(1) old by (simp add: heap_wf_def contents_def)
  then show "contents q' = add_mset (node p h) (others h q)" using facts(2) by simp
  have "norm ?old" using old t(1) by (auto simp: times_ok_def)
  then have lt: "compare_timespec ?old p \<longleftrightarrow> ns ?old < ns p" using time_less_ns t(2) by (simp add: compare_timespec_less)
  show "heap_ok sz compare_timespec 4 A q'" if "ns p \<le> ns ?old \<or> (\<exists>k. dary_size q - 1 = k * 4 + 1)"
    using facts(1) facts(5) [OF wf(2)] that lt by (auto simp: heap_ok_def)
  show wf': "heap_wf sz A q'" and "\<forall>g. dary_node_data q' g = dary_node_data q g" by (rule facts(1) facts(4))+
  show t': "times_ok (contents q')" and "node p h \<in># contents q'"
    using t facts(2) by (auto simp: times_ok_def dest: in_diffD)
  show "armed_ok fd (contents q') (if b then set_timer_from_queue fd q' arm else arm)"
  proof (cases "compare_timespec ?old p")
    case True
    have "norm ?old" "ns (arm fd) \<le> ns ?old" "0 < ns (arm fd)" using old t(1) arm by (auto simp: times_ok_def armed_ok_def)
    moreover have "ns ?old < ns p" using True calculation(1) t(2) time_less_ns by (simp add: compare_timespec_less)
    ultimately have "armed_ok fd (contents q') arm" using armM by (auto simp: armed_ok_def facts(2))
    moreover have "\<not> b" using facts(3) True by simp
    ultimately show ?thesis by simp
  next
    case False
    then have "heap_ok sz compare_timespec 4 A q'" using facts(5) [OF wf(2)] wf' by (simp add: heap_ok_def)
    then show ?thesis using facts(2,3) False armM t' by (intro armed_ok_add) auto
  qed
qed

text \<open>
  C23: setting a timer, in a queue in heap order with the timerfd armed for no later than any queued timer, succeeds: the
  timer is queued for the given time, once, and the others as before; its interval and enable
  flag are stored, its count is reset, and no other timer's data changes; and the timerfd is
  armed for no later than any queued timer. The heap order, which the operation relies on, is kept if the
  timer was not queued, or was queued for the same or a later time, or the last node of the queue is the first child of its
  parent: in these cases the operation can be repeated. Otherwise, when a queued timer is put off, the order can be lost.
\<close>

theorem set_timer_armed:
  assumes "heap_ok sz compare_timespec 4 A q" "times_ok (contents q)" "armed_ok fd (contents q) arm"
    and "h \<in> A" "dary_size q \<le> 2 ^ 31" "norm timeout" "0 < ns timeout"
  shows "\<exists>q' arm'. set_timer_q alloc sz h timeout interval fd enable (q, arm) = Some (q', arm') \<and>
    heap_wf sz A q' \<and> times_ok (contents q') \<and> armed_ok fd (contents q') arm' \<and>
    contents q' = add_mset (node timeout h) (others h q) \<and>
    (\<forall>g. dary_node_data q' g = (if g = h
       then (dary_node_data q h)\<lparr>interval_time := interval, expiry_count := 0, enabled := enable\<rparr> else dary_node_data q g)) \<and>
    (dary_is_queued q h \<longrightarrow> ns timeout \<le> ns (prio (nodes q ! heap_index (handles q h))) \<or> (\<exists>k. dary_size q - 1 = k * 4 + 1) \<longrightarrow>
       heap_ok sz compare_timespec 4 A q') \<and>
    (\<not> dary_is_queued q h \<longrightarrow> heap_ok sz compare_timespec 4 A q')"
proof -
  let ?d = "(dary_node_data q h)\<lparr>interval_time := interval, expiry_count := 0, enabled := enable\<rparr>"
  let ?q = "dary_set_node_data q h ?d"
  have q: "heap_ok sz compare_timespec 4 A ?q" "times_ok (contents ?q)" "armed_ok fd (contents ?q) arm" "dary_size ?q \<le> 2 ^ 31"
    using assms by (simp_all add: dary_size_def)
  have same: "dary_is_queued ?q h = dary_is_queued q h" "dary_size ?q = dary_size q"
    by (simp_all add: dary_is_queued_def dary_size_def)
  show ?thesis
  proof (cases "dary_is_queued ?q h")
    case True
    obtain b q' where r: "dary_set_priority compare_timespec 4 ?q h timeout = (b, q')" by force
    have "set_timer_q alloc sz h timeout interval fd enable (q, arm) =
        Some (q', if b then set_timer_from_queue fd q' arm else arm)"
      using True r by (simp add: set_timer_q_def Let_def)
    then show ?thesis using set_priority_armed [OF q(1,2) assms(6,7) q(3) assms(4) True q(4) r] True same by simp
  next
    case False
    have wf: "heap_wf sz A ?q" "dary_ord compare_timespec 4 ?q" using q(1) by (simp_all add: heap_ok_def)
    obtain b q' where r: "dary_insert alloc sz compare_timespec 4 ?q h timeout = Inr (b, q')"
        "heap_ok sz compare_timespec 4 A q'" "contents q' = add_mset (node timeout h) (contents ?q)"
        "b \<longleftrightarrow> dary_get_root q' = h" "\<forall>g. dary_node_data q' g = dary_node_data ?q g"
      using insert_facts [OF compare_timespec_swo wf assms(4) False, of alloc timeout] by (auto simp: heap_ok_def)
    have t: "times_ok (contents q')" using q(2) assms(6,7) r(3) by (auto simp: times_ok_def)
    have "set_timer_q alloc sz h timeout interval fd enable (q, arm) =
        Some (q', if b then set_timer_from_queue fd q' arm else arm)"
      using False r(1) by (simp add: set_timer_q_def Let_def)
    moreover have "armed_ok fd (contents q') (if b then set_timer_from_queue fd q' arm else arm)"
      using armed_ok_add [OF r(2,3) t _ r(4)] q(3) by blast
    moreover have "others h q = contents q" using others_unqueued [OF wf(1) assms(4) False] by simp
    ultimately show ?thesis using r t False same by (auto simp: heap_ok_def)
  qed
qed

theorem set_timer_armed_witness:
  "\<exists>q' arm'. set_timer_q (\<lambda>_. False) 32 1 (mk_time 3 0) (mk_time 0 0) 9 True
      (sample_timers [mk_time 5 0] one_shot_data 2, \<lambda>_. mk_time 5 0) = Some (q', arm') \<and>
    armed_ok 9 (contents q') arm' \<and> heap_ok 32 compare_timespec 4 {..<2} q' \<and>
    contents q' = {#node (mk_time 3 0) 1, node (mk_time 5 0) 0#}"
proof -
  let ?q = "sample_timers [mk_time 5 0] one_shot_data 2"
  have c: "contents ?q = {#node (mk_time 5 0) 0#}" by (simp add: contents_def sample_timers_facts)
  have "heap_wf 32 {..<2} ?q" by (intro sample_timers_facts) (simp_all add: svec_max_size_def size_max_def)
  moreover have "dary_ord compare_timespec 4 ?q" by (simp add: dary_ord_def heap_ord_def sample_timers_facts)
  ultimately have "heap_ok 32 compare_timespec 4 {..<2} ?q" by (simp add: heap_ok_def)
  moreover have "times_ok (contents ?q)" "armed_ok 9 (contents ?q) (\<lambda>_. mk_time 5 0)"
    by (simp_all add: times_ok_def armed_ok_def c norm_def ns_def)
  moreover have "dary_size ?q \<le> 2 ^ 31" by (simp add: dary_size_def sample_timers_def)
  moreover have "norm (mk_time 3 0)" "0 < ns (mk_time 3 0)" by (simp_all add: norm_def ns_def)
  moreover have "\<not> dary_is_queued ?q 1" by (simp add: dary_is_queued_def sample_timers_def size_max_def)
  ultimately show ?thesis
    using set_timer_armed [of 32 "{..<2}" ?q 9 "\<lambda>_. mk_time 5 0" 1 "mk_time 3 0" "\<lambda>_. False" "mk_time 0 0" True]
    by (auto simp: c)
qed

text \<open>
  Putting off a queued timer can lose the order, and then the next setting arms the timerfd too late: of
  the timers for 1, 5 and 3 seconds the first is put off to 10; the second is then set for 4, and the
  timerfd is armed for 4 seconds while a timer for 3 is queued.
\<close>

theorem set_timer_armed_late:
  "case set_timer_q (\<lambda>_. False) 32 0 (mk_time 10 0) (mk_time 0 0) 9 True
      (sample_timers [mk_time 1 0, mk_time 5 0, mk_time 3 0] one_shot_data 3, \<lambda>_. mk_time 1 0) of
     None \<Rightarrow> False
   | Some st \<Rightarrow>
       (case set_timer_q (\<lambda>_. False) 32 1 (mk_time 4 0) (mk_time 0 0) 9 True st of
          None \<Rightarrow> False
        | Some (q, arm) \<Rightarrow> arm 9 = mk_time 4 0 \<and> node (mk_time 3 0) 2 \<in># contents q)"
  by (simp add: set_timer_q_def timer_eval compare_timespec_def Let_def contents_def dary_is_queued_def
      set_timer_from_queue_def dary_empty_def svec_empty_def bubble_down_at_def size_max_def)

text \<open>
  Stopping a timer takes it off the queue, leaves the others, and leaves the timerfd armed for no
  later than any timer still queued; stopping a timer that is not queued changes nothing.
\<close>

theorem stop_timer_armed:
  assumes "heap_ok sz compare_timespec 4 A q" "times_ok (contents q)" "armed_ok fd (contents q) arm" "h \<in> A"
  shows "let (q', arm') = stop_timer_q h fd (q, arm) in
    heap_wf sz A q' \<and> \<not> dary_is_queued q' h \<and> armed_ok fd (contents q') arm' \<and>
    contents q' = filter_mset (\<lambda>n. hnd n \<noteq> h) (contents q)"
proof -
  have wf: "heap_wf sz A q" "dary_ord compare_timespec 4 q" using assms(1) by (simp_all add: heap_ok_def)
  show ?thesis
  proof (cases "dary_is_queued q h")
    case False
    then have "h \<notin> hnd ` set_mset (contents q)" using is_queued_iff [OF wf(1) assms(4)] by (simp add: queued_contents)
    then have "filter_mset (\<lambda>n. hnd n \<noteq> h) (contents q) = contents q" by (auto simp: filter_mset_eq_conv)
    with False wf assms(3) show ?thesis by (simp add: stop_timer_q_def)
  next
    case True
    let ?q' = "dary_remove compare_timespec 4 q h" and ?i = "heap_index (handles q h)"
    have "(0 :: nat) < 4" by simp
    note facts = remove_facts [OF compare_timespec_swo this wf(1) assms(4) True]
    have c: "contents ?q' = filter_mset (\<lambda>n. hnd n \<noteq> h) (contents q)"
      by (rule remove_filter [OF wf(1) assms(4) True facts(1,2,3)])
    have arm: "armed_ok fd (contents ?q') (if dary_get_root q = h then set_timer_from_queue fd ?q' arm else arm)"
    proof (cases "dary_get_root q = h")
      case first: True
      have "h \<in> queued q" using is_queued_iff [OF wf(1) assms(4)] True by simp
      from queued_index(1) [OF wf(1) this] have pos: "0 < size_v (hvec q)" by linarith
      moreover have "hnd (nodes q ! 0) = h" using first elems_nth [OF pos] by (simp add: dary_get_root_def)
      ultimately have "?i = 0" using wf(1) length_nodes [OF wf(1)] by (auto simp: heap_wf_def indexed_def)
      then have "heap_ok sz compare_timespec 4 A ?q'" using facts(1,5) wf(2) by (simp add: removal_safe_def heap_ok_def)
      moreover have "times_ok (contents ?q')" using assms(2) by (simp add: c times_ok_def)
      ultimately show ?thesis using first armed_ok_set by auto
    next
      case False
      then show ?thesis using assms(3) by (auto simp: c armed_ok_def)
    qed
    have "stop_timer_q h fd (q, arm) = (?q', if dary_get_root q = h then set_timer_from_queue fd ?q' arm else arm)"
      using True by (simp add: stop_timer_q_def Let_def)
    with arm facts(1,3) c show ?thesis by simp
  qed
qed

theorem stop_timer_armed_witness:
  "let (q', arm') = stop_timer_q 0 9 (sample_timers [mk_time 5 0, mk_time 8 0] one_shot_data 2, \<lambda>_. mk_time 5 0) in
   armed_ok 9 (contents q') arm' \<and> contents q' = {#node (mk_time 8 0) 1#}"
proof -
  let ?q = "sample_timers [mk_time 5 0, mk_time 8 0] one_shot_data 2"
  have c: "contents ?q = {#node (mk_time 5 0) 0, node (mk_time 8 0) 1#}" by (simp add: contents_def sample_timers_facts)
  have "heap_wf 32 {..<2} ?q" by (intro sample_timers_facts) (simp_all add: svec_max_size_def size_max_def)
  moreover have "dary_ord compare_timespec 4 ?q"
    by (simp add: dary_ord_def heap_ord_def sample_timers_facts numeral_2_eq_2 All_less_Suc heap_parent_def compare_timespec_def)
  ultimately have "heap_ok 32 compare_timespec 4 {..<2} ?q" by (simp add: heap_ok_def)
  moreover have "times_ok (contents ?q)" "armed_ok 9 (contents ?q) (\<lambda>_. mk_time 5 0)"
    by (simp_all add: times_ok_def armed_ok_def c norm_def ns_def)
  ultimately have "let (q', arm') = stop_timer_q 0 9 (?q, \<lambda>_. mk_time 5 0) in
      heap_wf 32 {..<2} q' \<and> \<not> dary_is_queued q' 0 \<and> armed_ok 9 (contents q') arm' \<and>
      contents q' = filter_mset (\<lambda>n. hnd n \<noteq> 0) (contents ?q)"
    by (intro stop_timer_armed) auto
  then show ?thesis by (auto simp: c split: prod.splits)
qed

end
