(* ===== verification/Posixtimer.thy ===== *)
theory Posixtimer
  imports Timerbase_Props
begin

text \<open>
  \<open>posixtimer.h\<close>: timers driven by POSIX timers that raise \<open>SIGALRM\<close>. The state extends
  \<open>timer_base\<close> by the kernel's timers \<open>kern\<close>, which only \<open>timer_settime\<close> (the parameter \<open>settime\<close>, per
  clock) changes, by the set of created timers and by the signal mask of the thread.
  \<open>timer_create\<close>, \<open>add_signal_watch\<close> and the members of \<open>Base\<close> are parameters. \<open>pmt\<close> is the template
  parameter \<open>provide_mono_timer\<close>.
\<close>

record ('h, 'u, 'b, 'k) posix_timer_events = "('h, 'u, 'b) timer_base" +
  kern :: 'k
  created :: "clock_type set"
  sigmask :: "int set"

definition SIGALRM :: int where
  "SIGALRM = 14"

definition ptm_set_timer_from_queue ::
  "(clock_type \<Rightarrow> timespec \<Rightarrow> 'k \<Rightarrow> 'k) \<Rightarrow> clock_type \<Rightarrow> ('h, 'u) timer_queue_t \<Rightarrow> 'k \<Rightarrow> 'k" where
  "ptm_set_timer_from_queue settime timer q k =
     (if dary_empty q then settime timer (mk_time 0 0) k
      else settime timer (dary_get_root_priority q) k)"

definition ptm_run ::
  "(nat \<Rightarrow> bool) \<Rightarrow> nat \<Rightarrow> ('h \<Rightarrow> 'u \<Rightarrow> int \<Rightarrow> 'b \<Rightarrow> 'b) \<Rightarrow> (clock_type \<Rightarrow> timespec) \<Rightarrow>
   (clock_type \<Rightarrow> timespec \<Rightarrow> 'k \<Rightarrow> 'k) \<Rightarrow> clock_type \<Rightarrow> ('h, 'u, 'b, 'k) posix_timer_events \<Rightarrow>
   ('h, 'u, 'b, 'k) posix_timer_events option" where
  "ptm_run alloc sz recv clk settime clock t =
     map_option (\<lambda>t. t\<lparr>kern := ptm_set_timer_from_queue settime clock (queue_for_clock clock t) (kern t)\<rparr>)
       (run_queue alloc sz recv clock (clk clock) t)"

definition ptm_receive_signal ::
  "(nat \<Rightarrow> bool) \<Rightarrow> nat \<Rightarrow> ('h \<Rightarrow> 'u \<Rightarrow> int \<Rightarrow> 'b \<Rightarrow> 'b) \<Rightarrow> (clock_type \<Rightarrow> timespec) \<Rightarrow>
   (clock_type \<Rightarrow> timespec \<Rightarrow> 'k \<Rightarrow> 'k) \<Rightarrow> bool \<Rightarrow> ('s \<Rightarrow> 'b \<Rightarrow> bool \<times> 'b) \<Rightarrow> ('s \<Rightarrow> int) \<Rightarrow> 's \<Rightarrow>
   ('h, 'u, 'b, 'k) posix_timer_events \<Rightarrow> (bool \<times> ('h, 'u, 'b, 'k) posix_timer_events) option" where
  "ptm_receive_signal alloc sz recv clk settime pmt base_recv signo siginfo t =
     (if signo siginfo = SIGALRM then
        Option.bind (if \<not> dary_empty (timer_queue t) then ptm_run alloc sz recv clk settime SYSTEM t else Some t)
          (\<lambda>t. map_option (\<lambda>t. (False, t))
             (if \<not> dary_empty (mono_timer_queue t) \<and> pmt
              then ptm_run alloc sz recv clk settime MONOTONIC t else Some t))
      else let (r, b) = base_recv siginfo (base t) in Some (r, t\<lparr>base := b\<rparr>))"

definition ptm_cleanup ::
  "('b \<Rightarrow> 'b) \<Rightarrow> bool \<Rightarrow> ('h, 'u, 'b, 'k) posix_timer_events \<Rightarrow> ('h, 'u, 'b, 'k) posix_timer_events" where
  "ptm_cleanup base_cleanup pmt t =
     t\<lparr>base := base_cleanup (base t),
       created := (if pmt then created t - {MONOTONIC} else created t) - {SYSTEM}\<rparr>"

definition ptm_init ::
  "(clock_type \<Rightarrow> int option) \<Rightarrow> (int \<Rightarrow> 'b \<Rightarrow> exn option \<times> 'b) \<Rightarrow> ('b \<Rightarrow> exn option \<times> 'b) \<Rightarrow> ('b \<Rightarrow> 'b) \<Rightarrow> bool \<Rightarrow>
   ('h, 'u, 'b, 'k) posix_timer_events \<Rightarrow> exn option \<times> ('h, 'u, 'b, 'k) posix_timer_events" where
  "ptm_init timer_create add_signal_watch base_init base_cleanup pmt t =
     (let t = t\<lparr>sigmask := insert SIGALRM (sigmask t)\<rparr> in
      case add_signal_watch SIGALRM (base t) of
        (Some e, b) \<Rightarrow> (Some e, t\<lparr>base := b\<rparr>)
      | (None, b) \<Rightarrow>
          let t = t\<lparr>base := b\<rparr> in
          (case timer_create SYSTEM of
             Some err \<Rightarrow> (Some (System_error err), t)
           | None \<Rightarrow>
               let t = t\<lparr>created := insert SYSTEM (created t)\<rparr> in
               (case (if pmt then timer_create MONOTONIC else None) of
                  Some err \<Rightarrow> (Some (System_error err), t\<lparr>created := created t - {SYSTEM}\<rparr>)
                | None \<Rightarrow>
                    let t = (if pmt then t\<lparr>created := insert MONOTONIC (created t)\<rparr> else t) in
                    (case base_init (base t) of
                       (Some e, b) \<Rightarrow> (Some e, ptm_cleanup base_cleanup pmt (t\<lparr>base := b\<rparr>))
                     | (None, b) \<Rightarrow> (None, t\<lparr>base := b\<rparr>)))))"

definition ptm_set_timer ::
  "(nat \<Rightarrow> bool) \<Rightarrow> nat \<Rightarrow> (clock_type \<Rightarrow> timespec \<Rightarrow> 'k \<Rightarrow> 'k) \<Rightarrow> bool \<Rightarrow> 'h \<Rightarrow> timespec \<Rightarrow> timespec \<Rightarrow> bool \<Rightarrow>
   clock_type \<Rightarrow> ('h, 'u, 'b, 'k) posix_timer_events \<Rightarrow> ('h, 'u, 'b, 'k) posix_timer_events option" where
  "ptm_set_timer alloc sz settime pmt h timeout interval enable clock t =
     (let q = queue_for_clock clock t;
          q = dary_set_node_data q h
                ((dary_node_data q h)\<lparr>interval_time := interval, expiry_count := 0, enabled := enable\<rparr>);
          arm = (\<lambda>b q. if b \<and> (clock \<noteq> MONOTONIC \<or> pmt)
                        then ptm_set_timer_from_queue settime clock q (kern t) else kern t)
      in if dary_is_queued q h then
           let (b, q) = dary_set_priority compare_timespec 4 q h timeout in
           Some ((set_queue clock q t)\<lparr>kern := arm b q\<rparr>)
         else
           (case dary_insert alloc sz compare_timespec 4 q h timeout of
              Inl e \<Rightarrow> None
            | Inr (b, q) \<Rightarrow> Some ((set_queue clock q t)\<lparr>kern := arm b q\<rparr>)))"

text \<open>The sum of \<open>set_timer_rel\<close>, written out there and in \<open>itimer.h\<close>.\<close>

definition rel_time :: "timespec \<Rightarrow> timespec \<Rightarrow> timespec option" where
  "rel_time curtime timeout = do {
     s \<leftarrow> long_ck (tv_sec curtime + tv_sec timeout);
     n \<leftarrow> long_ck (tv_nsec curtime + tv_nsec timeout);
     if n > 1000000000 then do { s \<leftarrow> long_ck (s + 1); Some (mk_time s (n - 1000000000)) }
     else Some (mk_time s n)
   }"

definition ptm_set_timer_rel ::
  "(nat \<Rightarrow> bool) \<Rightarrow> nat \<Rightarrow> (clock_type \<Rightarrow> timespec) \<Rightarrow> (clock_type \<Rightarrow> timespec \<Rightarrow> 'k \<Rightarrow> 'k) \<Rightarrow> bool \<Rightarrow> 'h \<Rightarrow>
   timespec \<Rightarrow> timespec \<Rightarrow> bool \<Rightarrow> clock_type \<Rightarrow> ('h, 'u, 'b, 'k) posix_timer_events \<Rightarrow>
   ('h, 'u, 'b, 'k) posix_timer_events option" where
  "ptm_set_timer_rel alloc sz clk settime pmt h timeout interval enable clock t =
     Option.bind (rel_time (clk clock) timeout) (\<lambda>curtime.
       ptm_set_timer alloc sz settime pmt h curtime interval enable clock t)"

definition ptm_stop_timer_nolock ::
  "(clock_type \<Rightarrow> timespec \<Rightarrow> 'k \<Rightarrow> 'k) \<Rightarrow> bool \<Rightarrow> 'h \<Rightarrow> clock_type \<Rightarrow> ('h, 'u, 'b, 'k) posix_timer_events \<Rightarrow>
   ('h, 'u, 'b, 'k) posix_timer_events" where
  "ptm_stop_timer_nolock settime pmt h clock t =
     (let q = queue_for_clock clock t in
      if dary_is_queued q h then
        let was_first = (dary_get_root q = h); q = dary_remove compare_timespec 4 q h in
        (set_queue clock q t)\<lparr>kern :=
          (if was_first \<and> (clock \<noteq> MONOTONIC \<or> pmt)
           then ptm_set_timer_from_queue settime clock q (kern t) else kern t)\<rparr>
      else t)"

text \<open>
  The time a relative timer of \<open>posixtimer.h\<close> and \<open>itimer.h\<close> is set for is the right instant, if it is in the
  range of \<open>time_t\<close>,
  but it is not a normal \<open>timespec\<close> when the nanoseconds add up to exactly one second (the code
  carries on \<open>>\<close> where it needs \<open>>=\<close>), which \<open>timer_settime\<close> does not accept.
\<close>

theorem rel_time_carry:
  assumes "norm cur" "norm timeout" "ns cur + ns timeout < time_end"
  shows "\<exists>t. rel_time cur timeout = Some t \<and> ns t = ns cur + ns timeout \<and>
    (norm t \<longleftrightarrow> tv_nsec cur + tv_nsec timeout \<noteq> 1000000000)"
  using assms by (auto simp: rel_time_def norm_def ns_def long_ck_def time_end_def)

theorem rel_time_carry_witness:
  "\<exists>t. rel_time (mk_time 5 600000000) (mk_time 0 400000000) = Some t \<and> \<not> norm t \<and> ns t = 6000000000"
  using rel_time_carry [of "mk_time 5 600000000" "mk_time 0 400000000"] by (auto simp: norm_def ns_def time_end_def)

end
