(* ===== verification/Itimer.thy ===== *)
theory Itimer
  imports Posixtimer
begin

text \<open>
  \<open>itimer.h\<close>: timers driven by the single \<open>setitimer\<close> alarm, or, when \<open>provide_mono_timer\<close> (\<open>pmt\<close>)
  is false, by the wait timeout of the loop mechanism. \<open>kern\<close> is the kernel's alarm, changed by
  \<open>setitimer\<close> (a parameter), and \<open>base\<close> the dispatcher, with \<open>interrupt_wait\<close> a parameter.
\<close>

record ('h, 'u, 'b, 'k) itimer_events = "('h, 'u, 'b) timer_base" +
  alarm :: 'k
  itm_sigmask :: "int set"

text \<open>
  The interval until the next timeout of a clock, zero when it has passed; \<open>None\<close> if the difference overflows.
\<close>

definition until_next ::
  "(clock_type \<Rightarrow> timespec) \<Rightarrow> clock_type \<Rightarrow> ('h, 'u, 'b, 'z) timer_base_scheme \<Rightarrow> timespec option" where
  "until_next clk clock t =
     (let newtime = dary_get_root_priority (queue_for_clock clock t); cur = clk clock in
      if time_less cur newtime then time_minus newtime cur else Some (mk_time 0 0))"

definition alarm_interval ::
  "(clock_type \<Rightarrow> timespec) \<Rightarrow> ('h, 'u, 'b, 'z) timer_base_scheme \<Rightarrow> (bool \<times> timespec) option" where
  "alarm_interval clk t = do {
     (iset, iv) \<leftarrow> (if \<not> dary_empty (timer_queue t)
                    then map_option (\<lambda>iv. (True, iv)) (until_next clk SYSTEM t) else Some (False, mk_time 0 0));
     if \<not> dary_empty (mono_timer_queue t) then do {
       iv_mono \<leftarrow> until_next clk MONOTONIC t;
       Some (True, if \<not> iset \<or> time_less iv_mono iv then iv_mono else iv)
     } else Some (iset, iv)
   }"

definition itm_set_timer_from_queue ::
  "(clock_type \<Rightarrow> timespec) \<Rightarrow> (timeval \<Rightarrow> 'k \<Rightarrow> 'k) \<Rightarrow> ('h, 'u, 'b, 'k) itimer_events \<Rightarrow>
   ('h, 'u, 'b, 'k) itimer_events option" where
  "itm_set_timer_from_queue clk setitimer t =
     map_option (\<lambda>(interval_set, iv).
         let v = \<lparr>tv_sec' = tv_sec iv, tv_usec = c_div (tv_nsec iv) 1000\<rparr>;
             v = (if interval_set \<and> tv_sec' v = 0 \<and> tv_usec v = 0 then \<lparr>tv_sec' = 0, tv_usec = 1\<rparr> else v)
         in t\<lparr>alarm := setitimer v (alarm t)\<rparr>)
       (alarm_interval clk t)"

definition itm_process_timers ::
  "(nat \<Rightarrow> bool) \<Rightarrow> nat \<Rightarrow> ('h \<Rightarrow> 'u \<Rightarrow> int \<Rightarrow> 'b \<Rightarrow> 'b) \<Rightarrow> (clock_type \<Rightarrow> timespec) \<Rightarrow> (timeval \<Rightarrow> 'k \<Rightarrow> 'k) \<Rightarrow> bool \<Rightarrow>
   ('h, 'u, 'b, 'k) itimer_events \<Rightarrow> ('h, 'u, 'b, 'k) itimer_events option" where
  "itm_process_timers alloc sz recv clk setitimer pmt t =
     Option.bind (if \<not> dary_empty (timer_queue t) then run_queue alloc sz recv SYSTEM (clk SYSTEM) t else Some t)
       (\<lambda>t. Option.bind
          (if pmt \<and> \<not> dary_empty (mono_timer_queue t)
           then run_queue alloc sz recv MONOTONIC (clk MONOTONIC) t else Some t)
          (\<lambda>t. if pmt then itm_set_timer_from_queue clk setitimer t else Some t))"

definition itm_receive_signal ::
  "(nat \<Rightarrow> bool) \<Rightarrow> nat \<Rightarrow> ('h \<Rightarrow> 'u \<Rightarrow> int \<Rightarrow> 'b \<Rightarrow> 'b) \<Rightarrow> (clock_type \<Rightarrow> timespec) \<Rightarrow> (timeval \<Rightarrow> 'k \<Rightarrow> 'k) \<Rightarrow> bool \<Rightarrow>
   ('s \<Rightarrow> 'b \<Rightarrow> bool \<times> 'b) \<Rightarrow> ('s \<Rightarrow> int) \<Rightarrow> 's \<Rightarrow> ('h, 'u, 'b, 'k) itimer_events \<Rightarrow>
   (bool \<times> ('h, 'u, 'b, 'k) itimer_events) option" where
  "itm_receive_signal alloc sz recv clk setitimer pmt base_recv signo siginfo t =
     (if signo siginfo = SIGALRM
      then map_option (\<lambda>t. (False, t)) (itm_process_timers alloc sz recv clk setitimer pmt t)
      else let (r, b) = base_recv siginfo (base t) in Some (r, t\<lparr>base := b\<rparr>))"

text \<open>The shadowing \<open>process_monotonic_timers\<close>, which run both queues.\<close>

definition itm_process_monotonic_tv ::
  "(nat \<Rightarrow> bool) \<Rightarrow> nat \<Rightarrow> ('h \<Rightarrow> 'u \<Rightarrow> int \<Rightarrow> 'b \<Rightarrow> 'b) \<Rightarrow> (clock_type \<Rightarrow> timespec) \<Rightarrow> bool \<Rightarrow> timeval \<Rightarrow> timeval option \<Rightarrow>
   ('h, 'u, 'b, 'k) itimer_events \<Rightarrow> (('h, 'u, 'b, 'k) itimer_events \<times> bool \<times> timeval \<times> timeval option) option" where
  "itm_process_monotonic_tv alloc sz recv clk do_wait tv wait_tv t =
     Option.bind (process_timers_tv alloc sz recv clk MONOTONIC do_wait tv wait_tv t) (\<lambda>(t, do_wait, tv, wait_tv).
       if \<not> do_wait then process_timers_tv alloc sz recv clk SYSTEM do_wait tv wait_tv t
       else
         let mono_tv = tv in
         map_option (\<lambda>(t, do_wait, tv, wait_tv).
             if tv_sec' mono_tv < tv_sec' tv \<or> tv_sec' mono_tv = tv_sec' tv \<and> tv_usec mono_tv < tv_usec tv
             then (t, do_wait, mono_tv, map_option (\<lambda>_. mono_tv) wait_tv) else (t, do_wait, tv, wait_tv))
           (process_timers_tv alloc sz recv clk SYSTEM do_wait tv wait_tv t))"

definition itm_process_monotonic_ts ::
  "(nat \<Rightarrow> bool) \<Rightarrow> nat \<Rightarrow> ('h \<Rightarrow> 'u \<Rightarrow> int \<Rightarrow> 'b \<Rightarrow> 'b) \<Rightarrow> (clock_type \<Rightarrow> timespec) \<Rightarrow> bool \<Rightarrow> timespec \<Rightarrow> timespec option \<Rightarrow>
   ('h, 'u, 'b, 'k) itimer_events \<Rightarrow> (('h, 'u, 'b, 'k) itimer_events \<times> bool \<times> timespec \<times> timespec option) option" where
  "itm_process_monotonic_ts alloc sz recv clk do_wait ts wait_ts t =
     Option.bind (process_timers_ts alloc sz recv clk MONOTONIC do_wait ts wait_ts t) (\<lambda>(t, do_wait, ts, wait_ts).
       if \<not> do_wait then process_timers_ts alloc sz recv clk SYSTEM do_wait ts wait_ts t
       else
         let mono_ts = ts in
         map_option (\<lambda>(t, do_wait, ts, wait_ts).
             let m = (if time_less mono_ts ts then mono_ts else ts) in (t, do_wait, m, map_option (\<lambda>_. m) wait_ts))
           (process_timers_ts alloc sz recv clk SYSTEM do_wait ts wait_ts t))"

definition itm_process_monotonic ::
  "(nat \<Rightarrow> bool) \<Rightarrow> nat \<Rightarrow> ('h \<Rightarrow> 'u \<Rightarrow> int \<Rightarrow> 'b \<Rightarrow> 'b) \<Rightarrow> (clock_type \<Rightarrow> timespec) \<Rightarrow>
   ('h, 'u, 'b, 'k) itimer_events \<Rightarrow> ('h, 'u, 'b, 'k) itimer_events option" where
  "itm_process_monotonic alloc sz recv clk t =
     Option.bind (if \<not> dary_empty (mono_timer_queue t) then run_queue alloc sz recv MONOTONIC (clk MONOTONIC) t else Some t)
       (\<lambda>t. if \<not> dary_empty (timer_queue t) then run_queue alloc sz recv SYSTEM (clk SYSTEM) t else Some t)"

definition itm_init ::
  "(int \<Rightarrow> 'b \<Rightarrow> exn option \<times> 'b) \<Rightarrow> ('b \<Rightarrow> exn option \<times> 'b) \<Rightarrow> bool \<Rightarrow> ('h, 'u, 'b, 'k) itimer_events \<Rightarrow>
   exn option \<times> ('h, 'u, 'b, 'k) itimer_events" where
  "itm_init add_signal_watch base_init pmt t =
     (let (e, t) = (if pmt then
            let t = t\<lparr>itm_sigmask := insert SIGALRM (itm_sigmask t)\<rparr>; (e, b) = add_signal_watch SIGALRM (base t)
            in (e, t\<lparr>base := b\<rparr>)
          else (None, t))
      in case e of Some x \<Rightarrow> (Some x, t)
         | None \<Rightarrow> let (e, b) = base_init (base t) in (e, t\<lparr>base := b\<rparr>))"

definition itm_set_timer ::
  "(nat \<Rightarrow> bool) \<Rightarrow> nat \<Rightarrow> (clock_type \<Rightarrow> timespec) \<Rightarrow> (timeval \<Rightarrow> 'k \<Rightarrow> 'k) \<Rightarrow> ('b \<Rightarrow> 'b) \<Rightarrow> bool \<Rightarrow> 'h \<Rightarrow> timespec \<Rightarrow>
   timespec \<Rightarrow> bool \<Rightarrow> clock_type \<Rightarrow> ('h, 'u, 'b, 'k) itimer_events \<Rightarrow> ('h, 'u, 'b, 'k) itimer_events option" where
  "itm_set_timer alloc sz clk setitimer interrupt_wait pmt h timeout interval enable clock t =
     (let q = queue_for_clock clock t;
          q = dary_set_node_data q h
                ((dary_node_data q h)\<lparr>interval_time := interval, expiry_count := 0, enabled := enable\<rparr>);
          finish = (\<lambda>do_set_timer t. if do_set_timer then
                       (if pmt then itm_set_timer_from_queue clk setitimer t
                        else Some (t\<lparr>base := interrupt_wait (base t)\<rparr>)) else Some t)
      in if dary_is_queued q h then
           let (b, q) = dary_set_priority compare_timespec 4 q h timeout in
           finish b (set_queue clock q t)
         else
           (case dary_insert alloc sz compare_timespec 4 q h timeout of
              Inl e \<Rightarrow> None
            | Inr (b, q) \<Rightarrow> finish b (set_queue clock q t)))"

definition itm_set_timer_rel ::
  "(nat \<Rightarrow> bool) \<Rightarrow> nat \<Rightarrow> (clock_type \<Rightarrow> timespec) \<Rightarrow> (timeval \<Rightarrow> 'k \<Rightarrow> 'k) \<Rightarrow> ('b \<Rightarrow> 'b) \<Rightarrow> bool \<Rightarrow> 'h \<Rightarrow> timespec \<Rightarrow>
   timespec \<Rightarrow> bool \<Rightarrow> clock_type \<Rightarrow> ('h, 'u, 'b, 'k) itimer_events \<Rightarrow> ('h, 'u, 'b, 'k) itimer_events option" where
  "itm_set_timer_rel alloc sz clk setitimer interrupt_wait pmt h timeout interval enable clock t =
     Option.bind (rel_time (clk clock) timeout) (\<lambda>curtime.
       itm_set_timer alloc sz clk setitimer interrupt_wait pmt h curtime interval enable clock t)"

definition itm_stop_timer_nolock ::
  "(clock_type \<Rightarrow> timespec) \<Rightarrow> (timeval \<Rightarrow> 'k \<Rightarrow> 'k) \<Rightarrow> bool \<Rightarrow> 'h \<Rightarrow> clock_type \<Rightarrow> ('h, 'u, 'b, 'k) itimer_events \<Rightarrow>
   ('h, 'u, 'b, 'k) itimer_events option" where
  "itm_stop_timer_nolock clk setitimer pmt h clock t =
     (let q = queue_for_clock clock t in
      if dary_is_queued q h then
        let was_first = (dary_get_root q = h); t = set_queue clock (dary_remove compare_timespec 4 q h) t in
        if was_first \<and> pmt then itm_set_timer_from_queue clk setitimer t else Some t
      else Some t)"

section \<open>The alarm\<close>

lemma until_next_facts:
  assumes "norm (clk clock)" "norm (dary_get_root_priority (queue_for_clock clock t))"
  shows "\<exists>iv. until_next clk clock t = Some iv \<and> norm iv \<and>
    ns iv = max 0 (ns (dary_get_root_priority (queue_for_clock clock t)) - ns (clk clock))"
proof -
  let ?n = "dary_get_root_priority (queue_for_clock clock t)"
  have z: "norm (mk_time 0 0)" "ns (mk_time 0 0) = 0" by (simp_all add: norm_def ns_def)
  show ?thesis
  proof (cases "time_less (clk clock) ?n")
    case True
    then have "ns (clk clock) \<le> ns ?n" using time_less_ns [OF assms] by simp
    from time_minus_norm [OF assms(2,1) this] True time_less_ns [OF assms]
    show ?thesis by (auto simp: until_next_def)
  next
    case False
    then show ?thesis using time_less_ns [OF assms] z by (simp add: until_next_def)
  qed
qed

lemma alarm_interval_facts:
  assumes "norm (clk SYSTEM)" "norm (clk MONOTONIC)"
    and "\<not> dary_empty (timer_queue t) \<longrightarrow> norm (dary_get_root_priority (timer_queue t))"
    and "\<not> dary_empty (mono_timer_queue t) \<longrightarrow> norm (dary_get_root_priority (mono_timer_queue t))"
  shows "\<exists>iset iv. alarm_interval clk t = Some (iset, iv) \<and> (iset \<longleftrightarrow> \<not> timer_queues_empty t) \<and> norm iv \<and>
    (\<not> iset \<longrightarrow> ns iv = 0) \<and>
    (\<forall>clock. \<not> dary_empty (queue_for_clock clock t) \<longrightarrow>
       ns iv \<le> max 0 (ns (dary_get_root_priority (queue_for_clock clock t)) - ns (clk clock)))"
proof -
  have z: "norm (mk_time 0 0)" "ns (mk_time 0 0) = 0" by (simp_all add: norm_def ns_def)
  let ?late = "\<lambda>clock. max 0 (ns (dary_get_root_priority (queue_for_clock clock t)) - ns (clk clock))"
  have "\<exists>u. \<not> dary_empty (queue_for_clock clock t) \<longrightarrow>
      until_next clk clock t = Some u \<and> norm u \<and> ns u = ?late clock" for clock
    using until_next_facts [of clk clock t] assms by (cases clock; auto simp: queue_for_clock_def)
  then obtain u where u: "\<And>clock. \<not> dary_empty (queue_for_clock clock t) \<Longrightarrow>
      until_next clk clock t = Some (u clock) \<and> norm (u clock) \<and> ns (u clock) = ?late clock" by metis
  let ?s = "u SYSTEM" and ?m = "u MONOTONIC" and ?es = "dary_empty (timer_queue t)" and ?em = "dary_empty (mono_timer_queue t)"
  have q: "queue_for_clock SYSTEM t = timer_queue t" "queue_for_clock MONOTONIC t = mono_timer_queue t"
    by (simp_all add: queue_for_clock_def)
  have sys: "until_next clk SYSTEM t = Some ?s" "norm ?s" "ns ?s = ?late SYSTEM" if "\<not> ?es" using u [of SYSTEM] that q by simp_all
  have mono: "until_next clk MONOTONIC t = Some ?m" "norm ?m" "ns ?m = ?late MONOTONIC" if "\<not> ?em"
    using u [of MONOTONIC] that q by simp_all
  define iv where "iv = (if ?em then if ?es then mk_time 0 0 else ?s
      else if ?es \<or> time_less ?m ?s then ?m else ?s)"
  have "alarm_interval clk t = Some (\<not> timer_queues_empty t, iv)"
    using sys(1) mono(1) by (simp add: alarm_interval_def iv_def timer_queues_empty_def)
  moreover have "norm iv" using sys(2) mono(2) z by (simp add: iv_def)
  moreover have "timer_queues_empty t \<Longrightarrow> ns iv = 0" using z by (simp add: timer_queues_empty_def iv_def)
  moreover have "ns iv \<le> ?late clock" if "\<not> dary_empty (queue_for_clock clock t)" for clock
  proof -
    have "\<not> ?es \<Longrightarrow> ns iv \<le> ns ?s" "\<not> ?em \<Longrightarrow> ns iv \<le> ns ?m"
      using time_less_ns [OF mono(2) sys(2)] by (auto simp: iv_def)
    with that sys(3) mono(3) show ?thesis by (cases clock) (simp_all only: q not_False_eq_True simp_thms)
  qed
  ultimately show ?thesis by blast
qed

text \<open>
  C24: the alarm set from the queues is zero (disabled) exactly when both queues are empty; otherwise
  it expires no later than the first timer of either clock, where a timer that has passed or that is
  less than a microsecond away gets the shortest alarm of one microsecond.
\<close>

theorem alarm_from_queues:
  assumes "norm (clk SYSTEM)" "norm (clk MONOTONIC)"
    and "\<not> dary_empty (timer_queue t) \<longrightarrow> norm (dary_get_root_priority (timer_queue t))"
    and "\<not> dary_empty (mono_timer_queue t) \<longrightarrow> norm (dary_get_root_priority (mono_timer_queue t))"
  shows "\<exists>v. itm_set_timer_from_queue clk setitimer t = Some (t\<lparr>alarm := setitimer v (alarm t)\<rparr>) \<and>
    0 \<le> tv_sec' v \<and> 0 \<le> tv_usec v \<and> tv_usec v < 1000000 \<and>
    (timer_queues_empty t \<longleftrightarrow> tv_sec' v = 0 \<and> tv_usec v = 0) \<and>
    (\<forall>clock. \<not> dary_empty (queue_for_clock clock t) \<longrightarrow>
       1000 * (1000000 * tv_sec' v + tv_usec v) \<le>
         max 1000 (ns (dary_get_root_priority (queue_for_clock clock t)) - ns (clk clock)))"
proof -
  obtain iset iv where r: "alarm_interval clk t = Some (iset, iv)"
    and facts: "iset \<longleftrightarrow> \<not> timer_queues_empty t" "norm iv" "\<not> iset \<longrightarrow> ns iv = 0"
      "\<And>clock. \<not> dary_empty (queue_for_clock clock t) \<Longrightarrow>
         ns iv \<le> max 0 (ns (dary_get_root_priority (queue_for_clock clock t)) - ns (clk clock))"
    using alarm_interval_facts [OF assms] by blast
  have iv: "0 \<le> tv_sec iv" "0 \<le> tv_nsec iv" "tv_nsec iv < 1000000000"
    using facts(2) by (auto simp: norm_def)
  define u where "u = tv_nsec iv div 1000"
  have u: "0 \<le> u" "u < 1000000" "1000 * u \<le> tv_nsec iv" using iv by (auto simp: u_def)
  define v where "v = (if iset \<and> tv_sec iv = 0 \<and> u = 0 then \<lparr>tv_sec' = 0, tv_usec = 1\<rparr>
      else \<lparr>tv_sec' = tv_sec iv, tv_usec = u\<rparr>)"
  have eq: "itm_set_timer_from_queue clk setitimer t = Some (t\<lparr>alarm := setitimer v (alarm t)\<rparr>)"
    using r iv by (simp add: itm_set_timer_from_queue_def v_def u_def)
  have le: "1000 * (1000000 * tv_sec' v + tv_usec v) \<le> max 1000 (ns iv)"
    using u by (auto simp: v_def ns_def)
  from le have bound: "1000 * (1000000 * tv_sec' v + tv_usec v) \<le>
      max 1000 (ns (dary_get_root_priority (queue_for_clock clock t)) - ns (clk clock))"
    if "\<not> dary_empty (queue_for_clock clock t)" for clock using that facts(4) [of clock] by fastforce
  have "timer_queues_empty t \<longleftrightarrow> tv_sec' v = 0 \<and> tv_usec v = 0"
  proof (cases iset)
    case False
    with facts(3) have "tv_sec iv * 1000000000 + tv_nsec iv = 0" by (simp add: ns_def)
    with iv have "tv_sec iv = 0" "tv_nsec iv = 0" by linarith+
    with False facts(1) show ?thesis by (simp add: v_def u_def)
  qed (use facts(1) in \<open>simp add: v_def\<close>)
  with eq bound iv u show ?thesis by (intro exI [of _ v]) (auto simp: v_def)
qed

definition sample_itimer :: "(nat, nat, unit, timeval) itimer_events" where
  "sample_itimer = \<lparr>timer_queue = sample_timers [] one_shot_data 1,
     mono_timer_queue = sample_timers [mk_time 5 1500] one_shot_data 1, base = (),
     alarm = \<lparr>tv_sec' = 0, tv_usec = 0\<rparr>, itm_sigmask = {}\<rparr>"

theorem alarm_from_queues_witness:
  "\<exists>v. itm_set_timer_from_queue (\<lambda>_. mk_time 3 0) (\<lambda>v k. v) sample_itimer = Some (sample_itimer\<lparr>alarm := v\<rparr>) \<and>
    \<not> (tv_sec' v = 0 \<and> tv_usec v = 0) \<and> 1000 * (1000000 * tv_sec' v + tv_usec v) \<le> 2000001500"
proof -
  have e: "\<not> dary_empty (mono_timer_queue sample_itimer)" "dary_empty (timer_queue sample_itimer)"
    and r: "dary_get_root_priority (mono_timer_queue sample_itimer) = mk_time 5 1500"
    by (simp_all add: sample_itimer_def sample_timers_def dary_empty_def svec_empty_def
        dary_get_root_priority_def svec_at_def)
  have q: "queue_for_clock MONOTONIC sample_itimer = mono_timer_queue sample_itimer" by (simp add: queue_for_clock_def)
  have "norm (mk_time 3 0)" "norm (mk_time 5 1500)" by (simp_all add: norm_def)
  with e r alarm_from_queues [of "\<lambda>_. mk_time 3 0" sample_itimer "\<lambda>v k. v"] obtain v where v:
    "itm_set_timer_from_queue (\<lambda>_. mk_time 3 0) (\<lambda>v k. v) sample_itimer = Some (sample_itimer\<lparr>alarm := v\<rparr>)"
    "timer_queues_empty sample_itimer \<longleftrightarrow> tv_sec' v = 0 \<and> tv_usec v = 0"
    "\<forall>clock. \<not> dary_empty (queue_for_clock clock sample_itimer) \<longrightarrow>
       1000 * (1000000 * tv_sec' v + tv_usec v) \<le>
         max 1000 (ns (dary_get_root_priority (queue_for_clock clock sample_itimer)) - ns (mk_time 3 0))" by auto
  from v(3) [rule_format, of MONOTONIC] e r have "1000 * (1000000 * tv_sec' v + tv_usec v) \<le> 2000001500"
    by (simp add: q ns_def)
  with v(1,2) e show ?thesis by (auto simp: timer_queues_empty_def)
qed

end
