(* ===== verification/Waitqueue.thy ===== *)
theory Waitqueue
  imports Prelude
begin

text \<open>
  The wait queues of \<open>dasynq.h\<close>: singly linked lists of nodes that live on the stacks of the
  waiting threads. Nodes are addresses; the \<open>next\<close> fields are a store shared by all queues, since a
  node moves from one queue to the other. \<open>wq_repr\<close> relates the pointers to the list of
  waiting nodes. Dereferencing a null head is undefined; the model returns null there, and the
  lock protocol never does it.
\<close>

record 'n waitqueue =
  wq_tail :: "'n option"
  wq_head :: "'n option"

type_synonym 'n next_store = "'n \<Rightarrow> 'n option"

definition wq_empty :: "'n waitqueue" where
  "wq_empty = \<lparr>wq_tail = None, wq_head = None\<rparr>"

definition unqueue :: "'n next_store \<Rightarrow> 'n waitqueue \<Rightarrow> 'n option \<times> 'n waitqueue" where
  "unqueue nxt q =
     (let hd' = Option.bind (wq_head q) nxt;
          q' = q\<lparr>wq_head := hd'\<rparr>;
          q' = (if hd' = None then q'\<lparr>wq_tail := None\<rparr> else q')
      in (hd', q'))"

definition get_head :: "'n waitqueue \<Rightarrow> 'n option" where
  "get_head q = wq_head q"

definition get_second :: "'n next_store \<Rightarrow> 'n waitqueue \<Rightarrow> 'n option" where
  "get_second nxt q = Option.bind (wq_head q) nxt"

definition check_head :: "'n waitqueue \<Rightarrow> 'n \<Rightarrow> bool" where
  "check_head q n \<longleftrightarrow> wq_head q = Some n"

definition wq_is_empty :: "'n waitqueue \<Rightarrow> bool" where
  "wq_is_empty q \<longleftrightarrow> wq_head q = None"

definition queue :: "'n next_store \<Rightarrow> 'n waitqueue \<Rightarrow> 'n \<Rightarrow> 'n next_store \<times> 'n waitqueue" where
  "queue nxt q node =
     (let nxt = nxt(node := None);
          (nxt, q) = (case wq_tail q of
                        Some t \<Rightarrow> (nxt(t := Some node), q)
                      | None \<Rightarrow> (nxt, q\<lparr>wq_head := Some node\<rparr>))
      in (nxt, q\<lparr>wq_tail := Some node\<rparr>))"

section \<open>Abstraction to lists\<close>

fun path :: "'n next_store \<Rightarrow> 'n option \<Rightarrow> 'n list \<Rightarrow> bool" where
  "path nxt p [] \<longleftrightarrow> p = None"
| "path nxt p (x # xs) \<longleftrightarrow> p = Some x \<and> path nxt (nxt x) xs"

definition wq_repr :: "'n next_store \<Rightarrow> 'n waitqueue \<Rightarrow> 'n list \<Rightarrow> bool" where
  "wq_repr nxt q xs \<longleftrightarrow> path nxt (wq_head q) xs \<and> distinct xs \<and>
     wq_tail q = (if xs = [] then None else Some (last xs))"

lemma path_frame: "(\<And>x. x \<in> set xs \<Longrightarrow> nxt' x = nxt x) \<Longrightarrow> path nxt' p xs = path nxt p xs"
  by (induction xs arbitrary: p) auto

lemma path_append: "path nxt p xs \<Longrightarrow> xs \<noteq> [] \<Longrightarrow> distinct xs \<Longrightarrow> n \<notin> set xs \<Longrightarrow>
  path (nxt(n := None, last xs := Some n)) p (xs @ [n])"
proof (induction xs arbitrary: p)
  case (Cons x xs)
  show ?case
  proof (cases "xs = []")
    case False
    with Cons.prems have "path (nxt(n := None, last xs := Some n)) (nxt x) (xs @ [n])"
      by (intro Cons.IH) auto
    moreover have "x \<noteq> last xs" "x \<noteq> n" using False Cons.prems last_in_set [of xs] by auto
    ultimately show ?thesis using False Cons.prems by (simp add: fun_upd_def)
  qed (use Cons.prems in auto)
qed simp

lemma path_unique: "path nxt p xs \<Longrightarrow> path nxt p ys \<Longrightarrow> xs = ys"
proof (induction xs arbitrary: p ys)
  case Nil
  then show ?case by (cases ys) auto
next
  case (Cons x xs)
  then show ?case by (cases ys) auto
qed

lemma wq_repr_unique: "wq_repr nxt q xs \<Longrightarrow> wq_repr nxt q ys \<Longrightarrow> xs = ys"
  using path_unique by (auto simp: wq_repr_def)

lemma wq_repr_empty [simp]: "wq_repr nxt wq_empty []"
  by (simp add: wq_repr_def wq_empty_def)

lemma wq_head_repr: "wq_repr nxt q xs \<Longrightarrow> wq_head q = (case xs of [] \<Rightarrow> None | x # _ \<Rightarrow> Some x)"
  by (cases xs) (auto simp: wq_repr_def)

lemma is_empty_repr: "wq_repr nxt q xs \<Longrightarrow> wq_is_empty q \<longleftrightarrow> xs = []"
  by (auto simp: wq_is_empty_def wq_head_repr split: list.splits)

lemma check_head_repr: "wq_repr nxt q xs \<Longrightarrow> check_head q n \<longleftrightarrow> (\<exists>ys. xs = n # ys)"
  by (auto simp: check_head_def wq_head_repr split: list.splits)

lemma get_second_repr:
  assumes "wq_repr nxt q xs"
  shows "get_second nxt q = Some n \<longleftrightarrow> (\<exists>x ys. xs = x # n # ys)"
proof (cases xs)
  case (Cons x ys)
  with assms show ?thesis by (cases ys) (auto simp: get_second_def wq_repr_def)
qed (use assms in \<open>simp add: get_second_def wq_repr_def\<close>)

lemma unqueue_repr:
  assumes "wq_repr nxt q (x # xs)"
  shows "wq_repr nxt (snd (unqueue nxt q)) xs" "fst (unqueue nxt q) = (case xs of [] \<Rightarrow> None | y # _ \<Rightarrow> Some y)"
  using assms by (cases xs; auto simp: unqueue_def wq_repr_def Let_def)+

lemma queue_repr:
  assumes "wq_repr nxt q xs" "n \<notin> set xs"
  shows "wq_repr (fst (queue nxt q n)) (snd (queue nxt q n)) (xs @ [n])"
proof (cases "xs = []")
  case False
  have "path (nxt(n := None, last xs := Some n)) (wq_head q) (xs @ [n])"
    using assms False by (intro path_append) (auto simp: wq_repr_def)
  moreover have "wq_tail q = Some (last xs)" using assms False by (simp add: wq_repr_def)
  ultimately show ?thesis using assms by (simp add: queue_def wq_repr_def Let_def)
qed (use assms in \<open>simp add: queue_def wq_repr_def\<close>)

text \<open>Queueing a node touches its own field and that of the queue's tail only.\<close>

lemma queue_frame:
  assumes "wq_repr nxt q xs" "wq_repr nxt q' ys" "n \<notin> set ys" "set xs \<inter> set ys = {}"
  shows "wq_repr (fst (queue nxt q n)) q' ys"
proof -
  have "wq_tail q = Some t \<Longrightarrow> t \<notin> set ys" for t
    using assms(1,4) last_in_set [of xs] unfolding wq_repr_def by (auto split: if_splits simp del: last_in_set)
  then have "(fst (queue nxt q n)) y = nxt y" if "y \<in> set ys" for y
    using that assms(3) by (auto simp: queue_def Let_def split: option.splits)
  then have "path (fst (queue nxt q n)) p ys = path nxt p ys" for p by (rule path_frame)
  with assms(2) show ?thesis by (simp add: wq_repr_def)
qed

section \<open>The queue contract\<close>

text \<open>
  What a first-in-first-out queue promises its clients, over an abstraction to lists. A client's
  history is a sequence of operations; \<open>fifo_model\<close> is what the sequence does to the list of waiting
  nodes, and is \<open>None\<close> for the two uses the lock protocol never makes: queueing a node that is
  waiting already, and removing the head of an empty queue.
\<close>

datatype 'n fifo_op = Op_queue 'n | Op_unqueue

fun fifo_model :: "'n list \<Rightarrow> 'n fifo_op list \<Rightarrow> 'n list option" where
  "fifo_model xs [] = Some xs"
| "fifo_model xs (Op_queue n # ops) = (if n \<in> set xs then None else fifo_model (xs @ [n]) ops)"
| "fifo_model [] (Op_unqueue # ops) = None"
| "fifo_model (x # xs) (Op_unqueue # ops) = fifo_model xs ops"

fun fifo_run :: "('s \<Rightarrow> 'n \<Rightarrow> 's) \<Rightarrow> ('s \<Rightarrow> 's) \<Rightarrow> 's \<Rightarrow> 'n fifo_op list \<Rightarrow> 's" where
  "fifo_run enq deq s [] = s"
| "fifo_run enq deq s (Op_queue n # ops) = fifo_run enq deq (enq s n) ops"
| "fifo_run enq deq s (Op_unqueue # ops) = fifo_run enq deq (deq s) ops"

locale fifo_queue =
  fixes repr :: "'s \<Rightarrow> 'n list \<Rightarrow> bool"
    and enq :: "'s \<Rightarrow> 'n \<Rightarrow> 's"
    and deq :: "'s \<Rightarrow> 's"
    and front :: "'s \<Rightarrow> 'n option"
  assumes front_law: "repr s xs \<Longrightarrow> front s = (case xs of [] \<Rightarrow> None | x # _ \<Rightarrow> Some x)"
    and enq_law: "repr s xs \<Longrightarrow> n \<notin> set xs \<Longrightarrow> repr (enq s n) (xs @ [n])"
    and deq_law: "repr s (x # xs) \<Longrightarrow> repr (deq s) xs"
begin

lemma run_simulates: "repr s xs \<Longrightarrow> fifo_model xs ops = Some ys \<Longrightarrow> repr (fifo_run enq deq s ops) ys"
  by (induction xs ops arbitrary: s rule: fifo_model.induct) (auto intro: enq_law deq_law split: if_splits)

lemma run_front:
  assumes "repr s xs" "fifo_model xs ops = Some ys"
  shows "front (fifo_run enq deq s ops) = (case ys of [] \<Rightarrow> None | y # _ \<Rightarrow> Some y)"
  by (rule front_law [OF run_simulates [OF assms]])

end

type_synonym 'n wq_state = "'n next_store \<times> 'n waitqueue"

definition wq_enq :: "'n wq_state \<Rightarrow> 'n \<Rightarrow> 'n wq_state" where
  "wq_enq s n = queue (fst s) (snd s) n"

definition wq_deq :: "'n wq_state \<Rightarrow> 'n wq_state" where
  "wq_deq s = (fst s, snd (unqueue (fst s) (snd s)))"

interpretation wait_fifo: fifo_queue "\<lambda>s xs. wq_repr (fst s) (snd s) xs" wq_enq wq_deq "\<lambda>s. get_head (snd s)"
  by unfold_locales (simp_all add: wq_head_repr get_head_def queue_repr unqueue_repr wq_enq_def wq_deq_def)

lemma get_second_list: "wq_repr nxt q xs \<Longrightarrow> get_second nxt q = (case xs of x # y # _ \<Rightarrow> Some y | _ \<Rightarrow> None)"
  by (cases xs rule: remdups_adj.cases) (auto simp: get_second_def wq_repr_def)

lemma unqueue_get_second: "fst (unqueue nxt q) = get_second nxt q"
  by (simp add: unqueue_def get_second_def Let_def)

text \<open>
  C29: the wait queue is first in, first out: over every sequence of \<open>queue\<close> and \<open>unqueue\<close> from the
  empty queue that queues no waiting node and removes no head of an empty queue - emptying and
  refilling it any number of times - every observation is that of the list of waiting nodes in the
  order they came: \<open>get_head\<close> is its first node, \<open>get_second\<close> and the result of the next \<open>unqueue\<close>
  its second, \<open>check_head\<close> holds of the first node only, \<open>is_empty\<close> when the list is empty.
\<close>

theorem waitqueue_fifo:
  assumes "fifo_model [] ops = Some xs" "fifo_run wq_enq wq_deq (nxt0, wq_empty) ops = (nxt, q)"
  shows "get_head q = (case xs of [] \<Rightarrow> None | x # _ \<Rightarrow> Some x) \<and>
    get_second nxt q = (case xs of x # y # _ \<Rightarrow> Some y | _ \<Rightarrow> None) \<and>
    fst (unqueue nxt q) = (case xs of x # y # _ \<Rightarrow> Some y | _ \<Rightarrow> None) \<and>
    check_head q n = (\<exists>ys. xs = n # ys) \<and>
    wq_is_empty q = (xs = [])"
proof -
  have "wq_repr nxt q xs"
    using wait_fifo.run_simulates [of "(nxt0, wq_empty)" "[]" ops xs] assms by simp
  then show ?thesis
    by (simp add: get_head_def wq_head_repr get_second_list unqueue_get_second check_head_repr is_empty_repr)
qed

theorem waitqueue_fifo_witness:
  "let s = fifo_run wq_enq wq_deq (\<lambda>_. Some 0, wq_empty)
             [Op_queue 7, Op_unqueue, Op_queue 3, Op_queue (5 :: nat), Op_queue 7, Op_unqueue]
   in get_head (snd s) = Some 5 \<and> get_second (fst s) (snd s) = Some 7"
  using waitqueue_fifo [of "[Op_queue 7, Op_unqueue, Op_queue 3, Op_queue (5 :: nat), Op_queue 7, Op_unqueue]"
      "[5, 7]" "\<lambda>_. Some 0", OF _ prod.collapse [symmetric]]
  by (simp add: Let_def)

end
