(* ===== verification/Attn_Lock.thy ===== *)
theory Attn_Lock
  imports Waitqueue
begin

text \<open>
  The attention/poll-wait lock of \<open>event_loop\<close> (\<open>get_attn_lock\<close>, \<open>poll_attn_lock\<close>,
  \<open>get_pollwait_lock\<close>, \<open>release_lock\<close>, \<open>interrupt_if_necessary\<close>), for any number of threads.

  Each function runs under \<open>wait_lock\<close> and only gives it up in \<open>condvar.wait\<close>, so a function is
  an entry step, atomic up to its wait loop, and then wake steps, each re-checking the loop
  condition. A thread is named by its queue node, which lives on its stack for the duration of the
  call. \<open>signalled\<close> are the nodes whose condition variable was notified and that have not woken;
  \<open>interrupted\<close> records a call of \<open>interrupt_wait\<close> that the current poll has to see (backends keep it pending
  until a poll reads it); it is reset when the lock changes hands.
\<close>

record 'n lock_state =
  next_of :: "'n next_store"
  attn_waitqueue :: "'n waitqueue"
  wait_waitqueue :: "'n waitqueue"
  long_poll_running :: bool
  interrupted :: bool
  signalled :: "'n set"

datatype lock_kind = Attn | Poll_attn | Pollwait

datatype thread_pc = Idle | Waiting lock_kind | Holding lock_kind

definition lock_init :: "'n lock_state" where
  "lock_init = \<lparr>next_of = (\<lambda>_. None), attn_waitqueue = wq_empty, wait_waitqueue = wq_empty,
     long_poll_running = False, interrupted = False, signalled = {}\<rparr>"

definition queue_attn :: "'n \<Rightarrow> 'n lock_state \<Rightarrow> 'n lock_state" where
  "queue_attn n s =
     (let (nxt, q) = queue (next_of s) (attn_waitqueue s) n in s\<lparr>next_of := nxt, attn_waitqueue := q\<rparr>)"

definition queue_wait :: "'n \<Rightarrow> 'n lock_state \<Rightarrow> 'n lock_state" where
  "queue_wait n s =
     (let (nxt, q) = queue (next_of s) (wait_waitqueue s) n in s\<lparr>next_of := nxt, wait_waitqueue := q\<rparr>)"

definition at_head :: "'n \<Rightarrow> 'n lock_state \<Rightarrow> bool" where
  "at_head n s = check_head (attn_waitqueue s) n"

text \<open>The result of an entry step: the state, and whether the lock is held (otherwise the thread waits).\<close>

definition get_attn_lock :: "'n \<Rightarrow> 'n lock_state \<Rightarrow> bool \<times> 'n lock_state" where
  "get_attn_lock n s =
     (let s = queue_attn n s in
      if \<not> at_head n s then
        (False, if long_poll_running s \<and> get_second (next_of s) (attn_waitqueue s) = Some n
                then s\<lparr>interrupted := True\<rparr> else s)
      else (True, s))"

text \<open>\<open>poll_attn_lock\<close> gives up (\<open>None\<close>) when a poll is running.\<close>

definition poll_attn_lock :: "'n \<Rightarrow> 'n lock_state \<Rightarrow> (bool \<times> 'n lock_state) option" where
  "poll_attn_lock n s =
     (if long_poll_running s then None
      else let s = queue_attn n s in Some (at_head n s, s))"

definition get_pollwait_lock :: "'n \<Rightarrow> 'n lock_state \<Rightarrow> bool \<times> 'n lock_state" where
  "get_pollwait_lock n s =
     (let s = (if wq_is_empty (attn_waitqueue s) then queue_attn n s else queue_wait n s) in
      if at_head n s then (True, s\<lparr>long_poll_running := True\<rparr>) else (False, s))"

text \<open>A woken thread leaves its wait loop when it is at the head.\<close>

definition wake :: "lock_kind \<Rightarrow> 'n \<Rightarrow> 'n lock_state \<Rightarrow> bool \<times> 'n lock_state" where
  "wake k n s =
     (let s = s\<lparr>signalled := signalled s - {n}\<rparr> in
      if at_head n s then (True, if k = Pollwait then s\<lparr>long_poll_running := True\<rparr> else s)
      else (False, s))"

definition release_lock :: "'n lock_state \<Rightarrow> 'n lock_state" where
  "release_lock s =
     (let s = s\<lparr>long_poll_running := False, interrupted := False\<rparr>;
          (nhead, q) = unqueue (next_of s) (attn_waitqueue s);
          s = s\<lparr>attn_waitqueue := q\<rparr>
      in case nhead of
           Some n \<Rightarrow> s\<lparr>signalled := insert n (signalled s)\<rparr>
         | None \<Rightarrow>
             (case get_head (wait_waitqueue s) of
                None \<Rightarrow> s
              | Some n \<Rightarrow>
                  let (_, w) = unqueue (next_of s) (wait_waitqueue s);
                      s = queue_attn n (s\<lparr>wait_waitqueue := w\<rparr>)
                  in s\<lparr>long_poll_running := True, signalled := insert n (signalled s)\<rparr>))"

definition interrupt_if_necessary :: "'n lock_state \<Rightarrow> 'n lock_state" where
  "interrupt_if_necessary s =
     (if \<not> wq_is_empty (attn_waitqueue s) then s\<lparr>interrupted := True\<rparr> else s)"

definition entered :: "lock_kind \<Rightarrow> bool \<Rightarrow> thread_pc" where
  "entered k held = (if held then Holding k else Waiting k)"

inductive lock_step :: "'n lock_state \<times> ('n \<Rightarrow> thread_pc) \<Rightarrow> 'n lock_state \<times> ('n \<Rightarrow> thread_pc) \<Rightarrow> bool" where
  attn: "pc t = Idle \<Longrightarrow> get_attn_lock t s = (b, s') \<Longrightarrow>
    lock_step (s, pc) (s', pc(t := entered Attn b))"
| poll: "pc t = Idle \<Longrightarrow> poll_attn_lock t s = Some (b, s') \<Longrightarrow>
    lock_step (s, pc) (s', pc(t := entered Poll_attn b))"
| pollwait: "pc t = Idle \<Longrightarrow> get_pollwait_lock t s = (b, s') \<Longrightarrow>
    lock_step (s, pc) (s', pc(t := entered Pollwait b))"
| wake: "pc t = Waiting k \<Longrightarrow> wake k t s = (b, s') \<Longrightarrow>
    lock_step (s, pc) (s', pc(t := entered k b))"
| release: "pc t = Holding k \<Longrightarrow> lock_step (s, pc) (release_lock s, pc(t := Idle))"
| interrupt: "lock_step (s, pc) (interrupt_if_necessary s, pc)"

section \<open>Transition systems\<close>

text \<open>Reachability and invariants, for any step relation.\<close>

inductive reachable :: "('s \<Rightarrow> 's \<Rightarrow> bool) \<Rightarrow> 's \<Rightarrow> 's \<Rightarrow> bool" for step init where
  start: "reachable step init init"
| more: "reachable step init s \<Longrightarrow> step s s' \<Longrightarrow> reachable step init s'"

locale invariant_system =
  fixes step :: "'s \<Rightarrow> 's \<Rightarrow> bool" and init :: 's and inv :: "'s \<Rightarrow> bool"
  assumes init_inv: "inv init"
    and step_inv: "inv s \<Longrightarrow> step s s' \<Longrightarrow> inv s'"
begin

lemma reachable_inv: "reachable step init s \<Longrightarrow> inv s"
  by (induction rule: reachable.induct) (blast intro: init_inv step_inv)+

end

section \<open>The invariant of the lock\<close>

text \<open>
  \<open>as\<close> and \<open>ws\<close> are the threads in the attention queue and in the poll-wait queue. The first of
  \<open>as\<close> holds the lock or has been signalled; all others wait; a poll-waiter is the only thread that can
  be first while a long poll runs, and then the second has interrupted it.
\<close>

definition lock_inv_lists ::
  "'n lock_state \<Rightarrow> ('n \<Rightarrow> thread_pc) \<Rightarrow> 'n list \<Rightarrow> 'n list \<Rightarrow> bool" where
  "lock_inv_lists s pc as ws \<longleftrightarrow>
     wq_repr (next_of s) (attn_waitqueue s) as \<and> wq_repr (next_of s) (wait_waitqueue s) ws \<and>
     set as \<inter> set ws = {} \<and>
     (\<forall>t. pc t \<noteq> Idle \<longleftrightarrow> t \<in> set as \<union> set ws) \<and>
     (as = [] \<longrightarrow> ws = []) \<and>
     (\<forall>t k. pc t = Holding k \<longrightarrow> as \<noteq> [] \<and> t = hd as) \<and>
     (\<forall>k. as \<noteq> [] \<and> pc (hd as) = Waiting k \<longrightarrow> hd as \<in> signalled s) \<and>
     (\<forall>t \<in> set ws. pc t = Waiting Pollwait) \<and>
     (\<forall>t \<in> set (tl as). pc t \<in> {Waiting Attn, Waiting Poll_attn}) \<and>
     (long_poll_running s \<longleftrightarrow> as \<noteq> [] \<and> pc (hd as) \<in> {Waiting Pollwait, Holding Pollwait}) \<and>
     (long_poll_running s \<and> 2 \<le> length as \<longrightarrow> interrupted s)"

definition lock_inv :: "'n lock_state \<times> ('n \<Rightarrow> thread_pc) \<Rightarrow> bool" where
  "lock_inv st \<longleftrightarrow> (\<exists>as ws. lock_inv_lists (fst st) (snd st) as ws)"

lemma lock_inv_init: "lock_inv (lock_init, \<lambda>_. Idle)"
  by (auto simp: lock_inv_def lock_inv_lists_def lock_init_def intro!: exI [of _ "[]"])

lemma queue_attn_lists:
  assumes "lock_inv_lists s pc as ws" "pc t = Idle"
  shows "wq_repr (next_of (queue_attn t s)) (attn_waitqueue (queue_attn t s)) (as @ [t])"
    "wq_repr (next_of (queue_attn t s)) (wait_waitqueue (queue_attn t s)) ws"
    "at_head t (queue_attn t s) \<longleftrightarrow> as = []"
    "get_second (next_of (queue_attn t s)) (attn_waitqueue (queue_attn t s)) = Some t \<longleftrightarrow> length as = 1"
    "long_poll_running (queue_attn t s) = long_poll_running s" "interrupted (queue_attn t s) = interrupted s"
    "signalled (queue_attn t s) = signalled s"
proof -
  have r: "wq_repr (next_of s) (attn_waitqueue s) as" "wq_repr (next_of s) (wait_waitqueue s) ws"
    "set as \<inter> set ws = {}" "t \<notin> set as" "t \<notin> set ws"
    using assms by (auto simp: lock_inv_lists_def)
  show a: "wq_repr (next_of (queue_attn t s)) (attn_waitqueue (queue_attn t s)) (as @ [t])"
    using queue_repr [OF r(1,4)] by (simp add: queue_attn_def case_prod_beta)
  show "wq_repr (next_of (queue_attn t s)) (wait_waitqueue (queue_attn t s)) ws"
    using queue_frame [OF r(1,2,5,3)] by (simp add: queue_attn_def case_prod_beta)
  show "at_head t (queue_attn t s) \<longleftrightarrow> as = []"
    using check_head_repr [OF a, of t] r(4) by (cases as) (auto simp: at_head_def)
  show "get_second (next_of (queue_attn t s)) (attn_waitqueue (queue_attn t s)) = Some t \<longleftrightarrow> length as = 1"
    unfolding get_second_repr [OF a] using r(4) by (cases as; cases "tl as") auto
  show "long_poll_running (queue_attn t s) = long_poll_running s" "interrupted (queue_attn t s) = interrupted s"
    "signalled (queue_attn t s) = signalled s" by (simp_all add: queue_attn_def case_prod_beta)
qed

lemma distinct_lists: "lock_inv_lists s pc as ws \<Longrightarrow> distinct as \<and> distinct ws"
  by (simp add: lock_inv_lists_def wq_repr_def)

lemma lock_inv_attn:
  assumes inv: "lock_inv_lists s pc as ws" and t: "pc t = Idle" and k: "k \<in> {Attn, Poll_attn}"
    and i: "interrupted s \<or> long_poll_running s \<and> length as = 1 \<Longrightarrow> i"
  shows "lock_inv_lists ((queue_attn t s)\<lparr>interrupted := i\<rparr>) (pc(t := entered k (as = []))) (as @ [t]) ws"
proof -
  note q = queue_attn_lists [OF inv t]
  have nt: "t \<notin> set as" "t \<notin> set ws" using inv t by (auto simp: lock_inv_lists_def)
  show ?thesis
  proof (cases as)
    case Nil
    then show ?thesis using inv q nt k i by (auto simp: lock_inv_lists_def entered_def)
  next
    case (Cons a as')
    have "i" if "long_poll_running s" using inv that i Cons by (cases as') (auto simp: lock_inv_lists_def)
    then show ?thesis using inv q nt k Cons by (auto simp: lock_inv_lists_def entered_def)
  qed
qed

lemma lock_inv_wait:
  assumes inv: "lock_inv_lists s pc as ws" and t: "pc t = Idle" and ne: "as \<noteq> []"
  shows "lock_inv_lists (queue_wait t s) (pc(t := Waiting Pollwait)) as (ws @ [t])"
    "\<not> at_head t (queue_wait t s)"
proof -
  have r: "wq_repr (next_of s) (attn_waitqueue s) as" "wq_repr (next_of s) (wait_waitqueue s) ws"
    "set as \<inter> set ws = {}" "t \<notin> set as" "t \<notin> set ws"
    using inv t by (auto simp: lock_inv_lists_def)
  have "wq_repr (next_of (queue_wait t s)) (wait_waitqueue (queue_wait t s)) (ws @ [t])"
    using queue_repr [OF r(2,5)] by (simp add: queue_wait_def case_prod_beta)
  moreover have a: "wq_repr (next_of (queue_wait t s)) (attn_waitqueue (queue_wait t s)) as"
    using queue_frame [OF r(2,1,4)] r(3) by (simp add: queue_wait_def Int_commute case_prod_beta)
  moreover have "long_poll_running (queue_wait t s) = long_poll_running s" "interrupted (queue_wait t s) = interrupted s"
    "signalled (queue_wait t s) = signalled s" by (simp_all add: queue_wait_def case_prod_beta)
  ultimately show "lock_inv_lists (queue_wait t s) (pc(t := Waiting Pollwait)) as (ws @ [t])"
    using inv r ne by (auto simp: lock_inv_lists_def hd_in_set dest: list.set_sel(2))
  show "\<not> at_head t (queue_wait t s)" using check_head_repr [OF a, of t] r(4) by (auto simp: at_head_def)
qed

lemma lock_inv_wake:
  assumes inv: "lock_inv_lists s pc as ws" and t: "pc t = Waiting k" and w: "wake k t s = (b, s')"
  shows "lock_inv_lists s' (pc(t := entered k b)) as ws"
proof -
  have r: "wq_repr (next_of s) (attn_waitqueue s) as" using inv by (simp add: lock_inv_lists_def)
  have hd: "at_head t s \<longleftrightarrow> as \<noteq> [] \<and> hd as = t" using check_head_repr [OF r, of t] by (cases as) (auto simp: at_head_def)
  show ?thesis
  proof (cases "at_head t s")
    case True
    then obtain as' where as': "as = t # as'" using hd by (cases as) auto
    have b: "b" "s' = s\<lparr>signalled := signalled s - {t}, long_poll_running := long_poll_running s\<rparr>"
      using w True inv t as' by (auto simp: wake_def at_head_def lock_inv_lists_def)
    have "t \<notin> set as' \<union> set ws" using inv distinct_lists [OF inv] as' by (auto simp: lock_inv_lists_def)
    then show ?thesis using inv t as' b by (auto simp: lock_inv_lists_def entered_def)
  next
    case False
    then have b: "\<not> b" "s' = s\<lparr>signalled := signalled s - {t}\<rparr>" using w by (auto simp: wake_def at_head_def)
    then have "pc(t := entered k b) = pc" using t by (simp add: entered_def fun_upd_idem)
    then show ?thesis using inv hd False b by (auto simp: lock_inv_lists_def)
  qed
qed

text \<open>How a step changes the queues.\<close>

definition queue_change :: "'n list \<Rightarrow> 'n list \<Rightarrow> 'n list \<Rightarrow> 'n list \<Rightarrow> bool" where
  "queue_change as ws as' ws' \<longleftrightarrow>
     as' = as \<and> ws' = ws \<or> (\<exists>t. as' = as @ [t] \<and> ws' = ws) \<or>
     (\<exists>t. as \<noteq> [] \<and> as' = as \<and> ws' = ws @ [t]) \<or>
     (\<exists>h. as = h # as' \<and> ws' = ws \<and> (as' = [] \<longrightarrow> ws = [])) \<or>
     (\<exists>h w. as = [h] \<and> ws = w # ws' \<and> as' = [w])"

lemma lock_inv_release:
  assumes inv: "lock_inv_lists s pc as ws" and t: "pc t = Holding k"
  shows "\<exists>as' ws'. lock_inv_lists (release_lock s) (pc(t := Idle)) as' ws' \<and> queue_change as ws as' ws'"
proof -
  obtain as' where as': "as = t # as'" using inv t by (cases as) (auto simp: lock_inv_lists_def)
  have r: "wq_repr (next_of s) (attn_waitqueue s) (t # as')" "wq_repr (next_of s) (wait_waitqueue s) ws"
    using inv as' by (simp_all add: lock_inv_lists_def)
  note u = unqueue_repr [OF r(1)]
  have nt: "t \<notin> set as'" "t \<notin> set ws" using inv distinct_lists [OF inv] as' by (auto simp: lock_inv_lists_def)
  let ?s1 = "s\<lparr>long_poll_running := False, interrupted := False,
      attn_waitqueue := snd (unqueue (next_of s) (attn_waitqueue s))\<rparr>"
  show ?thesis
  proof (cases as')
    case (Cons n as'')
    then have "release_lock s = ?s1\<lparr>signalled := insert n (signalled s)\<rparr>"
      using u(2) by (simp add: release_lock_def Let_def case_prod_beta)
    moreover have "lock_inv_lists (?s1\<lparr>signalled := insert n (signalled s)\<rparr>) (pc(t := Idle)) as' ws"
      using inv as' u nt Cons by (auto simp: lock_inv_lists_def)
    ultimately show ?thesis using as' Cons by (intro exI [of _ as'] exI [of _ ws]) (auto simp: queue_change_def)
  next
    case Nil
    have idle: "lock_inv_lists ?s1 (pc(t := Idle)) [] []" if "ws = []"
      using inv as' u nt Nil that by (auto simp: lock_inv_lists_def)
    show ?thesis
    proof (cases ws)
      case ws: Nil
      then have "release_lock s = ?s1"
        using u(2) r(2) Nil wq_head_repr [OF r(2)] by (simp add: release_lock_def Let_def case_prod_beta get_head_def)
      with idle ws show ?thesis using as' Nil by (intro exI [of _ "[]"]) (auto simp: queue_change_def)
    next
      case ws: (Cons w ws')
      let ?s2 = "?s1\<lparr>wait_waitqueue := snd (unqueue (next_of s) (wait_waitqueue s))\<rparr>"
      note uw = unqueue_repr [OF r(2) [unfolded ws]]
      have eq: "release_lock s = (queue_attn w ?s2)\<lparr>long_poll_running := True, signalled := insert w (signalled s)\<rparr>"
        using u(2) Nil ws wq_head_repr [OF r(2)]
        by (simp add: release_lock_def Let_def case_prod_beta get_head_def queue_attn_def)
      have w: "w \<notin> set ws'" "pc w = Waiting Pollwait" "w \<noteq> t" "\<forall>x \<in> set ws'. pc x = Waiting Pollwait \<and> x \<noteq> t"
        using inv distinct_lists [OF inv] ws nt by (auto simp: lock_inv_lists_def)
      have "wq_repr (next_of ?s2) (attn_waitqueue ?s2) []" "wq_repr (next_of ?s2) (wait_waitqueue ?s2) ws'"
        using u(1) uw(1) Nil by simp_all
      from queue_repr [OF this(1), of w] queue_frame [OF this, of w] w(1)
      have q: "wq_repr (next_of (queue_attn w ?s2)) (attn_waitqueue (queue_attn w ?s2)) [w]"
        "wq_repr (next_of (queue_attn w ?s2)) (wait_waitqueue (queue_attn w ?s2)) ws'"
        by (simp_all add: queue_attn_def case_prod_beta)
      have "\<forall>x. pc x \<noteq> Idle \<longleftrightarrow> x = t \<or> x = w \<or> x \<in> set ws'"
        using inv as' Nil ws by (auto simp: lock_inv_lists_def)
      moreover have "\<forall>x k. pc x = Holding k \<longrightarrow> x = t" using inv as' by (auto simp: lock_inv_lists_def)
      ultimately have "lock_inv_lists (release_lock s) (pc(t := Idle)) [w] ws'"
        using q w unfolding eq by (auto simp: lock_inv_lists_def)
      then show ?thesis using as' Nil ws by (intro exI [of _ "[w]"] exI [of _ ws']) (simp add: queue_change_def)
    qed
  qed
qed

lemma lock_step_lists:
  assumes inv: "lock_inv_lists s pc as ws" and step: "lock_step (s, pc) (s', pc')"
  shows "\<exists>as' ws'. lock_inv_lists s' pc' as' ws' \<and> queue_change as ws as' ws'"
proof -
  have r: "wq_repr (next_of s) (attn_waitqueue s) as" using inv by (simp add: lock_inv_lists_def)
  from step show ?thesis
  proof cases
    case (attn t b)
    define i where "i \<longleftrightarrow> interrupted s \<or> long_poll_running s \<and> length as = 1"
    note q = queue_attn_lists [OF inv attn(2)]
    have "b = (as = [])" "s' = (queue_attn t s)\<lparr>interrupted := i\<rparr>"
      using attn(3) q by (auto simp: get_attn_lock_def Let_def i_def)
    with lock_inv_attn [OF inv attn(2), of Attn i] attn(1) show ?thesis
      by (intro exI [of _ "as @ [t]"] exI [of _ ws]) (auto simp: i_def queue_change_def)
  next
    case (poll t b)
    note q = queue_attn_lists [OF inv poll(2)]
    have "b = (as = [])" "s' = (queue_attn t s)\<lparr>interrupted := interrupted s\<rparr>" "\<not> long_poll_running s"
      using poll(3) q by (auto simp: poll_attn_lock_def Let_def split: if_splits)
    with lock_inv_attn [OF inv poll(2), of Poll_attn "interrupted s"] poll(1) show ?thesis
      by (intro exI [of _ "as @ [t]"] exI [of _ ws]) (auto simp: queue_change_def)
  next
    case (pollwait t b)
    show ?thesis
    proof (cases "as = []")
      case True
      note q = queue_attn_lists [OF inv pollwait(2)]
      have "b" "s' = (queue_attn t s)\<lparr>long_poll_running := True\<rparr>"
        using pollwait(3) q True is_empty_repr [OF r] by (auto simp: get_pollwait_lock_def Let_def at_head_def)
      moreover have "lock_inv_lists ((queue_attn t s)\<lparr>long_poll_running := True\<rparr>) (pc(t := Holding Pollwait)) [t] ws"
        using inv q pollwait(2) True by (auto simp: lock_inv_lists_def)
      ultimately show ?thesis using pollwait(1) True
        by (intro exI [of _ "[t]"] exI [of _ ws]) (auto simp: entered_def queue_change_def)
    next
      case False
      note w = lock_inv_wait [OF inv pollwait(2) False]
      have "\<not> b" "s' = queue_wait t s"
        using pollwait(3) w False is_empty_repr [OF r] by (auto simp: get_pollwait_lock_def Let_def)
      with w pollwait(1) False show ?thesis
        by (intro exI [of _ as] exI [of _ "ws @ [t]"]) (auto simp: entered_def queue_change_def)
    qed
  next
    case (wake t k b)
    from lock_inv_wake [OF inv wake(2,3)] wake(1) show ?thesis
      by (intro exI [of _ as] exI [of _ ws]) (auto simp: queue_change_def)
  next
    case (release t k)
    with lock_inv_release [OF inv release(3)] show ?thesis by simp
  next
    case interrupt
    then have "lock_inv_lists s' pc' as ws" using inv by (auto simp: interrupt_if_necessary_def lock_inv_lists_def)
    then show ?thesis by (intro exI [of _ as] exI [of _ ws]) (simp add: queue_change_def)
  qed
qed

lemma lock_inv_step: "lock_inv st \<Longrightarrow> lock_step st st' \<Longrightarrow> lock_inv st'"
  using lock_step_lists by (cases st; cases st') (fastforce simp: lock_inv_def)

interpretation attn_lock: invariant_system lock_step "(lock_init, \<lambda>_. Idle)" lock_inv
  by unfold_locales (fact lock_inv_init lock_inv_step)+

abbreviation lock_reachable :: "'n lock_state \<Rightarrow> ('n \<Rightarrow> thread_pc) \<Rightarrow> bool" where
  "lock_reachable s pc \<equiv> reachable lock_step (lock_init, \<lambda>_. Idle) (s, pc)"

text \<open>A run used by the witnesses: thread 0 polls, thread 1 asks for the attention lock.\<close>

definition sample_lock :: "nat lock_state" where
  "sample_lock = snd (get_attn_lock 1 (snd (get_pollwait_lock 0 lock_init)))"

definition sample_pc :: "nat \<Rightarrow> thread_pc" where
  "sample_pc = (\<lambda>_. Idle)(0 := Holding Pollwait, 1 := Waiting Attn)"

lemma sample_reachable: "lock_reachable sample_lock sample_pc"
proof -
  have 1: "get_pollwait_lock 0 lock_init = (True, snd (get_pollwait_lock (0 :: nat) lock_init))"
    by (simp add: get_pollwait_lock_def lock_init_def queue_attn_def queue_def wq_empty_def wq_is_empty_def
        at_head_def check_head_def)
  have 2: "get_attn_lock 1 (snd (get_pollwait_lock 0 lock_init)) = (False, sample_lock)"
    unfolding sample_lock_def
    by (simp add: get_attn_lock_def get_pollwait_lock_def lock_init_def queue_attn_def queue_def wq_empty_def
        wq_is_empty_def at_head_def check_head_def Let_def)
  have s1: "lock_step (lock_init, \<lambda>_. Idle) (snd (get_pollwait_lock (0 :: nat) lock_init), (\<lambda>_. Idle)(0 := entered Pollwait True))"
    by (rule lock_step.pollwait) (simp_all flip: 1)
  have s2: "lock_step (snd (get_pollwait_lock (0 :: nat) lock_init), (\<lambda>_. Idle)(0 := entered Pollwait True))
      (sample_lock, (\<lambda>_. Idle)(0 := entered Pollwait True, 1 := entered Attn False))"
    by (rule lock_step.attn [OF _ 2]) simp
  from reachable.more [where step = lock_step, OF reachable.more [where step = lock_step, OF reachable.start s1] s2] show ?thesis
    by (simp add: sample_pc_def entered_def)
qed

text \<open>
  C2: mutual exclusion. In every reachable state of any number of threads using the lock in any
  of its three ways, at most one thread holds it, and it is the head of the attention queue.
\<close>

theorem lock_mutual_exclusion:
  assumes "lock_reachable s pc" "pc t = Holding k"
  shows "check_head (attn_waitqueue s) t \<and> (\<forall>t' k'. pc t' = Holding k' \<longrightarrow> t' = t)"
proof -
  obtain as ws where inv: "lock_inv_lists s pc as ws"
    using attn_lock.reachable_inv [OF assms(1)] by (auto simp: lock_inv_def)
  then have "wq_repr (next_of s) (attn_waitqueue s) as" and "as \<noteq> []" "t = hd as"
    and "\<forall>t' k'. pc t' = Holding k' \<longrightarrow> t' = hd as"
    using assms(2) by (auto simp: lock_inv_lists_def)
  then show ?thesis using check_head_repr [of "next_of s" "attn_waitqueue s" as t] by (cases as) auto
qed

theorem lock_mutual_exclusion_witness:
  "check_head (attn_waitqueue sample_lock) 0 \<and> (\<forall>k'. sample_pc 1 \<noteq> Holding k')"
  using lock_mutual_exclusion [OF sample_reachable, of 0 Pollwait] by (auto simp: sample_pc_def)

text \<open>
  C3: no lost wake-up. Whenever a thread waits for the lock, the attention queue has a head, and
  that head either holds the lock or has been signalled and takes the lock when it wakes.
\<close>

theorem lock_no_lost_wakeup:
  assumes "lock_reachable s pc" "pc t = Waiting k"
  shows "\<exists>h. get_head (attn_waitqueue s) = Some h \<and>
    ((\<exists>k'. pc h = Holding k') \<or> (\<exists>k'. pc h = Waiting k' \<and> h \<in> signalled s \<and> fst (wake k' h s)))"
proof -
  obtain as ws where inv: "lock_inv_lists s pc as ws"
    using attn_lock.reachable_inv [OF assms(1)] by (auto simp: lock_inv_def)
  then have "t \<in> set as \<union> set ws" using assms(2) by (auto simp: lock_inv_lists_def)
  then obtain h as' where as': "as = h # as'" using inv by (cases as) (auto simp: lock_inv_lists_def)
  then have r: "wq_repr (next_of s) (attn_waitqueue s) (h # as')" and "pc h \<noteq> Idle"
    using inv by (auto simp: lock_inv_lists_def)
  moreover have "pc h = Waiting k' \<Longrightarrow> h \<in> signalled s" for k' using inv as' by (auto simp: lock_inv_lists_def)
  moreover have "fst (wake k' h s)" for k'
    using check_head_repr [OF r, of h] by (simp add: wake_def at_head_def Let_def)
  ultimately show ?thesis
    using wq_head_repr [OF r] by (cases "pc h") (auto simp: get_head_def)
qed

theorem lock_no_lost_wakeup_witness:
  "\<exists>h. get_head (attn_waitqueue sample_lock) = Some h \<and>
    ((\<exists>k'. sample_pc h = Holding k') \<or>
     (\<exists>k'. sample_pc h = Waiting k' \<and> h \<in> signalled sample_lock \<and> fst (wake k' h sample_lock)))"
  by (rule lock_no_lost_wakeup [OF sample_reachable, of 1 Attn]) (simp add: sample_pc_def)

text \<open>
  C4: a poll never keeps an attention-seeker waiting. Whenever a thread waits for the attention
  lock while another holds the lock for polling, the poll has been interrupted since it began.
\<close>

theorem poll_is_interrupted:
  assumes "lock_reachable s pc" "pc t = Waiting Attn" "pc h = Holding Pollwait"
  shows "interrupted s"
proof -
  obtain as ws where inv: "lock_inv_lists s pc as ws"
    using attn_lock.reachable_inv [OF assms(1)] by (auto simp: lock_inv_def)
  then have h: "as \<noteq> []" "hd as = h" and t: "t \<in> set as \<union> set ws" "t \<notin> set ws"
    using assms(2,3) by (auto simp: lock_inv_lists_def)
  then obtain as' where as': "as = h # as'" by (cases as) auto
  have "t \<noteq> h" using assms(2,3) by auto
  with t as' have "as' \<noteq> []" by auto
  then have "2 \<le> length as" using as' by (cases as') auto
  then show ?thesis using inv assms(3) h by (auto simp: lock_inv_lists_def)
qed

theorem poll_is_interrupted_witness: "interrupted sample_lock"
  by (rule poll_is_interrupted [OF sample_reachable, of 1 0]) (simp_all add: sample_pc_def)

text \<open>
  Attention-seekers are served before poll-waiters and in the order of arrival: a step leaves
  the attention queue as it is, appends the entering thread at its end, or takes off its head, and only an
  empty attention queue is refilled, with the first poll-waiter.
\<close>

theorem attn_queue_order:
  assumes "lock_reachable s pc" "lock_step (s, pc) (s', pc')"
    and "wq_repr (next_of s) (attn_waitqueue s) as" "wq_repr (next_of s) (wait_waitqueue s) ws"
  shows "\<exists>as' ws'. wq_repr (next_of s') (attn_waitqueue s') as' \<and>
    wq_repr (next_of s') (wait_waitqueue s') ws' \<and> queue_change as ws as' ws'"
proof -
  obtain as0 ws0 where inv: "lock_inv_lists s pc as0 ws0"
    using attn_lock.reachable_inv [OF assms(1)] by (auto simp: lock_inv_def)
  then have "as0 = as" "ws0 = ws" using wq_repr_unique assms(3,4) by (auto simp: lock_inv_lists_def)
  with lock_step_lists [OF inv assms(2)] show ?thesis by (auto simp: lock_inv_lists_def)
qed

theorem attn_queue_order_witness:
  "\<exists>as' ws'. wq_repr (next_of (release_lock sample_lock)) (attn_waitqueue (release_lock sample_lock)) as' \<and>
    wq_repr (next_of (release_lock sample_lock)) (wait_waitqueue (release_lock sample_lock)) ws' \<and>
    queue_change [0, 1] [] as' ws'"
proof -
  have step: "lock_step (sample_lock, sample_pc) (release_lock sample_lock, sample_pc(0 := Idle))"
    by (rule lock_step.release [where k = Pollwait]) (simp add: sample_pc_def)
  have "wq_repr (next_of sample_lock) (attn_waitqueue sample_lock) [0, 1]"
    "wq_repr (next_of sample_lock) (wait_waitqueue sample_lock) []"
    by (simp_all add: sample_lock_def get_attn_lock_def get_pollwait_lock_def lock_init_def queue_attn_def queue_def
        wq_empty_def wq_is_empty_def at_head_def check_head_def Let_def wq_repr_def)
  from attn_queue_order [OF sample_reachable step this] show ?thesis .
qed

end
