(* ===== verification/Stableheap.thy ===== *)
theory Stableheap
  imports Prio_Queue
begin

text \<open>
  \<open>stableheap.h\<close>: a heap that delivers nodes of equal priority in the order of insertion, by
  adding a 64-bit generation counter to every priority. The class derives privately from the heap
  it wraps (always \<open>dary_heap\<close> with fan-out 4), so the model is a record with the heap as a field.
\<close>

record 'p stable_prio =
  sp_p :: 'p
  sp_order :: "64 word"

definition compare_stable_prio :: "('p \<Rightarrow> 'p \<Rightarrow> bool) \<Rightarrow> 'p stable_prio \<Rightarrow> 'p stable_prio \<Rightarrow> bool" where
  "compare_stable_prio lt a b =
     (if lt (sp_p a) (sp_p b) then True
      else if lt (sp_p b) (sp_p a) then False
      else sp_order a < sp_order b)"

record ('h, 'p, 't) stable_heap =
  Base :: "('h, 'p stable_prio, 't) dary_heap"
  sequence :: "64 word"

definition fan_out :: nat where
  "fan_out = 4"

definition stable_new :: "('h \<Rightarrow> 't handle_t) \<Rightarrow> ('h, 'p, 't) stable_heap" where
  "stable_new mem = \<lparr>Base = dary_new mem, sequence = 0\<rparr>"

definition stable_insert ::
  "(nat \<Rightarrow> bool) \<Rightarrow> nat \<Rightarrow> ('p \<Rightarrow> 'p \<Rightarrow> bool) \<Rightarrow> ('h, 'p, 't) stable_heap \<Rightarrow> 'h \<Rightarrow> 'p \<Rightarrow>
   exn + (bool \<times> ('h, 'p, 't) stable_heap)" where
  "stable_insert alloc sz lt s h pval =
     (case dary_insert alloc sz (compare_stable_prio lt) fan_out (Base s) h
             \<lparr>sp_p = pval, sp_order = sequence s\<rparr> of
        Inl e \<Rightarrow> Inl e
      | Inr (b, q) \<Rightarrow> Inr (b, \<lparr>Base = q, sequence = sequence s + 1\<rparr>))"

definition stable_allocate ::
  "(nat \<Rightarrow> bool) \<Rightarrow> nat \<Rightarrow> ('h, 'p, 't) stable_heap \<Rightarrow> 'h \<Rightarrow> 't \<Rightarrow> exn + ('h, 'p, 't) stable_heap" where
  "stable_allocate alloc sz s h u =
     (case dary_allocate alloc sz (Base s) h u of
        Inl e \<Rightarrow> Inl e
      | Inr q \<Rightarrow> Inr (s\<lparr>Base := q\<rparr>))"

definition stable_node_data :: "('h, 'p, 't) stable_heap \<Rightarrow> 'h \<Rightarrow> 't" where
  "stable_node_data s h = dary_node_data (Base s) h"

definition stable_is_queued :: "('h, 'p, 't) stable_heap \<Rightarrow> 'h \<Rightarrow> bool" where
  "stable_is_queued s h = dary_is_queued (Base s) h"

definition stable_get_root :: "('h, 'p, 't) stable_heap \<Rightarrow> 'h" where
  "stable_get_root s = dary_get_root (Base s)"

definition stable_pull_root ::
  "('p \<Rightarrow> 'p \<Rightarrow> bool) \<Rightarrow> ('h, 'p, 't) stable_heap \<Rightarrow> ('h, 'p, 't) stable_heap" where
  "stable_pull_root lt s = s\<lparr>Base := dary_pull_root (compare_stable_prio lt) fan_out (Base s)\<rparr>"

definition stable_deallocate ::
  "(nat \<Rightarrow> bool) \<Rightarrow> nat \<Rightarrow> ('h, 'p, 't) stable_heap \<Rightarrow> 'h \<Rightarrow> ('h, 'p, 't) stable_heap" where
  "stable_deallocate alloc sz s h = s\<lparr>Base := dary_deallocate alloc sz (Base s) h\<rparr>"

definition stable_remove ::
  "('p \<Rightarrow> 'p \<Rightarrow> bool) \<Rightarrow> ('h, 'p, 't) stable_heap \<Rightarrow> 'h \<Rightarrow> ('h, 'p, 't) stable_heap" where
  "stable_remove lt s h = s\<lparr>Base := dary_remove (compare_stable_prio lt) fan_out (Base s) h\<rparr>"

definition stable_empty :: "('h, 'p, 't) stable_heap \<Rightarrow> bool" where
  "stable_empty s = dary_empty (Base s)"

text \<open>\<open>unsigned size()\<close> narrows the size to 32 bits.\<close>

definition stable_size :: "('h, 'p, 't) stable_heap \<Rightarrow> nat" where
  "stable_size s = dary_size (Base s) mod 2 ^ 32"

section \<open>Order\<close>

lemma fan_out_pos [simp]: "0 < fan_out"
  by (simp add: fan_out_def)

lemma compare_stable_swo:
  assumes "strict_weak_order lt"
  shows "strict_weak_order (compare_stable_prio lt)"
proof -
  note swo = strict_weak_order.irrefl [OF assms] strict_weak_order.asym [OF assms]
    strict_weak_order.ge_lt_trans [OF assms] strict_weak_order.lt_ge_trans [OF assms]
    strict_weak_order.incomp_trans [OF assms]
  have in1: "compare_stable_prio lt x y \<longleftrightarrow>
      lt (sp_p x) (sp_p y) \<or> \<not> lt (sp_p y) (sp_p x) \<and> sp_order x < sp_order y" for x y
    using swo(2) by (auto simp: compare_stable_prio_def)
  show ?thesis
  proof
    show "\<not> compare_stable_prio lt x x" for x by (simp add: in1 swo(1))
    show "compare_stable_prio lt x z" if "compare_stable_prio lt x y" "compare_stable_prio lt y z" for x y z
      using that unfolding in1 by (meson swo less_trans)
    show "\<not> compare_stable_prio lt x z" if "\<not> compare_stable_prio lt x y" "\<not> compare_stable_prio lt y z" for x y z
      using that unfolding in1 by (meson swo less_le_trans not_le)
  qed
qed

section \<open>The invariant of a stable heap\<close>

definition stable_ok :: "nat \<Rightarrow> ('p \<Rightarrow> 'p \<Rightarrow> bool) \<Rightarrow> 'h set \<Rightarrow> ('h, 'p, 't) stable_heap \<Rightarrow> bool" where
  "stable_ok sz lt A s \<longleftrightarrow> heap_ok sz (compare_stable_prio lt) fan_out A (Base s)"

definition stable_root_node :: "('h, 'p, 't) stable_heap \<Rightarrow> ('h, 'p stable_prio) heap_node" where
  "stable_root_node s = root_node (Base s)"

definition stable_items :: "('h, 'p, 't) stable_heap \<Rightarrow> ('h, 'p stable_prio) heap_node multiset" where
  "stable_items s = contents (Base s)"

interpretation event_q: prio_queue "compare_stable_prio ((<) :: int \<Rightarrow> int \<Rightarrow> bool)" "stable_ok sz (<) A"
  stable_items stable_empty stable_root_node "stable_pull_root (<)" for sz A
proof -
  note pq = heap_prio_queue [OF compare_stable_swo [OF swo_less] fan_out_pos]
  show "prio_queue (compare_stable_prio ((<) :: int \<Rightarrow> int \<Rightarrow> bool)) (stable_ok sz (<) A)
     stable_items stable_empty stable_root_node (stable_pull_root (<))"
  proof (intro prio_queue.intro prio_queue_axioms.intro compare_stable_swo swo_less)
    fix s :: "('a, int, 'c) stable_heap"
    assume "stable_ok sz (<) A s"
    then have ok: "heap_ok sz (compare_stable_prio (<)) fan_out A (Base s)" by (simp add: stable_ok_def)
    show "stable_empty s \<longleftrightarrow> stable_items s = {#}"
      using prio_queue.emp_items [OF pq ok] by (simp add: stable_empty_def stable_items_def)
    assume "\<not> stable_empty s"
    then have ne: "\<not> dary_empty (Base s)" by (simp add: stable_empty_def)
    show "stable_root_node s \<in># stable_items s"
      using prio_queue.root_item [OF pq ok ne] by (simp add: stable_root_node_def stable_items_def)
    show "stable_ok sz (<) A (stable_pull_root (<) s)"
      using prio_queue.pull_inv [OF pq ok ne] by (simp add: stable_ok_def stable_pull_root_def)
    show "stable_items (stable_pull_root (<) s) = stable_items s - {#stable_root_node s#}"
      using prio_queue.pull_items [OF pq ok ne]
      by (simp add: stable_items_def stable_pull_root_def stable_root_node_def)
    show "\<not> compare_stable_prio (<) (prio n) (prio (stable_root_node s))" if "n \<in># stable_items s" for n
      using prio_queue.root_least [OF pq ok ne] that by (simp add: stable_items_def stable_root_node_def)
  qed
qed

section \<open>First in, first out within a priority\<close>

fun stable_insert_all ::
  "(nat \<Rightarrow> bool) \<Rightarrow> nat \<Rightarrow> ('h, int, 't) stable_heap \<Rightarrow> ('h \<times> int) list \<Rightarrow> exn + ('h, int, 't) stable_heap" where
  "stable_insert_all alloc sz s [] = Inr s"
| "stable_insert_all alloc sz s ((h, p) # xs) =
     (case stable_insert alloc sz (<) s h p of
        Inl e \<Rightarrow> Inl e
      | Inr (b, s') \<Rightarrow> stable_insert_all alloc sz s' xs)"

fun tagged :: "64 word \<Rightarrow> ('h \<times> int) list \<Rightarrow> ('h, int stable_prio) heap_node list" where
  "tagged k [] = []"
| "tagged k ((h, p) # xs) = node \<lparr>sp_p = p, sp_order = k\<rparr> h # tagged (k + 1) xs"

abbreviation drain_events :: "nat \<Rightarrow> ('h, int, 't) stable_heap \<Rightarrow> ('h, int stable_prio) heap_node list" where
  "drain_events \<equiv> drain stable_empty stable_root_node (stable_pull_root (<))"

lemma tagged_fields: "map (\<lambda>n. (hnd n, sp_p (prio n))) (tagged k xs) = xs"
  by (induction k xs rule: tagged.induct) auto

lemma length_tagged [simp]: "length (tagged k xs) = length xs"
  by (induction k xs rule: tagged.induct) auto

lemma tagged_orders:
  "unat k + length xs \<le> 2 ^ 64 \<Longrightarrow>
   map (\<lambda>n. unat (sp_order (prio n))) (tagged k xs) = [unat k ..< unat k + length xs]"
proof (induction k xs rule: tagged.induct)
  case (2 k h p xs)
  show ?case
  proof (cases "xs = []")
    case False
    then have "0 < length xs" by simp
    moreover have "Suc (unat k) + length xs \<le> 2 ^ 64" using 2(2) by simp
    ultimately have "unat k + 1 < 2 ^ 64" by linarith
    then have "unat (k + 1) = Suc (unat k)" by (simp add: unat_plus_if_size word_size)
    moreover have "[unat k ..< unat k + length ((h, p) # xs)] = unat k # [Suc (unat k) ..< Suc (unat k) + length xs]"
      by (simp add: upt_conv_Cons del: upt_Suc)
    ultimately show ?thesis using 2 by (simp del: upt_Suc)
  qed simp
qed simp

lemma stable_insert_ok:
  fixes s :: "('h, int, 't) stable_heap"
  assumes "stable_ok sz (<) A s" "h \<in> A" "\<not> stable_is_queued s h"
  obtains b s' where "stable_insert alloc sz (<) s h p = Inr (b, s')" "stable_ok sz (<) A s'"
    "stable_items s' = add_mset (node \<lparr>sp_p = p, sp_order = sequence s\<rparr> h) (stable_items s)"
    "sequence s' = sequence s + 1"
proof -
  have wf: "heap_wf sz A (Base s)" "dary_ord (compare_stable_prio (<)) fan_out (Base s)"
    and nq: "\<not> dary_is_queued (Base s) h"
    using assms by (simp_all add: stable_ok_def heap_ok_def stable_is_queued_def)
  from insert_facts [OF compare_stable_swo [OF swo_less] wf assms(2) nq, of alloc "\<lparr>sp_p = p, sp_order = sequence s\<rparr>"]
  show ?thesis
    by (elim exE conjE, intro that)
       (auto simp: stable_insert_def stable_ok_def heap_ok_def stable_items_def)
qed

lemma is_queued_items:
  assumes "stable_ok sz lt A s" "h \<in> A"
  shows "stable_is_queued s h \<longleftrightarrow> h \<in> hnd ` set_mset (stable_items s)"
  using assms is_queued_iff [of sz A "Base s" h]
  by (simp add: stable_ok_def heap_ok_def stable_is_queued_def stable_items_def queued_contents)

lemma stable_insert_all_ok:
  assumes "stable_ok sz (<) A s" "fst ` set xs \<subseteq> A" "distinct (map fst xs)"
    "fst ` set xs \<inter> hnd ` set_mset (stable_items s) = {}"
  shows "\<exists>s'. stable_insert_all alloc sz s xs = Inr s' \<and> stable_ok sz (<) A s' \<and>
    stable_items s' = mset (tagged (sequence s) xs) + stable_items s"
  using assms
proof (induction xs arbitrary: s)
  case (Cons x xs)
  obtain h p where x: "x = (h, p)" by force
  have h: "h \<in> A" "\<not> stable_is_queued s h"
    using Cons.prems is_queued_items [OF Cons.prems(1), of h] by (auto simp: x)
  obtain b s' where s': "stable_insert alloc sz (<) s h p = Inr (b, s')" "stable_ok sz (<) A s'"
    "stable_items s' = add_mset (node \<lparr>sp_p = p, sp_order = sequence s\<rparr> h) (stable_items s)"
    "sequence s' = sequence s + 1"
    by (rule stable_insert_ok [OF Cons.prems(1) h, of alloc p]) (rule that)
  have "fst ` set xs \<inter> hnd ` set_mset (stable_items s') = {}"
    using Cons.prems(3,4) by (auto simp: s'(3) x)
  with Cons.IH [OF s'(2)] Cons.prems show ?case by (auto simp: x s')
qed simp

lemma sort_key_map: "sort_key f (map g xs) = map g (sort_key (f \<circ> g) xs)"
proof -
  have "insort_key f (g x) (map g ys) = map g (insort_key (f \<circ> g) x ys)" for x ys
    by (induction ys) auto
  then show ?thesis by (induction xs) auto
qed

lemma stable_sorted_unique:
  fixes ds ns :: "('h, int stable_prio) heap_node list"
  defines "ord \<equiv> \<lambda>n. unat (sp_order (prio n))"
  assumes m: "mset ds = mset ns" and ns: "sorted_wrt (<) (map ord ns)"
    and ds: "sorted_wrt (\<lambda>a b. \<not> compare_stable_prio (<) (prio b) (prio a)) ds"
  shows "sort_key (\<lambda>n. sp_p (prio n)) ns = ds"
proof (rule properties_for_sort_key [OF m])
  have inj: "inj_on ord (set ns)" using ns strict_sorted_iff distinct_map by blast
  have le: "sp_p (prio a) \<le> sp_p (prio b) \<and> (sp_p (prio a) = sp_p (prio b) \<longrightarrow> ord a \<le> ord b)"
    if "\<not> compare_stable_prio (<) (prio b) (prio a)" for a b :: "('h, int stable_prio) heap_node"
    using that by (auto simp: compare_stable_prio_def ord_def word_less_nat_alt split: if_splits)
  have "sorted_wrt (\<lambda>a b. sp_p (prio a) \<le> sp_p (prio b)) ds"
    by (rule sorted_wrt_mono_rel [OF _ ds]) (use le in blast)
  then show "sorted (map (\<lambda>n. sp_p (prio n)) ds)" by (simp add: sorted_wrt_map)
  fix k :: "('h, int stable_prio) heap_node"
  let ?P = "\<lambda>x. sp_p (prio k) = sp_p (prio x)"
  have F: "mset (filter ?P ds) = mset (filter ?P ns)" using m by simp
  have inj': "inj_on ord (set (filter ?P ds))"
    using inj mset_eq_setD [OF m] by (auto intro: inj_on_subset)
  have "sorted_wrt (\<lambda>a b. ord a \<le> ord b) (filter ?P ds)"
    by (rule sorted_wrt_mono_rel [OF _ sorted_wrt_filter [OF ds]]) (use le in auto)
  then have "sorted (map ord (filter ?P ds))" by (simp add: sorted_wrt_map)
  moreover have "sorted (map ord (filter ?P ns))"
    using ns strict_sorted_imp_sorted sorted_filter [of ord ns ?P] by blast
  ultimately show "filter ?P ds = filter ?P ns"
    using sort_key_inj_key_eq [OF refl inj'] sort_key_inj_key_eq [OF F inj'] by metis
qed

text \<open>
  C7: events inserted into an empty event queue come out sorted by priority, and in the order of
  insertion within a priority (\<open>sort_key\<close> is a stable sort), as long as the 64-bit counter does
  not wrap around; no insertion throws.
\<close>

theorem stable_heap_fifo:
  assumes "stable_ok sz (<) A s" "stable_empty s" "fst ` set xs \<subseteq> A" "distinct (map fst xs)"
    and "unat (sequence s) + length xs \<le> 2 ^ 64"
  shows "\<exists>s'. stable_insert_all alloc sz s xs = Inr s' \<and>
    map hnd (drain_events (length xs) s') = map fst (sort_key snd xs)"
proof -
  have e: "stable_items s = {#}" using event_q.emp_items [OF assms(1)] assms(2) by simp
  obtain s' where s': "stable_insert_all alloc sz s xs = Inr s'" "stable_ok sz (<) A s'"
      "stable_items s' = mset (tagged (sequence s) xs)"
    using stable_insert_all_ok [OF assms(1,3,4), of alloc] e by auto
  let ?ns = "tagged (sequence s) xs" and ?g = "\<lambda>n. (hnd n, sp_p (prio n))"
  have "mset (drain_events (length xs) s') = mset ?ns"
    using event_q.drain_items [OF s'(2), of "length xs"] by (simp add: s'(3))
  moreover have "sorted_wrt (<) (map (\<lambda>n. unat (sp_order (prio n))) ?ns)"
    by (simp add: tagged_orders [OF assms(5)])
  ultimately have "sort_key (\<lambda>n. sp_p (prio n)) ?ns = drain_events (length xs) s'"
    using event_q.drain_sorted [OF s'(2)] by (intro stable_sorted_unique) auto
  moreover have "map fst (sort_key snd (map ?g ?ns)) = map hnd (sort_key (\<lambda>n. sp_p (prio n)) ?ns)"
    by (simp add: sort_key_map comp_def)
  ultimately show ?thesis using s'(1) by (simp add: tagged_fields)
qed

definition sample_events :: "(nat, int, nat) stable_heap" where
  "sample_events = \<lparr>Base = sample_heap [] 4, sequence = 7\<rparr>"

theorem stable_heap_fifo_witness:
  "\<exists>s'. stable_insert_all (\<lambda>_. False) 16 sample_events [(2, 50), (0, 10), (3, 50), (1, 10)] = Inr s' \<and>
    map hnd (drain_events 4 s') = [0, 1, 2, 3]"
proof -
  let ?xs = "[(2 :: nat, 50 :: int), (0, 10), (3, 50), (1, 10)]"
  have ok: "stable_ok 16 (<) {..<4} sample_events" "stable_empty sample_events"
    by (simp_all add: stable_ok_def heap_ok_def sample_events_def sample_simps)
       (simp add: stable_empty_def dary_empty_def svec_empty_def sample_heap_def)
  have xs: "fst ` set ?xs \<subseteq> {..<4}" "distinct (map fst ?xs)"
    "unat (sequence sample_events) + length ?xs \<le> 2 ^ 64" by (simp_all add: sample_events_def)
  have eq: "length ?xs = 4" "map fst (sort_key snd ?xs) = [0, 1, 2, 3]" by simp_all
  show ?thesis by (rule stable_heap_fifo [OF ok xs, unfolded eq])
qed

end
