(* ===== verification/Event_Dispatch.thy ===== *)
theory Event_Dispatch
  imports Stableheap Timerbase
begin

text \<open>
  The watcher base classes of \<open>basewatchers.h\<close>, the event flags of \<open>flags.h\<close> and \<open>event_dispatch\<close> of
  \<open>dasynq.h\<close>, the mixin that owns the event queue.

  Watchers are client objects at addresses: \<open>W n\<close>, and \<open>Out n\<close> for the \<open>out_watcher\<close> member of the
  bi-directional watcher \<open>W n\<close>. One record holds the members of all watcher classes (a watcher uses those
  of its own class). A watcher's queue handle is part of it, so the address of the watcher names the
  handle (\<open>get_watcher\<close> is the identity). \<open>int\<close> flag words are 32-bit words.

  The state of the dispatcher (\<open>disp\<close>) has, besides the queue, the memory of the watchers; the
  list of \<open>watch_removed\<close> callbacks issued, latest first; whether the base lock is held; and \<open>fault\<close>, set
  when the program would terminate or deadlock or its behaviour is undefined: an exception out of a
  \<open>noexcept\<close> function, locking a held lock, unlocking a free one, an expiry count that overflows
  its \<open>int\<close>.
\<close>

unbundle bit_operations_syntax

definition IN_EVENTS :: "32 word" where "IN_EVENTS = 1"
definition OUT_EVENTS :: "32 word" where "OUT_EVENTS = 2"
definition IO_EVENTS :: "32 word" where "IO_EVENTS = IN_EVENTS OR OUT_EVENTS"
definition ONE_SHOT :: "32 word" where "ONE_SHOT = 8"
definition multi_watch :: "32 word" where "multi_watch = 4"

datatype waddr = W nat | Out nat

datatype watch_type_t = SIGNAL | FD | CHILD | SECONDARYFD | TIMER

text \<open>How a child ended: \<open>CLD_EXITED\<close> or another \<open>CLD_\<close> code, and the exit status or the signal.\<close>

record proc_status =
  wait_si_code :: int
  wait_si_status :: int

record watcher =
  watchType :: watch_type_t
  active :: bool
  deleteme :: bool
  emulatefd :: bool
  emulate_enabled :: bool
  child_termd :: bool
  priority :: int
  siginfo :: int
  watch_fd :: int
  watch_flags :: "32 word"
  event_flags :: "32 word"
  read_removed :: bool
  write_removed :: bool
  watch_pid :: int
  child_status :: proc_status
  intervals :: int
  clock :: clock_type

definition DEFAULT_PRIORITY :: int where
  "DEFAULT_PRIORITY = 50"

definition watcher_init :: "watcher \<Rightarrow> watcher" where
  "watcher_init w = w\<lparr>active := False, deleteme := False, emulatefd := False, emulate_enabled := False,
     child_termd := False, priority := DEFAULT_PRIORITY\<rparr>"

record disp =
  event_queue :: "(waddr, int, unit) stable_heap"
  mem :: "waddr \<Rightarrow> watcher"
  removed :: "waddr list"
  lock_held :: bool
  fault :: bool

text \<open>The allocator and \<open>sizeof\<close> a heap node, for the event queue.\<close>

record heap_env =
  alloc_ok :: "nat \<Rightarrow> bool"
  node_size :: nat

definition upd :: "waddr \<Rightarrow> (watcher \<Rightarrow> watcher) \<Rightarrow> 'z disp_scheme \<Rightarrow> 'z disp_scheme" where
  "upd a f s = s\<lparr>mem := (mem s)(a := f (mem s a))\<rparr>"

definition lock_base :: "'z disp_scheme \<Rightarrow> 'z disp_scheme" where
  "lock_base s = s\<lparr>lock_held := True, fault := fault s \<or> lock_held s\<rparr>"

definition unlock_base :: "'z disp_scheme \<Rightarrow> 'z disp_scheme" where
  "unlock_base s = s\<lparr>lock_held := False, fault := fault s \<or> \<not> lock_held s\<rparr>"

section \<open>Queue operations\<close>

definition prepare_watcher :: "heap_env \<Rightarrow> waddr \<Rightarrow> 'z disp_scheme \<Rightarrow> exn + 'z disp_scheme" where
  "prepare_watcher E a s =
     (case stable_allocate (alloc_ok E) (node_size E) (event_queue s) a () of
        Inl e \<Rightarrow> Inl e
      | Inr q \<Rightarrow> Inr (s\<lparr>event_queue := q\<rparr>))"

definition queue_watcher :: "heap_env \<Rightarrow> waddr \<Rightarrow> 'z disp_scheme \<Rightarrow> 'z disp_scheme" where
  "queue_watcher E a s =
     (case stable_insert (alloc_ok E) (node_size E) (<) (event_queue s) a (priority (mem s a)) of
        Inl e \<Rightarrow> s\<lparr>fault := True\<rparr>
      | Inr (b, q) \<Rightarrow> s\<lparr>event_queue := q\<rparr>)"

definition dequeue_watcher :: "waddr \<Rightarrow> 'z disp_scheme \<Rightarrow> 'z disp_scheme" where
  "dequeue_watcher a s =
     (if stable_is_queued (event_queue s) a
      then s\<lparr>event_queue := stable_remove (<) (event_queue s) a\<rparr> else s)"

definition release_watcher :: "heap_env \<Rightarrow> waddr \<Rightarrow> 'z disp_scheme \<Rightarrow> 'z disp_scheme" where
  "release_watcher E a s =
     s\<lparr>event_queue := stable_deallocate (alloc_ok E) (node_size E) (event_queue s) a\<rparr>"

definition watch_removed :: "waddr \<Rightarrow> 'z disp_scheme \<Rightarrow> 'z disp_scheme" where
  "watch_removed a s = s\<lparr>removed := a # removed s\<rparr>"

section \<open>Receiving events\<close>

definition receive_signal :: "heap_env \<Rightarrow> int \<Rightarrow> waddr \<Rightarrow> 'z disp_scheme \<Rightarrow> bool \<times> 'z disp_scheme" where
  "receive_signal E info a s = (True, queue_watcher E a (upd a (siginfo_update (\<lambda>_. info)) s))"

definition out_of :: "waddr \<Rightarrow> waddr" where
  "out_of a = (case a of W n \<Rightarrow> Out n | Out n \<Rightarrow> Out n)"

definition receive_fd_event ::
  "heap_env \<Rightarrow> bool \<Rightarrow> waddr \<Rightarrow> 32 word \<Rightarrow> 'z disp_scheme \<Rightarrow> (32 word \<times> int) \<times> 'z disp_scheme" where
  "receive_fd_event E has_separate_rw a flags s =
     (let s = upd a (\<lambda>w. w\<lparr>event_flags := event_flags w OR flags\<rparr>) s;
          fd = watch_fd (mem s a);
          is_multi_watch = (watch_flags (mem s a) AND multi_watch \<noteq> 0);
          (s, bwatcher) =
            (if is_multi_watch then
               let s = upd a (\<lambda>w. w\<lparr>watch_flags := watch_flags w AND NOT flags\<rparr>) s in
               if flags AND IN_EVENTS \<noteq> 0 \<and> flags AND OUT_EVENTS \<noteq> 0 then (queue_watcher E (out_of a) s, a)
               else if flags AND OUT_EVENTS \<noteq> 0 then (s, out_of a)
               else (s, a)
             else (s, a));
          s = queue_watcher E bwatcher s;
          io = watch_flags (mem s a) AND (IN_EVENTS OR OUT_EVENTS)
      in if is_multi_watch \<and> \<not> has_separate_rw \<and> io \<noteq> 0 then ((io OR ONE_SHOT, fd), s)
         else ((0, fd), s))"

definition receive_child_stat :: "heap_env \<Rightarrow> proc_status \<Rightarrow> waddr \<Rightarrow> 'z disp_scheme \<Rightarrow> 'z disp_scheme" where
  "receive_child_stat E status a s =
     queue_watcher E a (upd a (\<lambda>w. w\<lparr>child_status := status, child_termd := True\<rparr>) s)"

definition receive_timer_expiry :: "heap_env \<Rightarrow> waddr \<Rightarrow> int \<Rightarrow> 'z disp_scheme \<Rightarrow> 'z disp_scheme" where
  "receive_timer_expiry E a n s =
     (case int_ck (intervals (mem s a) + n) of
        None \<Rightarrow> s\<lparr>fault := True\<rparr>
      | Some i \<Rightarrow> queue_watcher E a (upd a (intervals_update (\<lambda>_. i)) s))"

definition pull_queued_event :: "'z disp_scheme \<Rightarrow> waddr option \<times> 'z disp_scheme" where
  "pull_queued_event s =
     (if stable_empty (event_queue s) then (None, s)
      else (Some (stable_get_root (event_queue s)), s\<lparr>event_queue := stable_pull_root (<) (event_queue s)\<rparr>))"

definition num_queued_events :: "'z disp_scheme \<Rightarrow> nat" where
  "num_queued_events s = stable_size (event_queue s)"

section \<open>Deletion\<close>

definition issue_delete :: "heap_env \<Rightarrow> waddr \<Rightarrow> 'z disp_scheme \<Rightarrow> 'z disp_scheme" where
  "issue_delete E a s =
     (let s = lock_base s in
      if active (mem s a) then unlock_base (upd a (deleteme_update (\<lambda>_. True)) s)
      else watch_removed a (unlock_base (release_watcher E a (dequeue_watcher a s))))"

definition issue_delete_bidi :: "heap_env \<Rightarrow> waddr \<Rightarrow> 'z disp_scheme \<Rightarrow> 'z disp_scheme" where
  "issue_delete_bidi E a s =
     (let s = lock_base s;
          s = (if active (mem s a)
               then release_watcher E a (upd a (deleteme_update (\<lambda>_. True)) s)
               else upd a (read_removed_update (\<lambda>_. True)) (release_watcher E a (dequeue_watcher a s)));
          sec = out_of a;
          s = (if active (mem s sec)
               then release_watcher E a (upd sec (deleteme_update (\<lambda>_. True)) s)
               else upd a (write_removed_update (\<lambda>_. True)) (release_watcher E a (dequeue_watcher sec s)))
      in if read_removed (mem s a) \<and> write_removed (mem s a)
         then watch_removed a (unlock_base s)
         else unlock_base s)"

end
