(* ===== verification/Event_Loop.thy ===== *)
theory Event_Loop
  imports Event_Dispatch
begin

text \<open>
  \<open>event_loop\<close> of \<open>dasynq.h\<close>: registration and removal of watchers, the processing of the value a
  callback returns (\<open>rearm\<close>), and the dispatch of queued events.

  The loop mechanism (a template parameter) is the record \<open>mech_ops\<close> of its operations over its
  state \<open>'m\<close>, with its trait constants; the theories of the backends give instances. The state of the loop
  extends that of the dispatcher by the mechanism's and by whether a thread is in the attention queue
  (\<open>attn_busy\<close>), which decides if \<open>interrupt_if_necessary\<close> calls \<open>interrupt_wait\<close>.
  The acquisition of the attention lock by the \<open>deregister\<close> functions is modelled in its own
  theory.
\<close>

datatype rearm = REARM | DISARM | NOOP | REMOVE | REMOVED | REQUEUE

record 'm mech_ops =
  has_separate_rw :: bool
  interrupt_after_fd_add :: bool
  interrupt_after_signal_add :: bool
  add_fd_watch :: "int \<Rightarrow> waddr \<Rightarrow> 32 word \<Rightarrow> bool \<Rightarrow> bool \<Rightarrow> 'm \<Rightarrow> (exn + bool) \<times> 'm"
  add_bidi_fd_watch :: "int \<Rightarrow> waddr \<Rightarrow> 32 word \<Rightarrow> bool \<Rightarrow> 'm \<Rightarrow> (exn + 32 word) \<times> 'm"
  enable_fd_watch :: "int \<Rightarrow> waddr \<Rightarrow> 32 word \<Rightarrow> 'm \<Rightarrow> 'm"
  disable_fd_watch :: "int \<Rightarrow> 32 word \<Rightarrow> 'm \<Rightarrow> 'm"
  remove_fd_watch :: "int \<Rightarrow> 32 word \<Rightarrow> 'm \<Rightarrow> 'm"
  remove_bidi_fd_watch :: "int \<Rightarrow> 'm \<Rightarrow> 'm"
  add_signal_watch :: "int \<Rightarrow> waddr \<Rightarrow> 'm \<Rightarrow> exn option \<times> 'm"
  rearm_signal_watch :: "int \<Rightarrow> waddr \<Rightarrow> 'm \<Rightarrow> 'm"
  remove_signal_watch :: "int \<Rightarrow> 'm \<Rightarrow> 'm"
  reserve_child_watch :: "waddr \<Rightarrow> 'm \<Rightarrow> exn option \<times> 'm"
  unreserve_child_watch :: "waddr \<Rightarrow> 'm \<Rightarrow> 'm"
  add_child_watch :: "int \<Rightarrow> waddr \<Rightarrow> 'm \<Rightarrow> exn option \<times> 'm"
  add_reserved_child_watch :: "int \<Rightarrow> waddr \<Rightarrow> 'm \<Rightarrow> 'm"
  stop_child_watch :: "waddr \<Rightarrow> 'm \<Rightarrow> 'm"
  remove_child_watch :: "waddr \<Rightarrow> 'm \<Rightarrow> 'm"
  add_timer :: "waddr \<Rightarrow> clock_type \<Rightarrow> 'm \<Rightarrow> exn option \<times> 'm"
  remove_timer :: "waddr \<Rightarrow> clock_type \<Rightarrow> 'm \<Rightarrow> 'm"
  enable_timer :: "waddr \<Rightarrow> bool \<Rightarrow> clock_type \<Rightarrow> 'm \<Rightarrow> int option \<times> 'm"
  set_timer :: "waddr \<Rightarrow> timespec \<Rightarrow> timespec \<Rightarrow> bool \<Rightarrow> clock_type \<Rightarrow> 'm \<Rightarrow> 'm"
  set_timer_rel :: "waddr \<Rightarrow> timespec \<Rightarrow> timespec \<Rightarrow> bool \<Rightarrow> clock_type \<Rightarrow> 'm \<Rightarrow> 'm"
  stop_timer :: "waddr \<Rightarrow> clock_type \<Rightarrow> 'm \<Rightarrow> 'm"
  interrupt_wait :: "'m \<Rightarrow> 'm"

record 'm loop = disp +
  mech :: 'm
  attn_busy :: bool

record 'm env = heap_env +
  ops :: "'m mech_ops"

abbreviation henv :: "'m env \<Rightarrow> heap_env" where
  "henv E \<equiv> heap_env.truncate E"

definition mech_do :: "('m \<Rightarrow> 'm) \<Rightarrow> 'm loop \<Rightarrow> 'm loop" where
  "mech_do f s = s\<lparr>mech := f (mech s)\<rparr>"

definition el_interrupt_if_necessary :: "'m env \<Rightarrow> 'm loop \<Rightarrow> 'm loop" where
  "el_interrupt_if_necessary E s = (if attn_busy s then mech_do (interrupt_wait (ops E)) s else s)"

definition requeue_watcher :: "'m env \<Rightarrow> waddr \<Rightarrow> 'm loop \<Rightarrow> 'm loop" where
  "requeue_watcher E a s = el_interrupt_if_necessary E (queue_watcher (henv E) a s)"

section \<open>Registration and removal\<close>

text \<open>A registration returns the exception thrown, if any, with the state it leaves.\<close>

definition register_signal :: "'m env \<Rightarrow> waddr \<Rightarrow> int \<Rightarrow> 'm loop \<Rightarrow> exn option \<times> 'm loop" where
  "register_signal E a signo s =
     (let s = lock_base s in
      case prepare_watcher (henv E) a s of
        Inl e \<Rightarrow> (Some e, unlock_base s)
      | Inr s \<Rightarrow>
          (case add_signal_watch (ops E) signo a (mech s) of
             (Some e, m) \<Rightarrow> (Some e, unlock_base (release_watcher (henv E) a (s\<lparr>mech := m\<rparr>)))
           | (None, m) \<Rightarrow>
               let s = s\<lparr>mech := m\<rparr> in
               (None, unlock_base (if interrupt_after_signal_add (ops E) then el_interrupt_if_necessary E s else s))))"

definition deregister_signal :: "'m env \<Rightarrow> waddr \<Rightarrow> int \<Rightarrow> 'm loop \<Rightarrow> 'm loop" where
  "deregister_signal E a signo s =
     issue_delete (henv E) a (unlock_base (mech_do (remove_signal_watch (ops E) signo) (lock_base s)))"

definition register_fd ::
  "'m env \<Rightarrow> waddr \<Rightarrow> int \<Rightarrow> 32 word \<Rightarrow> bool \<Rightarrow> bool \<Rightarrow> 'm loop \<Rightarrow> exn option \<times> 'm loop" where
  "register_fd E a fd eventmask en emulate s =
     (let s = lock_base s in
      case prepare_watcher (henv E) a s of
        Inl e \<Rightarrow> (Some e, unlock_base s)
      | Inr s \<Rightarrow>
          (case add_fd_watch (ops E) fd a (eventmask OR ONE_SHOT) en emulate (mech s) of
             (Inl e, m) \<Rightarrow> (Some e, unlock_base (release_watcher (henv E) a (s\<lparr>mech := m\<rparr>)))
           | (Inr ok, m) \<Rightarrow>
               let s = s\<lparr>mech := m\<rparr>;
                   s = (if \<not> ok then
                          let s = upd a (\<lambda>w. w\<lparr>emulatefd := True, emulate_enabled := en\<rparr>) s in
                          if en then
                            let s = upd a (\<lambda>w. w\<lparr>event_flags := eventmask AND IO_EVENTS\<rparr>) s in
                            if eventmask AND IO_EVENTS \<noteq> 0 then requeue_watcher E a s else s
                          else s
                        else if en \<and> interrupt_after_fd_add (ops E) then el_interrupt_if_necessary E s
                        else s)
               in (None, unlock_base s)))"

text \<open>The part of the bi-directional registration after both handles are allocated.\<close>

definition emulate_dir :: "'m env \<Rightarrow> waddr \<Rightarrow> waddr \<Rightarrow> 32 word \<Rightarrow> 32 word \<Rightarrow> 'm loop \<Rightarrow> 'm loop" where
  "emulate_dir E a dir ev eventmask s =
     (let s = upd dir (emulatefd_update (\<lambda>_. True)) s in
      if eventmask AND ev \<noteq> 0
      then requeue_watcher E dir (upd a (\<lambda>w. w\<lparr>watch_flags := watch_flags w AND NOT ev\<rparr>) s)
      else s)"

definition register_bidi_watches ::
  "'m env \<Rightarrow> waddr \<Rightarrow> int \<Rightarrow> 32 word \<Rightarrow> bool \<Rightarrow> 'm loop \<Rightarrow> exn option \<times> 'm loop" where
  "register_bidi_watches E a fd eventmask emulate s =
     (if has_separate_rw (ops E) then
        (case add_bidi_fd_watch (ops E) fd a (eventmask OR ONE_SHOT) emulate (mech s) of
           (Inl e, m) \<Rightarrow> (Some e, s\<lparr>mech := m\<rparr>)
         | (Inr r, m) \<Rightarrow>
             let s = s\<lparr>mech := m\<rparr>;
                 (s, i1) = (if r AND IN_EVENTS \<noteq> 0 then (emulate_dir E a a IN_EVENTS eventmask s, False)
                            else (s, eventmask AND IN_EVENTS \<noteq> 0 \<and> interrupt_after_fd_add (ops E)));
                 (s, i2) = (if r AND OUT_EVENTS \<noteq> 0 then (emulate_dir E a (out_of a) OUT_EVENTS eventmask s, False)
                            else (s, eventmask AND OUT_EVENTS \<noteq> 0 \<and> interrupt_after_fd_add (ops E)))
             in (None, if i1 \<or> i2 then el_interrupt_if_necessary E s else s))
      else
        (case add_fd_watch (ops E) fd a (eventmask OR ONE_SHOT) True emulate (mech s) of
           (Inl e, m) \<Rightarrow> (Some e, s\<lparr>mech := m\<rparr>)
         | (Inr ok, m) \<Rightarrow>
             let s = s\<lparr>mech := m\<rparr> in
             if \<not> ok then
               let s = upd (out_of a) (emulatefd_update (\<lambda>_. True)) (upd a (emulatefd_update (\<lambda>_. True)) s);
                   s = (if eventmask AND IN_EVENTS \<noteq> 0
                        then requeue_watcher E a (upd a (\<lambda>w. w\<lparr>watch_flags := watch_flags w AND NOT IN_EVENTS\<rparr>) s)
                        else s);
                   s = (if eventmask AND OUT_EVENTS \<noteq> 0
                        then requeue_watcher E (out_of a)
                               (upd a (\<lambda>w. w\<lparr>watch_flags := watch_flags w AND NOT OUT_EVENTS\<rparr>) s)
                        else s)
               in (None, s)
             else (None, if interrupt_after_fd_add (ops E) then el_interrupt_if_necessary E s else s)))"

definition register_fd_bidi ::
  "'m env \<Rightarrow> waddr \<Rightarrow> int \<Rightarrow> 32 word \<Rightarrow> bool \<Rightarrow> 'm loop \<Rightarrow> exn option \<times> 'm loop" where
  "register_fd_bidi E a fd eventmask emulate s =
     (let s = lock_base s in
      case prepare_watcher (henv E) a s of
        Inl e \<Rightarrow> (Some e, unlock_base s)
      | Inr s \<Rightarrow>
          (case prepare_watcher (henv E) (out_of a) s of
             Inl e \<Rightarrow> (Some e, unlock_base (release_watcher (henv E) a s))
           | Inr s \<Rightarrow>
               (case register_bidi_watches E a fd eventmask emulate s of
                  (Some e, s) \<Rightarrow>
                    (Some e, unlock_base (release_watcher (henv E) a (release_watcher (henv E) (out_of a) s)))
                | (None, s) \<Rightarrow> (None, unlock_base s))))"

definition set_fd_enabled_nolock :: "'m env \<Rightarrow> waddr \<Rightarrow> int \<Rightarrow> 32 word \<Rightarrow> bool \<Rightarrow> 'm loop \<Rightarrow> 'm loop" where
  "set_fd_enabled_nolock E a fd wflags en s =
     (if en then
        let s = mech_do (enable_fd_watch (ops E) fd a (wflags OR ONE_SHOT)) s in
        if interrupt_after_fd_add (ops E) then el_interrupt_if_necessary E s else s
      else mech_do (disable_fd_watch (ops E) fd wflags) s)"

definition deregister_fd :: "'m env \<Rightarrow> waddr \<Rightarrow> int \<Rightarrow> 'm loop \<Rightarrow> 'm loop" where
  "deregister_fd E a fd s =
     (if emulatefd (mem s a) then issue_delete (henv E) a s
      else issue_delete (henv E) a (mech_do (remove_fd_watch (ops E) fd (watch_flags (mem s a))) s))"

definition deregister_bidi :: "'m env \<Rightarrow> waddr \<Rightarrow> int \<Rightarrow> 'm loop \<Rightarrow> 'm loop" where
  "deregister_bidi E a fd s =
     issue_delete_bidi (henv E) a
       (if has_separate_rw (ops E) then mech_do (remove_bidi_fd_watch (ops E) fd) s
        else mech_do (remove_fd_watch (ops E) fd (watch_flags (mem s a))) s)"

text \<open>Registrations of one handle and one call of the mechanism share this shape.\<close>

definition prepare_and ::
  "'m env \<Rightarrow> waddr \<Rightarrow> ('m \<Rightarrow> exn option \<times> 'm) \<Rightarrow> 'm loop \<Rightarrow> exn option \<times> 'm loop" where
  "prepare_and E a f s =
     (let s = lock_base s in
      case prepare_watcher (henv E) a s of
        Inl e \<Rightarrow> (Some e, unlock_base s)
      | Inr s \<Rightarrow>
          (case f (mech s) of
             (Some e, m) \<Rightarrow> (Some e, unlock_base (release_watcher (henv E) a (s\<lparr>mech := m\<rparr>)))
           | (None, m) \<Rightarrow> (None, unlock_base (s\<lparr>mech := m\<rparr>))))"

definition el_reserve_child_watch :: "'m env \<Rightarrow> waddr \<Rightarrow> 'm loop \<Rightarrow> exn option \<times> 'm loop" where
  "el_reserve_child_watch E a s = prepare_and E a (reserve_child_watch (ops E) a) s"

text \<open>
  \<open>unreserve_child_watch\<close>, \<open>remove_child_watch\<close> and \<open>stop_child_watch\<close> of the mechanism take the base lock; the entries of
  \<open>mech_ops\<close> are what they do under it. \<open>unreserve\<close> holds the lock when it calls the first of them.
\<close>

definition el_unreserve :: "'m env \<Rightarrow> waddr \<Rightarrow> 'm loop \<Rightarrow> 'm loop" where
  "el_unreserve E a s =
     unlock_base (release_watcher (henv E) a
       (unlock_base (mech_do (unreserve_child_watch (ops E) a) (lock_base (lock_base s)))))"

definition register_child :: "'m env \<Rightarrow> waddr \<Rightarrow> int \<Rightarrow> 'm loop \<Rightarrow> exn option \<times> 'm loop" where
  "register_child E a pid s = prepare_and E a (add_child_watch (ops E) pid a) s"

definition register_reserved_child_nolock :: "'m env \<Rightarrow> waddr \<Rightarrow> int \<Rightarrow> 'm loop \<Rightarrow> 'm loop" where
  "register_reserved_child_nolock E a pid s = mech_do (add_reserved_child_watch (ops E) pid a) s"

definition deregister_child :: "'m env \<Rightarrow> waddr \<Rightarrow> 'm loop \<Rightarrow> 'm loop" where
  "deregister_child E a s =
     issue_delete (henv E) a (unlock_base (mech_do (remove_child_watch (ops E) a) (lock_base s)))"

definition el_stop_watch :: "'m env \<Rightarrow> waddr \<Rightarrow> 'm loop \<Rightarrow> 'm loop" where
  "el_stop_watch E a s = unlock_base (mech_do (stop_child_watch (ops E) a) (lock_base s))"

text \<open>\<open>register_timer\<close> catches the exception of \<open>add_timer_nolock\<close> and does not rethrow it.\<close>

definition register_timer :: "'m env \<Rightarrow> waddr \<Rightarrow> clock_type \<Rightarrow> 'm loop \<Rightarrow> exn option \<times> 'm loop" where
  "register_timer E a clk s =
     (let s = lock_base s in
      case prepare_watcher (henv E) a s of
        Inl e \<Rightarrow> (Some e, unlock_base s)
      | Inr s \<Rightarrow>
          (case add_timer (ops E) a clk (mech s) of
             (Some e, m) \<Rightarrow> (None, unlock_base (release_watcher (henv E) a (s\<lparr>mech := m\<rparr>)))
           | (None, m) \<Rightarrow> (None, unlock_base (s\<lparr>mech := m\<rparr>))))"

definition el_set_timer :: "'m env \<Rightarrow> waddr \<Rightarrow> timespec \<Rightarrow> timespec \<Rightarrow> clock_type \<Rightarrow> 'm loop \<Rightarrow> 'm loop" where
  "el_set_timer E a timeout interval clk s = mech_do (set_timer (ops E) a timeout interval True clk) s"

definition el_set_timer_rel :: "'m env \<Rightarrow> waddr \<Rightarrow> timespec \<Rightarrow> timespec \<Rightarrow> clock_type \<Rightarrow> 'm loop \<Rightarrow> 'm loop" where
  "el_set_timer_rel E a timeout interval clk s = mech_do (set_timer_rel (ops E) a timeout interval True clk) s"

text \<open>Enabling a timer may report expiries that happened while it was disabled.\<close>

definition set_timer_enabled_nolock :: "'m env \<Rightarrow> waddr \<Rightarrow> clock_type \<Rightarrow> bool \<Rightarrow> 'm loop \<Rightarrow> 'm loop" where
  "set_timer_enabled_nolock E a clk enable s =
     (case enable_timer (ops E) a enable clk (mech s) of
        (None, m) \<Rightarrow> s\<lparr>mech := m\<rparr>
      | (Some n, m) \<Rightarrow> receive_timer_expiry (henv E) a n (s\<lparr>mech := m\<rparr>))"

definition el_stop_timer :: "'m env \<Rightarrow> waddr \<Rightarrow> clock_type \<Rightarrow> 'm loop \<Rightarrow> 'm loop" where
  "el_stop_timer E a clk s = mech_do (stop_timer (ops E) a clk) s"

definition deregister_timer :: "'m env \<Rightarrow> waddr \<Rightarrow> clock_type \<Rightarrow> 'm loop \<Rightarrow> 'm loop" where
  "deregister_timer E a clk s =
     issue_delete (henv E) a (unlock_base (mech_do (remove_timer (ops E) a clk) (lock_base s)))"

end
