(* ===== verification/Dispatch.thy ===== *)
theory Dispatch
  imports Event_Loop
begin

text \<open>
  What happens around a callback: the processing of its \<open>rearm\<close> value for each kind of watcher,
  \<open>post_dispatch\<close>, the \<open>dispatch\<close> methods of the watcher classes, and \<open>process_events\<close>, which
  takes events off the queue and dispatches them. A callback is a function on the loop's state,
  called with the base lock free, that may itself call any operation of the loop.
\<close>

section \<open>Processing the rearm value\<close>

definition process_signal_rearm :: "'m env \<Rightarrow> waddr \<Rightarrow> rearm \<Rightarrow> 'm loop \<Rightarrow> 'm loop" where
  "process_signal_rearm E a r s =
     (let signo = siginfo (mem s a) in
      if r = REARM then
        let s = mech_do (rearm_signal_watch (ops E) signo a) s in
        if interrupt_after_signal_add (ops E) then el_interrupt_if_necessary E s else s
      else if r = REMOVE then mech_do (remove_signal_watch (ops E) signo) s
      else s)"

definition process_fd_rearm :: "'m env \<Rightarrow> waddr \<Rightarrow> rearm \<Rightarrow> 'm loop \<Rightarrow> rearm \<times> 'm loop" where
  "process_fd_rearm E a r s =
     (let w = mem s a in
      if emulatefd w then
        if r = REARM then (REQUEUE, upd a (emulate_enabled_update (\<lambda>_. True)) s)
        else if r = DISARM then (r, upd a (emulate_enabled_update (\<lambda>_. False)) s)
        else if r = NOOP then (if emulate_enabled w then REQUEUE else r, s)
        else (r, s)
      else if r = REARM then
        (r, set_fd_enabled_nolock E a (watch_fd w) (watch_flags w AND (IN_EVENTS OR OUT_EVENTS)) True s)
      else if r = DISARM then (r, mech_do (disable_fd_watch (ops E) (watch_fd w) (watch_flags w)) s)
      else if r = REMOVE then (r, mech_do (remove_fd_watch (ops E) (watch_fd w) (watch_flags w)) s)
      else (r, s))"

definition clear_flags :: "waddr \<Rightarrow> 32 word \<Rightarrow> 'z disp_scheme \<Rightarrow> 'z disp_scheme" where
  "clear_flags a ev s = upd a (\<lambda>w. w\<lparr>watch_flags := watch_flags w AND NOT ev\<rparr>) s"

definition set_flags :: "waddr \<Rightarrow> 32 word \<Rightarrow> 'z disp_scheme \<Rightarrow> 'z disp_scheme" where
  "set_flags a ev s = upd a (\<lambda>w. w\<lparr>watch_flags := watch_flags w OR ev\<rparr>) s"

definition process_primary_rearm :: "'m env \<Rightarrow> waddr \<Rightarrow> rearm \<Rightarrow> 'm loop \<Rightarrow> rearm \<times> 'm loop" where
  "process_primary_rearm E a r s =
     (let emu = emulatefd (mem s a); fd = watch_fd (mem s a); sep = has_separate_rw (ops E) in
      if r = REMOVE then
        let s = upd a (read_removed_update (\<lambda>_. True)) s; wr = write_removed (mem s a) in
        if sep then
          let s = clear_flags a IN_EVENTS s;
              s = (if \<not> emu then mech_do (remove_fd_watch (ops E) fd IN_EVENTS) s else s)
          in (if wr then REMOVE else NOOP, s)
        else if \<not> wr then
          (NOOP,
           if watch_flags (mem s a) AND IN_EVENTS \<noteq> 0 then
             let s = clear_flags a IN_EVENTS s; fl = watch_flags (mem s a) in
             if \<not> emu then set_fd_enabled_nolock E a fd fl (fl \<noteq> 0) s else s
           else s)
        else (REMOVE, if \<not> emu then mech_do (remove_fd_watch (ops E) fd 0) s else s)
      else if r = DISARM then
        let s = clear_flags a IN_EVENTS s; fl = watch_flags (mem s a) AND (IN_EVENTS OR OUT_EVENTS) in
        (r, if emu then s
            else if \<not> sep then set_fd_enabled_nolock E a fd fl (fl \<noteq> 0) s
            else mech_do (disable_fd_watch (ops E) fd IN_EVENTS) s)
      else if r = REARM then
        if \<not> emu then
          let s = set_flags a IN_EVENTS s in
          (r, if \<not> sep then set_fd_enabled_nolock E a fd (watch_flags (mem s a) AND (IN_EVENTS OR OUT_EVENTS)) True s
              else set_fd_enabled_nolock E a fd IN_EVENTS True s)
        else (REQUEUE, clear_flags a IN_EVENTS s)
      else if r = NOOP then
        if emu \<and> watch_flags (mem s a) AND IN_EVENTS \<noteq> 0 then (REQUEUE, clear_flags a IN_EVENTS s) else (r, s)
      else (r, s))"

definition process_secondary_rearm :: "'m env \<Rightarrow> waddr \<Rightarrow> rearm \<Rightarrow> 'm loop \<Rightarrow> rearm \<times> 'm loop" where
  "process_secondary_rearm E a r s =
     (let emu = emulatefd (mem s (out_of a)); fd = watch_fd (mem s a); sep = has_separate_rw (ops E);
          rr = read_removed (mem s a) in
      if emu then
        if r = REMOVE then
          (if rr then REMOVE else NOOP, clear_flags a OUT_EVENTS (upd a (write_removed_update (\<lambda>_. True)) s))
        else if r = DISARM then (r, clear_flags a OUT_EVENTS s)
        else if r = REARM then (REQUEUE, clear_flags a OUT_EVENTS s)
        else if r = NOOP then
          if watch_flags (mem s a) AND OUT_EVENTS \<noteq> 0 then (REQUEUE, clear_flags a OUT_EVENTS s) else (r, s)
        else (r, s)
      else if r = REMOVE then
        let s = upd a (write_removed_update (\<lambda>_. True)) s in
        if sep then
          (if rr then REMOVE else NOOP, mech_do (remove_fd_watch (ops E) fd OUT_EVENTS) (clear_flags a OUT_EVENTS s))
        else if \<not> rr then
          (NOOP,
           if watch_flags (mem s a) AND OUT_EVENTS \<noteq> 0 then
             let s = clear_flags a OUT_EVENTS s in set_fd_enabled_nolock E a fd (watch_flags (mem s a)) True s
           else s)
        else (REMOVE, mech_do (remove_fd_watch (ops E) fd 0) s)
      else if r = DISARM then
        let s = clear_flags a OUT_EVENTS s in
        (r, if \<not> sep then set_fd_enabled_nolock E a fd (watch_flags (mem s a) AND (IN_EVENTS OR OUT_EVENTS)) True s
            else mech_do (disable_fd_watch (ops E) fd OUT_EVENTS) s)
      else if r = REARM then
        let s = set_flags a OUT_EVENTS s in
        (r, if \<not> sep then set_fd_enabled_nolock E a fd (watch_flags (mem s a) AND (IN_EVENTS OR OUT_EVENTS)) True s
            else set_fd_enabled_nolock E a fd (OUT_EVENTS OR ONE_SHOT) True s)
      else (r, s))"

definition process_child_watch_rearm :: "'m env \<Rightarrow> waddr \<Rightarrow> rearm \<Rightarrow> 'm loop \<Rightarrow> 'm loop" where
  "process_child_watch_rearm E a r s =
     (if r = REMOVE \<or> r = DISARM then mech_do (unreserve_child_watch (ops E) a) s else s)"

definition process_timer_rearm :: "'m env \<Rightarrow> waddr \<Rightarrow> rearm \<Rightarrow> 'm loop \<Rightarrow> 'm loop" where
  "process_timer_rearm E a r s =
     (let clk = clock (mem s a) in
      if r = REARM then set_timer_enabled_nolock E a clk True s
      else if r = REMOVE then mech_do (remove_timer (ops E) a clk) s
      else if r = DISARM then set_timer_enabled_nolock E a clk False s
      else s)"

definition post_dispatch :: "'m env \<Rightarrow> waddr \<Rightarrow> rearm \<Rightarrow> 'm loop \<Rightarrow> 'm loop" where
  "post_dispatch E a r s =
     (if r = REMOVE then lock_base (watch_removed a (release_watcher (henv E) a (unlock_base s)))
      else if r = REQUEUE then requeue_watcher E a s
      else s)"

definition post_dispatch_bidi :: "'m env \<Rightarrow> waddr \<Rightarrow> rearm \<Rightarrow> 'm loop \<Rightarrow> 'm loop" where
  "post_dispatch_bidi E a r s =
     (if r = REMOVE then
        lock_base (watch_removed a
          (release_watcher (henv E) (out_of a) (release_watcher (henv E) a (unlock_base s))))
      else if r = REQUEUE then requeue_watcher E a s
      else s)"

section \<open>The dispatch methods\<close>

text \<open>
  \<open>deletion a r s\<close>: the part all dispatch methods share after the callback: clear \<open>active\<close>, and
  replace the callback's value by \<open>REMOVE\<close> if the watcher is marked for deletion.
\<close>

definition deletion :: "waddr \<Rightarrow> rearm \<Rightarrow> 'm loop \<Rightarrow> rearm \<times> 'm loop" where
  "deletion a r s =
     (let s = upd a (active_update (\<lambda>_. False)) s in (if deleteme (mem s a) then REMOVE else r, s))"

definition dispatch_signal ::
  "'m env \<Rightarrow> (int \<Rightarrow> 'm loop \<Rightarrow> rearm \<times> 'm loop) \<Rightarrow> waddr \<Rightarrow> 'm loop \<Rightarrow> 'm loop" where
  "dispatch_signal E received a s =
     (let s = unlock_base s; (r, s) = received (siginfo (mem s a)) s; s = lock_base s in
      if r \<noteq> REMOVED then
        let (r, s) = deletion a r s in post_dispatch E a r (process_signal_rearm E a r s)
      else s)"

definition dispatch_fd ::
  "'m env \<Rightarrow> (int \<Rightarrow> 32 word \<Rightarrow> 'm loop \<Rightarrow> rearm \<times> 'm loop) \<Rightarrow> waddr \<Rightarrow> 'm loop \<Rightarrow> 'm loop" where
  "dispatch_fd E fd_event a s =
     (let s = unlock_base (upd a (emulate_enabled_update (\<lambda>_. False)) s);
          (r, s) = fd_event (watch_fd (mem s a)) (event_flags (mem s a)) s;
          s = lock_base s in
      if r \<noteq> REMOVED then
        let (r, s) = deletion a r (upd a (event_flags_update (\<lambda>_. 0)) s);
            (r, s) = process_fd_rearm E a r s
        in post_dispatch E a r s
      else s)"

definition dispatch_bidi ::
  "'m env \<Rightarrow> (int \<Rightarrow> 'm loop \<Rightarrow> rearm \<times> 'm loop) \<Rightarrow> waddr \<Rightarrow> 'm loop \<Rightarrow> 'm loop" where
  "dispatch_bidi E read_ready a s =
     (let s = unlock_base (upd a (emulate_enabled_update (\<lambda>_. False)) s);
          (r, s) = read_ready (watch_fd (mem s a)) s;
          s = lock_base s in
      if r \<noteq> REMOVED then
        let (r, s) = deletion a r (upd a (\<lambda>w. w\<lparr>event_flags := event_flags w AND NOT IN_EVENTS\<rparr>) s);
            (r, s) = process_primary_rearm E a r s
        in post_dispatch_bidi E a r s
      else s)"

definition dispatch_second ::
  "'m env \<Rightarrow> (int \<Rightarrow> 'm loop \<Rightarrow> rearm \<times> 'm loop) \<Rightarrow> waddr \<Rightarrow> 'm loop \<Rightarrow> 'm loop" where
  "dispatch_second E write_ready a s =
     (let s = unlock_base s; (r, s) = write_ready (watch_fd (mem s a)) s; s = lock_base s in
      if r \<noteq> REMOVED then
        let (r, s) = deletion (out_of a) r (upd a (\<lambda>w. w\<lparr>event_flags := event_flags w AND NOT OUT_EVENTS\<rparr>) s);
            (r, s) = process_secondary_rearm E a r s
        in if r = REQUEUE then post_dispatch E (out_of a) r s else post_dispatch_bidi E a r s
      else s)"

definition dispatch_child ::
  "'m env \<Rightarrow> (int \<Rightarrow> proc_status \<Rightarrow> 'm loop \<Rightarrow> rearm \<times> 'm loop) \<Rightarrow> waddr \<Rightarrow> 'm loop \<Rightarrow> 'm loop" where
  "dispatch_child E status_change a s =
     (let s = unlock_base s;
          (r, s) = status_change (watch_pid (mem s a)) (child_status (mem s a)) s;
          s = lock_base s in
      if r \<noteq> REMOVED then
        let (r, s) = deletion a r s in post_dispatch E a r (process_child_watch_rearm E a r s)
      else s)"

definition dispatch_timer ::
  "'m env \<Rightarrow> (int \<Rightarrow> 'm loop \<Rightarrow> rearm \<times> 'm loop) \<Rightarrow> waddr \<Rightarrow> 'm loop \<Rightarrow> 'm loop" where
  "dispatch_timer E timer_expiry a s =
     (let s = unlock_base s;
          intervals_report = intervals (mem s a);
          s = upd a (intervals_update (\<lambda>_. 0)) s;
          (r, s) = timer_expiry intervals_report s;
          s = lock_base s in
      if r \<noteq> REMOVED then
        let (r, s) = deletion a r s in post_dispatch E a r (process_timer_rearm E a r s)
      else s)"

section \<open>Processing events\<close>

text \<open>
  \<open>disp_fn a\<close> is the virtual \<open>dispatch\<close> of the watcher at \<open>a\<close>, and for \<open>Out n\<close> the
  \<open>dispatch_second\<close> of the containing watcher \<open>W n\<close>. \<open>limit\<close> is the \<open>int\<close> of the code.
\<close>

partial_function (option) events_loop ::
  "(waddr \<Rightarrow> 'm loop \<Rightarrow> 'm loop) \<Rightarrow> int \<Rightarrow> waddr option \<Rightarrow> bool \<Rightarrow> 'm loop \<Rightarrow> (bool \<times> 'm loop) option" where
  "events_loop disp_fn limit pq act s =
     (case pq of
        None \<Rightarrow> Some (act, s)
      | Some a \<Rightarrow>
          let s = disp_fn a (upd a (active_update (\<lambda>_. True)) s) in
          if limit > 0 then
            if limit - 1 = 0 then Some (True, s)
            else let r = pull_queued_event s in events_loop disp_fn (limit - 1) (fst r) True (snd r)
          else let r = pull_queued_event s in events_loop disp_fn limit (fst r) True (snd r))"

text \<open>\<open>std::min(size_t(limit), num_queued_events())\<close>: a negative limit becomes a huge \<open>size_t\<close>.\<close>

definition effective_limit :: "int \<Rightarrow> nat \<Rightarrow> int" where
  "effective_limit limit n = to_int (min (limit mod 2 ^ 64) (int n))"

definition process_events ::
  "(waddr \<Rightarrow> 'm loop \<Rightarrow> 'm loop) \<Rightarrow> int \<Rightarrow> 'm loop \<Rightarrow> (bool \<times> 'm loop) option" where
  "process_events disp_fn limit s =
     (let s = lock_base s in
      if limit = 0 then Some (False, s)
      else
        let limit = effective_limit limit (num_queued_events s);
            (pq, s) = pull_queued_event s
        in map_option (\<lambda>(act, s). (act, unlock_base s)) (events_loop disp_fn limit pq False s))"

text \<open>
  \<open>run\<close> and \<open>poll\<close>, with the mechanism's \<open>pull_events\<close> as a parameter on the loop's state, and
  the poll-wait lock around it left to its own theory. \<open>poll_ok\<close>: whether \<open>poll_attn_lock\<close> succeeded.
\<close>

partial_function (option) run_loop ::
  "(bool \<Rightarrow> 'm loop \<Rightarrow> 'm loop) \<Rightarrow> (waddr \<Rightarrow> 'm loop \<Rightarrow> 'm loop) \<Rightarrow> int \<Rightarrow> 'm loop \<Rightarrow> 'm loop option" where
  "run_loop pull_events disp_fn limit s =
     Option.bind (process_events disp_fn limit s) (\<lambda>r.
       if fst r then Some (snd r) else run_loop pull_events disp_fn limit (pull_events True (snd r)))"

definition run ::
  "(bool \<Rightarrow> 'm loop \<Rightarrow> 'm loop) \<Rightarrow> (waddr \<Rightarrow> 'm loop \<Rightarrow> 'm loop) \<Rightarrow> int \<Rightarrow> 'm loop \<Rightarrow> 'm loop option" where
  "run pull_events disp_fn limit s = run_loop pull_events disp_fn limit (pull_events False s)"

definition poll ::
  "(bool \<Rightarrow> 'm loop \<Rightarrow> 'm loop) \<Rightarrow> (waddr \<Rightarrow> 'm loop \<Rightarrow> 'm loop) \<Rightarrow> bool \<Rightarrow> int \<Rightarrow> 'm loop \<Rightarrow> 'm loop option" where
  "poll pull_events disp_fn poll_ok limit s =
     map_option snd (process_events disp_fn limit (if poll_ok then pull_events False s else s))"

end
