(* ===== verification/Watchers.thy ===== *)
theory Watchers
  imports Dispatch
begin

text \<open>
  The public watcher classes of \<open>dasynq.h\<close>: what their members do before and around the
  operations of the loop. Members that only forward to the loop (\<open>deregister\<close>, \<open>arm_timer\<close>, ...) are
  the loop's own operations. The lambda-based \<open>add_watch\<close> variants allocate a watcher and call the
  ordinary ones.
\<close>

section \<open>Registration\<close>

definition sw_add_watch :: "'m env \<Rightarrow> waddr \<Rightarrow> int \<Rightarrow> int \<Rightarrow> 'm loop \<Rightarrow> exn option \<times> 'm loop" where
  "sw_add_watch E a signo pri s =
     register_signal E a signo (upd a (\<lambda>w. (watcher_init w)\<lparr>priority := pri, siginfo := signo\<rparr>) s)"

definition fd_add_watch ::
  "'m env \<Rightarrow> waddr \<Rightarrow> int \<Rightarrow> 32 word \<Rightarrow> bool \<Rightarrow> int \<Rightarrow> 'm loop \<Rightarrow> exn option \<times> 'm loop" where
  "fd_add_watch E a fd flags en pri s =
     register_fd E a fd flags en True
       (upd a (\<lambda>w. (watcher_init w)\<lparr>priority := pri, watch_fd := fd, watch_flags := flags\<rparr>) s)"

definition fd_add_watch_noemu ::
  "'m env \<Rightarrow> waddr \<Rightarrow> int \<Rightarrow> 32 word \<Rightarrow> bool \<Rightarrow> int \<Rightarrow> 'm loop \<Rightarrow> exn option \<times> 'm loop" where
  "fd_add_watch_noemu E a fd flags en pri s =
     register_fd E a fd flags en False
       (upd a (\<lambda>w. (watcher_init w)\<lparr>priority := pri, watch_fd := fd, watch_flags := flags\<rparr>) s)"

definition bidi_prepare :: "waddr \<Rightarrow> int \<Rightarrow> 32 word \<Rightarrow> int \<Rightarrow> int \<Rightarrow> 'm loop \<Rightarrow> 'm loop" where
  "bidi_prepare a fd flags inprio outprio s =
     upd (out_of a) (\<lambda>w. (watcher_init w)\<lparr>priority := outprio\<rparr>)
       (upd a (\<lambda>w. (watcher_init w)\<lparr>watch_fd := fd, watch_flags := flags OR multi_watch,
          read_removed := False, write_removed := False, priority := inprio\<rparr>) s)"

definition bidi_add_watch ::
  "'m env \<Rightarrow> waddr \<Rightarrow> int \<Rightarrow> 32 word \<Rightarrow> int \<Rightarrow> int \<Rightarrow> 'm loop \<Rightarrow> exn option \<times> 'm loop" where
  "bidi_add_watch E a fd flags inprio outprio s =
     register_fd_bidi E a fd flags True (bidi_prepare a fd flags inprio outprio s)"

definition bidi_add_watch_noemu ::
  "'m env \<Rightarrow> waddr \<Rightarrow> int \<Rightarrow> 32 word \<Rightarrow> int \<Rightarrow> int \<Rightarrow> 'm loop \<Rightarrow> exn option \<times> 'm loop" where
  "bidi_add_watch_noemu E a fd flags inprio outprio s =
     register_fd_bidi E a fd flags False (bidi_prepare a fd flags inprio outprio s)"

definition child_add_watch :: "'m env \<Rightarrow> waddr \<Rightarrow> int \<Rightarrow> int \<Rightarrow> 'm loop \<Rightarrow> exn option \<times> 'm loop" where
  "child_add_watch E a child pri s =
     register_child E a child (upd a (\<lambda>w. (watcher_init w)\<lparr>watch_pid := child, priority := pri\<rparr>) s)"

definition child_add_reserved :: "'m env \<Rightarrow> waddr \<Rightarrow> int \<Rightarrow> int \<Rightarrow> 'm loop \<Rightarrow> 'm loop" where
  "child_add_reserved E a child pri s =
     unlock_base (register_reserved_child_nolock E a child
       (lock_base (upd a (\<lambda>w. (watcher_init w)\<lparr>watch_pid := child, priority := pri\<rparr>) s)))"

definition tm_add_timer :: "'m env \<Rightarrow> waddr \<Rightarrow> clock_type \<Rightarrow> int \<Rightarrow> 'm loop \<Rightarrow> exn option \<times> 'm loop" where
  "tm_add_timer E a clk pri s =
     register_timer E a clk (upd a (\<lambda>w. (watcher_init w)\<lparr>priority := pri, clock := clk, intervals := 0\<rparr>) s)"

section \<open>Enabling and disabling\<close>

definition fd_set_enabled :: "'m env \<Rightarrow> waddr \<Rightarrow> bool \<Rightarrow> 'm loop \<Rightarrow> 'm loop" where
  "fd_set_enabled E a enable s =
     (let s = lock_base s;
          w = mem s a;
          s = (if emulatefd w then
                 upd a (emulate_enabled_update (\<lambda>_. enable))
                   (if enable \<and> \<not> emulate_enabled w then requeue_watcher E a s else s)
               else set_fd_enabled_nolock E a (watch_fd w) (watch_flags w) enable s);
          s = (if \<not> enable then dequeue_watcher a s else s)
      in unlock_base s)"

definition set_watch_enabled :: "'m env \<Rightarrow> waddr \<Rightarrow> bool \<Rightarrow> bool \<Rightarrow> 'm loop \<Rightarrow> 'm loop" where
  "set_watch_enabled E a inw b s =
     (let events = (if inw then IN_EVENTS else OUT_EVENTS);
          orig_flags = watch_flags (mem s a);
          s = (if b then set_flags a events s else clear_flags a events s);
          watcher = (if inw then a else out_of a);
          fd = watch_fd (mem s a);
          fl = watch_flags (mem s a);
          s = (if \<not> emulatefd (mem s watcher) then
                 if has_separate_rw (ops E) then set_fd_enabled_nolock E a fd (events OR ONE_SHOT) b s
                 else set_fd_enabled_nolock E a fd ((fl AND IO_EVENTS) OR ONE_SHOT) (fl AND IO_EVENTS \<noteq> 0) s
               else if b \<and> orig_flags \<noteq> fl
                 then requeue_watcher E watcher (upd a (watch_flags_update (\<lambda>_. orig_flags)) s)
               else s)
      in if \<not> b then dequeue_watcher watcher s else s)"

definition set_in_watch_enabled :: "'m env \<Rightarrow> waddr \<Rightarrow> bool \<Rightarrow> 'm loop \<Rightarrow> 'm loop" where
  "set_in_watch_enabled E a b s = unlock_base (set_watch_enabled E a True b (lock_base s))"

definition set_out_watch_enabled :: "'m env \<Rightarrow> waddr \<Rightarrow> bool \<Rightarrow> 'm loop \<Rightarrow> 'm loop" where
  "set_out_watch_enabled E a b s = unlock_base (set_watch_enabled E a False b (lock_base s))"

definition set_watches :: "'m env \<Rightarrow> waddr \<Rightarrow> 32 word \<Rightarrow> 'm loop \<Rightarrow> 'm loop" where
  "set_watches E a new_flags s =
     (let s = lock_base s;
          use_emulation = emulatefd (mem s a) \<or> emulatefd (mem s (out_of a));
          s = (if use_emulation \<or> has_separate_rw (ops E) then
                 set_watch_enabled E a False (new_flags AND OUT_EVENTS \<noteq> 0)
                   (set_watch_enabled E a True (new_flags AND IN_EVENTS \<noteq> 0) s)
               else
                 let s = upd a (\<lambda>w. w\<lparr>watch_flags := (watch_flags w AND NOT IO_EVENTS) OR new_flags\<rparr>) s in
                 set_fd_enabled_nolock E a (watch_fd (mem s a)) (watch_flags (mem s a) AND IO_EVENTS) True s)
      in unlock_base s)"

definition tm_set_enabled :: "'m env \<Rightarrow> waddr \<Rightarrow> clock_type \<Rightarrow> bool \<Rightarrow> 'm loop \<Rightarrow> 'm loop" where
  "tm_set_enabled E a clk enable s =
     (let s = set_timer_enabled_nolock E a clk enable (lock_base s);
          s = (if \<not> enable then dequeue_watcher a s else s)
      in unlock_base s)"

section \<open>Child processes\<close>

text \<open>
  \<open>send_signal\<close>, with \<open>kill\<close> a parameter: \<open>Inl\<close> an error number, \<open>Inr\<close> success. The lock it takes
  is a copy of the reaper lock and protects nothing.
\<close>

definition ESRCH :: int where "ESRCH = 3"

definition send_signal :: "(int \<Rightarrow> int \<Rightarrow> int + unit) \<Rightarrow> waddr \<Rightarrow> int \<Rightarrow> 'm loop \<Rightarrow> int + unit" where
  "send_signal kill a signo s =
     (if child_termd (mem s a) then Inl ESRCH else kill (watch_pid (mem s a)) signo)"

text \<open>
  \<open>fork\<close> in the parent, for mechanisms with child watch reservation; \<open>fork_call\<close> is the system call's
  result: an error number, or the child's process id.
\<close>

definition child_fork ::
  "'m env \<Rightarrow> int + int \<Rightarrow> waddr \<Rightarrow> bool \<Rightarrow> int \<Rightarrow> 'm loop \<Rightarrow> (exn + int) \<times> 'm loop" where
  "child_fork E fork_call a from_reserved pri s =
     (let s = upd a (\<lambda>w. (watcher_init w)\<lparr>priority := pri\<rparr>) s;
          (e, s) = (if \<not> from_reserved then el_reserve_child_watch E a s else (None, s)) in
      case e of
        Some e \<Rightarrow> (Inl e, s)
      | None \<Rightarrow>
          let s = lock_base s in
          (case fork_call of
             Inl err \<Rightarrow> (Inl (System_error err), el_unreserve E a (unlock_base s))
           | Inr child \<Rightarrow>
               (Inr child, unlock_base (register_reserved_child_nolock E a child
                  (upd a (watch_pid_update (\<lambda>_. child)) s)))))"

text \<open>
  \<open>fork\<close> in the parent, for mechanisms without reservation: the pipe keeps the child waiting until
  it is registered. The base lock is held around \<open>register_child\<close>, which takes it again.
  \<open>pipe_call\<close>: \<open>None\<close>, or the error of \<open>pipe2\<close>.
\<close>

definition child_fork_noreserve ::
  "'m env \<Rightarrow> int option \<Rightarrow> int + int \<Rightarrow> waddr \<Rightarrow> int \<Rightarrow> 'm loop \<Rightarrow> (exn + int) \<times> 'm loop" where
  "child_fork_noreserve E pipe_call fork_call a pri s =
     (let s = upd a (\<lambda>w. (watcher_init w)\<lparr>priority := pri\<rparr>) s in
      case pipe_call of
        Some err \<Rightarrow> (Inl (System_error err), s)
      | None \<Rightarrow>
          let s = lock_base s in
          (case fork_call of
             Inl err \<Rightarrow> (Inl (System_error err), unlock_base s)
           | Inr child \<Rightarrow>
               (case register_child E a child (upd a (watch_pid_update (\<lambda>_. child)) s) of
                  (Some e, s) \<Rightarrow> (Inl e, unlock_base s)
                | (None, s) \<Rightarrow> (Inr child, unlock_base s))))"

end
