(* ===== verification/Loop_Props.thy ===== *)
theory Loop_Props
  imports Watchers
begin

text \<open>
  Correctness of the dispatcher and the event loop. \<open>reg_ok E A s\<close>: the queue's structure is
  intact and \<open>A\<close> is the set of registered watchers (those with an allocated handle). It does not
  ask for the heap order, which removals can break.
\<close>

definition reg_ok :: "heap_env \<Rightarrow> waddr set \<Rightarrow> 'z disp_scheme \<Rightarrow> bool" where
  "reg_ok E A s \<longleftrightarrow> heap_wf (node_size E) A (Base (event_queue s))"

definition is_queued :: "'z disp_scheme \<Rightarrow> waddr \<Rightarrow> bool" where
  "is_queued s a = stable_is_queued (event_queue s) a"

section \<open>Frame lemmas\<close>

lemma upd_simps [simp]:
  "event_queue (upd a f s) = event_queue s" "mem (upd a f s) = (mem s)(a := f (mem s a))"
  "removed (upd a f s) = removed s" "lock_held (upd a f s) = lock_held s" "fault (upd a f s) = fault s"
  "reg_ok E A (upd a f s) = reg_ok E A s" "is_queued (upd a f s) b = is_queued s b"
  by (simp_all add: upd_def reg_ok_def is_queued_def)

lemma upd_loop [simp]: "mech (upd a f s) = mech s" "attn_busy (upd a f s) = attn_busy s"
  by (simp_all add: upd_def)

lemma lock_simps [simp]:
  "event_queue (lock_base s) = event_queue s" "mem (lock_base s) = mem s" "removed (lock_base s) = removed s"
  "lock_held (lock_base s)" "fault (lock_base s) \<longleftrightarrow> fault s \<or> lock_held s"
  "event_queue (unlock_base s) = event_queue s" "mem (unlock_base s) = mem s" "removed (unlock_base s) = removed s"
  "\<not> lock_held (unlock_base s)" "fault (unlock_base s) \<longleftrightarrow> fault s \<or> \<not> lock_held s"
  "reg_ok E A (lock_base s) = reg_ok E A s" "reg_ok E A (unlock_base s) = reg_ok E A s"
  "is_queued (lock_base s) a = is_queued s a" "is_queued (unlock_base s) a = is_queued s a"
  by (simp_all add: lock_base_def unlock_base_def reg_ok_def is_queued_def)

lemma lock_loop [simp]:
  "mech (lock_base s) = mech s" "mech (unlock_base s) = mech s"
  "attn_busy (lock_base s) = attn_busy s" "attn_busy (unlock_base s) = attn_busy s"
  by (simp_all add: lock_base_def unlock_base_def)

lemma removed_simps [simp]:
  "event_queue (watch_removed a s) = event_queue s" "mem (watch_removed a s) = mem s"
  "removed (watch_removed a s) = a # removed s" "lock_held (watch_removed a s) = lock_held s"
  "fault (watch_removed a s) = fault s" "reg_ok E A (watch_removed a s) = reg_ok E A s"
  "is_queued (watch_removed a s) b = is_queued s b"
  by (simp_all add: watch_removed_def reg_ok_def is_queued_def)

lemma removed_loop [simp]: "mech (watch_removed a s) = mech s" "attn_busy (watch_removed a s) = attn_busy s"
  by (simp_all add: watch_removed_def)

lemma release_simps [simp]:
  "mem (release_watcher E a s) = mem s" "removed (release_watcher E a s) = removed s"
  "lock_held (release_watcher E a s) = lock_held s" "fault (release_watcher E a s) = fault s"
  by (simp_all add: release_watcher_def)

lemma release_loop [simp]: "mech (release_watcher E a s) = mech s" "attn_busy (release_watcher E a s) = attn_busy s"
  by (simp_all add: release_watcher_def)

lemma dequeue_simps [simp]:
  "mem (dequeue_watcher a s) = mem s" "removed (dequeue_watcher a s) = removed s"
  "lock_held (dequeue_watcher a s) = lock_held s" "fault (dequeue_watcher a s) = fault s"
  by (simp_all add: dequeue_watcher_def)

lemma dequeue_loop [simp]: "mech (dequeue_watcher a s) = mech s" "attn_busy (dequeue_watcher a s) = attn_busy s"
  by (simp_all add: dequeue_watcher_def)

lemma mech_do_simps [simp]:
  "event_queue (mech_do f s) = event_queue s" "mem (mech_do f s) = mem s" "removed (mech_do f s) = removed s"
  "lock_held (mech_do f s) = lock_held s" "fault (mech_do f s) = fault s" "mech (mech_do f s) = f (mech s)"
  "attn_busy (mech_do f s) = attn_busy s" "reg_ok E A (mech_do f s) = reg_ok E A s"
  "is_queued (mech_do f s) a = is_queued s a"
  by (simp_all add: mech_do_def reg_ok_def is_queued_def)

lemma queue_simps [simp]:
  "mem (queue_watcher E a s) = mem s" "removed (queue_watcher E a s) = removed s"
  "lock_held (queue_watcher E a s) = lock_held s"
  by (simp_all add: queue_watcher_def split: sum.splits prod.splits)

lemma queue_loop [simp]: "mech (queue_watcher E a s) = mech s" "attn_busy (queue_watcher E a s) = attn_busy s"
  by (simp_all add: queue_watcher_def split: sum.splits prod.splits)

lemma interrupt_simps [simp]:
  "event_queue (el_interrupt_if_necessary E s) = event_queue s" "mem (el_interrupt_if_necessary E s) = mem s"
  "removed (el_interrupt_if_necessary E s) = removed s" "lock_held (el_interrupt_if_necessary E s) = lock_held s"
  "fault (el_interrupt_if_necessary E s) = fault s" "reg_ok H A (el_interrupt_if_necessary E s) = reg_ok H A s"
  "is_queued (el_interrupt_if_necessary E s) a = is_queued s a"
  by (simp_all add: el_interrupt_if_necessary_def)

section \<open>The queue operations keep the registration\<close>

lemma is_queued_release [simp]: "is_queued (release_watcher E a s) b = is_queued s b"
  by (simp add: is_queued_def stable_is_queued_def dary_is_queued_def release_watcher_def stable_deallocate_def
      dary_deallocate_def Let_def)

lemma release_ok:
  assumes "reg_ok E A s" "a \<in> A" "\<not> is_queued s a"
  shows "reg_ok E (A - {a}) (release_watcher E a s)"
proof -
  have wf: "heap_wf (node_size E) A (Base (event_queue s))" using assms(1) by (simp add: reg_ok_def)
  have "a \<notin> queued (Base (event_queue s))"
    using is_queued_iff [OF wf assms(2)] assms(3) by (simp add: is_queued_def stable_is_queued_def)
  then show ?thesis
    using deallocate_correct(1) [OF wf assms(2)] by (simp add: reg_ok_def release_watcher_def stable_deallocate_def)
qed

lemma dequeue_ok:
  assumes "reg_ok E A s" "a \<in> A"
  shows "reg_ok E A (dequeue_watcher a s)" "\<not> is_queued (dequeue_watcher a s) a"
    "b \<in> A \<Longrightarrow> b \<noteq> a \<Longrightarrow> is_queued (dequeue_watcher a s) b = is_queued s b"
proof -
  have wf: "heap_wf (node_size E) A (Base (event_queue s))" using assms(1) by (simp add: reg_ok_def)
  let ?q = "Base (event_queue s)"
  have "reg_ok E A (dequeue_watcher a s) \<and> \<not> is_queued (dequeue_watcher a s) a \<and>
      (b \<in> A \<longrightarrow> b \<noteq> a \<longrightarrow> is_queued (dequeue_watcher a s) b = is_queued s b)"
  proof (cases "is_queued s a")
    case True
    then have q: "dary_is_queued ?q a" by (simp add: is_queued_def stable_is_queued_def)
    note facts = remove_facts [OF compare_stable_swo [OF swo_less] fan_out_pos wf assms(2) q]
    let ?q' = "dary_remove (compare_stable_prio (<)) fan_out ?q a"
    have "contents ?q' = filter_mset (\<lambda>n. hnd n \<noteq> a) (contents ?q)"
      by (rule remove_filter [OF wf assms(2) q facts(1,2,3)])
    then have "b \<noteq> a \<Longrightarrow> b \<in> queued ?q' \<longleftrightarrow> b \<in> queued ?q" by (auto simp: queued_contents)
    then have "b \<in> A \<Longrightarrow> b \<noteq> a \<Longrightarrow> dary_is_queued ?q' b = dary_is_queued ?q b"
      using is_queued_iff [OF wf] is_queued_iff [OF facts(1)] by blast
    with True facts(1,3) show ?thesis
      by (simp add: dequeue_watcher_def reg_ok_def is_queued_def stable_is_queued_def stable_remove_def)
  next
    case False
    then show ?thesis using assms(1) by (simp add: dequeue_watcher_def is_queued_def)
  qed
  then show "reg_ok E A (dequeue_watcher a s)" "\<not> is_queued (dequeue_watcher a s) a"
    "b \<in> A \<Longrightarrow> b \<noteq> a \<Longrightarrow> is_queued (dequeue_watcher a s) b = is_queued s b" by blast+
qed

lemma dequeue_outside:
  assumes "reg_ok E A s" "a \<in> A" "b \<notin> A"
  shows "is_queued (dequeue_watcher a s) b = is_queued s b"
proof -
  have wf: "heap_wf (node_size E) A (Base (event_queue s))" using assms(1) by (simp add: reg_ok_def)
  then have "b \<notin> queued (Base (event_queue s))" using assms(3) by (auto simp: heap_wf_def)
  then show ?thesis
    using remove_facts(6) [OF compare_stable_swo [OF swo_less] fan_out_pos wf assms(2)]
    by (simp add: dequeue_watcher_def is_queued_def stable_is_queued_def stable_remove_def dary_is_queued_def)
qed

lemma queue_ok:
  assumes "reg_ok E A s" "a \<in> A" "\<not> is_queued s a"
  shows "reg_ok E A (queue_watcher E a s)" "is_queued (queue_watcher E a s) a"
    "fault (queue_watcher E a s) = fault s"
    "b \<in> A \<Longrightarrow> b \<noteq> a \<Longrightarrow> is_queued (queue_watcher E a s) b = is_queued s b"
proof -
  have wf: "heap_wf (node_size E) A (Base (event_queue s))" using assms(1) by (simp add: reg_ok_def)
  let ?q = "Base (event_queue s)" and ?p = "\<lparr>sp_p = priority (mem s a), sp_order = sequence (event_queue s)\<rparr>"
  have nq: "a \<notin> queued ?q"
    using is_queued_iff [OF wf assms(2)] assms(3) by (simp add: is_queued_def stable_is_queued_def)
  obtain r q' where q': "dary_insert (alloc_ok E) (node_size E) (compare_stable_prio (<)) fan_out ?q a ?p = Inr (r, q')"
      "heap_wf (node_size E) A q'"
      "nodes q' = swim (node_lt (compare_stable_prio (<))) fan_out (length (nodes ?q)) (nodes ?q @ [node ?p a])"
    by (rule insert_correct [OF wf assms(2) nq, of "alloc_ok E" "compare_stable_prio (<)" fan_out ?p]) (rule that)
  have eq: "queue_watcher E a s = s\<lparr>event_queue := \<lparr>Base = q', sequence = sequence (event_queue s) + 1\<rparr>\<rparr>"
    using q'(1) by (simp add: queue_watcher_def stable_insert_def)
  have "contents q' = add_mset (node ?p a) (contents ?q)" by (simp add: contents_def q'(3) mset_swim)
  then have qd: "queued q' = insert a (queued ?q)" by (simp add: queued_contents)
  show "reg_ok E A (queue_watcher E a s)" "fault (queue_watcher E a s) = fault s"
    using q'(2) by (simp_all add: eq reg_ok_def)
  show "is_queued (queue_watcher E a s) a"
    using is_queued_iff [OF q'(2) assms(2)] qd by (simp add: eq is_queued_def stable_is_queued_def)
  show "is_queued (queue_watcher E a s) b = is_queued s b" if "b \<in> A" "b \<noteq> a"
    using is_queued_iff [OF q'(2) that(1)] is_queued_iff [OF wf that(1)] qd that(2)
    by (simp add: eq is_queued_def stable_is_queued_def)
qed

lemma prepare_ok:
  assumes "reg_ok E A s" "a \<notin> A" "prepare_watcher E a s = Inr s'"
  shows "reg_ok E (insert a A) s'" "\<not> is_queued s' a" "mem s' = mem s" "removed s' = removed s"
    "lock_held s' = lock_held s" "fault s' = fault s" "b \<noteq> a \<Longrightarrow> is_queued s' b = is_queued s b"
proof -
  have wf: "heap_wf (node_size E) A (Base (event_queue s))" using assms(1) by (simp add: reg_ok_def)
  obtain q where q: "dary_allocate (alloc_ok E) (node_size E) (Base (event_queue s)) a () = Inr q"
      "s' = s\<lparr>event_queue := (event_queue s)\<lparr>Base := q\<rparr>\<rparr>"
    using assms(3) by (auto simp: prepare_watcher_def stable_allocate_def split: sum.splits)
  note al = allocate_correct [OF wf assms(2) q(1)]
  show r: "reg_ok E (insert a A) s'" "mem s' = mem s" "removed s' = removed s" "lock_held s' = lock_held s"
    "fault s' = fault s" using al(1) by (simp_all add: q(2) reg_ok_def)
  have "a \<notin> queued q" using al(2) wf assms(2) by (auto simp: queued_def heap_wf_def)
  then show "\<not> is_queued s' a" using is_queued_iff [OF al(1)] by (simp add: q(2) is_queued_def stable_is_queued_def)
  show "is_queued s' b = is_queued s b" if "b \<noteq> a"
    using al(4) [OF that] by (simp add: q(2) is_queued_def stable_is_queued_def dary_is_queued_def)
qed

end
