(* ===== verification/Epoll.thy ===== *)
theory Epoll
  imports Loop_Props
begin

text \<open>
  \<open>epoll.h\<close>: the event-loop mechanism for Linux. The state \<open>epoll_loop\<close> has the class's members and,
  in \<open>kern\<close>, the state of the operating system; the system calls are the record \<open>ep_sys\<close> over it.
  An \<open>epoll_event\<close>'s user data is a null pointer, the address of \<open>sigfd\<close>, a watcher, or data of another
  layer (the timerfd and interrupt channels). The template parameter \<open>Base\<close> enters through the functions
  \<open>rs\<close> (\<open>receive_signal\<close>) and \<open>rf\<close> (\<open>receive_fd_event\<close>), which may change the mechanism too.
  The map \<open>sigdataMap\<close> is taken to have memory for its entries (at most one for each signal).
\<close>

unbundle bit_operations_syntax

definition ERR_EVENTS :: "32 word" where "ERR_EVENTS = 4"

definition EPOLLIN :: "32 word" where "EPOLLIN = 1"
definition EPOLLOUT :: "32 word" where "EPOLLOUT = 4"
definition EPOLLERR :: "32 word" where "EPOLLERR = 8"
definition EPOLLHUP :: "32 word" where "EPOLLHUP = 16"
definition EPOLLONESHOT :: "32 word" where "EPOLLONESHOT = 2 ^ 30"
definition EPERM :: int where "EPERM = 1"
definition ENOTSUP :: int where "ENOTSUP = 95"

datatype ep_ptr = Nullptr | Sigfd | Watcher waddr | Other nat

record epoll_event =
  events :: "32 word"
  ptr :: ep_ptr

record 'k epoll_loop =
  epfd :: int
  sigfd :: int
  sigmask :: "int set"
  sigdataMap :: "int \<rightharpoonup> ep_ptr"
  kern :: 'k

text \<open>
  System calls: an error is \<open>Inl errno\<close> or \<open>Some errno\<close>; \<open>epoll_wait\<close> returns the events (none for an
  error or a timeout); \<open>read_sig\<close> a signal number or \<open>None\<close>.
\<close>

record 'k ep_sys =
  epoll_create1 :: "'k \<Rightarrow> (int + int) \<times> 'k"
  epoll_ctl_add :: "int \<Rightarrow> int \<Rightarrow> epoll_event \<Rightarrow> 'k \<Rightarrow> int option \<times> 'k"
  epoll_ctl_mod :: "int \<Rightarrow> int \<Rightarrow> epoll_event \<Rightarrow> 'k \<Rightarrow> int option \<times> 'k"
  epoll_ctl_del :: "int \<Rightarrow> int \<Rightarrow> 'k \<Rightarrow> int option \<times> 'k"
  epoll_wait :: "int \<Rightarrow> bool \<Rightarrow> 'k \<Rightarrow> epoll_event list \<times> 'k"
  signalfd :: "int \<Rightarrow> int set \<Rightarrow> 'k \<Rightarrow> (int + int) \<times> 'k"
  read_sig :: "int \<Rightarrow> 'k \<Rightarrow> int option \<times> 'k"
  close_fd :: "int \<Rightarrow> 'k \<Rightarrow> 'k"

definition sys_do :: "('k \<Rightarrow> 'r \<times> 'k) \<Rightarrow> 'k epoll_loop \<Rightarrow> 'r \<times> 'k epoll_loop" where
  "sys_do f m = (let (r, k) = f (kern m) in (r, m\<lparr>kern := k\<rparr>))"

section \<open>Construction\<close>

definition epoll_loop_new :: "'k \<Rightarrow> 'k epoll_loop" where
  "epoll_loop_new k = \<lparr>epfd = - 1, sigfd = - 1, sigmask = {}, sigdataMap = Map.empty, kern = k\<rparr>"

text \<open>\<open>base_init\<close> is \<open>Base::init\<close>: an exception or none.\<close>

definition ep_init ::
  "'k ep_sys \<Rightarrow> ('k epoll_loop \<Rightarrow> exn option \<times> 'k epoll_loop) \<Rightarrow> 'k epoll_loop \<Rightarrow> exn option \<times> 'k epoll_loop" where
  "ep_init Y base_init m =
     (case sys_do (epoll_create1 Y) m of
        (Inl e, m) \<Rightarrow> (Some (System_error e), m\<lparr>epfd := - 1\<rparr>)
      | (Inr fd, m) \<Rightarrow>
          (case base_init (m\<lparr>epfd := fd, sigmask := {}\<rparr>) of
             (Some e, m) \<Rightarrow> (Some e, m\<lparr>kern := close_fd Y (epfd m) (kern m)\<rparr>)
           | (None, m) \<Rightarrow> (None, m)))"

definition ep_destroy ::
  "'k ep_sys \<Rightarrow> ('k epoll_loop \<Rightarrow> 'k epoll_loop) \<Rightarrow> 'k epoll_loop \<Rightarrow> 'k epoll_loop" where
  "ep_destroy Y base_cleanup m =
     (if epfd m \<noteq> - 1 then
        let m = base_cleanup m;
            m = m\<lparr>kern := close_fd Y (epfd m) (kern m)\<rparr>
        in if sigfd m \<noteq> - 1 then m\<lparr>kern := close_fd Y (sigfd m) (kern m)\<rparr> else m
      else m)"

section \<open>File descriptor watches\<close>

definition ep_mask :: "32 word \<Rightarrow> bool \<Rightarrow> 32 word" where
  "ep_mask flags en =
     (let ev = (if flags AND ONE_SHOT \<noteq> 0 then EPOLLONESHOT else 0);
          ev = (if flags AND IN_EVENTS \<noteq> 0 \<and> en then ev OR EPOLLIN else ev)
      in if flags AND OUT_EVENTS \<noteq> 0 \<and> en then ev OR EPOLLOUT else ev)"

definition ep_add_fd_watch ::
  "'k ep_sys \<Rightarrow> int \<Rightarrow> ep_ptr \<Rightarrow> 32 word \<Rightarrow> bool \<Rightarrow> bool \<Rightarrow> 'k epoll_loop \<Rightarrow> (exn + bool) \<times> 'k epoll_loop" where
  "ep_add_fd_watch Y fd udata flags en soft_fail m =
     (case sys_do (epoll_ctl_add Y (epfd m) fd \<lparr>events = ep_mask flags en, ptr = udata\<rparr>) m of
        (None, m) \<Rightarrow> (Inr True, m)
      | (Some e, m) \<Rightarrow> if soft_fail \<and> e = EPERM then (Inr False, m) else (Inl (System_error e), m))"

definition ep_add_bidi_fd_watch ::
  "int \<Rightarrow> ep_ptr \<Rightarrow> 32 word \<Rightarrow> bool \<Rightarrow> 'k epoll_loop \<Rightarrow> (exn + 32 word) \<times> 'k epoll_loop" where
  "ep_add_bidi_fd_watch fd udata flags emulate m = (Inl (System_error ENOTSUP), m)"

definition ep_remove_fd_watch :: "'k ep_sys \<Rightarrow> int \<Rightarrow> 32 word \<Rightarrow> 'k epoll_loop \<Rightarrow> 'k epoll_loop" where
  "ep_remove_fd_watch Y fd flags m = snd (sys_do (epoll_ctl_del Y (epfd m) fd) m)"

definition ep_remove_bidi_fd_watch :: "'k ep_sys \<Rightarrow> int \<Rightarrow> 'k epoll_loop \<Rightarrow> 'k epoll_loop" where
  "ep_remove_bidi_fd_watch Y fd m = ep_remove_fd_watch Y fd (IN_EVENTS OR OUT_EVENTS) m"

definition ep_enable_fd_watch ::
  "'k ep_sys \<Rightarrow> int \<Rightarrow> ep_ptr \<Rightarrow> 32 word \<Rightarrow> 'k epoll_loop \<Rightarrow> 'k epoll_loop" where
  "ep_enable_fd_watch Y fd udata flags m =
     snd (sys_do (epoll_ctl_mod Y (epfd m) fd \<lparr>events = ep_mask flags True, ptr = udata\<rparr>) m)"

definition ep_disable_fd_watch :: "'k ep_sys \<Rightarrow> int \<Rightarrow> 32 word \<Rightarrow> 'k epoll_loop \<Rightarrow> 'k epoll_loop" where
  "ep_disable_fd_watch Y fd flags m =
     snd (sys_do (epoll_ctl_mod Y (epfd m) fd \<lparr>events = 0, ptr = Nullptr\<rparr>) m)"

section \<open>Signal watches\<close>

definition ep_add_signal_watch ::
  "'k ep_sys \<Rightarrow> int \<Rightarrow> ep_ptr \<Rightarrow> 'k epoll_loop \<Rightarrow> exn option \<times> 'k epoll_loop" where
  "ep_add_signal_watch Y signo udata m =
     (let m = m\<lparr>sigdataMap := (sigdataMap m)(signo \<mapsto> udata)\<rparr>;
          was_no_sigfd = (sigfd m = - 1);
          m = m\<lparr>sigmask := insert signo (sigmask m)\<rparr> in
      case sys_do (signalfd Y (sigfd m) (sigmask m)) m of
        (Inl e, m) \<Rightarrow> (Some (System_error e), m\<lparr>sigfd := - 1\<rparr>)
      | (Inr fd, m) \<Rightarrow>
          let m = m\<lparr>sigfd := fd\<rparr> in
          if was_no_sigfd then
            (case sys_do (epoll_ctl_add Y (epfd m) fd \<lparr>events = EPOLLIN, ptr = Sigfd\<rparr>) m of
               (Some e, m) \<Rightarrow>
                 (Some (System_error e), m\<lparr>kern := close_fd Y fd (kern m), sigfd := - 1\<rparr>)
             | (None, m) \<Rightarrow> (None, m))
          else (None, m))"

definition ep_rearm_signal_watch :: "'k ep_sys \<Rightarrow> int \<Rightarrow> ep_ptr \<Rightarrow> 'k epoll_loop \<Rightarrow> 'k epoll_loop" where
  "ep_rearm_signal_watch Y signo udata m =
     (let m = m\<lparr>sigmask := insert signo (sigmask m)\<rparr> in snd (sys_do (signalfd Y (sigfd m) (sigmask m)) m))"

definition ep_remove_signal_watch :: "'k ep_sys \<Rightarrow> int \<Rightarrow> 'k epoll_loop \<Rightarrow> 'k epoll_loop" where
  "ep_remove_signal_watch Y signo m =
     (let m = m\<lparr>sigmask := sigmask m - {signo}\<rparr> in snd (sys_do (signalfd Y (sigfd m) (sigmask m)) m))"

section \<open>Receiving events\<close>

type_synonym 'k ep_state = "'k epoll_loop loop"

text \<open>The loop that reads the signals off the signalfd; it ends when a read fails.\<close>

partial_function (option) ep_read_signals ::
  "'k ep_sys \<Rightarrow> (int \<Rightarrow> ep_ptr \<Rightarrow> 'k ep_state \<Rightarrow> bool \<times> 'k ep_state) \<Rightarrow> 'k ep_state \<Rightarrow> 'k ep_state option" where
  "ep_read_signals Y rs s =
     (let (r, m) = sys_do (read_sig Y (sigfd (mech s))) (mech s); s = s\<lparr>mech := m\<rparr> in
      case r of
        None \<Rightarrow> Some s
      | Some signo \<Rightarrow>
          (case sigdataMap m signo of
             None \<Rightarrow> ep_read_signals Y rs s
           | Some u \<Rightarrow>
               let (b, s) = rs signo u s in
               ep_read_signals Y rs
                 (if b then mech_do (\<lambda>m. m\<lparr>sigmask := sigmask m - {signo}\<rparr>) s else s)))"

definition ep_flags :: "32 word \<Rightarrow> 32 word" where
  "ep_flags ev =
     (let flags = (if ev AND EPOLLIN \<noteq> 0 then IN_EVENTS else 0);
          flags = (if ev AND EPOLLOUT \<noteq> 0 then flags OR OUT_EVENTS else flags);
          flags = (if ev AND EPOLLHUP \<noteq> 0 then flags OR ERR_EVENTS else flags)
      in if ev AND EPOLLERR \<noteq> 0 then flags OR ERR_EVENTS else flags)"

fun ep_process_loop ::
  "'k ep_sys \<Rightarrow> (int \<Rightarrow> ep_ptr \<Rightarrow> 'k ep_state \<Rightarrow> bool \<times> 'k ep_state) \<Rightarrow>
   (ep_ptr \<Rightarrow> 32 word \<Rightarrow> 'k ep_state \<Rightarrow> (32 word \<times> int) \<times> 'k ep_state) \<Rightarrow>
   epoll_event list \<Rightarrow> 'k ep_state \<Rightarrow> 'k ep_state option" where
  "ep_process_loop Y rs rf [] s = Some s"
| "ep_process_loop Y rs rf (e # es) s =
     (if ptr e = Sigfd then
        (case ep_read_signals Y rs s of
           None \<Rightarrow> None
         | Some s \<Rightarrow>
             ep_process_loop Y rs rf es
               (mech_do (\<lambda>m. snd (sys_do (signalfd Y (sigfd m) (sigmask m)) m)) s))
      else
        let ((re, fd), s) = rf (ptr e) (ep_flags (events e)) s in
        ep_process_loop Y rs rf es
          (if re \<noteq> 0 then mech_do (ep_enable_fd_watch Y fd (ptr e) re) s else s))"

definition ep_process_events ::
  "'k ep_sys \<Rightarrow> (int \<Rightarrow> ep_ptr \<Rightarrow> 'k ep_state \<Rightarrow> bool \<times> 'k ep_state) \<Rightarrow>
   (ep_ptr \<Rightarrow> 32 word \<Rightarrow> 'k ep_state \<Rightarrow> (32 word \<times> int) \<times> 'k ep_state) \<Rightarrow>
   epoll_event list \<Rightarrow> 'k ep_state \<Rightarrow> 'k ep_state option" where
  "ep_process_events Y rs rf es s = map_option unlock_base (ep_process_loop Y rs rf es (lock_base s))"

partial_function (option) ep_pull_loop ::
  "'k ep_sys \<Rightarrow> (int \<Rightarrow> ep_ptr \<Rightarrow> 'k ep_state \<Rightarrow> bool \<times> 'k ep_state) \<Rightarrow>
   (ep_ptr \<Rightarrow> 32 word \<Rightarrow> 'k ep_state \<Rightarrow> (32 word \<times> int) \<times> 'k ep_state) \<Rightarrow>
   epoll_event list \<Rightarrow> 'k ep_state \<Rightarrow> 'k ep_state option" where
  "ep_pull_loop Y rs rf es s =
     Option.bind (ep_process_events Y rs rf es s) (\<lambda>s.
       let (es, m) = sys_do (epoll_wait Y (epfd (mech s)) False) (mech s); s = s\<lparr>mech := m\<rparr> in
       if es \<noteq> [] then ep_pull_loop Y rs rf es s else Some s)"

definition ep_pull_events ::
  "'k ep_sys \<Rightarrow> (int \<Rightarrow> ep_ptr \<Rightarrow> 'k ep_state \<Rightarrow> bool \<times> 'k ep_state) \<Rightarrow>
   (ep_ptr \<Rightarrow> 32 word \<Rightarrow> 'k ep_state \<Rightarrow> (32 word \<times> int) \<times> 'k ep_state) \<Rightarrow>
   bool \<Rightarrow> 'k ep_state \<Rightarrow> 'k ep_state option" where
  "ep_pull_events Y rs rf do_wait s =
     (let (es, m) = sys_do (epoll_wait Y (epfd (mech s)) do_wait) (mech s); s = s\<lparr>mech := m\<rparr> in
      if es = [] then Some s else ep_pull_loop Y rs rf es s)"

section \<open>The mechanism\<close>

text \<open>
  The operations of the mechanism with the traits of \<open>epoll_traits\<close>; those of the other layers (child
  processes, timers, interruption) are those of \<open>other\<close>.
\<close>

definition epoll_ops :: "'k ep_sys \<Rightarrow> 'k epoll_loop mech_ops \<Rightarrow> 'k epoll_loop mech_ops" where
  "epoll_ops Y other = other\<lparr>
     has_separate_rw := False, interrupt_after_fd_add := False, interrupt_after_signal_add := False,
     add_fd_watch := \<lambda>fd a. ep_add_fd_watch Y fd (Watcher a),
     add_bidi_fd_watch := \<lambda>fd a. ep_add_bidi_fd_watch fd (Watcher a),
     enable_fd_watch := \<lambda>fd a. ep_enable_fd_watch Y fd (Watcher a),
     disable_fd_watch := ep_disable_fd_watch Y,
     remove_fd_watch := ep_remove_fd_watch Y,
     remove_bidi_fd_watch := ep_remove_bidi_fd_watch Y,
     add_signal_watch := \<lambda>signo a. ep_add_signal_watch Y signo (Watcher a),
     rearm_signal_watch := \<lambda>signo a. ep_rearm_signal_watch Y signo (Watcher a),
     remove_signal_watch := ep_remove_signal_watch Y\<rparr>"

text \<open>
  The receiving functions of \<open>event_dispatch\<close>, with \<open>fault\<close> for user data that is not a watcher:
  the code dereferences it.
\<close>

definition ed_receive_signal :: "heap_env \<Rightarrow> int \<Rightarrow> ep_ptr \<Rightarrow> 'm loop \<Rightarrow> bool \<times> 'm loop" where
  "ed_receive_signal E signo u s =
     (case u of Watcher a \<Rightarrow> receive_signal E signo a s | _ \<Rightarrow> (False, s\<lparr>fault := True\<rparr>))"

definition ed_receive_fd_event ::
  "heap_env \<Rightarrow> bool \<Rightarrow> ep_ptr \<Rightarrow> 32 word \<Rightarrow> 'm loop \<Rightarrow> (32 word \<times> int) \<times> 'm loop" where
  "ed_receive_fd_event E sep u flags s =
     (case u of Watcher a \<Rightarrow> receive_fd_event E sep a flags s | _ \<Rightarrow> ((0, 0), s\<lparr>fault := True\<rparr>))"

end
