(* ===== verification/Loop_Correct.thy ===== *)
theory Loop_Correct
  imports Epoll
begin

text \<open>
  The properties of the dispatcher and the event loop: deletion of watchers, the bounded dispatch of
  \<open>process_events\<close>, the outcome of a callback, registration, and the reports of events.
  The loop mechanism is arbitrary except in the witnesses, which use that of \<open>epoll.h\<close> over a small
  concrete kernel.
\<close>

section \<open>A concrete loop for the witnesses\<close>

text \<open>
  The kernel keeps the interest list of the epoll descriptor; descriptors from 100 up are
  regular files, which epoll does not accept.
\<close>

definition sample_sys :: "(int \<rightharpoonup> epoll_event) ep_sys" where
  "sample_sys = \<lparr>epoll_create1 = \<lambda>k. (Inr 3, k),
     epoll_ctl_add = \<lambda>ep fd e k. if 100 \<le> fd then (Some EPERM, k) else (None, k(fd \<mapsto> e)),
     epoll_ctl_mod = \<lambda>ep fd e k. (None, k(fd \<mapsto> e)),
     epoll_ctl_del = \<lambda>ep fd k. (None, k(fd := None)),
     epoll_wait = \<lambda>ep w k. ([], k), signalfd = \<lambda>fd ms k. (Inr 4, k),
     read_sig = \<lambda>fd k. (None, k), close_fd = \<lambda>fd k. k\<rparr>"

definition idle_ops :: "'m mech_ops" where
  "idle_ops = \<lparr>has_separate_rw = False, interrupt_after_fd_add = False, interrupt_after_signal_add = False,
     add_fd_watch = \<lambda>fd a fl en em m. (Inr True, m), add_bidi_fd_watch = \<lambda>fd a fl em m. (Inr 0, m),
     enable_fd_watch = \<lambda>fd a fl m. m, disable_fd_watch = \<lambda>fd fl m. m, remove_fd_watch = \<lambda>fd fl m. m,
     remove_bidi_fd_watch = \<lambda>fd m. m, add_signal_watch = \<lambda>sg a m. (None, m),
     rearm_signal_watch = \<lambda>sg a m. m, remove_signal_watch = \<lambda>sg m. m,
     reserve_child_watch = \<lambda>a m. (None, m), unreserve_child_watch = \<lambda>a m. m,
     add_child_watch = \<lambda>pid a m. (None, m), add_reserved_child_watch = \<lambda>pid a m. m,
     stop_child_watch = \<lambda>a m. m, remove_child_watch = \<lambda>a m. m, add_timer = \<lambda>a c m. (None, m),
     remove_timer = \<lambda>a c m. m, enable_timer = \<lambda>a e c m. (None, m),
     set_timer = \<lambda>a t i e c m. m, set_timer_rel = \<lambda>a t i e c m. m, stop_timer = \<lambda>a c m. m,
     interrupt_wait = \<lambda>m. m\<rparr>"

definition sample_env :: "(int \<rightharpoonup> epoll_event) epoll_loop env" where
  "sample_env = \<lparr>alloc_ok = \<lambda>_. True, node_size = 16, ops = epoll_ops sample_sys idle_ops\<rparr>"

text \<open>A loop with \<open>n\<close> allocated handles, none of them queued, and the watchers \<open>ws\<close>.\<close>

definition idle_watcher :: watcher where
  "idle_watcher = \<lparr>watchType = FD, active = False, deleteme = False, emulatefd = False,
     emulate_enabled = False, child_termd = False, priority = 50, siginfo = 0, watch_fd = 5,
     watch_flags = IN_EVENTS, event_flags = 0, read_removed = False, write_removed = False,
     watch_pid = 0, child_status = \<lparr>wait_si_code = 0, wait_si_status = 0\<rparr>, intervals = 0, clock = SYSTEM\<rparr>"

definition idle_loop :: "nat \<Rightarrow> (waddr \<Rightarrow> watcher) \<Rightarrow> (int \<rightharpoonup> epoll_event) ep_state" where
  "idle_loop n ws =
     \<lparr>event_queue =
        \<lparr>Base = \<lparr>hvec = \<lparr>array = [], size_v = 0, capacity_v = 8\<rparr>, num_nodes = n,
           handles = \<lambda>_. \<lparr>hd_u = (), heap_index = size_max\<rparr>\<rparr>, sequence = 0\<rparr>,
      mem = ws, removed = [], lock_held = False, fault = False,
      mech = (epoll_loop_new Map.empty)\<lparr>epfd := 3\<rparr>, attn_busy = False\<rparr>"

lemma idle_loop_simps [simp]:
  "mem (idle_loop n ws) = ws" "removed (idle_loop n ws) = []" "\<not> lock_held (idle_loop n ws)"
  "\<not> fault (idle_loop n ws)" "\<not> is_queued (idle_loop n ws) a" "\<not> attn_busy (idle_loop n ws)"
  by (simp_all add: idle_loop_def is_queued_def stable_is_queued_def dary_is_queued_def)

lemma henv_sample [simp]: "node_size (henv sample_env) = 16" "ops sample_env = epoll_ops sample_sys idle_ops"
  by (simp_all add: sample_env_def heap_env.defs)

lemma idle_reg:
  "node_size E = 16 \<Longrightarrow> finite A \<Longrightarrow> card A = n \<Longrightarrow> n \<le> 8 \<Longrightarrow> reg_ok E A (idle_loop n ws)"
  by (simp add: reg_ok_def heap_wf_def idle_loop_def svec_inv_def elems_def queued_def indexed_def
      svec_max_size_16)

lemma ed_receive_simps [simp]:
  "ed_receive_fd_event E sep (Watcher a) flags s = receive_fd_event E sep a flags s"
  "ed_receive_signal E signo (Watcher a) s = receive_signal E signo a s"
  by (simp_all add: ed_receive_fd_event_def ed_receive_signal_def)

section \<open>Deletion\<close>

text \<open>
  C6: \<open>issue_delete\<close> on a registered watcher, called without the lock, never faults and leaves the
  lock free. If the watcher's callback is running, it is only marked, to be deleted when the callback
  returns; otherwise it is taken off the queue, its handle is released and its \<open>watch_removed\<close>
  is called exactly once. No other watcher is affected.
\<close>

theorem issue_delete_spec:
  assumes "reg_ok E A s" "a \<in> A" "\<not> lock_held s" "\<not> fault s"
  defines "s' \<equiv> issue_delete E a s"
  shows "\<not> lock_held s' \<and> \<not> fault s' \<and>
    (if active (mem s a)
     then reg_ok E A s' \<and> event_queue s' = event_queue s \<and> removed s' = removed s \<and> deleteme (mem s' a)
     else reg_ok E (A - {a}) s' \<and> \<not> is_queued s' a \<and> removed s' = a # removed s) \<and>
    (\<forall>b \<in> A. b \<noteq> a \<longrightarrow> is_queued s' b = is_queued s b \<and> mem s' b = mem s b)"
  using assms dequeue_ok(1,2) [of E A "lock_base s" a] dequeue_ok(3) [of E A "lock_base s" a]
    release_ok [of E A "dequeue_watcher a (lock_base s)" a]
  by (auto simp: issue_delete_def Let_def)

theorem issue_delete_spec_witness:
  "let s' = issue_delete (henv sample_env) (W 0) (idle_loop 2 (\<lambda>_. idle_watcher)) in
   reg_ok (henv sample_env) {W 1} s' \<and> removed s' = [W 0] \<and> \<not> lock_held s'"
proof -
  have "{W 0, W 1} - {W 0} = {W 1}" by auto
  then show ?thesis
    using issue_delete_spec [of "henv sample_env" "{W 0, W 1}" "idle_loop 2 (\<lambda>_. idle_watcher)" "W 0"]
    by (simp add: idle_reg idle_watcher_def Let_def)
qed

section \<open>Processing events\<close>

text \<open>
  The specification of \<open>process_events\<close>: take the first event off the queue and dispatch it, at most
  \<open>n\<close> times; the number dispatched and the state.
\<close>

fun dispatched :: "(waddr \<Rightarrow> 'm loop \<Rightarrow> 'm loop) \<Rightarrow> nat \<Rightarrow> 'm loop \<Rightarrow> nat \<times> 'm loop" where
  "dispatched disp_fn 0 s = (0, s)"
| "dispatched disp_fn (Suc n) s =
     (case pull_queued_event s of
        (None, s) \<Rightarrow> (0, s)
      | (Some a, s) \<Rightarrow>
          let (k, s) = dispatched disp_fn n (disp_fn a (upd a (active_update (\<lambda>_. True)) s)) in (Suc k, s))"

lemma events_loop_None [simp]: "events_loop f l None act s = Some (act, s)"
  by (subst events_loop.simps) simp

lemma events_loop_dispatched:
  "events_loop f (int (Suc n)) (fst (pull_queued_event s)) act (snd (pull_queued_event s)) =
   (let (k, s') = dispatched f (Suc n) s in Some (act \<or> 0 < k, s'))"
proof (induction n arbitrary: s act)
  case 0
  show ?case
    by (subst events_loop.simps) (simp add: case_prod_beta Let_def split: option.splits)
next
  case (Suc n)
  show ?case
  proof (cases "fst (pull_queued_event s)")
    case None
    then show ?thesis by (simp add: case_prod_beta)
  next
    case (Some a)
    then show ?thesis
      by (subst events_loop.simps) (simp add: Suc.IH [simplified] case_prod_beta Let_def del: dispatched.simps,
          simp add: case_prod_beta Let_def)
  qed
qed

lemma effective_limit_eq:
  assumes "limit \<noteq> 0" "- (2 ^ 31) \<le> limit" "limit < 2 ^ 31" "n < 2 ^ 31"
  shows "effective_limit limit n = int (if limit < 0 then n else min (nat limit) n)"
proof (cases "limit < 0")
  case True
  then have "limit mod 2 ^ 64 = limit + 2 ^ 64"
    using assms mod_add_self2 [of limit "2 ^ 64"] mod_pos_pos_trivial [of "limit + 2 ^ 64" "2 ^ 64"] by simp
  with True assms show ?thesis by (simp add: effective_limit_def to_int_def)
next
  case False
  then show ?thesis using assms by (simp add: effective_limit_def to_int_def)
qed

text \<open>
  C1: \<open>process_events\<close> with a non-zero limit returns, with the lock free again, after dispatching events
  in queue order: as many as the limit allows but never more than were queued when it was called
  (a negative limit is no limit), and it returns whether any was dispatched. Watchers that
  queue themselves again therefore cannot keep it from returning.
\<close>

theorem process_events_spec:
  assumes "limit \<noteq> 0" "- (2 ^ 31) \<le> limit" "limit < 2 ^ 31" "dary_size (Base (event_queue s)) < 2 ^ 31"
  defines "n \<equiv> num_queued_events s"
  shows "process_events disp_fn limit s =
    (let (k, s') = dispatched disp_fn (if limit < 0 then n else min (nat limit) n) (lock_base s)
     in Some (0 < k, unlock_base s')) \<and>
    fst (dispatched disp_fn (if limit < 0 then n else min (nat limit) n) (lock_base s)) \<le> n"
proof -
  let ?n = "if limit < 0 then n else min (nat limit) n"
  have le: "fst (dispatched f m t) \<le> m" for f m and t :: "'a loop"
    by (induction m arbitrary: t) (auto simp: case_prod_beta Let_def split: option.splits)
  have n: "n = dary_size (Base (event_queue s))"
    using assms(4) by (simp add: n_def num_queued_events_def stable_size_def)
  have l: "effective_limit limit (num_queued_events (lock_base s)) = int ?n"
    using effective_limit_eq [OF assms(1-3), of n] assms(4) n by (simp add: n_def num_queued_events_def)
  have "process_events disp_fn limit s =
      (let (k, s') = dispatched disp_fn ?n (lock_base s) in Some (0 < k, unlock_base s'))"
  proof (cases ?n)
    case 0
    then have "n = 0" using assms(1) by (auto split: if_splits)
    then have "stable_empty (event_queue s)"
      by (simp add: n stable_empty_def dary_size_def dary_empty_def svec_empty_def)
    then show ?thesis
      using 0 assms(1) by (simp add: process_events_def pull_queued_event_def Let_def)
  next
    case (Suc m)
    show ?thesis
      using events_loop_dispatched [of disp_fn m "lock_base s" False] assms(1)
      unfolding process_events_def Let_def l Suc by (simp add: case_prod_beta)
  qed
  with le [of disp_fn ?n "lock_base s"] show ?thesis by (auto intro: order_trans)
qed

text \<open>Two queued events, of which the more urgent is that of \<open>W 1\<close>.\<close>

definition two_events :: "(int \<rightharpoonup> epoll_event) ep_state" where
  "two_events = (idle_loop 2 (\<lambda>_. idle_watcher))\<lparr>event_queue :=
     \<lparr>Base = \<lparr>hvec = \<lparr>array = [\<lparr>prio = \<lparr>sp_p = 10, sp_order = 1\<rparr>, hnd = W 1\<rparr>,
          \<lparr>prio = \<lparr>sp_p = 50, sp_order = 0\<rparr>, hnd = W 0\<rparr>], size_v = 2, capacity_v = 8\<rparr>, num_nodes = 2,
        handles = \<lambda>a. \<lparr>hd_u = (), heap_index = (if a = W 1 then 0 else 1)\<rparr>\<rparr>, sequence = 2\<rparr>\<rparr>"

theorem process_events_spec_witness:
  "\<exists>s'. process_events watch_removed 1 two_events = Some (True, s') \<and> removed s' = [W 1] \<and> \<not> lock_held s'"
proof -
  have n: "num_queued_events two_events = 2" "dary_size (Base (event_queue two_events)) = 2"
    by (simp_all add: two_events_def num_queued_events_def stable_size_def dary_size_def)
  have "fst (pull_queued_event (lock_base two_events)) = Some (W 1)"
    "removed (snd (pull_queued_event (lock_base two_events))) = []"
    by (simp_all add: pull_queued_event_def stable_empty_def dary_empty_def svec_empty_def two_events_def
        stable_get_root_def dary_get_root_def svec_at_def)
  with process_events_spec [of 1 two_events watch_removed] n show ?thesis
    by (simp add: case_prod_beta Let_def)
qed

text \<open>
  \<open>process_events(0)\<close> returns with the lock held: its early return skips the unlock. The next
  operation that locks the loop would deadlock.
\<close>

theorem process_events_zero_keeps_lock:
  "\<exists>s'. process_events disp_fn 0 s = Some (False, s') \<and> lock_held s' \<and> fault (lock_base s')"
  by (simp add: process_events_def)

end
