(* ===== verification/Dispatch_Props.thy ===== *)
theory Dispatch_Props
  imports Loop_Correct
begin

text \<open>
  The outcome of a callback. The locale \<open>watcher_dispatch\<close> is the contract the dispatch methods of the
  watcher classes share; it is interpreted on those of signal, file descriptor, child and timer watchers.
  The value a callback returns is followed through to the queue and the loop mechanism.
\<close>

section \<open>After the callback\<close>

lemma post_dispatch_facts:
  assumes "reg_ok (henv E) A s" "a \<in> A" "\<not> is_queued s a" "lock_held s" "\<not> fault s"
  shows "lock_held (post_dispatch E a r s)" "\<not> fault (post_dispatch E a r s)"
    "mem (post_dispatch E a r s) = mem s"
    "removed (post_dispatch E a r s) = (if r = REMOVE then a # removed s else removed s)"
    "reg_ok (henv E) (A - {a}) (post_dispatch E a REMOVE s)" "r \<noteq> REMOVE \<Longrightarrow> reg_ok (henv E) A (post_dispatch E a r s)"
    "is_queued (post_dispatch E a r s) a \<longleftrightarrow> r = REQUEUE"
    "r \<noteq> REQUEUE \<Longrightarrow> mech (post_dispatch E a r s) = mech s"
  using assms release_ok [of "henv E" A "unlock_base s" a] queue_ok [of "henv E" A s a]
  by (auto simp: post_dispatch_def requeue_watcher_def)

lemma deletion_simps [simp]:
  "fst (deletion a r s) = (if deleteme (mem s a) then REMOVE else r)"
  "snd (deletion a r s) = upd a (active_update (\<lambda>_. False)) s"
  by (simp_all add: deletion_def Let_def)

lemma set_fd_enabled_frame [simp]:
  "event_queue (set_fd_enabled_nolock E a fd fl b s) = event_queue s"
  "mem (set_fd_enabled_nolock E a fd fl b s) = mem s"
  "removed (set_fd_enabled_nolock E a fd fl b s) = removed s"
  "lock_held (set_fd_enabled_nolock E a fd fl b s) = lock_held s"
  "fault (set_fd_enabled_nolock E a fd fl b s) = fault s"
  "reg_ok H A (set_fd_enabled_nolock E a fd fl b s) = reg_ok H A s"
  "is_queued (set_fd_enabled_nolock E a fd fl b s) c = is_queued s c"
  by (simp_all add: set_fd_enabled_nolock_def Let_def)

lemma process_signal_rearm_frame [simp]:
  "mem (process_signal_rearm E a r s) = mem s" "removed (process_signal_rearm E a r s) = removed s"
  "lock_held (process_signal_rearm E a r s) = lock_held s" "fault (process_signal_rearm E a r s) = fault s"
  "reg_ok H A (process_signal_rearm E a r s) = reg_ok H A s"
  "is_queued (process_signal_rearm E a r s) c = is_queued s c"
  by (simp_all add: process_signal_rearm_def Let_def)

lemma process_fd_rearm_frame [simp]:
  "event_queue (snd (process_fd_rearm E a r s)) = event_queue s"
  "removed (snd (process_fd_rearm E a r s)) = removed s"
  "lock_held (snd (process_fd_rearm E a r s)) = lock_held s" "fault (snd (process_fd_rearm E a r s)) = fault s"
  "reg_ok H A (snd (process_fd_rearm E a r s)) = reg_ok H A s"
  "is_queued (snd (process_fd_rearm E a r s)) c = is_queued s c"
  "active (mem (snd (process_fd_rearm E a r s)) a) = active (mem s a)"
  by (simp_all add: process_fd_rearm_def Let_def)

lemma process_child_rearm_frame [simp]:
  "mem (process_child_watch_rearm E a r s) = mem s" "removed (process_child_watch_rearm E a r s) = removed s"
  "lock_held (process_child_watch_rearm E a r s) = lock_held s"
  "fault (process_child_watch_rearm E a r s) = fault s"
  "reg_ok H A (process_child_watch_rearm E a r s) = reg_ok H A s"
  "is_queued (process_child_watch_rearm E a r s) c = is_queued s c"
  by (simp_all add: process_child_watch_rearm_def)

section \<open>The contract of the dispatch methods\<close>

locale watcher_dispatch =
  fixes H :: heap_env
    and callback :: "waddr \<Rightarrow> 'm loop \<Rightarrow> rearm \<times> 'm loop"
    and dispatch :: "waddr \<Rightarrow> 'm loop \<Rightarrow> 'm loop"
  assumes on_removed: "callback a s = (REMOVED, t) \<Longrightarrow> dispatch a s = lock_base t"
    and on_remove: "callback a s = (r, t) \<Longrightarrow> r \<noteq> REMOVED \<Longrightarrow> r = REMOVE \<or> deleteme (mem t a) \<Longrightarrow>
      reg_ok H A t \<Longrightarrow> a \<in> A \<Longrightarrow> \<not> is_queued t a \<Longrightarrow> \<not> lock_held t \<Longrightarrow> \<not> fault t \<Longrightarrow>
      removed (dispatch a s) = a # removed t \<and> reg_ok H (A - {a}) (dispatch a s) \<and>
      lock_held (dispatch a s) \<and> \<not> fault (dispatch a s)"
begin

text \<open>A callback that deletes its own watcher: the deletion happens once, when it returns.\<close>

lemma deferred_deletion:
  assumes "callback a s = (r, issue_delete H a u)" "r \<noteq> REMOVED" "active (mem u a)"
    and "reg_ok H A u" "a \<in> A" "\<not> is_queued u a" "\<not> lock_held u" "\<not> fault u"
  shows "removed (dispatch a s) = a # removed u \<and> reg_ok H (A - {a}) (dispatch a s) \<and>
    lock_held (dispatch a s) \<and> \<not> fault (dispatch a s)"
  using on_remove [OF assms(1,2), of A] assms(3-8) by (simp add: issue_delete_def Let_def)

text \<open>
  A callback whose watcher is no longer there (deleted by a nested run of the loop) says so by
  \<open>REMOVED\<close>; the dispatch then does not touch the watcher.
\<close>

lemma removed_untouched:
  "callback a s = (REMOVED, t) \<Longrightarrow>
   mem (dispatch a s) = mem t \<and> event_queue (dispatch a s) = event_queue t \<and> removed (dispatch a s) = removed t"
  using on_removed [of a s t] by simp

end

definition signal_callback ::
  "(int \<Rightarrow> 'm loop \<Rightarrow> rearm \<times> 'm loop) \<Rightarrow> waddr \<Rightarrow> 'm loop \<Rightarrow> rearm \<times> 'm loop" where
  "signal_callback received a s = received (siginfo (mem s a)) (unlock_base s)"

definition fd_callback ::
  "(int \<Rightarrow> 32 word \<Rightarrow> 'm loop \<Rightarrow> rearm \<times> 'm loop) \<Rightarrow> waddr \<Rightarrow> 'm loop \<Rightarrow> rearm \<times> 'm loop" where
  "fd_callback fd_event a s =
     fd_event (watch_fd (mem s a)) (event_flags (mem s a))
       (unlock_base (upd a (emulate_enabled_update (\<lambda>_. False)) s))"

definition child_callback ::
  "(int \<Rightarrow> proc_status \<Rightarrow> 'm loop \<Rightarrow> rearm \<times> 'm loop) \<Rightarrow> waddr \<Rightarrow> 'm loop \<Rightarrow> rearm \<times> 'm loop" where
  "child_callback status_change a s =
     status_change (watch_pid (mem s a)) (child_status (mem s a)) (unlock_base s)"

definition timer_callback ::
  "(int \<Rightarrow> 'm loop \<Rightarrow> rearm \<times> 'm loop) \<Rightarrow> waddr \<Rightarrow> 'm loop \<Rightarrow> rearm \<times> 'm loop" where
  "timer_callback timer_expiry a s =
     timer_expiry (intervals (mem s a)) (upd a (intervals_update (\<lambda>_. 0)) (unlock_base s))"

lemmas callback_defs = signal_callback_def fd_callback_def child_callback_def timer_callback_def

interpretation d_signal: watcher_dispatch "henv E" "signal_callback cb" "dispatch_signal E cb" for E cb
  by unfold_locales
     (auto simp: dispatch_signal_def callback_defs Let_def case_prod_beta post_dispatch_facts)

interpretation d_fd: watcher_dispatch "henv E" "fd_callback cb" "dispatch_fd E cb" for E cb
proof unfold_locales
  fix a s r A and t :: "'a loop"
  show "fd_callback cb a s = (REMOVED, t) \<Longrightarrow> dispatch_fd E cb a s = lock_base t"
    by (simp add: dispatch_fd_def callback_defs Let_def)
  assume *: "fd_callback cb a s = (r, t)" "r \<noteq> REMOVED" "r = REMOVE \<or> deleteme (mem t a)"
    "reg_ok (henv E) A t" "a \<in> A" "\<not> is_queued t a" "\<not> lock_held t" "\<not> fault t"
  have "fst (process_fd_rearm E a REMOVE u) = REMOVE" for u by (simp add: process_fd_rearm_def Let_def)
  then show "removed (dispatch_fd E cb a s) = a # removed t \<and> reg_ok (henv E) (A - {a}) (dispatch_fd E cb a s) \<and>
      lock_held (dispatch_fd E cb a s) \<and> \<not> fault (dispatch_fd E cb a s)"
    using * by (auto simp: dispatch_fd_def callback_defs Let_def case_prod_beta post_dispatch_facts)
qed

interpretation d_child: watcher_dispatch "henv E" "child_callback cb" "dispatch_child E cb" for E cb
  by unfold_locales
     (auto simp: dispatch_child_def callback_defs Let_def case_prod_beta post_dispatch_facts)

lemma process_timer_remove: "process_timer_rearm E a REMOVE s = mech_do (remove_timer (ops E) a (clock (mem s a))) s"
  by (simp add: process_timer_rearm_def Let_def)

interpretation d_timer: watcher_dispatch "henv E" "timer_callback cb" "dispatch_timer E cb" for E cb
  by unfold_locales
     (auto simp: dispatch_timer_def callback_defs Let_def case_prod_beta post_dispatch_facts process_timer_remove)

section \<open>Properties\<close>

text \<open>
  C5: a watcher deleted by its own callback, whatever the callback returns except \<open>REMOVED\<close>, is deleted
  exactly once, when the callback has returned: for signal, file descriptor, child and timer watchers,
  \<open>watch_removed\<close> is called once, the handle is released and the loop is left intact with the lock held.
\<close>

theorem self_deletion:
  assumes "reg_ok (henv E) A u" "a \<in> A" "\<not> is_queued u a" "\<not> lock_held u" "\<not> fault u" "active (mem u a)"
    and "r \<noteq> REMOVED"
    and "s' = dispatch_signal E cs a s \<and> signal_callback cs a s = (r, issue_delete (henv E) a u) \<or>
      s' = dispatch_fd E cf a s \<and> fd_callback cf a s = (r, issue_delete (henv E) a u) \<or>
      s' = dispatch_child E cc a s \<and> child_callback cc a s = (r, issue_delete (henv E) a u) \<or>
      s' = dispatch_timer E ct a s \<and> timer_callback ct a s = (r, issue_delete (henv E) a u)"
  shows "removed s' = a # removed u \<and> reg_ok (henv E) (A - {a}) s' \<and> lock_held s' \<and> \<not> fault s'"
  using assms(8)
    d_signal.deferred_deletion [of cs a s r E u A] d_fd.deferred_deletion [of cf a s r E u A]
    d_child.deferred_deletion [of cc a s r E u A] d_timer.deferred_deletion [of ct a s r E u A] assms(1-7)
  by blast

theorem self_deletion_witness:
  "let s = lock_base (idle_loop 2 (\<lambda>_. idle_watcher\<lparr>active := True\<rparr>));
       s' = dispatch_fd sample_env (\<lambda>fd fl t. (REARM, issue_delete (henv sample_env) (W 0) t)) (W 0) s
   in removed s' = [W 0] \<and> reg_ok (henv sample_env) {W 1} s' \<and> lock_held s' \<and> \<not> fault s'"
proof -
  let ?s = "lock_base (idle_loop 2 (\<lambda>_. idle_watcher\<lparr>active := True\<rparr>))"
  let ?cb = "\<lambda>fd fl t. (REARM, issue_delete (henv sample_env) (W 0) t)"
  let ?u = "unlock_base (upd (W 0) (emulate_enabled_update (\<lambda>_. False)) ?s)"
  have A: "{W 0, W 1} - {W 0} = {W 1}" by auto
  have "reg_ok (henv sample_env) {W 0, W 1} ?u" by (simp add: idle_reg)
  with self_deletion [where u = ?u and a = "W 0" and r = REARM and s' = "dispatch_fd sample_env ?cb (W 0) ?s"
      and s = ?s and cf = ?cb and E = sample_env and A = "{W 0, W 1}"] A
  show ?thesis by (simp add: fd_callback_def Let_def)
qed

text \<open>The value with which the dispatch goes on, the mechanism and the watcher it leaves.\<close>

lemma process_fd_rearm_result:
  "fst (process_fd_rearm E a r s) =
     (if emulatefd (mem s a) \<and> (r = REARM \<or> r = NOOP \<and> emulate_enabled (mem s a)) then REQUEUE else r)"
  "mem (snd (process_fd_rearm E a r s)) = (mem s)(a := (mem s a)\<lparr>emulate_enabled :=
     (if emulatefd (mem s a) \<and> (r = REARM \<or> r = DISARM) then r = REARM else emulate_enabled (mem s a))\<rparr>)"
  "attn_busy (snd (process_fd_rearm E a r s)) = attn_busy s"
  by (simp_all add: process_fd_rearm_def Let_def upd_def set_fd_enabled_nolock_def mech_do_def
      el_interrupt_if_necessary_def fun_upd_idem)

lemma process_fd_rearm_mech:
  "mech (snd (process_fd_rearm E a r s)) =
     (if emulatefd (mem s a) then mech s
      else if r = REARM then
        let m = enable_fd_watch (ops E) (watch_fd (mem s a)) a
                  ((watch_flags (mem s a) AND IO_EVENTS) OR ONE_SHOT) (mech s)
        in if interrupt_after_fd_add (ops E) \<and> attn_busy s then interrupt_wait (ops E) m else m
      else if r = DISARM then disable_fd_watch (ops E) (watch_fd (mem s a)) (watch_flags (mem s a)) (mech s)
      else if r = REMOVE then remove_fd_watch (ops E) (watch_fd (mem s a)) (watch_flags (mem s a)) (mech s)
      else mech s)"
  by (simp add: process_fd_rearm_def Let_def set_fd_enabled_nolock_def mech_do_def
      el_interrupt_if_necessary_def IO_EVENTS_def)

lemma post_dispatch_more:
  assumes "reg_ok (henv E) A s" "a \<in> A" "\<not> is_queued s a"
  shows "mech (post_dispatch E a r s) =
      (if r = REQUEUE \<and> attn_busy s then interrupt_wait (ops E) (mech s) else mech s)"
    "b \<in> A - {a} \<Longrightarrow> is_queued (post_dispatch E a r s) b = is_queued s b"
  using queue_ok(4) [OF assms, of b]
  by (auto simp: post_dispatch_def requeue_watcher_def el_interrupt_if_necessary_def)

text \<open>
  C15: the outcome of a file descriptor watcher's callback, for every value it may return. On \<open>REMOVED\<close>
  the dispatch takes the lock again and touches nothing else, in particular not the watcher. On any other
  value, given that the callback leaves the loop intact and its watcher registered and unqueued: the watcher
  is removed, once, if it was marked for deletion or the value is \<open>REMOVE\<close>, and stays registered
  otherwise; it is queued again exactly on \<open>REQUEUE\<close>, or when it is emulated and \<open>REARM\<close> enables it or
  \<open>NOOP\<close> finds it enabled; no other watcher is queued or dequeued; of all watchers' memory only its own
  changes, where it becomes inactive, its pending events are cleared and, when it is emulated, \<open>REARM\<close>
  and \<open>DISARM\<close> set and clear \<open>emulate_enabled\<close>; the mechanism is asked to enable, disable or remove
  the descriptor's watch on \<open>REARM\<close>, \<open>DISARM\<close> and \<open>REMOVE\<close> if the watcher is not emulated, and nothing
  otherwise, and the polling thread is interrupted exactly when there is one and the watcher was
  queued, or enabled in a mechanism that needs it.
\<close>

theorem dispatch_fd_spec:
  assumes "fd_callback fd_event a s = (r, t)"
    and "r \<noteq> REMOVED \<Longrightarrow>
      reg_ok (henv E) A t \<and> a \<in> A \<and> \<not> is_queued t a \<and> \<not> lock_held t \<and> \<not> fault t"
  defines "s' \<equiv> dispatch_fd E fd_event a s" and "w \<equiv> mem t a"
  defines "r' \<equiv> (if deleteme (mem t a) then REMOVE else r)"
  defines "again \<equiv> r' = REQUEUE \<or> emulatefd w \<and> (r' = REARM \<or> r' = NOOP \<and> emulate_enabled w)"
  defines "m \<equiv>
    (if emulatefd w then mech t
     else if r' = REARM then enable_fd_watch (ops E) (watch_fd w) a ((watch_flags w AND IO_EVENTS) OR ONE_SHOT) (mech t)
     else if r' = DISARM then disable_fd_watch (ops E) (watch_fd w) (watch_flags w) (mech t)
     else if r' = REMOVE then remove_fd_watch (ops E) (watch_fd w) (watch_flags w) (mech t)
     else mech t)"
  shows "if r = REMOVED then s' = lock_base t
    else lock_held s' \<and> \<not> fault s' \<and>
      removed s' = (if r' = REMOVE then a # removed t else removed t) \<and>
      reg_ok (henv E) (if r' = REMOVE then A - {a} else A) s' \<and>
      (is_queued s' a \<longleftrightarrow> again) \<and> (\<forall>b \<in> A - {a}. is_queued s' b = is_queued t b) \<and>
      mem s' = (mem t)(a := w\<lparr>event_flags := 0, active := False, emulate_enabled :=
        (if emulatefd w \<and> (r' = REARM \<or> r' = DISARM) then r' = REARM else emulate_enabled w)\<rparr>) \<and>
      mech s' = (if attn_busy t \<and> (again \<or> \<not> emulatefd w \<and> r' = REARM \<and> interrupt_after_fd_add (ops E))
                 then interrupt_wait (ops E) m else m)"
proof (cases "r = REMOVED")
  case True
  then show ?thesis using assms(1) d_fd.on_removed by (simp add: s'_def)
next
  case False
  let ?t = "upd a (active_update (\<lambda>_. False)) (upd a (event_flags_update (\<lambda>_. 0)) (lock_base t))"
  let ?p = "process_fd_rearm E a r' ?t"
  have s': "s' = post_dispatch E a (fst ?p) (snd ?p)"
    using assms(1) False by (simp add: s'_def dispatch_fd_def fd_callback_def Let_def case_prod_beta r'_def)
  have pre: "reg_ok (henv E) A (snd ?p)" "a \<in> A" "\<not> is_queued (snd ?p) a" "lock_held (snd ?p)" "\<not> fault (snd ?p)"
    using assms(2) [OF False] by simp_all
  note facts = post_dispatch_facts [OF pre] and more = post_dispatch_more [OF pre(1-3)]
  have w: "mem ?t = (mem t)(a := w\<lparr>event_flags := 0, active := False\<rparr>)" "attn_busy ?t = attn_busy t"
    "mech ?t = mech t" "removed ?t = removed t" "is_queued ?t = is_queued t"
    by (simp_all add: upd_def w_def fun_eq_iff is_queued_def)
  have fst: "fst ?p = (if again then REQUEUE else r')"
    by (auto simp: process_fd_rearm_result again_def w_def)
  have "mem s' = (mem t)(a := w\<lparr>event_flags := 0, active := False, emulate_enabled :=
        (if emulatefd w \<and> (r' = REARM \<or> r' = DISARM) then r' = REARM else emulate_enabled w)\<rparr>)"
    using w(1) by (simp add: s' facts(3) process_fd_rearm_result) (auto simp: w_def)
  moreover have "mech s' = (if attn_busy t \<and> (again \<or> \<not> emulatefd w \<and> r' = REARM \<and> interrupt_after_fd_add (ops E))
                 then interrupt_wait (ops E) m else m)"
    unfolding s' more(1) fst process_fd_rearm_mech process_fd_rearm_result
    by (auto simp: w Let_def again_def m_def w_def)
  moreover have "fst ?p = REMOVE \<longleftrightarrow> r' = REMOVE" "fst ?p = REQUEUE \<longleftrightarrow> again"
    using fst by (auto simp: again_def)
  ultimately show ?thesis
    using False facts more(2) w(4,5) by (auto simp: s')
qed

theorem dispatch_fd_spec_witness:
  "let s' = dispatch_fd sample_env (\<lambda>fd fl t. (REARM, t)) (W 0) (lock_base (idle_loop 1 (\<lambda>_. idle_watcher)))
   in kern (mech s') 5 = Some \<lparr>events = EPOLLONESHOT OR EPOLLIN, ptr = Watcher (W 0)\<rparr> \<and> lock_held s'"
proof -
  let ?s = "lock_base (idle_loop 1 (\<lambda>_. idle_watcher))"
  let ?t = "unlock_base (upd (W 0) (emulate_enabled_update (\<lambda>_. False)) ?s)"
  have "fd_callback (\<lambda>fd fl t. (REARM, t)) (W 0) ?s = (REARM, ?t)" by (simp add: fd_callback_def)
  moreover have "reg_ok (henv sample_env) {W 0} ?t" by (simp add: idle_reg)
  ultimately have "mech (dispatch_fd sample_env (\<lambda>fd fl t. (REARM, t)) (W 0) ?s) =
      enable_fd_watch (ops sample_env) 5 (W 0) ((IN_EVENTS AND IO_EVENTS) OR ONE_SHOT) (mech ?t) \<and>
      lock_held (dispatch_fd sample_env (\<lambda>fd fl t. (REARM, t)) (W 0) ?s)"
    using dispatch_fd_spec [of "\<lambda>fd fl t. (REARM, t)" "W 0" ?s REARM ?t sample_env "{W 0}"]
    by (simp add: idle_watcher_def Let_def epoll_ops_def)
  then show ?thesis
    by (simp add: Let_def epoll_ops_def ep_enable_fd_watch_def sys_do_def sample_sys_def ep_mask_def
        IN_EVENTS_def IO_EVENTS_def OUT_EVENTS_def ONE_SHOT_def)
qed

section \<open>Reports of events\<close>

lemma io_flags_cases:
  assumes "flags AND NOT IO_EVENTS = 0"
  shows "flags = 0 \<or> flags = IN_EVENTS \<or> flags = OUT_EVENTS \<or> flags = IO_EVENTS"
proof -
  have "flags = (flags AND IO_EVENTS) OR (flags AND NOT IO_EVENTS)"
    by (simp flip: bit.conj_disj_distrib)
  then have "flags = flags AND mask 2"
    using assms by (simp add: IO_EVENTS_def IN_EVENTS_def OUT_EVENTS_def mask_eq_exp_minus_1)
  then have f: "flags = take_bit 2 flags" by (simp add: take_bit_eq_mask)
  have "unat flags = take_bit 2 (unat flags)" using arg_cong [OF f, of unat] by (simp add: unsigned_take_bit_eq)
  then have "unat flags < 4" using take_bit_nat_less_exp [of 2 "unat flags"] by simp
  then have "unat flags = 0 \<or> unat flags = 1 \<or> unat flags = 2 \<or> unat flags = 3" by linarith
  then have "flags = 0 \<or> flags = 1 \<or> flags = 2 \<or> flags = 3" by (simp add: word_unat_eq_iff)
  then show ?thesis by (auto simp: IO_EVENTS_def IN_EVENTS_def OUT_EVENTS_def)
qed

lemma multi_watch_kept:
  assumes "flags AND NOT IO_EVENTS = 0"
  shows "(w AND NOT flags) AND multi_watch = w AND multi_watch"
  using io_flags_cases [OF assms]
  by (auto simp: IO_EVENTS_def IN_EVENTS_def OUT_EVENTS_def multi_watch_def and.assoc)

lemma receive_bidi_facts:
  fixes sep :: bool
  assumes "reg_ok E A s" "W n \<in> A" "Out n \<in> A" "\<not> is_queued s (W n)" "\<not> is_queued s (Out n)" "\<not> fault s"
    and "watch_flags (mem s (W n)) AND multi_watch \<noteq> 0" "flags AND NOT IO_EVENTS = 0" "flags \<noteq> 0"
  defines "res \<equiv> receive_fd_event E sep (W n) flags s" and "wf' \<equiv> watch_flags (mem s (W n)) AND NOT flags"
  shows "reg_ok E A (snd res) \<and> \<not> fault (snd res) \<and>
    (is_queued (snd res) (W n) \<longleftrightarrow> flags AND IN_EVENTS \<noteq> 0) \<and>
    (is_queued (snd res) (Out n) \<longleftrightarrow> flags AND OUT_EVENTS \<noteq> 0) \<and>
    event_flags (mem (snd res) (W n)) = event_flags (mem s (W n)) OR flags \<and>
    watch_flags (mem (snd res) (W n)) = wf' \<and> wf' AND multi_watch \<noteq> 0 \<and>
    fst res = (if sep \<or> wf' AND IO_EVENTS = 0 then 0 else (wf' AND IO_EVENTS) OR ONE_SHOT, watch_fd (mem s (W n)))"
proof -
  let ?s = "upd (W n) (\<lambda>w. w\<lparr>watch_flags := watch_flags w AND NOT flags\<rparr>)
      (upd (W n) (\<lambda>w. w\<lparr>event_flags := event_flags w OR flags\<rparr>) s)"
  have q0: "reg_ok E A ?s" "\<not> is_queued ?s (W n)" "\<not> is_queued ?s (Out n)" "\<not> fault ?s"
    using assms by simp_all
  note qo = queue_ok [OF q0(1) assms(3) q0(3)]
  have q1: "\<not> is_queued (queue_watcher E (Out n) ?s) (W n)" using qo(4) [OF assms(2)] q0(2) by simp
  note qb = queue_ok [OF qo(1) assms(2) q1]
  note qw = queue_ok [OF q0(1) assms(2) q0(2)]
  let ?in = "flags AND IN_EVENTS \<noteq> 0" and ?out = "flags AND OUT_EVENTS \<noteq> 0"
  have res: "res = ((if sep \<or> wf' AND IO_EVENTS = 0 then 0 else (wf' AND IO_EVENTS) OR ONE_SHOT, watch_fd (mem s (W n))),
      if ?in \<and> ?out then queue_watcher E (W n) (queue_watcher E (Out n) ?s)
      else if ?out then queue_watcher E (Out n) ?s else queue_watcher E (W n) ?s)"
    using assms(7) by (simp add: res_def wf'_def receive_fd_event_def Let_def out_of_def flip: IO_EVENTS_def)
  have flags: "?in \<or> ?out" and m: "wf' AND multi_watch \<noteq> 0"
    using io_flags_cases [OF assms(8)] assms(7,9) multi_watch_kept [OF assms(8)]
    by (auto simp: wf'_def IO_EVENTS_def IN_EVENTS_def OUT_EVENTS_def)
  show ?thesis
    using flags m qb qb(4) [OF assms(3)] qo qo(4) [OF assms(2)] qw qw(4) [OF assms(3)] q0
    by (cases ?in; cases ?out) (simp_all add: res wf'_def)
qed

text \<open>
  C16: a report of input and output readiness on a bi-directional watcher with both halves idle queues exactly
  the halves it is for, without fault. The reported events are added to the pending
  ones and are no longer watched; the mark of the bi-directional watcher stays. The mechanism is asked to
  watch on (once) for the half that is still enabled, if any, unless it watches the halves separately.
\<close>

theorem receive_fd_event_bidi:
  fixes sep :: bool
  assumes "reg_ok E A s" "W n \<in> A" "Out n \<in> A" "\<not> is_queued s (W n)" "\<not> is_queued s (Out n)" "\<not> fault s"
    and "watch_flags (mem s (W n)) AND multi_watch \<noteq> 0" "flags AND NOT IO_EVENTS = 0" "flags \<noteq> 0"
  defines "res \<equiv> receive_fd_event E sep (W n) flags s" and "wf' \<equiv> watch_flags (mem s (W n)) AND NOT flags"
  shows "reg_ok E A (snd res) \<and> \<not> fault (snd res) \<and>
    (is_queued (snd res) (W n) \<longleftrightarrow> flags AND IN_EVENTS \<noteq> 0) \<and>
    (is_queued (snd res) (Out n) \<longleftrightarrow> flags AND OUT_EVENTS \<noteq> 0) \<and>
    event_flags (mem (snd res) (W n)) = event_flags (mem s (W n)) OR flags \<and>
    watch_flags (mem (snd res) (W n)) = wf' \<and> wf' AND multi_watch \<noteq> 0 \<and>
    fst res = (if sep \<or> wf' AND IO_EVENTS = 0 then 0 else (wf' AND IO_EVENTS) OR ONE_SHOT, watch_fd (mem s (W n)))"
  using receive_bidi_facts [OF assms(1-9), of sep] by (simp add: res_def wf'_def)

text \<open>A loop with one idle bi-directional watcher on descriptor 5 with both directions watched.\<close>

definition bidi_loop :: "(int \<rightharpoonup> epoll_event) ep_state" where
  "bidi_loop = idle_loop 2 (\<lambda>_. idle_watcher\<lparr>watch_flags := IO_EVENTS OR multi_watch\<rparr>)"

lemma bidi_reg: "node_size E = 16 \<Longrightarrow> reg_ok E {W 0, Out 0} bidi_loop"
  by (simp add: bidi_loop_def idle_reg)

lemma bidi_loop_simps [simp]:
  "watch_flags (mem bidi_loop a) = IO_EVENTS OR multi_watch" "\<not> is_queued bidi_loop a" "\<not> fault bidi_loop"
  "watch_fd (mem bidi_loop a) = 5" "\<not> lock_held bidi_loop"
  by (simp_all add: bidi_loop_def idle_watcher_def)

lemmas flag_defs = IO_EVENTS_def IN_EVENTS_def OUT_EVENTS_def multi_watch_def ONE_SHOT_def ERR_EVENTS_def

theorem receive_fd_event_bidi_witness:
  "let res = receive_fd_event (henv sample_env) False (W 0) IN_EVENTS bidi_loop in
   is_queued (snd res) (W 0) \<and> \<not> is_queued (snd res) (Out 0) \<and> fst res = (OUT_EVENTS OR ONE_SHOT, 5)"
  using receive_fd_event_bidi [OF bidi_reg, of "henv sample_env" 0 IN_EVENTS False]
  by (simp add: flag_defs Let_def)

text \<open>
  An error report without readiness (\<open>ERR_EVENTS\<close> alone) on a bi-directional watcher clears its
  mark, since both are the bit 4, and queues the input half. From then on the watcher
  is treated as an ordinary one: a report of output readiness queues the input half.
\<close>

theorem error_event_clears_multi_watch:
  fixes E :: heap_env and sep :: bool
  assumes "watch_flags (mem s (W n)) AND multi_watch \<noteq> 0"
  defines "s' \<equiv> snd (receive_fd_event E sep (W n) ERR_EVENTS s)"
  shows "watch_flags (mem s' (W n)) AND multi_watch = 0 \<and>
    (\<forall>t. watch_flags (mem t (W n)) = watch_flags (mem s' (W n)) \<longrightarrow>
       snd (receive_fd_event E sep (W n) OUT_EVENTS t) =
       queue_watcher E (W n) (upd (W n) (\<lambda>w. w\<lparr>event_flags := event_flags w OR OUT_EVENTS\<rparr>) t))"
proof -
  have "watch_flags (mem s' (W n)) = watch_flags (mem s (W n)) AND NOT ERR_EVENTS"
    using assms(1) by (simp add: s'_def receive_fd_event_def Let_def flag_defs)
  then have "watch_flags (mem s' (W n)) AND multi_watch = 0"
    by (simp add: flag_defs and.assoc)
  then show ?thesis by (simp add: receive_fd_event_def Let_def)
qed

theorem error_event_clears_multi_watch_witness:
  "watch_flags (mem (snd (receive_fd_event (henv sample_env) False (W 0) ERR_EVENTS bidi_loop)) (W 0))
     AND multi_watch = 0"
proof -
  have "watch_flags (mem bidi_loop (W 0)) AND multi_watch \<noteq> 0" by (simp add: flag_defs)
  from error_event_clears_multi_watch [OF this] show ?thesis by (rule conjunct1)
qed

text \<open>What the re-arming of a timer does: the mechanism may report expiries it has held back.\<close>

lemma receive_expiry_facts:
  fixes n :: int
  assumes "reg_ok E A s" "a \<in> A" "\<not> is_queued s a" "\<not> fault s"
  defines "s' \<equiv> receive_timer_expiry E a n s"
  shows "reg_ok E A s'" "fault s' \<longleftrightarrow> int_ck (intervals (mem s a) + n) = None"
    "is_queued s' a \<longleftrightarrow> int_ck (intervals (mem s a) + n) \<noteq> None"
    "b \<in> A - {a} \<Longrightarrow> is_queued s' b = is_queued s b"
    "mem s' = (case int_ck (intervals (mem s a) + n) of None \<Rightarrow> mem s
       | Some i \<Rightarrow> (mem s)(a := (mem s a)\<lparr>intervals := i\<rparr>))"
    "removed s' = removed s" "lock_held s' = lock_held s"
proof -
  have f: "reg_ok E A (s\<lparr>fault := True\<rparr>) = reg_ok E A s" "is_queued (s\<lparr>fault := True\<rparr>) b = is_queued s b" for b
    by (simp_all add: reg_ok_def is_queued_def)
  let ?u = "\<lambda>i. upd a (intervals_update (\<lambda>_. i)) s"
  have "reg_ok E A (?u i)" "\<not> is_queued (?u i) a" for i using assms(1,3) by simp_all
  note q = queue_ok [OF this(1) assms(2) this(2)]
  have u: "mem (?u i) = (mem s)(a := (mem s a)\<lparr>intervals := i\<rparr>)" for i by (simp add: upd_def)
  show "reg_ok E A s'" "fault s' \<longleftrightarrow> int_ck (intervals (mem s a) + n) = None"
    "is_queued s' a \<longleftrightarrow> int_ck (intervals (mem s a) + n) \<noteq> None"
    "b \<in> A - {a} \<Longrightarrow> is_queued s' b = is_queued s b"
    "mem s' = (case int_ck (intervals (mem s a) + n) of None \<Rightarrow> mem s
       | Some i \<Rightarrow> (mem s)(a := (mem s a)\<lparr>intervals := i\<rparr>))"
    "removed s' = removed s" "lock_held s' = lock_held s"
    using assms(1-4) q f u by (simp_all add: s'_def receive_timer_expiry_def split: option.splits)
qed

definition timer_report :: "'m env \<Rightarrow> waddr \<Rightarrow> clock_type \<Rightarrow> rearm \<Rightarrow> 'm \<Rightarrow> int option \<times> 'm" where
  "timer_report E a clk r m =
     (if r = REARM then enable_timer (ops E) a True clk m
      else if r = DISARM then enable_timer (ops E) a False clk m
      else if r = REMOVE then (None, remove_timer (ops E) a clk m)
      else (None, m))"

lemma process_timer_rearm_report:
  "process_timer_rearm E a r s =
     (case timer_report E a (clock (mem s a)) r (mech s) of
        (None, m) \<Rightarrow> s\<lparr>mech := m\<rparr>
      | (Some n, m) \<Rightarrow> receive_timer_expiry (henv E) a n (s\<lparr>mech := m\<rparr>))"
  by (simp add: process_timer_rearm_def timer_report_def set_timer_enabled_nolock_def mech_do_def Let_def)

lemma process_timer_rearm_facts:
  assumes "reg_ok (henv E) A s" "a \<in> A" "\<not> is_queued s a" "\<not> fault s"
    and "timer_report E a (clock (mem s a)) r (mech s) = (rep, m)"
  defines "cnt \<equiv> int_ck (intervals (mem s a) + (case rep of None \<Rightarrow> 0 | Some n \<Rightarrow> n))"
    and "s' \<equiv> process_timer_rearm E a r s"
  assumes "- (2 ^ 31) \<le> intervals (mem s a)" "intervals (mem s a) < 2 ^ 31"
  shows "reg_ok (henv E) A s'" "fault s' \<longleftrightarrow> cnt = None"
    "is_queued s' a \<longleftrightarrow> rep \<noteq> None \<and> cnt \<noteq> None"
    "\<And>b. b \<in> A - {a} \<Longrightarrow> is_queued s' b = is_queued s b"
    "mem s' = (case cnt of None \<Rightarrow> mem s | Some i \<Rightarrow> (mem s)(a := (mem s a)\<lparr>intervals := i\<rparr>))"
    "removed s' = removed s" "lock_held s' = lock_held s" "mech s' = m" "attn_busy s' = attn_busy s"
proof -
  let ?s = "s\<lparr>mech := m\<rparr>"
  have m: "reg_ok (henv E) A ?s" "\<not> is_queued ?s a" "\<not> fault ?s" "\<And>b. is_queued ?s b = is_queued s b"
    using assms(1,3,4) by (simp_all add: reg_ok_def is_queued_def)
  have s': "s' = (case rep of None \<Rightarrow> ?s | Some n \<Rightarrow> receive_timer_expiry (henv E) a n ?s)"
    using assms(5) by (simp add: s'_def process_timer_rearm_report split: option.splits)
  have t: "rep = None \<Longrightarrow> cnt = Some (intervals (mem s a))" using assms(8,9) by (simp add: cnt_def int_ck_ok)
  have l: "mech (receive_timer_expiry (henv E) a n u) = mech u" "attn_busy (receive_timer_expiry (henv E) a n u) = attn_busy u"
    for n and u :: "'a loop" by (simp_all add: receive_timer_expiry_def split: option.splits)
  note facts = receive_expiry_facts [OF m(1) assms(2) m(2,3)]
  show "reg_ok (henv E) A s'" "fault s' \<longleftrightarrow> cnt = None" "is_queued s' a \<longleftrightarrow> rep \<noteq> None \<and> cnt \<noteq> None"
    "\<And>b. b \<in> A - {a} \<Longrightarrow> is_queued s' b = is_queued s b"
    "mem s' = (case cnt of None \<Rightarrow> mem s | Some i \<Rightarrow> (mem s)(a := (mem s a)\<lparr>intervals := i\<rparr>))"
    "removed s' = removed s" "lock_held s' = lock_held s" "mech s' = m" "attn_busy s' = attn_busy s"
    using facts m assms(3,4) t by (auto simp: s' cnt_def l fun_upd_idem split: option.splits)
qed

text \<open>
  C26: the outcome of a timer's callback, for every value it may return. The callback is given the count of
  expiries, and runs with the count at zero. On \<open>REMOVED\<close> nothing is touched but the lock. Otherwise, given that
  the callback leaves the loop intact, its watcher registered and unqueued, and the count an \<open>int\<close>: the
  mechanism re-enables, disables or removes the timer on \<open>REARM\<close>, \<open>DISARM\<close> and \<open>REMOVE\<close> (a timer marked for
  deletion is removed); the expiries it reports on that occasion, for whatever mechanism, are added to the
  count for the next callback and queue the watcher, unless the count would overflow its \<open>int\<close>, which is
  the only fault; the watcher is queued otherwise exactly on \<open>REQUEUE\<close>, is inactive, and is removed
  once on \<open>REMOVE\<close>; no other watcher is queued, dequeued or changed.
\<close>

theorem timer_expiries_counted:
  assumes "timer_expiry (intervals (mem s a)) (upd a (intervals_update (\<lambda>_. 0)) (unlock_base s)) = (r, t)"
    and "r \<noteq> REMOVED \<Longrightarrow> reg_ok (henv E) A t \<and> a \<in> A \<and> \<not> is_queued t a \<and> \<not> lock_held t \<and> \<not> fault t \<and>
      - (2 ^ 31) \<le> intervals (mem t a) \<and> intervals (mem t a) < 2 ^ 31"
  defines "s' \<equiv> dispatch_timer E timer_expiry a s" and "w \<equiv> mem t a"
  defines "r' \<equiv> (if deleteme (mem t a) then REMOVE else r)"
  defines "rep \<equiv> fst (timer_report E a (clock w) r' (mech t))" and "m \<equiv> snd (timer_report E a (clock w) r' (mech t))"
  defines "cnt \<equiv> int_ck (intervals w + (case rep of None \<Rightarrow> 0 | Some n \<Rightarrow> n))"
  shows "if r = REMOVED then s' = lock_base t
    else lock_held s' \<and> (fault s' \<longleftrightarrow> cnt = None) \<and>
      removed s' = (if r' = REMOVE then a # removed t else removed t) \<and>
      reg_ok (henv E) (if r' = REMOVE then A - {a} else A) s' \<and>
      (is_queued s' a \<longleftrightarrow> r' = REQUEUE \<or> rep \<noteq> None \<and> cnt \<noteq> None) \<and>
      (\<forall>b \<in> A - {a}. is_queued s' b = is_queued t b) \<and>
      mem s' = (mem t)(a := w\<lparr>active := False,
        intervals := (case cnt of None \<Rightarrow> intervals w | Some i \<Rightarrow> i)\<rparr>) \<and>
      mech s' = (if r' = REQUEUE \<and> attn_busy t then interrupt_wait (ops E) m else m)"
proof (cases "r = REMOVED")
  case True
  then show ?thesis using assms(1) by (simp add: s'_def dispatch_timer_def Let_def)
next
  case False
  let ?t = "upd a (active_update (\<lambda>_. False)) (lock_base t)"
  let ?p = "process_timer_rearm E a r' ?t"
  have s': "s' = post_dispatch E a r' ?p"
    using assms(1) False by (simp add: s'_def dispatch_timer_def Let_def case_prod_beta r'_def)
  have t: "reg_ok (henv E) A ?t" "a \<in> A" "\<not> is_queued ?t a" "\<not> fault ?t" "is_queued ?t = is_queued t"
    "intervals (mem ?t a) = intervals w" "mem ?t = (mem t)(a := w\<lparr>active := False\<rparr>)"
    using assms(2) [OF False] by (auto simp: w_def upd_def fun_eq_iff is_queued_def lock_base_def reg_ok_def)
  have "timer_report E a (clock (mem ?t a)) r' (mech ?t) = (rep, m)" by (simp add: rep_def m_def w_def)
  from process_timer_rearm_facts [OF t(1-4) this] assms(2) [OF False] t(6)
  have p: "reg_ok (henv E) A ?p" "fault ?p \<longleftrightarrow> cnt = None" "is_queued ?p a \<longleftrightarrow> rep \<noteq> None \<and> cnt \<noteq> None"
    "\<And>b. b \<in> A - {a} \<Longrightarrow> is_queued ?p b = is_queued t b" "removed ?p = removed t" "lock_held ?p" "mech ?p = m"
    "mem ?p = (case cnt of None \<Rightarrow> mem ?t | Some i \<Rightarrow> (mem ?t)(a := (mem ?t a)\<lparr>intervals := i\<rparr>))"
    "attn_busy ?p = attn_busy t"
    by (simp_all add: cnt_def w_def t(5))
  have rq: "r' = REQUEUE \<or> r' = REMOVE \<Longrightarrow> rep = None \<and> cnt = Some (intervals w)"
    using assms(2) [OF False] by (auto simp: rep_def cnt_def timer_report_def w_def int_ck_ok)
  have mem: "mem ?p = (mem t)(a := w\<lparr>active := False, intervals := (case cnt of None \<Rightarrow> intervals w | Some i \<Rightarrow> i)\<rparr>)"
    using p(8) t(7) by (auto split: option.splits)
  show ?thesis
  proof (cases "r' = REMOVE \<or> r' = REQUEUE")
    case True
    then have q: "\<not> is_queued ?p a" "\<not> fault ?p" using p(2,3) rq by auto
    show ?thesis
      using True False p q mem rq post_dispatch_facts [OF p(1) t(2) q(1) p(6) q(2)]
        post_dispatch_more [OF p(1) t(2) q(1)] by (auto simp: s')
  next
    case no: False
    then show ?thesis using False p mem by (simp add: s' post_dispatch_def)
  qed
qed

text \<open>A mechanism whose timers are those of \<open>timer_base\<close>: one timer with two expiries held back.\<close>

definition timers_ops :: "(waddr, unit, int option) timer_base mech_ops" where
  "timers_ops = idle_ops\<lparr>enable_timer := \<lambda>a en clk m.
     let m' = enable_timer_nolock (\<lambda>h u n b. Some n) a en clk (m\<lparr>base := None\<rparr>) in (base m', m')\<rparr>"

definition held_back :: "(waddr, unit, int option) timer_base" where
  "held_back =
     (let q = \<lparr>hvec = \<lparr>array = [], size_v = 0, capacity_v = 1\<rparr>, num_nodes = 1,
        handles = (\<lambda>h. \<lparr>hd_u = (timer_data_new ())\<lparr>expiry_count := 2, enabled := False\<rparr>, heap_index = size_max\<rparr>)\<rparr>
      in \<lparr>timer_queue = q, mono_timer_queue = q, base = None\<rparr>)"

theorem timer_expiries_counted_witness:
  "let E = \<lparr>alloc_ok = \<lambda>_. True, node_size = 16, ops = timers_ops\<rparr>;
       s = \<lparr>event_queue = event_queue (idle_loop 1 (\<lambda>_. idle_watcher)), mem = \<lambda>_. idle_watcher\<lparr>intervals := 3\<rparr>,
            removed = [], lock_held = True, fault = False, mech = held_back, attn_busy = False\<rparr>;
       s' = dispatch_timer E (\<lambda>n t. (if n = 3 then REARM else NOOP, t)) (W 0) s
   in intervals (mem s' (W 0)) = 2 \<and> is_queued s' (W 0) \<and> \<not> fault s'"
proof -
  let ?E = "\<lparr>alloc_ok = \<lambda>_. True, node_size = 16, ops = timers_ops\<rparr>"
  let ?s = "\<lparr>event_queue = event_queue (idle_loop 1 (\<lambda>_. idle_watcher)), mem = \<lambda>_. idle_watcher\<lparr>intervals := 3\<rparr>,
            removed = [], lock_held = True, fault = False, mech = held_back, attn_busy = False\<rparr>"
  let ?t = "upd (W 0) (intervals_update (\<lambda>_. 0)) (unlock_base ?s)"
  let ?cb = "\<lambda>n t. (if n = 3 then REARM else NOOP, t)"
  have "reg_ok (henv ?E) {W 0} (idle_loop 1 (\<lambda>_. idle_watcher))" by (simp add: idle_reg heap_env.defs)
  moreover have "\<not> is_queued (idle_loop 1 (\<lambda>_. idle_watcher)) (W 0)" by simp
  ultimately have r: "reg_ok (henv ?E) {W 0} ?t" "\<not> is_queued ?t (W 0)" by (simp_all add: reg_ok_def is_queued_def)
  have "timer_report ?E (W 0) (clock (mem ?t (W 0))) REARM (mech ?t) =
      (Some 2, snd (timer_report ?E (W 0) (clock (mem ?t (W 0))) REARM (mech ?t)))"
    by (simp add: timer_report_def timers_ops_def held_back_def enable_timer_nolock_def queue_for_clock_def
        set_queue_def dary_node_data_def dary_set_node_data_def Let_def timer_data_new_def)
  then have "fst (timer_report ?E (W 0) (clock (mem ?t (W 0))) REARM (mech ?t)) = Some 2" by (metis fst_conv)
  moreover note timer_expiries_counted [of ?cb ?s "W 0" REARM ?t ?E "{W 0}"]
  ultimately show ?thesis using r by (simp add: idle_watcher_def Let_def int_ck_def)
qed

end
