(* ===== verification/Register_Props.thy ===== *)
theory Register_Props
  imports Dispatch_Props
begin

text \<open>
  Registration of watchers: it either succeeds completely or leaves the loop as it was. And the
  deletion of bi-directional watchers, whose handle counting goes wrong.
\<close>

lemma prepare_mech: "prepare_watcher H a s = Inr s' \<Longrightarrow> mech s' = mech s \<and> attn_busy s' = attn_busy s"
  by (auto simp: prepare_watcher_def split: sum.splits)

lemma mech_update_frame [simp]:
  "reg_ok H A (s\<lparr>mech := m\<rparr>) = reg_ok H A s" "is_queued (s\<lparr>mech := m\<rparr>) a = is_queued s a"
  by (simp_all add: reg_ok_def is_queued_def)

lemma requeue_ok:
  assumes "reg_ok (henv E) A s" "a \<in> A" "\<not> is_queued s a"
  shows "reg_ok (henv E) A (requeue_watcher E a s)" "is_queued (requeue_watcher E a s) a"
    "fault (requeue_watcher E a s) = fault s" "mem (requeue_watcher E a s) = mem s"
    "removed (requeue_watcher E a s) = removed s" "lock_held (requeue_watcher E a s) = lock_held s"
    "b \<in> A \<Longrightarrow> b \<noteq> a \<Longrightarrow> is_queued (requeue_watcher E a s) b = is_queued s b"
  using queue_ok [OF assms] by (simp_all add: requeue_watcher_def)

text \<open>Registration's way out: a handle allocated and given back leaves the loop as it was.\<close>

lemma prepare_release:
  assumes "reg_ok H A s" "a \<notin> A" "prepare_watcher H a s = Inr t" "event_queue u = event_queue t"
  shows "reg_ok H A (release_watcher H a u)" "b \<noteq> a \<Longrightarrow> is_queued (release_watcher H a u) b = is_queued s b"
proof -
  note p = prepare_ok [OF assms(1-3)]
  have u: "reg_ok H (insert a A) u" "\<not> is_queued u a" using p(1,2) assms(4) by (simp_all add: reg_ok_def is_queued_def)
  from release_ok [OF u(1) _ u(2)] assms(2) show "reg_ok H A (release_watcher H a u)" by simp
  show "b \<noteq> a \<Longrightarrow> is_queued (release_watcher H a u) b = is_queued s b"
    using p(7) [of b] assms(4) by (simp add: is_queued_release) (simp add: is_queued_def)
qed

lemma register_fd_correct:
  assumes "reg_ok (henv E) A s" "a \<notin> A" "\<not> lock_held s" "\<not> fault s" "\<not> emulatefd (mem s a)"
  shows "case register_fd E a fd eventmask en emulate s of
      (Some e, s') \<Rightarrow> reg_ok (henv E) A s' \<and> mem s' = mem s \<and> removed s' = removed s \<and>
        \<not> lock_held s' \<and> \<not> fault s' \<and> (\<forall>b \<in> A. is_queued s' b = is_queued s b)
    | (None, s') \<Rightarrow> reg_ok (henv E) (insert a A) s' \<and> removed s' = removed s \<and> \<not> lock_held s' \<and> \<not> fault s' \<and>
        (\<exists>ok. fst (add_fd_watch (ops E) fd a (eventmask OR ONE_SHOT) en emulate (mech s)) = Inr ok \<and>
           emulatefd (mem s' a) = (\<not> ok) \<and>
           (is_queued s' a \<longleftrightarrow> \<not> ok \<and> en \<and> eventmask AND IO_EVENTS \<noteq> 0)) \<and>
        (\<forall>b \<in> A. is_queued s' b = is_queued s b \<and> mem s' b = mem s b)"
proof -
  let ?s = "lock_base s"
  have r: "reg_ok (henv E) A ?s" using assms(1) by simp
  have ne: "b \<in> A \<Longrightarrow> b \<noteq> a" for b using assms(2) by blast
  show ?thesis
  proof (cases "prepare_watcher (henv E) a ?s")
    case (Inl e)
    then show ?thesis using assms by (simp add: register_fd_def Let_def)
  next
    case (Inr t)
    note p = prepare_ok [OF r assms(2) Inr] and m = prepare_mech [OF Inr]
    obtain res k where res: "add_fd_watch (ops E) fd a (eventmask OR ONE_SHOT) en emulate (mech s) = (res, k)"
      by fastforce
    show ?thesis
    proof (cases res)
      case (Inl e)
      note rel = prepare_release [OF r assms(2) Inr, of "t\<lparr>mech := k\<rparr>"]
      show ?thesis
        using Inl Inr res m p assms(3,4) rel ne by (simp add: register_fd_def Let_def)
    next
      case (Inr ok)
      let ?t = "upd a (\<lambda>w. w\<lparr>event_flags := eventmask AND IO_EVENTS\<rparr>)
          (upd a (\<lambda>w. w\<lparr>emulatefd := True, emulate_enabled := True\<rparr>) (t\<lparr>mech := k\<rparr>))"
      have t: "reg_ok (henv E) (insert a A) ?t" "\<not> is_queued ?t a" using p by simp_all
      note q = requeue_ok [OF t(1) _ t(2)]
      from Inr show ?thesis
        using \<open>prepare_watcher (henv E) a ?s = Inr t\<close> res m p assms(3-5) q(1-6) q(7) ne
        by (simp add: register_fd_def Let_def)
    qed
  qed
qed

text \<open>
  C17: registering a file descriptor watcher never faults and leaves the lock free. If it throws (no memory
  for the handle, or an error of the mechanism) the set of registered watchers, their memory and what is
  queued are as before. Otherwise the watcher is registered; if the mechanism does not
  support the descriptor it becomes an emulated one, and is queued at once exactly when
  it is enabled for some event.
\<close>

theorem register_fd_spec:
  assumes "reg_ok (henv E) A s" "a \<notin> A" "\<not> lock_held s" "\<not> fault s" "\<not> emulatefd (mem s a)"
  shows "case register_fd E a fd eventmask en emulate s of
      (Some e, s') \<Rightarrow> reg_ok (henv E) A s' \<and> mem s' = mem s \<and> removed s' = removed s \<and>
        \<not> lock_held s' \<and> \<not> fault s' \<and> (\<forall>b \<in> A. is_queued s' b = is_queued s b)
    | (None, s') \<Rightarrow> reg_ok (henv E) (insert a A) s' \<and> removed s' = removed s \<and> \<not> lock_held s' \<and> \<not> fault s' \<and>
        (\<exists>ok. fst (add_fd_watch (ops E) fd a (eventmask OR ONE_SHOT) en emulate (mech s)) = Inr ok \<and>
           emulatefd (mem s' a) = (\<not> ok) \<and>
           (is_queued s' a \<longleftrightarrow> \<not> ok \<and> en \<and> eventmask AND IO_EVENTS \<noteq> 0)) \<and>
        (\<forall>b \<in> A. is_queued s' b = is_queued s b \<and> mem s' b = mem s b)"
  by (rule register_fd_correct [OF assms])

theorem register_fd_spec_witness:
  "case register_fd sample_env (W 0) 100 IN_EVENTS True True (idle_loop 0 (\<lambda>_. idle_watcher)) of
     (None, s') \<Rightarrow> emulatefd (mem s' (W 0)) \<and> is_queued s' (W 0) \<and> \<not> lock_held s'
   | _ \<Rightarrow> False"
proof -
  let ?r = "register_fd sample_env (W 0) 100 IN_EVENTS True True (idle_loop 0 (\<lambda>_. idle_watcher))"
  have ok: "reg_ok (henv sample_env) {} (idle_loop 0 (\<lambda>_. idle_watcher))" by (simp add: idle_reg)
  have none: "fst ?r = None"
    by (simp add: register_fd_def Let_def prepare_watcher_def stable_allocate_def dary_allocate_def idle_loop_def
        svec_max_size_16 lock_base_def epoll_ops_def ep_add_fd_watch_def sys_do_def sample_sys_def
        epoll_loop_new_def)
  have "fst (add_fd_watch (ops sample_env) 100 (W 0) (IN_EVENTS OR ONE_SHOT) True True
      (mech (idle_loop 0 (\<lambda>_. idle_watcher)))) = Inr False"
    by (simp add: epoll_ops_def ep_add_fd_watch_def sys_do_def sample_sys_def)
  then show ?thesis
    using none register_fd_spec [OF ok, of "W 0" 100 IN_EVENTS True True]
    by (auto simp: idle_watcher_def case_prod_beta flag_defs)
qed

section \<open>Bi-directional watchers\<close>








section \<open>Deleting bi-directional watchers\<close>

text \<open>The handle passed to \<open>release_watcher\<close> does not matter: only the count of handles changes.\<close>

lemma release_any: "release_watcher E a = release_watcher E b"
  by (simp add: fun_eq_iff release_watcher_def stable_deallocate_def dary_deallocate_def)

lemma num_nodes_release [simp]:
  "num_nodes (Base (event_queue (release_watcher E a s))) = size_dec (num_nodes (Base (event_queue s)))"
  by (simp add: release_watcher_def stable_deallocate_def dary_deallocate_def Let_def)

lemma num_nodes_dequeue [simp]:
  "reg_ok E A s \<Longrightarrow> a \<in> A \<Longrightarrow> num_nodes (Base (event_queue (dequeue_watcher a s))) = num_nodes (Base (event_queue s))"
  using dequeue_ok(1) [of E A s a] by (simp add: reg_ok_def heap_wf_def)

text \<open>
  Deleting a bi-directional watcher of which no callback is running takes both halves off the queue,
  gives both handles back and calls \<open>watch_removed\<close> once; no other watcher is affected.
\<close>

theorem delete_idle_bidi:
  assumes "reg_ok E A s" "W n \<in> A" "Out n \<in> A" "\<not> lock_held s" "\<not> fault s"
    and "\<not> active (mem s (W n))" "\<not> active (mem s (Out n))"
  defines "s' \<equiv> issue_delete_bidi E (W n) s"
  shows "reg_ok E (A - {W n, Out n}) s' \<and> \<not> is_queued s' (W n) \<and> \<not> is_queued s' (Out n) \<and>
    removed s' = W n # removed s \<and> \<not> lock_held s' \<and> \<not> fault s' \<and>
    (\<forall>b \<in> A - {W n, Out n}. is_queued s' b = is_queued s b \<and> mem s' b = mem s b)"
proof -
  let ?s1 = "dequeue_watcher (W n) (lock_base s)"
  let ?s2 = "upd (W n) (read_removed_update (\<lambda>_. True)) (release_watcher E (W n) ?s1)"
  let ?s3 = "dequeue_watcher (Out n) ?s2"
  have l: "reg_ok E A (lock_base s)" using assms(1) by simp
  note d1 = dequeue_ok [OF l assms(2)]
  have s2: "reg_ok E (A - {W n}) ?s2" "Out n \<in> A - {W n}" using release_ok [OF d1(1) assms(2) d1(2)] assms(3) by simp_all
  note d2 = dequeue_ok [OF s2]
  have "reg_ok E (A - {W n} - {Out n}) (release_watcher E (Out n) ?s3)" by (rule release_ok [OF d2(1) s2(2) d2(2)])
  moreover have "A - {W n} - {Out n} = A - {W n, Out n}" by auto
  moreover have "\<not> is_queued ?s3 (W n)" using dequeue_outside [OF s2, of "W n"] d1(2) by simp
  ultimately show ?thesis
    using assms d1 d2 by (auto simp: s'_def issue_delete_bidi_def Let_def out_of_def release_any [of E "W n" "Out n"])
qed

theorem delete_idle_bidi_witness:
  "let s' = issue_delete_bidi (henv sample_env) (W 0) bidi_loop in
   reg_ok (henv sample_env) {} s' \<and> removed s' = [W 0] \<and> \<not> lock_held s'"
proof -
  have "\<not> active (mem bidi_loop a)" "removed bidi_loop = []" for a by (simp_all add: bidi_loop_def idle_watcher_def)
  then show ?thesis
    using delete_idle_bidi [OF bidi_reg, of "henv sample_env" 0] by (simp add: Let_def)
qed

lemma process_primary_remove:
  assumes "write_removed (mem s a)"
  shows "fst (process_primary_rearm E a REMOVE s) = REMOVE"
    "event_queue (snd (process_primary_rearm E a REMOVE s)) = event_queue s"
    "removed (snd (process_primary_rearm E a REMOVE s)) = removed s"
  using assms by (simp_all add: process_primary_rearm_def Let_def clear_flags_def)

lemma funpow_4: "(f ^^ 4) x = f (f (f (f x)))"
  by (simp add: eval_nat_numeral)

text \<open>
  Deleting a bi-directional watcher from its own read callback gives back four handles where two
  were allocated: \<open>issue_delete\<close> releases both halves, and \<open>post_dispatch\<close> does so again when the callback
  has returned. The count of allocated handles, which sizes the event queue, is then too small by two (and
  wraps around to a huge number when no other watcher is registered).
\<close>

theorem bidi_self_deletion_miscounts:
  assumes "reg_ok (henv E) A s" "W n \<in> A" "Out n \<in> A" "\<not> is_queued s (W n)"
    and "active (mem s (W n))" "\<not> active (mem s (Out n))" "\<not> read_removed (mem s (W n))" "r \<noteq> REMOVED"
  defines "s' \<equiv> dispatch_bidi E (\<lambda>fd t. (r, issue_delete_bidi (henv E) (W n) t)) (W n) s"
  shows "num_nodes (Base (event_queue s')) = (size_dec ^^ 4) (card A) \<and> removed s' = W n # removed s"
proof -
  let ?H = "henv E"
  define u where "u = lock_base (unlock_base (upd (W n) (emulate_enabled_update (\<lambda>_. False)) s))"
  define v where "v = release_watcher ?H (W n) (upd (W n) (deleteme_update (\<lambda>_. True)) u)"
  define t where "t = unlock_base (upd (W n) (write_removed_update (\<lambda>_. True))
      (release_watcher ?H (W n) (dequeue_watcher (Out n) v)))"
  have u: "active (mem u (W n))" "\<not> active (mem u (Out n))" "reg_ok ?H A u" "\<not> is_queued u (W n)"
    using assms by (simp_all add: u_def)
  have v: "reg_ok ?H (A - {W n}) v" using release_ok [OF _ assms(2), of ?H "upd (W n) (deleteme_update (\<lambda>_. True)) u"] u
    by (simp add: v_def)
  have out: "\<not> active (mem v (Out n))" using u(2) by (simp add: v_def)
  have mem: "deleteme (mem t (W n))" "write_removed (mem t (W n))" "\<not> read_removed (mem t (W n))"
    using assms(7) by (simp_all add: t_def v_def u_def)
  have t: "issue_delete_bidi ?H (W n) (unlock_base (upd (W n) (emulate_enabled_update (\<lambda>_. False)) s)) = t"
    using u out mem(3) by (simp add: issue_delete_bidi_def Let_def u_def [symmetric] v_def [symmetric] t_def out_of_def)
  have "num_nodes (Base (event_queue u)) = card A" using u(3) by (simp add: reg_ok_def heap_wf_def)
  then have num: "num_nodes (Base (event_queue t)) = size_dec (size_dec (card A))" "removed t = removed s"
    using num_nodes_dequeue [OF v, of "Out n"] assms(3) by (simp_all add: t_def v_def u_def)
  show ?thesis
    using mem num assms(8)
    by (simp add: s'_def dispatch_bidi_def t Let_def case_prod_beta post_dispatch_bidi_def process_primary_remove
        funpow_4)
qed

theorem bidi_self_deletion_miscounts_witness:
  "let s = upd (W 0) (active_update (\<lambda>_. True)) bidi_loop;
       s' = dispatch_bidi sample_env (\<lambda>fd t. (NOOP, issue_delete_bidi (henv sample_env) (W 0) t)) (W 0) s
   in num_nodes (Base (event_queue s')) = 2 ^ 64 - 2"
proof -
  let ?s = "upd (W 0) (active_update (\<lambda>_. True)) bidi_loop"
  have "reg_ok (henv sample_env) {W 0, Out 0} ?s" using bidi_reg by simp
  moreover have "\<not> active (mem ?s (Out 0))" "\<not> read_removed (mem ?s (W 0))"
    by (simp_all add: bidi_loop_def idle_watcher_def)
  ultimately show ?thesis
    using bidi_self_deletion_miscounts [of sample_env "{W 0, Out 0}" ?s 0 NOOP]
    by (simp add: Let_def funpow_4 size_dec_def size_max_def)
qed

end
