(* ===== verification/Signal.thy ===== *)
theory Signal
  imports Register_Props
begin

text \<open>
  \<open>signal.h\<close>: signal watches by ordinary POSIX signal handling, for the mechanisms that cannot report
  signals themselves. A handler stores the \<open>siginfo\<close> and jumps out of the poll to a landing pad, where
  \<open>process_signal\<close> hands the signal on; its argument \<open>signo\<close> here is the stored signal.

  \<open>active_sigmask\<close> is the set of active signals if \<open>mask_enables\<close> (the template parameter, \<open>me\<close> here)
  and of inactive ones otherwise. \<open>sig_userdata\<close> is the array, \<open>prepared\<close> the signals whose disposition
  is the library's handler. The mechanisms extend the record.
\<close>

unbundle bit_operations_syntax

definition NSIG :: int where "NSIG = 65"

record signal_events =
  active_sigmask :: "int set"
  sig_userdata :: "int \<Rightarrow> ep_ptr"
  prepared :: "int set"

definition sg_init :: "bool \<Rightarrow> 'z signal_events_scheme \<Rightarrow> 'z signal_events_scheme" where
  "sg_init me m = m\<lparr>active_sigmask := (if me then {} else {1..<NSIG})\<rparr>"

definition prepare_signal :: "int \<Rightarrow> 'z signal_events_scheme \<Rightarrow> 'z signal_events_scheme" where
  "prepare_signal signo m = m\<lparr>prepared := insert signo (prepared m)\<rparr>"

definition unprep_signal :: "int \<Rightarrow> 'z signal_events_scheme \<Rightarrow> 'z signal_events_scheme" where
  "unprep_signal signo m = m\<lparr>prepared := prepared m - {signo}\<rparr>"

text \<open>\<open>sg_on\<close> and \<open>sg_off\<close>: the two-way updates of the mask that the operations share.\<close>

definition sg_on :: "bool \<Rightarrow> int \<Rightarrow> 'z signal_events_scheme \<Rightarrow> 'z signal_events_scheme" where
  "sg_on me signo m =
     m\<lparr>active_sigmask := (if me then insert signo (active_sigmask m) else active_sigmask m - {signo})\<rparr>"

definition sg_off :: "bool \<Rightarrow> int \<Rightarrow> 'z signal_events_scheme \<Rightarrow> 'z signal_events_scheme" where
  "sg_off me signo m =
     m\<lparr>active_sigmask := (if me then active_sigmask m - {signo} else insert signo (active_sigmask m))\<rparr>"

definition sg_add_signal_watch :: "bool \<Rightarrow> int \<Rightarrow> ep_ptr \<Rightarrow> 'z signal_events_scheme \<Rightarrow> 'z signal_events_scheme" where
  "sg_add_signal_watch me signo udata m =
     prepare_signal signo (sg_on me signo (m\<lparr>sig_userdata := (sig_userdata m)(signo := udata)\<rparr>))"

definition sg_rearm_signal_watch :: "bool \<Rightarrow> int \<Rightarrow> ep_ptr \<Rightarrow> 'z signal_events_scheme \<Rightarrow> 'z signal_events_scheme" where
  "sg_rearm_signal_watch me signo udata m =
     sg_on me signo (m\<lparr>sig_userdata := (sig_userdata m)(signo := udata)\<rparr>)"

definition sg_remove_signal_watch :: "bool \<Rightarrow> int \<Rightarrow> 'z signal_events_scheme \<Rightarrow> 'z signal_events_scheme" where
  "sg_remove_signal_watch me signo m =
     (let m = sg_off me signo (unprep_signal signo m) in m\<lparr>sig_userdata := (sig_userdata m)(signo := Nullptr)\<rparr>)"

text \<open>The two variants of \<open>process_signal\<close>; the second also updates a mask used for polling.\<close>

definition sg_process_signal ::
  "bool \<Rightarrow> (int \<Rightarrow> ep_ptr \<Rightarrow> 'z signal_events_scheme loop \<Rightarrow> bool \<times> 'z signal_events_scheme loop) \<Rightarrow> int \<Rightarrow>
   'z signal_events_scheme loop \<Rightarrow> 'z signal_events_scheme loop" where
  "sg_process_signal me rs signo s =
     (let s = lock_base s; udata = sig_userdata (mech s) signo in
      if udata \<noteq> Nullptr then
        let (b, s) = rs signo udata s in
        unlock_base (if b then mech_do (sg_off me signo) s else s)
      else unlock_base s)"

definition sg_process_signal_mask ::
  "bool \<Rightarrow> (int \<Rightarrow> ep_ptr \<Rightarrow> 'z signal_events_scheme loop \<Rightarrow> bool \<times> 'z signal_events_scheme loop) \<Rightarrow> int \<Rightarrow>
   int set \<Rightarrow> 'z signal_events_scheme loop \<Rightarrow> int set \<times> 'z signal_events_scheme loop" where
  "sg_process_signal_mask me rs signo pmask s =
     (let s = lock_base s; udata = sig_userdata (mech s) signo in
      if udata \<noteq> Nullptr then
        let (b, s) = rs signo udata s in
        if b then (if me then insert signo pmask else pmask - {signo}, unlock_base (mech_do (sg_off me signo) s))
        else (pmask, unlock_base s)
      else (pmask, unlock_base s))"

section \<open>The active signals\<close>

text \<open>The set the mask stands for.\<close>

definition sg_active :: "bool \<Rightarrow> 'z signal_events_scheme \<Rightarrow> int set" where
  "sg_active me m = (if me then active_sigmask m else {1..<NSIG} - active_sigmask m)"

text \<open>\<open>sg_ok\<close>: every active signal has a watcher and the library's handler.\<close>

definition sg_ok :: "bool \<Rightarrow> 'z signal_events_scheme \<Rightarrow> bool" where
  "sg_ok me m \<longleftrightarrow> (\<forall>x \<in> sg_active me m. x \<in> prepared m \<and> sig_userdata m x \<noteq> Nullptr)"

lemma sg_active_simps [simp]:
  "0 < signo \<Longrightarrow> signo < NSIG \<Longrightarrow> sg_active me (sg_on me signo m) = insert signo (sg_active me m)"
  "sg_active me (sg_off me signo m) = sg_active me m - {signo}"
  "sg_active me (sg_init me m) = {}"
  "sg_active me (prepare_signal signo m) = sg_active me m" "sg_active me (unprep_signal signo m) = sg_active me m"
  "sg_active me (m\<lparr>sig_userdata := u\<rparr>) = sg_active me m"
  by (auto simp: sg_active_def sg_on_def sg_off_def sg_init_def prepare_signal_def unprep_signal_def)

lemma sg_fields [simp]:
  "prepared (sg_on me signo m) = prepared m" "prepared (sg_off me signo m) = prepared m"
  "sig_userdata (sg_on me signo m) = sig_userdata m" "sig_userdata (sg_off me signo m) = sig_userdata m"
  "prepared (prepare_signal signo m) = insert signo (prepared m)" "sig_userdata (prepare_signal signo m) = sig_userdata m"
  "prepared (unprep_signal signo m) = prepared m - {signo}" "sig_userdata (unprep_signal signo m) = sig_userdata m"
  "prepared (sg_init me m) = prepared m" "sig_userdata (sg_init me m) = sig_userdata m"
  by (simp_all add: sg_on_def sg_off_def prepare_signal_def unprep_signal_def sg_init_def)

text \<open>
  C33: with either polarity of the mask, adding, re-arming and removing a signal watch makes exactly that
  signal active or inactive, and every active signal keeps a watcher and a handler (re-arming being for
  a watch that has been added).
\<close>

theorem signal_watches_consistent:
  assumes "0 < signo" "signo < NSIG" "sg_ok me m" "udata \<noteq> Nullptr"
  shows "sg_active me (sg_add_signal_watch me signo udata m) = insert signo (sg_active me m) \<and>
    sg_ok me (sg_add_signal_watch me signo udata m) \<and>
    sg_active me (sg_remove_signal_watch me signo m) = sg_active me m - {signo} \<and>
    sg_ok me (sg_remove_signal_watch me signo m) \<and>
    sg_active me (sg_rearm_signal_watch me signo udata m) = insert signo (sg_active me m) \<and>
    (signo \<in> prepared m \<longrightarrow> sg_ok me (sg_rearm_signal_watch me signo udata m)) \<and> sg_ok me (sg_init me m)"
  using assms by (auto simp: sg_ok_def sg_add_signal_watch_def sg_remove_signal_watch_def sg_rearm_signal_watch_def Let_def)

theorem signal_watches_consistent_witness:
  "let m = sg_init False \<lparr>active_sigmask = {}, sig_userdata = \<lambda>_. Nullptr, prepared = {}\<rparr>
   in sg_active False (sg_add_signal_watch False 10 (Watcher (W 0)) m) = {10} \<and>
      sg_ok False (sg_add_signal_watch False 10 (Watcher (W 0)) m)"
proof -
  let ?m = "sg_init False \<lparr>active_sigmask = {}, sig_userdata = \<lambda>_. Nullptr, prepared = {}\<rparr>"
  have "sg_ok False ?m" by (simp add: sg_ok_def)
  with signal_watches_consistent [of 10 False ?m "Watcher (W 0)"] show ?thesis by (simp add: NSIG_def Let_def)
qed

text \<open>
  C34: a signal that arrives for an unqueued watcher queues it with the signal's information, makes the signal
  inactive until it is re-armed and leaves the lock free; the signals of other watchers stay as they were.
\<close>

theorem process_signal_spec:
  fixes me :: bool
  assumes "reg_ok E A s" "a \<in> A" "\<not> is_queued s a" "\<not> lock_held s" "\<not> fault s"
    and "sig_userdata (mech s) signo = Watcher a"
  defines "s' \<equiv> sg_process_signal me (ed_receive_signal E) signo s"
  shows "reg_ok E A s' \<and> is_queued s' a \<and> siginfo (mem s' a) = signo \<and> \<not> lock_held s' \<and> \<not> fault s' \<and>
    sg_active me (mech s') = sg_active me (mech s) - {signo} \<and>
    (\<forall>b \<in> A - {a}. is_queued s' b = is_queued s b)"
proof -
  let ?t = "upd a (siginfo_update (\<lambda>_. signo)) (lock_base s)"
  have t: "reg_ok E A ?t" "\<not> is_queued ?t a" using assms(1,3) by simp_all
  note q = queue_ok [OF t(1) assms(2) t(2)]
  show ?thesis
    using q(1-3) q(4) assms(4-6) by (simp add: s'_def sg_process_signal_def receive_signal_def Let_def)
qed

text \<open>A concrete loop for the witnesses: the loop state of \<open>idle_loop\<close> with another mechanism.\<close>

definition with_mech :: "'m \<Rightarrow> 'n loop \<Rightarrow> 'm loop" where
  "with_mech m s = \<lparr>event_queue = event_queue s, mem = mem s, removed = removed s, lock_held = lock_held s,
     fault = fault s, mech = m, attn_busy = attn_busy s\<rparr>"

lemma with_mech_simps [simp]:
  "mech (with_mech m s) = m" "mem (with_mech m s) = mem s" "lock_held (with_mech m s) = lock_held s"
  "fault (with_mech m s) = fault s" "is_queued (with_mech m s) a = is_queued s a"
  "reg_ok E A (with_mech m s) = reg_ok E A s" "removed (with_mech m s) = removed s"
  "event_queue (with_mech m s) = event_queue s" "attn_busy (with_mech m s) = attn_busy s"
  by (simp_all add: with_mech_def is_queued_def reg_ok_def)

theorem process_signal_spec_witness:
  "let m = \<lparr>active_sigmask = {10, 12}, sig_userdata = (\<lambda>_. Nullptr)(10 := Watcher (W 0)), prepared = {10, 12}\<rparr>;
       s' = sg_process_signal True (ed_receive_signal (henv sample_env)) 10 (with_mech m (idle_loop 1 (\<lambda>_. idle_watcher)))
   in is_queued s' (W 0) \<and> sg_active True (mech s') = {12} \<and> \<not> lock_held s'"
proof -
  let ?m = "\<lparr>active_sigmask = {10, 12}, sig_userdata = (\<lambda>_. Nullptr)(10 := Watcher (W 0)), prepared = {10, 12}\<rparr>"
  let ?s = "with_mech ?m (idle_loop 1 (\<lambda>_. idle_watcher))"
  have "reg_ok (henv sample_env) {W 0} ?s" by (simp add: idle_reg)
  moreover have "sg_active True ?m - {10} = {12}" by (auto simp: sg_active_def)
  ultimately show ?thesis
    using process_signal_spec [of "henv sample_env" "{W 0}" ?s "W 0" 10 True] by (simp add: Let_def)
qed

end
