(* ===== verification/Select.thy ===== *)
theory Select
  imports Signal
begin

text \<open>
  \<open>select.h\<close> and \<open>pselect.h\<close>: the mechanisms over \<open>select\<close> and \<open>pselect\<close>. They keep the sets of watched
  descriptors and, per direction, a vector of user data indexed by descriptor. The two classes share
  everything but the signal handling and \<open>pull_events\<close>; \<open>sel_\<close> names model both.

  Reading or writing a vector outside its size is undefined behaviour, recorded by \<open>sel_ub\<close> in the
  mechanism. Descriptors are not negative. \<open>kern\<close> is the operating system's state.
\<close>

definition FD_SETSIZE :: int where "FD_SETSIZE = 1024"
definition EMFILE :: int where "EMFILE = 24"

record 'k select_events = signal_events +
  read_set :: "int set"
  write_set :: "int set"
  max_fd :: int
  rd_udata :: "ep_ptr list"
  wr_udata :: "ep_ptr list"
  poll_sigmask :: "int set"
  sel_ub :: bool
  sel_kern :: 'k

type_synonym 'k sel_state = "'k select_events loop"

text \<open>\<open>std::vector\<close>: \<open>resize\<close>, reading and writing an element, null pointers for new elements.\<close>

definition vec_resize :: "int \<Rightarrow> ep_ptr list \<Rightarrow> ep_ptr list" where
  "vec_resize n v = take (nat n) v @ replicate (nat n - length v) Nullptr"

definition vec_has :: "int \<Rightarrow> ep_ptr list \<Rightarrow> bool" where
  "vec_has i v \<longleftrightarrow> 0 \<le> i \<and> i < int (length v)"

definition vec_put :: "int \<Rightarrow> ep_ptr \<Rightarrow> ep_ptr list \<Rightarrow> ep_ptr list" where
  "vec_put fd u v = (if fd \<ge> int (length v) then vec_resize (fd + 1) v else v)[nat fd := u]"

section \<open>Watches\<close>

definition sel_init ::
  "('k select_events \<Rightarrow> exn option \<times> 'k select_events) \<Rightarrow> 'k select_events \<Rightarrow> exn option \<times> 'k select_events" where
  "sel_init base_init m = base_init (m\<lparr>max_fd := 0, read_set := {}, write_set := {}\<rparr>)"

definition sel_destroy :: "('k select_events \<Rightarrow> 'k select_events) \<Rightarrow> 'k select_events \<Rightarrow> 'k select_events" where
  "sel_destroy base_cleanup m = (if max_fd m \<noteq> - 1 then base_cleanup m else m)"

text \<open>
  The block for one direction, the same in both functions. \<open>alloc n\<close> says whether the vector can be resized to \<open>n\<close>
  elements; if not, \<open>std::bad_alloc\<close> leaves the function (\<open>False\<close>) after the descriptor was put in the set.
\<close>

definition sel_watch_rd :: "(nat \<Rightarrow> bool) \<Rightarrow> int \<Rightarrow> ep_ptr \<Rightarrow> 'k select_events \<Rightarrow> bool \<times> 'k select_events" where
  "sel_watch_rd alloc fd udata m =
     (let m = m\<lparr>read_set := insert fd (read_set m)\<rparr> in
      if fd \<ge> int (length (rd_udata m)) \<and> \<not> alloc (nat (fd + 1)) then (False, m)
      else (True, m\<lparr>rd_udata := vec_put fd udata (rd_udata m)\<rparr>))"

definition sel_watch_wr :: "(nat \<Rightarrow> bool) \<Rightarrow> int \<Rightarrow> ep_ptr \<Rightarrow> 'k select_events \<Rightarrow> bool \<times> 'k select_events" where
  "sel_watch_wr alloc fd udata m =
     (let m = m\<lparr>write_set := insert fd (write_set m)\<rparr> in
      if fd \<ge> int (length (wr_udata m)) \<and> \<not> alloc (nat (fd + 1)) then (False, m)
      else (True, m\<lparr>wr_udata := vec_put fd udata (wr_udata m)\<rparr>))"

definition sel_add_fd_watch ::
  "(nat \<Rightarrow> bool) \<Rightarrow> int \<Rightarrow> ep_ptr \<Rightarrow> 32 word \<Rightarrow> bool \<Rightarrow> bool \<Rightarrow> 'k select_events \<Rightarrow> (exn + bool) \<times> 'k select_events" where
  "sel_add_fd_watch alloc fd udata flags en soft_fail m =
     (if fd \<ge> FD_SETSIZE then (Inl (System_error EMFILE), m)
      else
        let (ok, m) = (if flags AND IN_EVENTS \<noteq> 0 then sel_watch_rd alloc fd udata m else sel_watch_wr alloc fd udata m)
        in if ok then (Inr True, m\<lparr>max_fd := max fd (max_fd m)\<rparr>) else (Inl Bad_alloc, m))"

definition sel_add_bidi_fd_watch ::
  "(nat \<Rightarrow> bool) \<Rightarrow> int \<Rightarrow> ep_ptr \<Rightarrow> 32 word \<Rightarrow> bool \<Rightarrow> 'k select_events \<Rightarrow> (exn + 32 word) \<times> 'k select_events" where
  "sel_add_bidi_fd_watch alloc fd udata flags emulate m =
     (if fd \<ge> FD_SETSIZE then (Inl (System_error EMFILE), m)
      else
        let (ok, m) = (if flags AND IN_EVENTS \<noteq> 0 then sel_watch_rd alloc fd udata m else (True, m)) in
        if \<not> ok then (Inl Bad_alloc, m)
        else
          let (ok, m) = (if flags AND OUT_EVENTS \<noteq> 0 then sel_watch_wr alloc fd udata m else (True, m)) in
          if \<not> ok then (Inl Bad_alloc, m)
          else (Inr 0, m\<lparr>max_fd := max fd (max_fd m)\<rparr>))"

definition sel_remove_fd_watch :: "int \<Rightarrow> 32 word \<Rightarrow> 'k select_events \<Rightarrow> 'k select_events" where
  "sel_remove_fd_watch fd flags m =
     (let m = (if flags AND IN_EVENTS \<noteq> 0
               then m\<lparr>read_set := read_set m - {fd}, sel_ub := sel_ub m \<or> \<not> vec_has fd (rd_udata m),
                      rd_udata := (rd_udata m)[nat fd := Nullptr]\<rparr>
               else m)
      in if flags AND OUT_EVENTS \<noteq> 0
         then m\<lparr>write_set := write_set m - {fd}, sel_ub := sel_ub m \<or> \<not> vec_has fd (wr_udata m),
                wr_udata := (wr_udata m)[nat fd := Nullptr]\<rparr>
         else m)"

definition sel_remove_bidi_fd_watch :: "int \<Rightarrow> 'k select_events \<Rightarrow> 'k select_events" where
  "sel_remove_bidi_fd_watch fd m = m\<lparr>read_set := read_set m - {fd}, write_set := write_set m - {fd}\<rparr>"

definition sel_enable_fd_watch :: "int \<Rightarrow> ep_ptr \<Rightarrow> 32 word \<Rightarrow> 'k select_events \<Rightarrow> 'k select_events" where
  "sel_enable_fd_watch fd udata flags m =
     (if flags AND IN_EVENTS \<noteq> 0 then m\<lparr>read_set := insert fd (read_set m)\<rparr>
      else m\<lparr>write_set := insert fd (write_set m)\<rparr>)"

definition sel_disable_fd_watch :: "int \<Rightarrow> 32 word \<Rightarrow> 'k select_events \<Rightarrow> 'k select_events" where
  "sel_disable_fd_watch fd flags m =
     (if flags AND IN_EVENTS \<noteq> 0 then m\<lparr>read_set := read_set m - {fd}\<rparr>
      else m\<lparr>write_set := write_set m - {fd}\<rparr>)"

section \<open>Processing of events\<close>

text \<open>
  One step of the two scans of \<open>process_events\<close>: descriptor \<open>i\<close> in the result set \<open>ready\<close>. \<open>rf\<close> is
  \<open>Base::receive_fd_event\<close>.
\<close>

definition sel_report_rd ::
  "(ep_ptr \<Rightarrow> 32 word \<Rightarrow> 'k sel_state \<Rightarrow> (32 word \<times> int) \<times> 'k sel_state) \<Rightarrow> int set \<Rightarrow> int set \<Rightarrow> int \<Rightarrow>
   'k sel_state \<Rightarrow> 'k sel_state" where
  "sel_report_rd rf ready err i s =
     (if i \<in> ready \<and> i \<in> read_set (mech s) then
        if \<not> vec_has i (rd_udata (mech s)) then mech_do (\<lambda>m. m\<lparr>sel_ub := True\<rparr>) s
        else if rd_udata (mech s) ! nat i \<noteq> Nullptr then
          let ((re, fd), s) = rf (rd_udata (mech s) ! nat i) (IN_EVENTS OR (if i \<in> err then ERR_EVENTS else 0)) s in
          if re = 0 then mech_do (\<lambda>m. m\<lparr>read_set := read_set m - {i}\<rparr>) s else s
        else s
      else s)"

definition sel_report_wr ::
  "(ep_ptr \<Rightarrow> 32 word \<Rightarrow> 'k sel_state \<Rightarrow> (32 word \<times> int) \<times> 'k sel_state) \<Rightarrow> int set \<Rightarrow> int set \<Rightarrow> int \<Rightarrow>
   'k sel_state \<Rightarrow> 'k sel_state" where
  "sel_report_wr rf ready err i s =
     (if i \<in> ready \<and> i \<in> write_set (mech s) then
        if \<not> vec_has i (wr_udata (mech s)) then mech_do (\<lambda>m. m\<lparr>sel_ub := True\<rparr>) s
        else if wr_udata (mech s) ! nat i \<noteq> Nullptr then
          let ((re, fd), s) = rf (wr_udata (mech s) ! nat i) (OUT_EVENTS OR (if i \<in> err then ERR_EVENTS else 0)) s in
          if re = 0 then mech_do (\<lambda>m. m\<lparr>write_set := write_set m - {i}\<rparr>) s else s
        else s
      else s)"

definition sel_process_events ::
  "(ep_ptr \<Rightarrow> 32 word \<Rightarrow> 'k sel_state \<Rightarrow> (32 word \<times> int) \<times> 'k sel_state) \<Rightarrow> int set \<Rightarrow> int set \<Rightarrow> int set \<Rightarrow>
   'k sel_state \<Rightarrow> 'k sel_state" where
  "sel_process_events rf rd wr err s =
     (let s = lock_base s;
          s = fold (sel_report_rd rf rd err) [0..max_fd (mech s)] s;
          s = fold (sel_report_wr rf wr err) [0..max_fd (mech s)] s
      in unlock_base s)"

section \<open>Polling\<close>

text \<open>
  The outcome of the system call: a watched signal arrived, whose handler jumps to the landing pad; descriptors
  are ready; the time is over; or an error (an unrelated signal). The calls are parameters over the kernel's state:
  \<open>sel nfds rd wr err timeout mask\<close>, where for \<open>select\<close> \<open>mask\<close> is what was unblocked around the call, and for \<open>pselect\<close>
  the mask in force during it. \<open>pm\<close> and \<open>pm0\<close> are the two \<open>process_monotonic_timers\<close> of the timer layer.
\<close>

datatype sel_outcome = Sig int | Ready "int set" "int set" "int set" | Timeout | Error

partial_function (option) select_poll ::
  "(int \<Rightarrow> int set \<Rightarrow> int set \<Rightarrow> int set \<Rightarrow> timeval option \<Rightarrow> int set \<Rightarrow> 'k \<Rightarrow> sel_outcome \<times> 'k) \<Rightarrow>
   (int \<Rightarrow> ep_ptr \<Rightarrow> 'k sel_state \<Rightarrow> bool \<times> 'k sel_state) \<Rightarrow> int \<Rightarrow> int set \<Rightarrow> int set \<Rightarrow> bool \<Rightarrow> timeval option \<Rightarrow>
   'k sel_state \<Rightarrow> (sel_outcome \<times> bool \<times> 'k sel_state) option" where
  "select_poll sel rs nfds rd wr do_wait wait_ts s =
     (let ts = (if do_wait then wait_ts else Some \<lparr>tv_sec' = 0, tv_usec = 0\<rparr>);
          (r, k) = sel nfds rd wr rd ts (active_sigmask (mech s)) (sel_kern (mech s));
          s = mech_do (\<lambda>m. m\<lparr>sel_kern := k\<rparr>) s
      in case r of
           Sig signo \<Rightarrow> select_poll sel rs nfds rd wr False wait_ts (sg_process_signal True rs signo s)
         | _ \<Rightarrow> Some (r, do_wait, s))"

definition select_pull_events ::
  "(int \<Rightarrow> int set \<Rightarrow> int set \<Rightarrow> int set \<Rightarrow> timeval option \<Rightarrow> int set \<Rightarrow> 'k \<Rightarrow> sel_outcome \<times> 'k) \<Rightarrow>
   (int \<Rightarrow> ep_ptr \<Rightarrow> 'k sel_state \<Rightarrow> bool \<times> 'k sel_state) \<Rightarrow>
   (ep_ptr \<Rightarrow> 32 word \<Rightarrow> 'k sel_state \<Rightarrow> (32 word \<times> int) \<times> 'k sel_state) \<Rightarrow>
   (bool \<Rightarrow> 'k sel_state \<Rightarrow> bool \<times> timeval option \<times> 'k sel_state) \<Rightarrow> ('k sel_state \<Rightarrow> 'k sel_state) \<Rightarrow>
   bool \<Rightarrow> 'k sel_state \<Rightarrow> 'k sel_state option" where
  "select_pull_events sel rs rf pm pm0 do_wait s =
     (let (do_wait, wait_ts, s) = pm do_wait (lock_base s);
          m = mech s;
          s = unlock_base s
      in case select_poll sel rs (max_fd m + 1) (read_set m) (write_set m) do_wait wait_ts s of
           None \<Rightarrow> None
         | Some (r, do_wait, s) \<Rightarrow>
             (case r of
                Ready rd wr err \<Rightarrow> Some (sel_process_events rf rd wr err s)
              | Timeout \<Rightarrow> Some (if do_wait then unlock_base (pm0 (lock_base s)) else s)
              | _ \<Rightarrow> Some s))"

text \<open>
  \<open>pselect.h\<close>: \<open>blocked k\<close> is the thread's signal mask; \<open>setmask ms\<close> sets it to \<open>ms\<close> and back, which delivers a pending
  watched signal, if there is one, to the handler. \<open>ps_landed\<close> is the code at the landing pad.
\<close>

definition ps_landed ::
  "(int \<Rightarrow> ep_ptr \<Rightarrow> 'k sel_state \<Rightarrow> bool \<times> 'k sel_state) \<Rightarrow> int \<Rightarrow> 'k sel_state \<Rightarrow> 'k sel_state" where
  "ps_landed rs signo s =
     (let (pmask, s) = sg_process_signal_mask False rs signo (poll_sigmask (mech s)) s in
      mech_do (\<lambda>m. m\<lparr>poll_sigmask := pmask\<rparr>) s)"

partial_function (option) pselect_poll ::
  "(int \<Rightarrow> int set \<Rightarrow> int set \<Rightarrow> int set \<Rightarrow> timespec option \<Rightarrow> int set \<Rightarrow> 'k \<Rightarrow> sel_outcome \<times> 'k) \<Rightarrow>
   (int set \<Rightarrow> 'k \<Rightarrow> int option \<times> 'k) \<Rightarrow>
   (int \<Rightarrow> ep_ptr \<Rightarrow> 'k sel_state \<Rightarrow> bool \<times> 'k sel_state) \<Rightarrow> int \<Rightarrow> int set \<Rightarrow> int set \<Rightarrow> bool \<Rightarrow> timespec option \<Rightarrow>
   'k sel_state \<Rightarrow> (sel_outcome \<times> bool \<times> 'k sel_state) option" where
  "pselect_poll sel setmask rs nfds rd wr do_wait wait_ts s =
     (let ts = (if do_wait then wait_ts else Some (mk_time 0 0));
          (r, k) = sel nfds rd wr rd ts (poll_sigmask (mech s)) (sel_kern (mech s));
          s = mech_do (\<lambda>m. m\<lparr>sel_kern := k\<rparr>) s
      in case r of
           Sig signo \<Rightarrow> pselect_poll sel setmask rs nfds rd wr False wait_ts (ps_landed rs signo s)
         | Timeout \<Rightarrow>
             if do_wait then Some (r, do_wait, s)
             else
               let (p, k) = setmask (poll_sigmask (mech s)) (sel_kern (mech s)); s = mech_do (\<lambda>m. m\<lparr>sel_kern := k\<rparr>) s in
               (case p of
                  None \<Rightarrow> Some (r, do_wait, s)
                | Some signo \<Rightarrow> pselect_poll sel setmask rs nfds rd wr False wait_ts (ps_landed rs signo s))
         | _ \<Rightarrow> Some (r, do_wait, s))"

definition pselect_mask :: "int set \<Rightarrow> int set \<Rightarrow> int set" where
  "pselect_mask blocked act = fold (\<lambda>i ms. if i \<notin> act then ms - {i} else ms) [1..NSIG - 1] blocked"

definition pselect_pull_events ::
  "(int \<Rightarrow> int set \<Rightarrow> int set \<Rightarrow> int set \<Rightarrow> timespec option \<Rightarrow> int set \<Rightarrow> 'k \<Rightarrow> sel_outcome \<times> 'k) \<Rightarrow>
   (int set \<Rightarrow> 'k \<Rightarrow> int option \<times> 'k) \<Rightarrow> ('k \<Rightarrow> int set) \<Rightarrow>
   (int \<Rightarrow> ep_ptr \<Rightarrow> 'k sel_state \<Rightarrow> bool \<times> 'k sel_state) \<Rightarrow>
   (ep_ptr \<Rightarrow> 32 word \<Rightarrow> 'k sel_state \<Rightarrow> (32 word \<times> int) \<times> 'k sel_state) \<Rightarrow>
   (bool \<Rightarrow> 'k sel_state \<Rightarrow> bool \<times> timespec option \<times> 'k sel_state) \<Rightarrow> ('k sel_state \<Rightarrow> 'k sel_state) \<Rightarrow>
   bool \<Rightarrow> 'k sel_state \<Rightarrow> 'k sel_state option" where
  "pselect_pull_events sel setmask blocked rs rf pm pm0 do_wait s =
     (let (do_wait, wait_ts, s) = pm do_wait (lock_base s);
          m = mech s;
          s = mech_do (\<lambda>m. m\<lparr>poll_sigmask := pselect_mask (blocked (sel_kern m)) (active_sigmask m)\<rparr>) s;
          s = unlock_base s
      in case pselect_poll sel setmask rs (max_fd m + 1) (read_set m) (write_set m) do_wait wait_ts s of
           None \<Rightarrow> None
         | Some (r, do_wait, s) \<Rightarrow>
             (case r of
                Ready rd wr err \<Rightarrow> Some (sel_process_events rf rd wr err s)
              | Timeout \<Rightarrow> Some (if do_wait then unlock_base (pm0 (lock_base s)) else s)
              | _ \<Rightarrow> Some s))"

text \<open>
  The operations and traits of the mechanism; \<open>me\<close> is \<open>True\<close> for \<open>select\<close> and \<open>False\<close> for \<open>pselect\<close>. Those of other
  layers are \<open>other\<close>'s.
\<close>

definition select_ops :: "(nat \<Rightarrow> bool) \<Rightarrow> bool \<Rightarrow> 'k select_events mech_ops \<Rightarrow> 'k select_events mech_ops" where
  "select_ops alloc me other = other\<lparr>
     has_separate_rw := True, interrupt_after_fd_add := True, interrupt_after_signal_add := True,
     add_fd_watch := \<lambda>fd a. sel_add_fd_watch alloc fd (Watcher a),
     add_bidi_fd_watch := \<lambda>fd a. sel_add_bidi_fd_watch alloc fd (Watcher a),
     enable_fd_watch := \<lambda>fd a. sel_enable_fd_watch fd (Watcher a),
     disable_fd_watch := sel_disable_fd_watch, remove_fd_watch := sel_remove_fd_watch,
     remove_bidi_fd_watch := sel_remove_bidi_fd_watch,
     add_signal_watch := \<lambda>signo a m. (None, sg_add_signal_watch me signo (Watcher a) m),
     rearm_signal_watch := \<lambda>signo a. sg_rearm_signal_watch me signo (Watcher a),
     remove_signal_watch := sg_remove_signal_watch me\<rparr>"

end
