(* ===== verification/Kqueue.thy ===== *)
theory Kqueue
  imports Select
begin

text \<open>
  \<open>kqueue.h\<close> and \<open>kqueue-macos.h\<close>: the mechanisms over BSD kernel queues. The first takes signals from the queue as
  well, the second by POSIX signal handling (\<open>signal.h\<close>); the rest is shared and modelled once over \<open>kq_core\<close>, the
  descriptor of the queue and the operating system's state \<open>kq_kern\<close>.

  The system calls are \<open>kq_sys\<close>; \<open>POLL_SEMANTICS\<close> is the platform's constant. \<open>kq_change\<close> applies a list of changes
  (an error number on failure), \<open>kq_receipt\<close> does so with \<open>EV_RECEIPT\<close> and returns an error number per change,
  \<open>kq_wait\<close> waits for events. \<open>kq_sigwait\<close> is \<open>sigtimedwait\<close> without waiting, \<open>kq_regular\<close> is \<open>fstat\<close>: an error, or
  whether the descriptor is a regular file.
\<close>

unbundle bit_operations_syntax

definition EV_ADD :: "16 word" where "EV_ADD = 1"
definition EV_DELETE :: "16 word" where "EV_DELETE = 2"
definition EV_ENABLE :: "16 word" where "EV_ENABLE = 4"
definition EV_DISABLE :: "16 word" where "EV_DISABLE = 8"
definition EV_CLEAR :: "16 word" where "EV_CLEAR = 32"
definition EV_RECEIPT :: "16 word" where "EV_RECEIPT = 64"
definition EINVAL :: int where "EINVAL = 22"
definition ENODEV :: int where "ENODEV = 19"

datatype kq_filter = EVFILT_READ | EVFILT_WRITE | EVFILT_SIGNAL | EVFILT_OTHER

record kevent =
  ident :: int
  kfilter :: kq_filter
  kflags :: "16 word"
  fflags :: int
  udata :: ep_ptr

record 'k kq_core =
  kqfd :: int
  kq_kern :: 'k

record 'k kq_sys =
  kq_create :: "'k \<Rightarrow> (int + int) \<times> 'k"
  kq_close :: "int \<Rightarrow> 'k \<Rightarrow> 'k"
  kq_change :: "int \<Rightarrow> kevent list \<Rightarrow> 'k \<Rightarrow> int option \<times> 'k"
  kq_receipt :: "int \<Rightarrow> kevent list \<Rightarrow> 'k \<Rightarrow> (int + int list) \<times> 'k"
  kq_wait :: "int \<Rightarrow> timespec option \<Rightarrow> int set \<Rightarrow> 'k \<Rightarrow> (sel_outcome + kevent list) \<times> 'k"
  kq_sigwait :: "int \<Rightarrow> 'k \<Rightarrow> int option \<times> 'k"
  kq_regular :: "int \<Rightarrow> 'k \<Rightarrow> int + bool"
  POLL_SEMANTICS :: int

definition kq_do :: "('k \<Rightarrow> 'r \<times> 'k) \<Rightarrow> 'k kq_core \<Rightarrow> 'r \<times> 'k kq_core" where
  "kq_do f m = (let (r, k) = f (kq_kern m) in (r, m\<lparr>kq_kern := k\<rparr>))"

definition kq_init ::
  "'k kq_sys \<Rightarrow> ('k kq_core \<Rightarrow> exn option \<times> 'k kq_core) \<Rightarrow> 'k kq_core \<Rightarrow> exn option \<times> 'k kq_core" where
  "kq_init Y base_init m =
     (case kq_do (kq_create Y) m of
        (Inl e, m) \<Rightarrow> (Some (System_error e), m\<lparr>kqfd := - 1\<rparr>)
      | (Inr fd, m) \<Rightarrow>
          (case base_init (m\<lparr>kqfd := fd\<rparr>) of
             (Some e, m) \<Rightarrow> (Some e, m\<lparr>kq_kern := kq_close Y (kqfd m) (kq_kern m)\<rparr>)
           | (None, m) \<Rightarrow> (None, m)))"

definition kq_destroy :: "'k kq_sys \<Rightarrow> ('k kq_core \<Rightarrow> 'k kq_core) \<Rightarrow> 'k kq_core \<Rightarrow> 'k kq_core" where
  "kq_destroy Y base_cleanup m =
     (if kqfd m \<noteq> - 1 then let m = base_cleanup m in m\<lparr>kq_kern := kq_close Y (kqfd m) (kq_kern m)\<rparr> else m)"

section \<open>File descriptor watches\<close>

definition set_filter_enabled :: "'k kq_sys \<Rightarrow> kq_filter \<Rightarrow> int \<Rightarrow> ep_ptr \<Rightarrow> bool \<Rightarrow> 'k kq_core \<Rightarrow> 'k kq_core" where
  "set_filter_enabled Y filt i ud enable m =
     snd (kq_do (kq_change Y (kqfd m) [\<lparr>ident = i, kfilter = filt, kflags = (if enable then EV_ENABLE else EV_DISABLE),
       fflags = (if filt = EVFILT_READ then POLL_SEMANTICS Y else 0), udata = ud\<rparr>]) m)"

definition kq_delete :: "kq_filter \<Rightarrow> int \<Rightarrow> ep_ptr \<Rightarrow> kevent" where
  "kq_delete filt i ud = \<lparr>ident = i, kfilter = filt, kflags = EV_DELETE, fflags = 0, udata = ud\<rparr>"

definition remove_filter :: "'k kq_sys \<Rightarrow> kq_filter \<Rightarrow> int \<Rightarrow> 'k kq_core \<Rightarrow> 'k kq_core" where
  "remove_filter Y filt i m = snd (kq_do (kq_change Y (kqfd m) [kq_delete filt i Nullptr]) m)"

definition dir_filter :: "32 word \<Rightarrow> kq_filter" where
  "dir_filter flags = (if flags AND IN_EVENTS \<noteq> 0 then EVFILT_READ else EVFILT_WRITE)"

text \<open>\<open>errs\<close>: the error numbers of a write filter that make the watch an emulated one.\<close>

definition kq_add_fd_watch ::
  "'k kq_sys \<Rightarrow> int set \<Rightarrow> int \<Rightarrow> ep_ptr \<Rightarrow> 32 word \<Rightarrow> bool \<Rightarrow> bool \<Rightarrow> 'k kq_core \<Rightarrow> (exn + bool) \<times> 'k kq_core" where
  "kq_add_fd_watch Y errs fd ud flags en emulate m =
     (let filt = dir_filter flags;
          add = (\<lambda>m. case kq_do (kq_change Y (kqfd m) [\<lparr>ident = fd, kfilter = filt,
                   kflags = EV_ADD OR (if en then 0 else EV_DISABLE),
                   fflags = (if filt = EVFILT_READ then POLL_SEMANTICS Y else 0), udata = ud\<rparr>]) m of
                  (None, m) \<Rightarrow> (Inr True, m)
                | (Some e, m) \<Rightarrow>
                    if filt = EVFILT_WRITE \<and> e \<in> errs \<and> emulate then (Inr False, m) else (Inl (System_error e), m))
      in if filt = EVFILT_READ \<and> POLL_SEMANTICS Y = 0 \<and> emulate then
           (case kq_regular Y fd (kq_kern m) of
              Inl e \<Rightarrow> (Inl (System_error e), m)
            | Inr True \<Rightarrow> (Inr False, m)
            | Inr False \<Rightarrow> add m)
         else add m)"

definition bidi_change :: "int \<Rightarrow> ep_ptr \<Rightarrow> kq_filter \<Rightarrow> bool \<Rightarrow> 16 word \<Rightarrow> int \<Rightarrow> kevent" where
  "bidi_change fd ud filt en extra ff =
     \<lparr>ident = fd, kfilter = filt, kflags = EV_ADD OR (if en then 0 else EV_DISABLE) OR extra, fflags = ff, udata = ud\<rparr>"

definition kq_add_bidi_fd_watch ::
  "'k kq_sys \<Rightarrow> int \<Rightarrow> ep_ptr \<Rightarrow> 32 word \<Rightarrow> bool \<Rightarrow> 'k kq_core \<Rightarrow> (exn + 32 word) \<times> 'k kq_core" where
  "kq_add_bidi_fd_watch Y fd ud flags emulate m =
     (let rd = bidi_change fd ud EVFILT_READ (flags AND IN_EVENTS \<noteq> 0) EV_RECEIPT (POLL_SEMANTICS Y);
          wr = bidi_change fd ud EVFILT_WRITE (flags AND OUT_EVENTS \<noteq> 0) EV_RECEIPT 0;
          undo = (\<lambda>m. snd (kq_do (kq_change Y (kqfd m) [kq_delete EVFILT_READ fd ud]) m))
      in case kq_do (kq_receipt Y (kqfd m) [rd, wr]) m of
           (Inl e, m) \<Rightarrow> (Inl (System_error e), m)
         | (Inr data, m) \<Rightarrow>
             if data ! 0 \<noteq> 0 then (Inl (System_error (data ! 0)), m)
             else if data ! 1 \<noteq> 0 then
               if emulate then
                 if POLL_SEMANTICS Y \<noteq> 0 then (Inr OUT_EVENTS, m)
                 else (Inr (IN_EVENTS OR OUT_EVENTS), undo m)
               else (Inl (System_error (data ! 1)), undo m)
             else (Inr 0, m))"

text \<open>The variant for systems without \<open>EV_RECEIPT\<close> (OpenBSD).\<close>

definition kq_add_bidi_fd_watch_seq ::
  "'k kq_sys \<Rightarrow> int \<Rightarrow> ep_ptr \<Rightarrow> 32 word \<Rightarrow> bool \<Rightarrow> 'k kq_core \<Rightarrow> (exn + 32 word) \<times> 'k kq_core" where
  "kq_add_bidi_fd_watch_seq Y fd ud flags emulate m =
     (case kq_do (kq_change Y (kqfd m) [bidi_change fd ud EVFILT_READ (flags AND IN_EVENTS \<noteq> 0) 0 0]) m of
        (Some e, m) \<Rightarrow> (Inl (System_error e), m)
      | (None, m) \<Rightarrow>
          (case kq_do (kq_change Y (kqfd m) [bidi_change fd ud EVFILT_WRITE (flags AND OUT_EVENTS \<noteq> 0) 0 0]) m of
             (None, m) \<Rightarrow> (Inr 0, m)
           | (Some e, m) \<Rightarrow>
               if emulate then (Inr OUT_EVENTS, m)
               else
                 (case kq_do (kq_change Y (kqfd m) [kq_delete EVFILT_READ fd ud]) m of
                    (e', m) \<Rightarrow> (Inl (System_error (case e' of None \<Rightarrow> e | Some e' \<Rightarrow> e')), m))))"

definition kq_remove_fd_watch :: "'k kq_sys \<Rightarrow> int \<Rightarrow> 32 word \<Rightarrow> 'k kq_core \<Rightarrow> 'k kq_core" where
  "kq_remove_fd_watch Y fd flags m = remove_filter Y (dir_filter flags) fd m"

definition kq_remove_bidi_fd_watch :: "'k kq_sys \<Rightarrow> int \<Rightarrow> 'k kq_core \<Rightarrow> 'k kq_core" where
  "kq_remove_bidi_fd_watch Y fd m =
     snd (kq_do (kq_change Y (kqfd m) [kq_delete EVFILT_READ fd Nullptr, kq_delete EVFILT_WRITE fd Nullptr]) m)"

definition kq_enable_fd_watch :: "'k kq_sys \<Rightarrow> int \<Rightarrow> ep_ptr \<Rightarrow> 32 word \<Rightarrow> 'k kq_core \<Rightarrow> 'k kq_core" where
  "kq_enable_fd_watch Y fd ud flags m = set_filter_enabled Y (dir_filter flags) fd ud True m"

definition kq_disable_fd_watch :: "'k kq_sys \<Rightarrow> int \<Rightarrow> 32 word \<Rightarrow> 'k kq_core \<Rightarrow> 'k kq_core" where
  "kq_disable_fd_watch Y fd flags m = set_filter_enabled Y (dir_filter flags) fd Nullptr False m"

section \<open>Signals of the kernel queue\<close>

type_synonym 'k kq_state = "'k kq_core loop"

text \<open>\<open>pull_signal\<close>: its loop, and the result: whether the watch stays enabled.\<close>

partial_function (option) pull_signal ::
  "'k kq_sys \<Rightarrow> (int \<Rightarrow> ep_ptr \<Rightarrow> 'k kq_state \<Rightarrow> bool \<times> 'k kq_state) \<Rightarrow> int \<Rightarrow> ep_ptr \<Rightarrow> 'k kq_state \<Rightarrow>
   (bool \<times> 'k kq_state) option" where
  "pull_signal Y rs signo ud s =
     (let (r, m) = kq_do (kq_sigwait Y signo) (mech s); s = s\<lparr>mech := m\<rparr> in
      case r of
        None \<Rightarrow> Some (True, s)
      | Some sig \<Rightarrow>
          let (b, s) = rs sig ud s in
          if b then Some (False, s) else pull_signal Y rs signo ud s)"

definition sig_change :: "int \<Rightarrow> 16 word \<Rightarrow> ep_ptr \<Rightarrow> kevent" where
  "sig_change signo fl ud = \<lparr>ident = signo, kfilter = EVFILT_SIGNAL, kflags = fl, fflags = 0, udata = ud\<rparr>"

definition kq_add_signal_watch ::
  "'k kq_sys \<Rightarrow> (int \<Rightarrow> ep_ptr \<Rightarrow> 'k kq_state \<Rightarrow> bool \<times> 'k kq_state) \<Rightarrow> int \<Rightarrow> ep_ptr \<Rightarrow> 'k kq_state \<Rightarrow>
   (exn option \<times> 'k kq_state) option" where
  "kq_add_signal_watch Y rs signo ud s =
     (let (r, m) = kq_do (kq_change Y (kqfd (mech s)) [sig_change signo (EV_ADD OR EV_DISABLE) ud]) (mech s);
          s = s\<lparr>mech := m\<rparr>
      in case r of
           Some e \<Rightarrow> Some (Some (System_error e), s)
         | None \<Rightarrow>
             map_option (\<lambda>(enable, s).
               if enable then
                 let (r, m) = kq_do (kq_change Y (kqfd (mech s)) [sig_change signo EV_ENABLE ud]) (mech s)
                 in (map_option System_error r, s\<lparr>mech := m\<rparr>)
               else (None, s)) (pull_signal Y rs signo ud s))"

definition kq_rearm_signal_watch ::
  "'k kq_sys \<Rightarrow> (int \<Rightarrow> ep_ptr \<Rightarrow> 'k kq_state \<Rightarrow> bool \<times> 'k kq_state) \<Rightarrow> int \<Rightarrow> ep_ptr \<Rightarrow> 'k kq_state \<Rightarrow> 'k kq_state option" where
  "kq_rearm_signal_watch Y rs signo ud s =
     map_option (\<lambda>(enable, s).
       if enable then mech_do (\<lambda>m. snd (kq_do (kq_change Y (kqfd m) [sig_change signo EV_ENABLE ud]) m)) s else s)
       (pull_signal Y rs signo ud s)"

definition kq_remove_signal_watch :: "'k kq_sys \<Rightarrow> int \<Rightarrow> 'k kq_core \<Rightarrow> 'k kq_core" where
  "kq_remove_signal_watch Y signo m = snd (kq_do (kq_change Y (kqfd m) [sig_change signo EV_DELETE Nullptr]) m)"

section \<open>Receiving events\<close>

text \<open>The loop of \<open>process_events\<close>: the events with their new flags, and the state.\<close>

fun kq_events_loop ::
  "'k kq_sys \<Rightarrow> (int \<Rightarrow> ep_ptr \<Rightarrow> 'k kq_state \<Rightarrow> bool \<times> 'k kq_state) \<Rightarrow>
   (ep_ptr \<Rightarrow> 32 word \<Rightarrow> 'k kq_state \<Rightarrow> (32 word \<times> int) \<times> 'k kq_state) \<Rightarrow>
   kevent list \<Rightarrow> 'k kq_state \<Rightarrow> (kevent list \<times> 'k kq_state) option" where
  "kq_events_loop Y rs rf [] s = Some ([], s)"
| "kq_events_loop Y rs rf (e # es) s =
     Option.bind
       (case kfilter e of
          EVFILT_SIGNAL \<Rightarrow>
            map_option (\<lambda>(reenable, s). (e\<lparr>kflags := (if reenable then EV_ENABLE else EV_DISABLE)\<rparr>, s))
              (pull_signal Y rs (ident e) (udata e) s)
        | EVFILT_OTHER \<Rightarrow> Some (e\<lparr>kflags := EV_DISABLE\<rparr>, s)
        | _ \<Rightarrow>
            let ((re, fd), s) = rf (udata e) (if kfilter e = EVFILT_READ then IN_EVENTS else OUT_EVENTS) s in
            Some (e\<lparr>kflags := (if re = 0 then EV_DISABLE OR EV_CLEAR else EV_ENABLE)\<rparr>, s))
       (\<lambda>(e, s). map_option (\<lambda>(es, s). (e # es, s)) (kq_events_loop Y rs rf es s))"

definition kq_process_events ::
  "'k kq_sys \<Rightarrow> (int \<Rightarrow> ep_ptr \<Rightarrow> 'k kq_state \<Rightarrow> bool \<times> 'k kq_state) \<Rightarrow>
   (ep_ptr \<Rightarrow> 32 word \<Rightarrow> 'k kq_state \<Rightarrow> (32 word \<times> int) \<times> 'k kq_state) \<Rightarrow>
   kevent list \<Rightarrow> 'k kq_state \<Rightarrow> 'k kq_state option" where
  "kq_process_events Y rs rf es s =
     map_option (\<lambda>(es, s). unlock_base (mech_do (\<lambda>m. snd (kq_do (kq_change Y (kqfd m) es) m)) s))
       (kq_events_loop Y rs rf es (lock_base s))"

partial_function (option) kq_pull_loop ::
  "'k kq_sys \<Rightarrow> (int \<Rightarrow> ep_ptr \<Rightarrow> 'k kq_state \<Rightarrow> bool \<times> 'k kq_state) \<Rightarrow>
   (ep_ptr \<Rightarrow> 32 word \<Rightarrow> 'k kq_state \<Rightarrow> (32 word \<times> int) \<times> 'k kq_state) \<Rightarrow>
   kevent list \<Rightarrow> 'k kq_state \<Rightarrow> 'k kq_state option" where
  "kq_pull_loop Y rs rf es s =
     Option.bind (kq_process_events Y rs rf es s) (\<lambda>s.
       let (r, m) = kq_do (kq_wait Y (kqfd (mech s)) (Some (mk_time 0 0)) {}) (mech s); s = s\<lparr>mech := m\<rparr> in
       case r of
         Inl _ \<Rightarrow> Some s
       | Inr es \<Rightarrow> kq_pull_loop Y rs rf es s)"

definition kq_pull_events ::
  "'k kq_sys \<Rightarrow> (int \<Rightarrow> ep_ptr \<Rightarrow> 'k kq_state \<Rightarrow> bool \<times> 'k kq_state) \<Rightarrow>
   (ep_ptr \<Rightarrow> 32 word \<Rightarrow> 'k kq_state \<Rightarrow> (32 word \<times> int) \<times> 'k kq_state) \<Rightarrow>
   (bool \<Rightarrow> 'k kq_state \<Rightarrow> bool \<times> timespec option \<times> 'k kq_state) \<Rightarrow> ('k kq_state \<Rightarrow> 'k kq_state) \<Rightarrow>
   bool \<Rightarrow> 'k kq_state \<Rightarrow> 'k kq_state option" where
  "kq_pull_events Y rs rf pm pm0 do_wait s =
     (let (do_wait, wait_ts, s) = pm do_wait (lock_base s);
          s = unlock_base s;
          ts = (if do_wait then wait_ts else Some (mk_time 0 0));
          (r, m) = kq_do (kq_wait Y (kqfd (mech s)) ts {}) (mech s);
          s = s\<lparr>mech := m\<rparr>
      in case r of
           Inl Timeout \<Rightarrow> Some (if do_wait then unlock_base (pm0 (lock_base s)) else s)
         | Inl _ \<Rightarrow> Some s
         | Inr es \<Rightarrow> kq_pull_loop Y rs rf es s)"

end
