(* ===== verification/Kqueue_Macos.thy ===== *)
theory Kqueue_Macos
  imports Kqueue
begin

text \<open>
  \<open>kqueue-macos.h\<close>: the mechanism over kernel queues for systems whose queues cannot be trusted with signals. Its
  descriptor watches do what those of \<open>kqueue.h\<close> do and are the same operations on the mechanism's core (\<open>mac_core\<close>); signals
  are those of \<open>signal.h\<close>, which jump out of the poll to a landing pad. A write filter on a regular file is refused with
  \<open>EINVAL\<close> only. In \<open>kq_wait\<close> the third argument is the set of signals unblocked while it waits, and the result \<open>Sig n\<close> is a
  jump to the landing pad.
\<close>

unbundle bit_operations_syntax

record 'k mac_loop = signal_events +
  mac_kqfd :: int
  mac_kern :: 'k

definition mac_core :: "'k mac_loop \<Rightarrow> 'k kq_core" where
  "mac_core m = \<lparr>kqfd = mac_kqfd m, kq_kern = mac_kern m\<rparr>"

definition put_core :: "'k kq_core \<Rightarrow> 'k mac_loop \<Rightarrow> 'k mac_loop" where
  "put_core c m = m\<lparr>mac_kqfd := kqfd c, mac_kern := kq_kern c\<rparr>"

definition on_core :: "('k kq_core \<Rightarrow> 'k kq_core) \<Rightarrow> 'k mac_loop \<Rightarrow> 'k mac_loop" where
  "on_core f m = put_core (f (mac_core m)) m"

definition on_core_res :: "('k kq_core \<Rightarrow> 'r \<times> 'k kq_core) \<Rightarrow> 'k mac_loop \<Rightarrow> 'r \<times> 'k mac_loop" where
  "on_core_res f m = (let (r, c) = f (mac_core m) in (r, put_core c m))"

definition mac_init :: "'k kq_sys \<Rightarrow> ('k mac_loop \<Rightarrow> exn option \<times> 'k mac_loop) \<Rightarrow> 'k mac_loop \<Rightarrow> exn option \<times> 'k mac_loop" where
  "mac_init Y base_init m =
     (case kq_do (kq_create Y) (mac_core m) of
        (Inl e, c) \<Rightarrow> (Some (System_error e), put_core (c\<lparr>kqfd := - 1\<rparr>) m)
      | (Inr fd, c) \<Rightarrow>
          (case base_init (put_core (c\<lparr>kqfd := fd\<rparr>) m) of
             (Some e, m) \<Rightarrow> (Some e, m\<lparr>mac_kern := kq_close Y (mac_kqfd m) (mac_kern m)\<rparr>)
           | (None, m) \<Rightarrow> (None, m)))"

definition mac_destroy :: "'k kq_sys \<Rightarrow> ('k mac_loop \<Rightarrow> 'k mac_loop) \<Rightarrow> 'k mac_loop \<Rightarrow> 'k mac_loop" where
  "mac_destroy Y base_cleanup m =
     (if mac_kqfd m \<noteq> - 1 then let m = base_cleanup m in m\<lparr>mac_kern := kq_close Y (mac_kqfd m) (mac_kern m)\<rparr> else m)"

section \<open>File descriptor watches\<close>

definition mac_set_filter_enabled :: "'k kq_sys \<Rightarrow> kq_filter \<Rightarrow> int \<Rightarrow> ep_ptr \<Rightarrow> bool \<Rightarrow> 'k mac_loop \<Rightarrow> 'k mac_loop" where
  "mac_set_filter_enabled Y filt i ud enable = on_core (set_filter_enabled Y filt i ud enable)"

definition mac_remove_filter :: "'k kq_sys \<Rightarrow> kq_filter \<Rightarrow> int \<Rightarrow> 'k mac_loop \<Rightarrow> 'k mac_loop" where
  "mac_remove_filter Y filt i = on_core (remove_filter Y filt i)"

definition mac_add_fd_watch ::
  "'k kq_sys \<Rightarrow> int \<Rightarrow> ep_ptr \<Rightarrow> 32 word \<Rightarrow> bool \<Rightarrow> bool \<Rightarrow> 'k mac_loop \<Rightarrow> (exn + bool) \<times> 'k mac_loop" where
  "mac_add_fd_watch Y fd ud flags en emulate = on_core_res (kq_add_fd_watch Y {EINVAL} fd ud flags en emulate)"

definition mac_add_bidi_fd_watch ::
  "'k kq_sys \<Rightarrow> int \<Rightarrow> ep_ptr \<Rightarrow> 32 word \<Rightarrow> bool \<Rightarrow> 'k mac_loop \<Rightarrow> (exn + 32 word) \<times> 'k mac_loop" where
  "mac_add_bidi_fd_watch Y fd ud flags emulate = on_core_res (kq_add_bidi_fd_watch Y fd ud flags emulate)"

definition mac_add_bidi_fd_watch_seq ::
  "'k kq_sys \<Rightarrow> int \<Rightarrow> ep_ptr \<Rightarrow> 32 word \<Rightarrow> bool \<Rightarrow> 'k mac_loop \<Rightarrow> (exn + 32 word) \<times> 'k mac_loop" where
  "mac_add_bidi_fd_watch_seq Y fd ud flags emulate = on_core_res (kq_add_bidi_fd_watch_seq Y fd ud flags emulate)"

definition mac_remove_fd_watch :: "'k kq_sys \<Rightarrow> int \<Rightarrow> 32 word \<Rightarrow> 'k mac_loop \<Rightarrow> 'k mac_loop" where
  "mac_remove_fd_watch Y fd flags = mac_remove_filter Y (dir_filter flags) fd"

definition mac_remove_bidi_fd_watch :: "'k kq_sys \<Rightarrow> int \<Rightarrow> 'k mac_loop \<Rightarrow> 'k mac_loop" where
  "mac_remove_bidi_fd_watch Y fd = on_core (kq_remove_bidi_fd_watch Y fd)"

definition mac_enable_fd_watch :: "'k kq_sys \<Rightarrow> int \<Rightarrow> ep_ptr \<Rightarrow> 32 word \<Rightarrow> 'k mac_loop \<Rightarrow> 'k mac_loop" where
  "mac_enable_fd_watch Y fd ud flags = mac_set_filter_enabled Y (dir_filter flags) fd ud True"

definition mac_disable_fd_watch :: "'k kq_sys \<Rightarrow> int \<Rightarrow> 32 word \<Rightarrow> 'k mac_loop \<Rightarrow> 'k mac_loop" where
  "mac_disable_fd_watch Y fd flags = mac_set_filter_enabled Y (dir_filter flags) fd Nullptr False"

section \<open>Receiving events\<close>

type_synonym 'k mac_state = "'k mac_loop loop"

text \<open>The loop of \<open>process_events\<close>: the events with their new flags, and the state.\<close>

fun mac_events_loop ::
  "(ep_ptr \<Rightarrow> 32 word \<Rightarrow> 'm loop \<Rightarrow> (32 word \<times> int) \<times> 'm loop) \<Rightarrow> kevent list \<Rightarrow> 'm loop \<Rightarrow> kevent list \<times> 'm loop" where
  "mac_events_loop rf [] s = ([], s)"
| "mac_events_loop rf (e # es) s =
     (let (e, s) =
            (if kfilter e = EVFILT_READ \<or> kfilter e = EVFILT_WRITE then
               let ((re, fd), s) = rf (udata e) (if kfilter e = EVFILT_READ then IN_EVENTS else OUT_EVENTS) s
               in (e\<lparr>kflags := (if re = 0 then EV_DISABLE OR EV_CLEAR else EV_ENABLE)\<rparr>, s)
             else (e\<lparr>kflags := EV_DISABLE\<rparr>, s));
          (es, s) = mac_events_loop rf es s
      in (e # es, s))"

definition mac_process_events ::
  "'k kq_sys \<Rightarrow> (ep_ptr \<Rightarrow> 32 word \<Rightarrow> 'k mac_state \<Rightarrow> (32 word \<times> int) \<times> 'k mac_state) \<Rightarrow>
   kevent list \<Rightarrow> 'k mac_state \<Rightarrow> 'k mac_state" where
  "mac_process_events Y rf es s =
     (let (es, s) = mac_events_loop rf es (lock_base s)
      in unlock_base (mech_do (on_core (\<lambda>c. snd (kq_do (kq_change Y (kqfd c) es) c))) s))"

definition mac_wait :: "'k kq_sys \<Rightarrow> timespec option \<Rightarrow> int set \<Rightarrow> 'k mac_state \<Rightarrow> (sel_outcome + kevent list) \<times> 'k mac_state" where
  "mac_wait Y ts sigs s =
     (let (r, m) = on_core_res (kq_do (kq_wait Y (mac_kqfd (mech s)) ts sigs)) (mech s) in (r, s\<lparr>mech := m\<rparr>))"

partial_function (option) mac_pull_loop ::
  "'k kq_sys \<Rightarrow> (ep_ptr \<Rightarrow> 32 word \<Rightarrow> 'k mac_state \<Rightarrow> (32 word \<times> int) \<times> 'k mac_state) \<Rightarrow>
   kevent list \<Rightarrow> 'k mac_state \<Rightarrow> 'k mac_state option" where
  "mac_pull_loop Y rf es s =
     (let s = mac_process_events Y rf es s; (r, s) = mac_wait Y (Some (mk_time 0 0)) {} s
      in case r of Inl _ \<Rightarrow> Some s | Inr es \<Rightarrow> mac_pull_loop Y rf es s)"

text \<open>The poll from the landing pad on; \<open>wait_ts\<close> is \<open>None\<close> for an infinite wait.\<close>

partial_function (option) mac_poll ::
  "'k kq_sys \<Rightarrow> (int \<Rightarrow> ep_ptr \<Rightarrow> 'k mac_state \<Rightarrow> bool \<times> 'k mac_state) \<Rightarrow> bool \<Rightarrow> timespec option \<Rightarrow> 'k mac_state \<Rightarrow>
   ((sel_outcome + kevent list) \<times> bool \<times> 'k mac_state) option" where
  "mac_poll Y rs do_wait wait_ts s =
     (let (r, s) = mac_wait Y (if do_wait then wait_ts else Some (mk_time 0 0)) (active_sigmask (mech s)) s in
      case r of
        Inl o1 \<Rightarrow>
          (case o1 of
             Sig signo \<Rightarrow> mac_poll Y rs False wait_ts (sg_process_signal True rs signo s)
           | _ \<Rightarrow> Some (r, do_wait, s))
      | Inr es \<Rightarrow> Some (r, do_wait, s))"

definition mac_pull_events ::
  "'k kq_sys \<Rightarrow> (int \<Rightarrow> ep_ptr \<Rightarrow> 'k mac_state \<Rightarrow> bool \<times> 'k mac_state) \<Rightarrow>
   (ep_ptr \<Rightarrow> 32 word \<Rightarrow> 'k mac_state \<Rightarrow> (32 word \<times> int) \<times> 'k mac_state) \<Rightarrow>
   (bool \<Rightarrow> 'k mac_state \<Rightarrow> bool \<times> timespec option \<times> 'k mac_state) \<Rightarrow> ('k mac_state \<Rightarrow> 'k mac_state) \<Rightarrow>
   bool \<Rightarrow> 'k mac_state \<Rightarrow> 'k mac_state option" where
  "mac_pull_events Y rs rf pm pm0 do_wait s =
     (let (do_wait, wait_ts, s) = pm do_wait (lock_base s); s = unlock_base s in
      case mac_poll Y rs do_wait wait_ts s of
        None \<Rightarrow> None
      | Some (r, do_wait, s) \<Rightarrow>
          (case r of
             Inl Timeout \<Rightarrow> Some (if do_wait then unlock_base (pm0 (lock_base s)) else s)
           | Inl _ \<Rightarrow> Some s
           | Inr es \<Rightarrow> mac_pull_loop Y rf es s))"

definition mac_ops :: "'k kq_sys \<Rightarrow> 'k mac_loop mech_ops \<Rightarrow> 'k mac_loop mech_ops" where
  "mac_ops Y other = other\<lparr>
     has_separate_rw := True, interrupt_after_fd_add := False, interrupt_after_signal_add := True,
     add_fd_watch := \<lambda>fd a. mac_add_fd_watch Y fd (Watcher a),
     add_bidi_fd_watch := \<lambda>fd a. mac_add_bidi_fd_watch Y fd (Watcher a),
     enable_fd_watch := \<lambda>fd a. mac_enable_fd_watch Y fd (Watcher a),
     disable_fd_watch := mac_disable_fd_watch Y, remove_fd_watch := mac_remove_fd_watch Y,
     remove_bidi_fd_watch := mac_remove_bidi_fd_watch Y,
     add_signal_watch := \<lambda>signo a m. (None, sg_add_signal_watch True signo (Watcher a) m),
     rearm_signal_watch := \<lambda>signo a. sg_rearm_signal_watch True signo (Watcher a),
     remove_signal_watch := sg_remove_signal_watch True\<rparr>"

declare mac_pull_loop.simps [code] mac_poll.simps [code]

end
