(* ===== verification/Select_Props.thy ===== *)
theory Select_Props
  imports Select
begin

text \<open>
  The mechanisms over \<open>select\<close>: the sets and vectors stay consistent, exactly the ready and watched descriptors
  are reported and disarmed. The two scans of \<open>process_events\<close> share the locale \<open>fd_scan\<close>.
\<close>

unbundle bit_operations_syntax

section \<open>Consistency of sets and vectors\<close>

definition sel_wf :: "'k select_events \<Rightarrow> bool" where
  "sel_wf m \<longleftrightarrow> \<not> sel_ub m \<and>
     (\<forall>fd \<in> read_set m. fd \<le> max_fd m \<and> vec_has fd (rd_udata m)) \<and>
     (\<forall>fd \<in> write_set m. fd \<le> max_fd m \<and> vec_has fd (wr_udata m))"

lemma vec_put_has: "0 \<le> fd \<Longrightarrow> vec_has i v \<or> i = fd \<Longrightarrow> vec_has i (vec_put fd u v)"
  by (auto simp: vec_has_def vec_put_def vec_resize_def)

lemma vec_put_nth:
  "0 \<le> fd \<Longrightarrow> vec_put fd u v ! nat fd = u"
  "0 \<le> fd \<Longrightarrow> vec_has i v \<Longrightarrow> i \<noteq> fd \<Longrightarrow> vec_put fd u v ! nat i = v ! nat i"
  by (auto simp: vec_has_def vec_put_def vec_resize_def nth_append nat_eq_iff)

lemma vec_has_update [simp]: "vec_has i (v[j := u]) = vec_has i v"
  by (simp add: vec_has_def)

lemma not_sel_wf: "fd \<in> read_set m \<and> \<not> vec_has fd (rd_udata m) \<or> fd \<in> write_set m \<and> \<not> vec_has fd (wr_udata m) \<Longrightarrow> \<not> sel_wf m"
  by (auto simp: sel_wf_def)

lemma sel_add_wf:
  assumes "sel_wf m" "0 \<le> fd"
  shows "case sel_add_fd_watch alloc fd u flags en soft m of
      (Inl e, m') \<Rightarrow> FD_SETSIZE \<le> fd \<and> e = System_error EMFILE \<and> m' = m \<or>
        fd < FD_SETSIZE \<and> \<not> alloc (nat (fd + 1)) \<and> e = Bad_alloc \<and> \<not> sel_wf m'
    | (Inr b, m') \<Rightarrow> fd < FD_SETSIZE \<and> b \<and> sel_wf m' \<and>
        (if flags AND IN_EVENTS \<noteq> 0 then fd \<in> read_set m' \<and> rd_udata m' ! nat fd = u
         else fd \<in> write_set m' \<and> wr_udata m' ! nat fd = u)"
proof -
  let ?rd = "int (length (rd_udata m)) \<le> fd \<and> \<not> alloc (nat (fd + 1))"
    and ?wr = "int (length (wr_udata m)) \<le> fd \<and> \<not> alloc (nat (fd + 1))"
  have "?rd \<Longrightarrow> \<not> sel_wf (m\<lparr>read_set := insert fd (read_set m)\<rparr>)" "?wr \<Longrightarrow> \<not> sel_wf (m\<lparr>write_set := insert fd (write_set m)\<rparr>)"
    by (intro not_sel_wf [of fd]; simp add: vec_has_def)+
  moreover have "sel_wf (m\<lparr>read_set := insert fd (read_set m), rd_udata := vec_put fd u (rd_udata m), max_fd := max fd (max_fd m)\<rparr>)"
    "sel_wf (m\<lparr>write_set := insert fd (write_set m), wr_udata := vec_put fd u (wr_udata m), max_fd := max fd (max_fd m)\<rparr>)"
    using assms by (auto simp: sel_wf_def intro!: vec_put_has)
  ultimately show ?thesis
    using assms by (simp add: sel_add_fd_watch_def sel_watch_rd_def sel_watch_wr_def Let_def vec_put_nth(1))
qed

lemma sel_add_bidi_wf:
  assumes "sel_wf m" "0 \<le> fd"
  shows "case sel_add_bidi_fd_watch alloc fd u flags em m of
      (Inl e, m') \<Rightarrow> FD_SETSIZE \<le> fd \<and> e = System_error EMFILE \<and> m' = m \<or>
        fd < FD_SETSIZE \<and> \<not> alloc (nat (fd + 1)) \<and> e = Bad_alloc \<and> \<not> sel_wf m'
    | (Inr r, m') \<Rightarrow> fd < FD_SETSIZE \<and> r = 0 \<and> sel_wf m' \<and>
        (flags AND IN_EVENTS \<noteq> 0 \<longrightarrow> fd \<in> read_set m' \<and> rd_udata m' ! nat fd = u) \<and>
        (flags AND OUT_EVENTS \<noteq> 0 \<longrightarrow> fd \<in> write_set m' \<and> wr_udata m' ! nat fd = u)"
proof -
  let ?m1 = "m\<lparr>read_set := insert fd (read_set m), rd_udata := vec_put fd u (rd_udata m)\<rparr>"
  let ?wr = "\<lambda>m. m\<lparr>write_set := insert fd (write_set m), wr_udata := vec_put fd u (wr_udata m)\<rparr>"
  have "int (length (rd_udata m)) \<le> fd \<Longrightarrow> \<not> sel_wf (m\<lparr>read_set := insert fd (read_set m)\<rparr>)"
    "int (length (wr_udata m)) \<le> fd \<Longrightarrow> \<not> sel_wf (m\<lparr>write_set := insert fd (write_set m)\<rparr>)"
    "int (length (wr_udata m)) \<le> fd \<Longrightarrow> \<not> sel_wf (?m1\<lparr>write_set := insert fd (write_set m)\<rparr>)"
    by (intro not_sel_wf [of fd]; simp add: vec_has_def)+
  moreover have "sel_wf (m\<lparr>max_fd := max fd (max_fd m)\<rparr>)" "sel_wf (?m1\<lparr>max_fd := max fd (max_fd m)\<rparr>)"
    "sel_wf ((?wr m)\<lparr>max_fd := max fd (max_fd m)\<rparr>)" "sel_wf ((?wr ?m1)\<lparr>max_fd := max fd (max_fd m)\<rparr>)"
    using assms by (auto simp: sel_wf_def intro!: vec_put_has)
  ultimately show ?thesis
    using assms by (simp add: sel_add_bidi_fd_watch_def sel_watch_rd_def sel_watch_wr_def Let_def vec_put_nth(1))
qed

text \<open>
  C35: \<open>sel_wf\<close>: every watched descriptor is within the scanned range and has a slot for its user data, and no vector was accessed
  out of bounds. Adding a watch, for one or both directions, refuses a descriptor of \<open>FD_SETSIZE\<close> or more without a change;
  otherwise it succeeds, keeps \<open>sel_wf\<close> and watches the descriptor with the user data in its slot, unless a vector
  cannot be enlarged: then it throws \<open>std::bad_alloc\<close> and \<open>sel_wf\<close> is lost, since the descriptor stays in the set without a slot. Disabling a watch and
  removing a bi-directional one keep \<open>sel_wf\<close>; so does removing a watch if both vectors have a slot for the descriptor,
  and enabling a direction if the descriptor is in the scanned range and has a slot in the vector of that direction.
\<close>

theorem select_wf:
  assumes "sel_wf m" "0 \<le> fd"
  shows "(case sel_add_fd_watch alloc fd u flags en soft m of
      (Inl e, m') \<Rightarrow> FD_SETSIZE \<le> fd \<and> e = System_error EMFILE \<and> m' = m \<or>
        fd < FD_SETSIZE \<and> \<not> alloc (nat (fd + 1)) \<and> e = Bad_alloc \<and> \<not> sel_wf m'
    | (Inr b, m') \<Rightarrow> fd < FD_SETSIZE \<and> b \<and> sel_wf m' \<and>
        (if flags AND IN_EVENTS \<noteq> 0 then fd \<in> read_set m' \<and> rd_udata m' ! nat fd = u
         else fd \<in> write_set m' \<and> wr_udata m' ! nat fd = u)) \<and>
    (case sel_add_bidi_fd_watch alloc fd u flags em m of
      (Inl e, m') \<Rightarrow> FD_SETSIZE \<le> fd \<and> e = System_error EMFILE \<and> m' = m \<or>
        fd < FD_SETSIZE \<and> \<not> alloc (nat (fd + 1)) \<and> e = Bad_alloc \<and> \<not> sel_wf m'
    | (Inr r, m') \<Rightarrow> fd < FD_SETSIZE \<and> r = 0 \<and> sel_wf m' \<and>
        (flags AND IN_EVENTS \<noteq> 0 \<longrightarrow> fd \<in> read_set m' \<and> rd_udata m' ! nat fd = u) \<and>
        (flags AND OUT_EVENTS \<noteq> 0 \<longrightarrow> fd \<in> write_set m' \<and> wr_udata m' ! nat fd = u)) \<and>
    sel_wf (sel_disable_fd_watch fd flags m) \<and> sel_wf (sel_remove_bidi_fd_watch fd m) \<and>
    (vec_has fd (rd_udata m) \<and> vec_has fd (wr_udata m) \<longrightarrow> sel_wf (sel_remove_fd_watch fd flags m)) \<and>
    (fd \<le> max_fd m \<and> vec_has fd (if flags AND IN_EVENTS \<noteq> 0 then rd_udata m else wr_udata m) \<longrightarrow>
       sel_wf (sel_enable_fd_watch fd u flags m))"
proof (intro conjI impI sel_add_wf sel_add_bidi_wf assms)
  show "sel_wf (sel_disable_fd_watch fd flags m)" "sel_wf (sel_remove_bidi_fd_watch fd m)"
    using assms by (auto simp: sel_wf_def sel_disable_fd_watch_def sel_remove_bidi_fd_watch_def)
  show "sel_wf (sel_remove_fd_watch fd flags m)" if "vec_has fd (rd_udata m) \<and> vec_has fd (wr_udata m)"
    using assms that by (auto simp: sel_wf_def sel_remove_fd_watch_def Let_def)
  show "sel_wf (sel_enable_fd_watch fd u flags m)"
    if "fd \<le> max_fd m \<and> vec_has fd (if flags AND IN_EVENTS \<noteq> 0 then rd_udata m else wr_udata m)"
    using assms that by (auto simp: sel_wf_def sel_enable_fd_watch_def split: if_splits)
qed

definition empty_select :: "unit select_events" where
  "empty_select = \<lparr>active_sigmask = {}, sig_userdata = \<lambda>_. Nullptr, prepared = {}, read_set = {}, write_set = {},
     max_fd = 0, rd_udata = [], wr_udata = [], poll_sigmask = {}, sel_ub = False, sel_kern = ()\<rparr>"

theorem select_wf_witness:
  "sel_wf (snd (sel_add_fd_watch (\<lambda>_. True) 5 (Watcher (W 0)) IN_EVENTS True False empty_select)) \<and>
   (case sel_add_bidi_fd_watch (\<lambda>_. False) 5 (Watcher (W 0)) IO_EVENTS True empty_select of
      (Inl e, m) \<Rightarrow> e = Bad_alloc \<and> \<not> sel_wf m | (Inr r, m) \<Rightarrow> r = 0 \<and> sel_wf m)"
proof -
  have e: "sel_wf empty_select" by (simp add: sel_wf_def empty_select_def)
  have "fst (sel_add_fd_watch (\<lambda>_. True) 5 (Watcher (W 0)) IN_EVENTS True False empty_select) = Inr True"
    by (simp add: sel_add_fd_watch_def sel_watch_rd_def FD_SETSIZE_def flag_defs Let_def)
  with select_wf [OF e, where fd = 5 and alloc = "\<lambda>_. True" and u = "Watcher (W 0)" and flags = IN_EVENTS and en = True and soft = False,
      THEN conjunct1]
  have "sel_wf (snd (sel_add_fd_watch (\<lambda>_. True) 5 (Watcher (W 0)) IN_EVENTS True False empty_select))"
    by (simp add: case_prod_beta)
  moreover have "FD_SETSIZE = 1024" by (simp add: FD_SETSIZE_def)
  with select_wf [OF e, where fd = 5 and alloc = "\<lambda>_. False" and u = "Watcher (W 0)" and flags = IO_EVENTS and em = True,
      THEN conjunct2, THEN conjunct1]
  have "case sel_add_bidi_fd_watch (\<lambda>_. False) 5 (Watcher (W 0)) IO_EVENTS True empty_select of
      (Inl e, m) \<Rightarrow> e = Bad_alloc \<and> \<not> sel_wf m | (Inr r, m) \<Rightarrow> r = 0 \<and> sel_wf m"
    by (auto split: prod.splits sum.splits)
  ultimately show ?thesis by (rule conjI)
qed

text \<open>
  Enabling a direction that was not watched when the bi-directional watch was added puts the descriptor
  into the set without a slot for its user data: the next report for it reads the vector out of
  bounds.
\<close>

theorem select_enable_unwatched_direction:
  fixes u :: ep_ptr and em :: bool
  assumes "fd < FD_SETSIZE" "0 \<le> fd" "int (length (wr_udata m)) \<le> fd" "0 \<le> max_fd m"
  defines "m' \<equiv> sel_enable_fd_watch fd u (OUT_EVENTS OR ONE_SHOT) (snd (sel_add_bidi_fd_watch (\<lambda>_. True) fd u IN_EVENTS em m))"
  shows "fd \<in> write_set m' \<and> \<not> vec_has fd (wr_udata m') \<and>
    sel_ub (mech (sel_report_wr rf {fd} {} fd (s\<lparr>mech := m'\<rparr>)))"
  using assms
  by (simp add: sel_enable_fd_watch_def sel_add_bidi_fd_watch_def sel_watch_rd_def vec_has_def Let_def flag_defs
      sel_report_wr_def)

theorem select_enable_unwatched_direction_witness:
  "sel_ub (mech (sel_report_wr (\<lambda>_ _ s. ((0, 0), s)) {5} {} 5 (with_mech
     (sel_enable_fd_watch 5 (Watcher (W 0)) (OUT_EVENTS OR ONE_SHOT)
       (snd (sel_add_bidi_fd_watch (\<lambda>_. True) 5 (Watcher (W 0)) IN_EVENTS True empty_select))) (idle_loop 2 (\<lambda>_. idle_watcher)))))"
  using select_enable_unwatched_direction [of 5 empty_select "Watcher (W 0)" True "\<lambda>_ _ s. ((0, 0), s)"
      "with_mech empty_select (idle_loop 2 (\<lambda>_. idle_watcher))"]
  by (simp add: FD_SETSIZE_def empty_select_def with_mech_def)

section \<open>The scans\<close>

definition multi :: "'z disp_scheme \<Rightarrow> waddr \<Rightarrow> bool" where
  "multi s a \<longleftrightarrow> watch_flags (mem s a) AND multi_watch \<noteq> 0"

text \<open>The watcher a report is queued as: the output half of a bi-directional watcher for an output report.\<close>

definition tgt :: "'z disp_scheme \<Rightarrow> 32 word \<Rightarrow> waddr \<Rightarrow> waddr" where
  "tgt s ev a = (if multi s a \<and> ev = OUT_EVENTS then out_of a else a)"

lemma receive_sep:
  fixes ev :: "32 word"
  assumes "reg_ok E A s" "tgt s ev a \<in> A" "\<not> is_queued s (tgt s ev a)" "ev = IN_EVENTS \<or> ev = OUT_EVENTS"
  defines "res \<equiv> receive_fd_event E True a ev s"
  shows "fst (fst res) = 0" "reg_ok E A (snd res)" "is_queued (snd res) (tgt s ev a)" "fault (snd res) = fault s"
    "lock_held (snd res) = lock_held s" "b \<in> A \<Longrightarrow> b \<noteq> tgt s ev a \<Longrightarrow> is_queued (snd res) b = is_queued s b"
    "multi (snd res) b = multi s b"
proof -
  let ?u = "upd a (\<lambda>w. w\<lparr>event_flags := event_flags w OR ev\<rparr>) s"
  let ?s = "if multi s a then upd a (\<lambda>w. w\<lparr>watch_flags := watch_flags w AND NOT ev\<rparr>) ?u else ?u"
  have ev: "ev AND NOT IO_EVENTS = 0" using assms(4) by (auto simp: flag_defs)
  have io: "ev AND IN_EVENTS \<noteq> 0 \<longleftrightarrow> ev = IN_EVENTS" "ev AND OUT_EVENTS \<noteq> 0 \<longleftrightarrow> ev = OUT_EVENTS" "IN_EVENTS \<noteq> OUT_EVENTS"
    using assms(4) by (auto simp: flag_defs)
  have res: "res = ((0, watch_fd (mem s a)), queue_watcher E (tgt s ev a) ?s)"
    using io by (auto simp: res_def receive_fd_event_def Let_def tgt_def multi_def)
  have s: "reg_ok E A ?s" "\<not> is_queued ?s (tgt s ev a)" using assms by simp_all
  note q = queue_ok [OF s(1) assms(2) s(2)]
  show "fst (fst res) = 0" "reg_ok E A (snd res)" "is_queued (snd res) (tgt s ev a)" "fault (snd res) = fault s"
    "lock_held (snd res) = lock_held s" using q(1-3) by (simp_all add: res)
  show "b \<in> A \<Longrightarrow> b \<noteq> tgt s ev a \<Longrightarrow> is_queued (snd res) b = is_queued s b" using q(4) by (simp add: res)
  show "multi (snd res) b = multi s b" by (simp add: res multi_def multi_watch_kept [OF ev])
qed

lemma receive_sep_mech [simp]: "mech (snd (receive_fd_event E sep a ev s)) = mech s"
  by (simp add: receive_fd_event_def Let_def case_prod_beta)

lemma tgt_cong: "(\<And>b. multi t b = multi s b) \<Longrightarrow> tgt t ev a = tgt s ev a"
  by (simp add: tgt_def)

text \<open>
  \<open>reportable ev ud A w I s\<close>: the descriptors \<open>I\<close> have the watchers \<open>w\<close> as user data in \<open>ud\<close>, which are
  registered, not queued, and different.
\<close>

definition reportable ::
  "32 word \<Rightarrow> ep_ptr list \<Rightarrow> waddr set \<Rightarrow> (int \<Rightarrow> waddr) \<Rightarrow> int set \<Rightarrow> 'z disp_scheme \<Rightarrow> bool" where
  "reportable ev ud A w I s \<longleftrightarrow> inj_on (\<lambda>i. tgt s ev (w i)) I \<and>
     (\<forall>i \<in> I. vec_has i ud \<and> ud ! nat i = Watcher (w i) \<and> tgt s ev (w i) \<in> A \<and> \<not> is_queued s (tgt s ev (w i)))"

locale fd_scan =
  fixes E :: heap_env and ev :: "32 word"
    and step :: "int set \<Rightarrow> int set \<Rightarrow> int \<Rightarrow> 'k sel_state \<Rightarrow> 'k sel_state"
    and watched :: "'k select_events \<Rightarrow> int set" and udata :: "'k select_events \<Rightarrow> ep_ptr list"
    and unwatch :: "int \<Rightarrow> 'k select_events \<Rightarrow> 'k select_events"
  assumes dir: "ev = IN_EVENTS \<or> ev = OUT_EVENTS"
    and miss: "i \<notin> ready \<or> i \<notin> watched (mech s) \<Longrightarrow> step ready err i s = s"
    and hit: "i \<in> ready \<Longrightarrow> i \<in> watched (mech s) \<Longrightarrow> vec_has i (udata (mech s)) \<Longrightarrow>
      udata (mech s) ! nat i = Watcher a \<Longrightarrow> fst (fst (receive_fd_event E True a ev s)) = 0 \<Longrightarrow>
      step ready {} i s = mech_do (unwatch i) (snd (receive_fd_event E True a ev s))"
    and unwatch_watched: "watched (unwatch i m) = watched m - {i}" and unwatch_udata: "udata (unwatch i m) = udata m"
begin

text \<open>The descriptors a scan of \<open>is\<close> reports.\<close>

definition hits :: "int set \<Rightarrow> int list \<Rightarrow> 'k sel_state \<Rightarrow> int set" where
  "hits ready is s = ready \<inter> watched (mech s) \<inter> set is"

lemma scan:
  assumes "reg_ok E A s" "distinct is" "reportable ev (udata (mech s)) A w (hits ready is s) s"
  shows "\<exists>s'. fold (step ready {}) is s = s' \<and> reg_ok E A s' \<and> fault s' = fault s \<and> lock_held s' = lock_held s \<and>
    mech s' = fold unwatch (filter (\<lambda>i. i \<in> ready \<inter> watched (mech s)) is) (mech s) \<and>
    (\<forall>b \<in> A. is_queued s' b \<longleftrightarrow> is_queued s b \<or> b \<in> (\<lambda>i. tgt s ev (w i)) ` hits ready is s) \<and>
    (\<forall>b. multi s' b = multi s b)"
  using assms
proof (induction "is" arbitrary: s)
  case Nil
  then show ?case by (simp add: hits_def)
next
  case (Cons i js)
  show ?case
  proof (cases "i \<in> ready \<inter> watched (mech s)")
    case False
    then have "hits ready (i # js) s = hits ready js s" by (auto simp: hits_def)
    with Cons.IH [OF Cons.prems(1)] Cons.prems False miss [of i ready s "{}"] show ?thesis by auto
  next
    case True
    let ?t = "tgt s ev (w i)"
    have i: "i \<in> hits ready (i # js) s" using True by (simp add: hits_def)
    have u: "vec_has i (udata (mech s))" "udata (mech s) ! nat i = Watcher (w i)" "?t \<in> A" "\<not> is_queued s ?t"
      and inj: "inj_on (\<lambda>i. tgt s ev (w i)) (hits ready (i # js) s)"
      using Cons.prems(3) i by (auto simp: reportable_def)
    note r = receive_sep [OF Cons.prems(1) u(3,4) dir]
    define t where "t = mech_do (unwatch i) (snd (receive_fd_event E True (w i) ev s))"
    have st: "step ready {} i s = t" using hit [OF _ _ u(1,2) r(1)] True by (simp add: t_def)
    have mt: "multi t b = multi s b" for b using r(7) by (simp add: t_def multi_def)
    have wt: "watched (mech t) = watched (mech s) - {i}" by (simp add: t_def unwatch_watched)
    have ht: "hits ready js t = hits ready (i # js) s - {i}" using Cons.prems(2) by (auto simp: hits_def wt)
    have tg: "tgt t ev a = tgt s ev a" for a by (rule tgt_cong [OF mt])
    have rep: "reportable ev (udata (mech t)) A w (hits ready js t) t"
      unfolding reportable_def
    proof (intro conjI ballI)
      show "inj_on (\<lambda>i. tgt t ev (w i)) (hits ready js t)" using inj by (auto simp: tg ht inj_on_def)
      fix j assume j: "j \<in> hits ready js t"
      then have j': "j \<in> hits ready (i # js) s" "j \<noteq> i" by (auto simp: ht)
      then have ne: "tgt s ev (w j) \<noteq> ?t" using inj i by (auto simp: inj_on_def)
      have p: "vec_has j (udata (mech s))" "udata (mech s) ! nat j = Watcher (w j)" "tgt s ev (w j) \<in> A"
        "\<not> is_queued s (tgt s ev (w j))" using Cons.prems(3) j' by (auto simp: reportable_def)
      then show "vec_has j (udata (mech t))" "udata (mech t) ! nat j = Watcher (w j)" "tgt t ev (w j) \<in> A"
        by (simp_all add: t_def unwatch_udata tg [unfolded t_def])
      show "\<not> is_queued t (tgt t ev (w j))" using r(6) [OF p(3) ne] p(4) by (simp add: t_def tg [unfolded t_def])
    qed
    have fl: "filter (\<lambda>j. j \<in> ready \<inter> watched (mech t)) js = filter (\<lambda>j. j \<in> ready \<inter> watched (mech s)) js"
      using Cons.prems(2) by (intro filter_cong) (auto simp: wt)
    have "reg_ok E A t" using r(2) by (simp add: t_def)
    from Cons.IH [OF this _ rep] Cons.prems(2) obtain s' where s':
      "fold (step ready {}) js t = s'" "reg_ok E A s'" "fault s' = fault t" "lock_held s' = lock_held t"
      "mech s' = fold unwatch (filter (\<lambda>j. j \<in> ready \<inter> watched (mech t)) js) (mech t)"
      "\<forall>b \<in> A. is_queued s' b \<longleftrightarrow> is_queued t b \<or> b \<in> (\<lambda>i. tgt t ev (w i)) ` hits ready js t"
      "\<forall>b. multi s' b = multi t b" by auto
    have q: "is_queued t b \<longleftrightarrow> is_queued s b \<or> b = ?t" if "b \<in> A" for b
      using r(3) r(6) [OF that] by (auto simp: t_def)
    have "insert i (hits ready js t) = hits ready (i # js) s" using i by (auto simp: ht)
    then have "(\<lambda>i. tgt s ev (w i)) ` hits ready (i # js) s = insert ?t ((\<lambda>i. tgt t ev (w i)) ` hits ready js t)"
      by (metis (no_types, lifting) image_cong image_insert tg)
    then have "\<forall>b \<in> A. is_queued s' b \<longleftrightarrow> is_queued s b \<or> b \<in> (\<lambda>i. tgt s ev (w i)) ` hits ready (i # js) s"
      using s'(6) q by auto
    moreover have "mech s' = fold unwatch (filter (\<lambda>j. j \<in> ready \<inter> watched (mech s)) (i # js)) (mech s)"
      using True s'(5) fl by (simp add: t_def)
    ultimately show ?thesis using s'(1-4,7) r(4,5) mt st by (intro exI [of _ s']) (simp add: t_def)
  qed
qed

end

interpretation rd_scan: fd_scan E IN_EVENTS "sel_report_rd (ed_receive_fd_event E True)" read_set rd_udata
  "\<lambda>i m. m\<lparr>read_set := read_set m - {i}\<rparr>" for E
  by unfold_locales (auto simp: sel_report_rd_def case_prod_beta Let_def)

interpretation wr_scan: fd_scan E OUT_EVENTS "sel_report_wr (ed_receive_fd_event E True)" write_set wr_udata
  "\<lambda>i m. m\<lparr>write_set := write_set m - {i}\<rparr>" for E
  by unfold_locales (auto simp: sel_report_wr_def case_prod_beta Let_def)

lemma unwatch_rd: "fold (\<lambda>i m. m\<lparr>read_set := read_set m - {i}\<rparr>) xs m = m\<lparr>read_set := read_set m - set xs\<rparr>"
  by (induction xs arbitrary: m) (simp_all add: Diff_insert2 [symmetric])

lemma unwatch_wr: "fold (\<lambda>i m. m\<lparr>write_set := write_set m - {i}\<rparr>) xs m = m\<lparr>write_set := write_set m - set xs\<rparr>"
  by (induction xs arbitrary: m) (simp_all add: Diff_insert2 [symmetric])

text \<open>
  C36: after a poll, exactly the descriptors that are ready and watched are reported: their watchers (for an output
  report the output half of a bi-directional one) are queued, the descriptors leave the set they were ready
  in, so that each report is made once, and nothing else changes; the lock is free again. Error conditions are
  left out here.
\<close>

theorem select_reports:
  fixes rd wr :: "int set"
  assumes "reg_ok E A s" "\<not> lock_held s" "\<not> fault s"
  defines "m \<equiv> mech s"
  defines "R \<equiv> rd \<inter> read_set m \<inter> {0..max_fd m}" and "T \<equiv> wr \<inter> write_set m \<inter> {0..max_fd m}"
  assumes R: "reportable IN_EVENTS (rd_udata m) A ra R s" and T: "reportable OUT_EVENTS (wr_udata m) A wa T s"
    and disj: "(\<lambda>i. tgt s IN_EVENTS (ra i)) ` R \<inter> (\<lambda>i. tgt s OUT_EVENTS (wa i)) ` T = {}"
  defines "s' \<equiv> sel_process_events (ed_receive_fd_event E True) rd wr {} s"
  shows "reg_ok E A s' \<and> \<not> lock_held s' \<and> \<not> fault s' \<and>
    mech s' = m\<lparr>read_set := read_set m - R, write_set := write_set m - T\<rparr> \<and>
    (\<forall>b \<in> A. is_queued s' b \<longleftrightarrow> is_queued s b \<or>
       b \<in> (\<lambda>i. tgt s IN_EVENTS (ra i)) ` R \<or> b \<in> (\<lambda>i. tgt s OUT_EVENTS (wa i)) ` T)"
proof -
  let ?s = "lock_base s" and ?is = "[0..max_fd m]"
  have tl: "tgt ?s = tgt s" by (simp add: tgt_def multi_def fun_eq_iff)
  have hR: "rd_scan.hits rd ?is ?s = R" by (auto simp: rd_scan.hits_def R_def m_def)
  have R': "reportable IN_EVENTS (rd_udata (mech ?s)) A ra R ?s" using R by (simp add: reportable_def tl m_def)
  have l: "reg_ok E A ?s" using assms(1) by simp
  have dR: "read_set m - set (filter (\<lambda>i. i \<in> rd \<inter> read_set (mech ?s)) ?is) = read_set m - R"
    by (auto simp: R_def m_def)
  from rd_scan.scan [OF l _ R' [folded hR], unfolded unwatch_rd hR tl] obtain t where
    t: "fold (sel_report_rd (ed_receive_fd_event E True) rd {}) ?is ?s = t" "reg_ok E A t" "fault t = fault ?s"
    "lock_held t" "mech t = m\<lparr>read_set := read_set m - R\<rparr>"
    "\<forall>b \<in> A. is_queued t b \<longleftrightarrow> is_queued s b \<or> b \<in> (\<lambda>i. tgt s IN_EVENTS (ra i)) ` R" "\<forall>b. multi t b = multi s b"
    using dR by (auto simp: m_def multi_def)
  have tt: "tgt t = tgt s" using t(7) by (simp add: tgt_def fun_eq_iff)
  have mf: "max_fd (mech t) = max_fd m" by (simp add: t(5))
  have hT: "wr_scan.hits wr ?is t = T" by (auto simp: wr_scan.hits_def T_def t(5))
  have T': "reportable OUT_EVENTS (wr_udata (mech t)) A wa T t"
    using T t(6) disj by (auto simp: reportable_def tt t(5))
  have dT: "write_set m - set (filter (\<lambda>i. i \<in> wr \<inter> write_set (mech t)) ?is) = write_set m - T"
    by (auto simp: T_def t(5))
  from wr_scan.scan [OF t(2) _ T' [folded hT], unfolded unwatch_wr hT tt] obtain v where
    v: "fold (sel_report_wr (ed_receive_fd_event E True) wr {}) ?is t = v" "reg_ok E A v" "fault v = fault t"
    "lock_held v" "mech v = (mech t)\<lparr>write_set := write_set m - T\<rparr>"
    "\<forall>b \<in> A. is_queued v b \<longleftrightarrow> is_queued t b \<or> b \<in> (\<lambda>i. tgt s OUT_EVENTS (wa i)) ` T"
    using dT t(4) by (auto simp: t(5))
  have "s' = unlock_base v"
    using t(1) v(1) mf by (simp add: s'_def sel_process_events_def Let_def m_def)
  then show ?thesis using v t assms(2,3) by (simp add: disj_ac)
qed

text \<open>Descriptor 5 is watched for input by \<open>W 0\<close>, 6 for input and output by \<open>W 1\<close>, 7 for input by \<open>W 2\<close>.\<close>

definition sample_select :: "unit sel_state" where
  "sample_select = with_mech (empty_select\<lparr>read_set := {5, 6, 7}, write_set := {6}, max_fd := 7,
       rd_udata := replicate 5 Nullptr @ [Watcher (W 0), Watcher (W 1), Watcher (W 2)],
       wr_udata := replicate 6 Nullptr @ [Watcher (W 1)]\<rparr>)
     (idle_loop 4 ((\<lambda>_. idle_watcher)(W 1 := idle_watcher\<lparr>watch_flags := IO_EVENTS OR multi_watch\<rparr>)))"

theorem select_reports_witness:
  "let s' = sel_process_events (ed_receive_fd_event (henv sample_env) True) {5} {6} {} sample_select in
   read_set (mech s') = {6, 7} \<and> write_set (mech s') = {} \<and> is_queued s' (W 0) \<and> is_queued s' (Out 1) \<and>
   \<not> is_queued s' (W 1) \<and> \<not> is_queued s' (W 2)"
proof -
  let ?s = "sample_select" and ?A = "{W 0, W 1, Out 1, W 2}"
  have m: "mech ?s = empty_select\<lparr>read_set := {5, 6, 7}, write_set := {6}, max_fd := 7,
       rd_udata := replicate 5 Nullptr @ [Watcher (W 0), Watcher (W 1), Watcher (W 2)],
       wr_udata := replicate 6 Nullptr @ [Watcher (W 1)]\<rparr>" by (simp add: sample_select_def)
  have s: "reg_ok (henv sample_env) ?A ?s" "\<not> lock_held ?s" "\<not> fault ?s" "\<And>a. \<not> is_queued ?s a"
    by (simp_all add: sample_select_def idle_reg)
  have tg: "tgt ?s IN_EVENTS a = a" "tgt ?s OUT_EVENTS (W 1) = Out 1" for a
    by (simp_all add: tgt_def multi_def sample_select_def out_of_def flag_defs)
  have sets: "{5} \<inter> read_set (mech ?s) \<inter> {0..max_fd (mech ?s)} = {5}" "{6} \<inter> write_set (mech ?s) \<inter> {0..max_fd (mech ?s)} = {6}"
    by (auto simp: m)
  have "reportable IN_EVENTS (rd_udata (mech ?s)) ?A (\<lambda>_. W 0) {5} ?s"
    "reportable OUT_EVENTS (wr_udata (mech ?s)) ?A (\<lambda>_. W 1) {6} ?s"
    using s(4) tg by (simp_all add: reportable_def vec_has_def m nth_append)
  from select_reports [OF s(1-3), where rd = "{5}" and wr = "{6}", unfolded sets, OF this] tg s(4)
  show ?thesis by (auto simp: m Let_def)
qed

text \<open>
  With \<open>pselect\<close>, a signal that arrives during the poll makes its signal inactive but leaves it unblocked in the mask of
  the repeated poll (the code removes it from a mask that holds the blocked signals): if it
  arrives again, its watcher, which is queued, is queued again.
\<close>

theorem pselect_signal_not_blocked:
  assumes "reg_ok E A s" "a \<in> A" "\<not> is_queued s a" "sig_userdata (mech s) signo = Watcher a" "0 < signo" "signo < NSIG"
  defines "s' \<equiv> ps_landed (ed_receive_signal E) signo s"
  shows "is_queued s' a \<and> signo \<notin> sg_active False (mech s') \<and> signo \<notin> poll_sigmask (mech s') \<and>
    sig_userdata (mech s') signo = Watcher a"
proof -
  let ?t = "upd a (siginfo_update (\<lambda>_. signo)) (lock_base s)"
  have t: "reg_ok E A ?t" "\<not> is_queued ?t a" using assms(1,3) by simp_all
  note q = queue_ok [OF t(1) assms(2) t(2)]
  show ?thesis
    using q(1-3) assms(4)
    by (simp add: s'_def ps_landed_def sg_process_signal_mask_def receive_signal_def Let_def)
       (simp add: sg_active_def sg_off_def)
qed

theorem pselect_signal_not_blocked_witness:
  "let m = empty_select\<lparr>active_sigmask := {1..<NSIG} - {10}, sig_userdata := (\<lambda>_. Nullptr)(10 := Watcher (W 0)),
         prepared := {10}, poll_sigmask := {12}\<rparr>;
       s' = ps_landed (ed_receive_signal (henv sample_env)) 10 (with_mech m (idle_loop 1 (\<lambda>_. idle_watcher)))
   in is_queued s' (W 0) \<and> 10 \<notin> poll_sigmask (mech s')"
proof -
  let ?m = "empty_select\<lparr>active_sigmask := {1..<NSIG} - {10}, sig_userdata := (\<lambda>_. Nullptr)(10 := Watcher (W 0)),
         prepared := {10}, poll_sigmask := {12}\<rparr>"
  let ?s = "with_mech ?m (idle_loop 1 (\<lambda>_. idle_watcher))"
  have "reg_ok (henv sample_env) {W 0} ?s" by (simp add: idle_reg)
  with pselect_signal_not_blocked [of "henv sample_env" "{W 0}" ?s "W 0" 10] show ?thesis
    by (simp add: NSIG_def Let_def)
qed

end
