(* ===== verification/Epoll_Props.thy ===== *)
theory Epoll_Props
  imports Register_Props
begin

text \<open>
  The epoll mechanism together with the dispatcher: what a batch of kernel events does to the event
  queue and to the interest list, and how signals are masked while they wait to be handled.
\<close>

lemma sys_do_simps [simp]:
  "epfd (snd (sys_do f m)) = epfd m" "sigfd (snd (sys_do f m)) = sigfd m" "sigmask (snd (sys_do f m)) = sigmask m"
  "sigdataMap (snd (sys_do f m)) = sigdataMap m" "kern (snd (sys_do f m)) = snd (f (kern m))"
  "fst (sys_do f m) = fst (f (kern m))"
  by (simp_all add: sys_do_def case_prod_beta)

section \<open>File descriptor events\<close>

text \<open>An event for an ordinary watcher that is not queued.\<close>

lemma receive_plain:
  fixes sep :: bool and flags :: "32 word"
  assumes "reg_ok E A s" "a \<in> A" "\<not> is_queued s a" "watch_flags (mem s a) AND multi_watch = 0"
  defines "res \<equiv> receive_fd_event E sep a flags s"
  shows "fst res = (0, watch_fd (mem s a))" "reg_ok E A (snd res)" "is_queued (snd res) a"
    "fault (snd res) = fault s" "b \<in> A \<Longrightarrow> b \<noteq> a \<Longrightarrow> is_queued (snd res) b = is_queued s b"
    "mem (snd res) = (mem s)(a := (mem s a)\<lparr>event_flags := event_flags (mem s a) OR flags\<rparr>)"
    "removed (snd res) = removed s" "lock_held (snd res) = lock_held s"
proof -
  let ?s = "upd a (\<lambda>w. w\<lparr>event_flags := event_flags w OR flags\<rparr>) s"
  have s: "reg_ok E A ?s" "\<not> is_queued ?s a" using assms by simp_all
  note q = queue_ok [OF s(1) assms(2) s(2)]
  have res: "res = ((0, watch_fd (mem s a)), queue_watcher E a ?s)"
    using assms(4) by (simp add: res_def receive_fd_event_def Let_def)
  show "fst res = (0, watch_fd (mem s a))" "reg_ok E A (snd res)" "is_queued (snd res) a" "fault (snd res) = fault s"
    "mem (snd res) = (mem s)(a := (mem s a)\<lparr>event_flags := event_flags (mem s a) OR flags\<rparr>)"
    "removed (snd res) = removed s" "lock_held (snd res) = lock_held s"
    using q by (simp_all add: res)
  show "b \<in> A \<Longrightarrow> b \<noteq> a \<Longrightarrow> is_queued (snd res) b = is_queued s b" using q(4) by (simp add: res)
qed

text \<open>The events of one batch for ordinary watchers: \<open>(address, kernel event mask)\<close>.\<close>

definition fd_batch :: "(waddr \<times> 32 word) list \<Rightarrow> epoll_event list" where
  "fd_batch es = map (\<lambda>(a, ev). \<lparr>events = ev, ptr = Watcher a\<rparr>) es"

lemma process_batch:
  assumes "reg_ok E A s" "fst ` set es \<subseteq> A" "distinct (map fst es)"
    and "\<forall>a \<in> fst ` set es. \<not> is_queued s a \<and> watch_flags (mem s a) AND multi_watch = 0"
  shows "\<exists>s'. ep_process_loop Y rs (ed_receive_fd_event E False) (fd_batch es) s = Some s' \<and> reg_ok E A s' \<and>
    fault s' = fault s \<and> lock_held s' = lock_held s \<and> removed s' = removed s \<and> mech s' = mech s \<and>
    (\<forall>b \<in> A. is_queued s' b \<longleftrightarrow> is_queued s b \<or> b \<in> fst ` set es) \<and>
    (\<forall>b. mem s' b = (case map_of es b of None \<Rightarrow> mem s b
       | Some ev \<Rightarrow> (mem s b)\<lparr>event_flags := event_flags (mem s b) OR ep_flags ev\<rparr>))"
  using assms
proof (induction es arbitrary: s)
  case Nil
  then show ?case by (simp add: fd_batch_def)
next
  case (Cons e es)
  obtain a ev where e: "e = (a, ev)" by fastforce
  have a: "a \<in> A" "\<not> is_queued s a" "watch_flags (mem s a) AND multi_watch = 0" "a \<notin> fst ` set es"
    using Cons.prems by (auto simp: e)
  let ?r = "receive_fd_event E False a (ep_flags ev) s"
  note r = receive_plain [OF Cons.prems(1) a(1-3), where sep = False and flags = "ep_flags ev"]
  have m: "mech (snd ?r) = mech s" using a(3) by (simp add: receive_fd_event_def Let_def)
  have ne: "b \<noteq> a" if "b \<in> fst ` set es" for b using that a(4) by blast
  have nq: "\<forall>b \<in> fst ` set es. \<not> is_queued (snd ?r) b \<and> watch_flags (mem (snd ?r) b) AND multi_watch = 0"
  proof
    fix b assume b: "b \<in> fst ` set es"
    then have "b \<in> A" "\<not> is_queued s b \<and> watch_flags (mem s b) AND multi_watch = 0" using Cons.prems by auto
    then show "\<not> is_queued (snd ?r) b \<and> watch_flags (mem (snd ?r) b) AND multi_watch = 0"
      using r(5) [of b] ne [OF b] by (simp add: r(6))
  qed
  have "\<exists>s'. ep_process_loop Y rs (ed_receive_fd_event E False) (fd_batch es) (snd ?r) = Some s' \<and> reg_ok E A s' \<and>
    fault s' = fault (snd ?r) \<and> lock_held s' = lock_held (snd ?r) \<and> removed s' = removed (snd ?r) \<and>
    mech s' = mech (snd ?r) \<and> (\<forall>b \<in> A. is_queued s' b \<longleftrightarrow> is_queued (snd ?r) b \<or> b \<in> fst ` set es) \<and>
    (\<forall>b. mem s' b = (case map_of es b of None \<Rightarrow> mem (snd ?r) b
       | Some ev \<Rightarrow> (mem (snd ?r) b)\<lparr>event_flags := event_flags (mem (snd ?r) b) OR ep_flags ev\<rparr>))"
    using Cons.prems by (intro Cons.IH r(2) nq) (auto simp: e)
  then obtain s' where s': "ep_process_loop Y rs (ed_receive_fd_event E False) (fd_batch es) (snd ?r) = Some s'"
    "reg_ok E A s'" "fault s' = fault s" "lock_held s' = lock_held s" "removed s' = removed s" "mech s' = mech s"
    "\<forall>b \<in> A. is_queued s' b \<longleftrightarrow> is_queued (snd ?r) b \<or> b \<in> fst ` set es"
    "\<forall>b. mem s' b = (case map_of es b of None \<Rightarrow> mem (snd ?r) b
       | Some ev \<Rightarrow> (mem (snd ?r) b)\<lparr>event_flags := event_flags (mem (snd ?r) b) OR ep_flags ev\<rparr>)"
    using r(4,7,8) m by auto
  have "map_of es a = None" using a(4) by (simp add: map_of_eq_None_iff)
  moreover have "fst ?r = (0, watch_fd (mem s a))" by (rule r(1))
  ultimately show ?case
    using s' r(3,5,6)
    by (intro exI [of _ s']) (auto simp: e fd_batch_def case_prod_beta split: option.splits)
qed

text \<open>
  C30: a batch of kernel events, at most one each for registered, unqueued watchers that are not bi-directional
  (\<open>multi_watch\<close> is not among their flags), is processed without fault under the lock, which
  is free again afterwards: exactly their watchers are queued, each with the flags of its event (errors included) added to its
  pending flags, no descriptor is armed again, and nothing else changes. Events of bi-directional watchers, which do
  arm the descriptor again, are treated next.
\<close>

theorem epoll_batch:
  assumes "reg_ok E A s" "fst ` set es \<subseteq> A" "distinct (map fst es)" "\<not> lock_held s" "\<not> fault s"
    and "\<forall>a \<in> fst ` set es. \<not> is_queued s a \<and> watch_flags (mem s a) AND multi_watch = 0"
  shows "\<exists>s'. ep_process_events Y rs (ed_receive_fd_event E False) (fd_batch es) s = Some s' \<and> reg_ok E A s' \<and>
    \<not> fault s' \<and> \<not> lock_held s' \<and> removed s' = removed s \<and> mech s' = mech s \<and>
    (\<forall>b \<in> A. is_queued s' b \<longleftrightarrow> is_queued s b \<or> b \<in> fst ` set es) \<and>
    (\<forall>b. mem s' b = (case map_of es b of None \<Rightarrow> mem s b
       | Some ev \<Rightarrow> (mem s b)\<lparr>event_flags := event_flags (mem s b) OR ep_flags ev\<rparr>))"
  using process_batch [of E A "lock_base s" es Y rs] assms
  by (auto simp: ep_process_events_def cong: option.case_cong)

theorem epoll_batch_witness:
  "\<exists>s'. ep_process_events sample_sys (\<lambda>_ _ s. (True, s)) (ed_receive_fd_event (henv sample_env) False)
      (fd_batch [(W 1, EPOLLIN OR EPOLLHUP), (W 0, EPOLLOUT)]) (idle_loop 3 (\<lambda>_. idle_watcher)) = Some s' \<and>
    is_queued s' (W 0) \<and> is_queued s' (W 1) \<and> \<not> is_queued s' (W 2) \<and> \<not> lock_held s' \<and>
    event_flags (mem s' (W 1)) = IN_EVENTS OR ERR_EVENTS"
proof -
  let ?es = "[(W 1, EPOLLIN OR EPOLLHUP), (W 0, EPOLLOUT)]"
  have "reg_ok (henv sample_env) {W 0, W 1, W 2} (idle_loop 3 (\<lambda>_. idle_watcher))" by (simp add: idle_reg)
  from epoll_batch [OF this, of ?es sample_sys "\<lambda>_ _ s. (True, s)"] show ?thesis
    by (auto simp: idle_watcher_def flag_defs ep_flags_def EPOLLIN_def EPOLLOUT_def EPOLLHUP_def EPOLLERR_def Let_def)
qed

text \<open>
  C31: an event of readiness, without error or hang-up, on a bi-directional watcher with both halves unqueued, which
  the kernel has disarmed for both directions, queues the halves it is
  for, and the descriptor is armed again in the kernel, once, for exactly the directions still watched. (An
  error or hang-up also clears the mark of the bi-directional watcher, see \<open>error_event_clears_multi_watch\<close>.)
\<close>

theorem epoll_bidi_rearmed:
  assumes "reg_ok E A s" "W n \<in> A" "Out n \<in> A" "\<not> is_queued s (W n)" "\<not> is_queued s (Out n)"
    and "\<not> fault s" "\<not> lock_held s" "watch_flags (mem s (W n)) AND multi_watch \<noteq> 0"
    and "ep_flags ev AND NOT IO_EVENTS = 0" "ep_flags ev \<noteq> 0"
  defines "left \<equiv> (watch_flags (mem s (W n)) AND NOT (ep_flags ev)) AND IO_EVENTS"
  shows "\<exists>s'. ep_process_events Y rs (ed_receive_fd_event E False) [\<lparr>events = ev, ptr = Watcher (W n)\<rparr>] s = Some s' \<and>
    reg_ok E A s' \<and> \<not> fault s' \<and> \<not> lock_held s' \<and>
    (is_queued s' (W n) \<longleftrightarrow> ep_flags ev AND IN_EVENTS \<noteq> 0) \<and>
    (is_queued s' (Out n) \<longleftrightarrow> ep_flags ev AND OUT_EVENTS \<noteq> 0) \<and>
    kern (mech s') = (if left = 0 then kern (mech s)
      else snd (epoll_ctl_mod Y (epfd (mech s)) (watch_fd (mem s (W n)))
        \<lparr>events = ep_mask (left OR ONE_SHOT) True, ptr = Watcher (W n)\<rparr> (kern (mech s))))"
proof -
  let ?r = "receive_fd_event E False (W n) (ep_flags ev) (lock_base s)"
  have m: "mech (snd ?r) = mech s" by (simp add: receive_fd_event_def Let_def case_prod_beta)
  have l: "lock_held (snd ?r)" by (simp add: receive_fd_event_def Let_def case_prod_beta)
  have "reg_ok E A (snd ?r) \<and> \<not> fault (snd ?r) \<and>
    (is_queued (snd ?r) (W n) \<longleftrightarrow> ep_flags ev AND IN_EVENTS \<noteq> 0) \<and>
    (is_queued (snd ?r) (Out n) \<longleftrightarrow> ep_flags ev AND OUT_EVENTS \<noteq> 0) \<and>
    fst ?r = (if left = 0 then 0 else left OR ONE_SHOT, watch_fd (mem s (W n)))"
    using receive_bidi_facts [of E A "lock_base s" n "ep_flags ev" False] assms by (simp add: left_def)
  moreover have "bit (left OR ONE_SHOT) 3" by (simp add: ONE_SHOT_def bit_or_iff)
  then have "left OR ONE_SHOT \<noteq> 0" by (metis bit_0_eq bot_apply bot_bool_def)
  ultimately show ?thesis
    using m l by (auto simp: ep_process_events_def case_prod_beta ep_enable_fd_watch_def)
qed

theorem epoll_bidi_rearmed_witness:
  "\<exists>s'. ep_process_events sample_sys (\<lambda>_ _ s. (True, s)) (ed_receive_fd_event (henv sample_env) False)
      [\<lparr>events = EPOLLIN, ptr = Watcher (W 0)\<rparr>] bidi_loop = Some s' \<and>
    is_queued s' (W 0) \<and> \<not> is_queued s' (Out 0) \<and>
    kern (mech s') 5 = Some \<lparr>events = EPOLLONESHOT OR EPOLLOUT, ptr = Watcher (W 0)\<rparr>"
proof -
  have "ep_flags EPOLLIN = IN_EVENTS"
    by (simp add: ep_flags_def EPOLLIN_def EPOLLOUT_def EPOLLHUP_def EPOLLERR_def Let_def)
  then show ?thesis
    using epoll_bidi_rearmed [OF bidi_reg, of "henv sample_env" 0 EPOLLIN sample_sys "\<lambda>_ _ s. (True, s)"]
    by (auto simp: flag_defs ep_mask_def Let_def sample_sys_def)
qed

section \<open>Signals\<close>

text \<open>\<open>sig_reads Y fd xs k k'\<close>: reading the signalfd yields the signals \<open>xs\<close> and then fails, in state \<open>k'\<close>.\<close>

fun sig_reads :: "'k ep_sys \<Rightarrow> int \<Rightarrow> int list \<Rightarrow> 'k \<Rightarrow> 'k \<Rightarrow> bool" where
  "sig_reads Y fd [] k k' \<longleftrightarrow> read_sig Y fd k = (None, k')"
| "sig_reads Y fd (x # xs) k k' \<longleftrightarrow> (\<exists>k1. read_sig Y fd k = (Some x, k1) \<and> sig_reads Y fd xs k1 k')"

lemma receive_signal_ok:
  fixes signo :: int
  assumes "reg_ok E A s" "a \<in> A" "\<not> is_queued s a"
  defines "s' \<equiv> snd (receive_signal E signo a s)"
  shows "reg_ok E A s'" "is_queued s' a" "fault s' = fault s" "lock_held s' = lock_held s"
    "b \<in> A \<Longrightarrow> b \<noteq> a \<Longrightarrow> is_queued s' b = is_queued s b"
    "mem s' = (mem s)(a := (mem s a)\<lparr>siginfo := signo\<rparr>)" "fst (receive_signal E signo a s)"
proof -
  let ?s = "upd a (siginfo_update (\<lambda>_. signo)) s"
  have s: "reg_ok E A ?s" "\<not> is_queued ?s a" using assms by simp_all
  note q = queue_ok [OF s(1) assms(2) s(2)]
  show "reg_ok E A s'" "is_queued s' a" "fault s' = fault s" "lock_held s' = lock_held s"
    "mem s' = (mem s)(a := (mem s a)\<lparr>siginfo := signo\<rparr>)" "fst (receive_signal E signo a s)"
    using q(1-3) by (simp_all add: s'_def receive_signal_def)
  show "b \<in> A \<Longrightarrow> b \<noteq> a \<Longrightarrow> is_queued s' b = is_queued s b" using q(4) by (simp add: s'_def receive_signal_def)
qed

lemma receive_signal_mech [simp]: "mech (snd (receive_signal E signo a s)) = mech s"
  by (simp add: receive_signal_def)

lemma read_signals_none:
  "read_sig Y (sigfd (mech s)) (kern (mech s)) = (None, k) \<Longrightarrow>
   ep_read_signals Y rs s = Some (s\<lparr>mech := (mech s)\<lparr>kern := k\<rparr>\<rparr>)"
  by (subst ep_read_signals.simps) (simp add: sys_do_def)

lemma read_signals_some:
  assumes "read_sig Y (sigfd (mech s)) (kern (mech s)) = (Some signo, k)"
    and "sigdataMap (mech s) signo = Some (Watcher a)"
  shows "ep_read_signals Y (ed_receive_signal E) s = ep_read_signals Y (ed_receive_signal E)
    (mech_do (\<lambda>m. m\<lparr>sigmask := sigmask m - {signo}\<rparr>)
      (snd (receive_signal E signo a (s\<lparr>mech := (mech s)\<lparr>kern := k\<rparr>\<rparr>))))"
  using assms by (subst ep_read_signals.simps) (simp add: sys_do_def case_prod_beta Let_def receive_signal_def)

lemma read_signals_ok:
  assumes "reg_ok E A s" "snd ` set xs \<subseteq> A" "distinct (map snd xs)"
    and "\<forall>(signo, a) \<in> set xs. \<not> is_queued s a \<and> sigdataMap (mech s) signo = Some (Watcher a)"
    and "sig_reads Y (sigfd (mech s)) (map fst xs) (kern (mech s)) k'"
  shows "\<exists>s'. ep_read_signals Y (ed_receive_signal E) s = Some s' \<and> reg_ok E A s' \<and>
    fault s' = fault s \<and> lock_held s' = lock_held s \<and>
    mech s' = (mech s)\<lparr>kern := k', sigmask := sigmask (mech s) - fst ` set xs\<rparr> \<and>
    (\<forall>b \<in> A. is_queued s' b \<longleftrightarrow> is_queued s b \<or> b \<in> snd ` set xs) \<and>
    (\<forall>(signo, a) \<in> set xs. siginfo (mem s' a) = signo) \<and> (\<forall>b. b \<notin> snd ` set xs \<longrightarrow> mem s' b = mem s b)"
  using assms
proof (induction xs arbitrary: s)
  case Nil
  then show ?case by (subst ep_read_signals.simps) (simp add: sys_do_def)
next
  case (Cons x xs)
  obtain signo a where x: "x = (signo, a)" by fastforce
  obtain k1 where k1: "read_sig Y (sigfd (mech s)) (kern (mech s)) = (Some signo, k1)"
      "sig_reads Y (sigfd (mech s)) (map fst xs) k1 k'" using Cons.prems(5) by (auto simp: x)
  define t where "t = s\<lparr>mech := (mech s)\<lparr>kern := k1\<rparr>\<rparr>"
  have a: "reg_ok E A t" "a \<in> A" "\<not> is_queued t a" "sigdataMap (mech t) signo = Some (Watcher a)" "a \<notin> snd ` set xs"
    using Cons.prems by (auto simp: x t_def)
  define u where "u = mech_do (\<lambda>m. m\<lparr>sigmask := sigmask m - {signo}\<rparr>) (snd (receive_signal E signo a t))"
  note r = receive_signal_ok [OF a(1-3), where signo = signo]
  have step: "ep_read_signals Y (ed_receive_signal E) s = ep_read_signals Y (ed_receive_signal E) u"
    using read_signals_some [OF k1(1)] a(4) by (simp add: t_def u_def)
  have u: "reg_ok E A u" "fault u = fault s" "lock_held u = lock_held s" "is_queued u a"
    "mech u = (mech s)\<lparr>kern := k1, sigmask := sigmask (mech s) - {signo}\<rparr>"
    "\<And>b. b \<in> A \<Longrightarrow> b \<noteq> a \<Longrightarrow> is_queued u b = is_queued s b"
    "mem u = (mem s)(a := (mem s a)\<lparr>siginfo := signo\<rparr>)"
    using r(1-4,6) r(5) by (simp_all add: u_def t_def)
  have nq: "\<forall>(sg, b) \<in> set xs. \<not> is_queued u b \<and> sigdataMap (mech u) sg = Some (Watcher b)"
  proof (rule ballI, rule case_prodI2)
    fix y sg b assume "y \<in> set xs" "y = (sg, b)"
    then have m: "(sg, b) \<in> set xs" by simp
    then have "b \<in> snd ` set xs" by force
    then have "b \<noteq> a" "b \<in> A" using a(5) Cons.prems(2) by auto
    with m show "\<not> is_queued u b \<and> sigdataMap (mech u) sg = Some (Watcher b)"
      using Cons.prems(4) u(6) by (auto simp: u(5))
  qed
  from Cons.IH [OF u(1) _ _ nq] Cons.prems k1(2) obtain s' where s':
    "ep_read_signals Y (ed_receive_signal E) u = Some s'" "reg_ok E A s'" "fault s' = fault u"
    "lock_held s' = lock_held u" "mech s' = (mech u)\<lparr>kern := k', sigmask := sigmask (mech u) - fst ` set xs\<rparr>"
    "\<forall>b \<in> A. is_queued s' b \<longleftrightarrow> is_queued u b \<or> b \<in> snd ` set xs"
    "\<forall>(signo, a) \<in> set xs. siginfo (mem s' a) = signo" "\<forall>b. b \<notin> snd ` set xs \<longrightarrow> mem s' b = mem u b"
    by (auto simp: x u(5))
  have "sigmask (mech s) - {signo} - fst ` set xs = sigmask (mech s) - fst ` set (x # xs)" by (auto simp: x)
  then have "mech s' = (mech s)\<lparr>kern := k', sigmask := sigmask (mech s) - fst ` set (x # xs)\<rparr>" using s'(5) u(5) by simp
  moreover have "\<forall>b \<in> A. is_queued s' b \<longleftrightarrow> is_queued s b \<or> b \<in> snd ` set (x # xs)"
    using s'(6) u(4,6) a(2) by (auto simp: x)
  moreover have "\<forall>(sg, b) \<in> set (x # xs). siginfo (mem s' b) = sg" using s'(7,8) u(7) a(5) by (simp add: x)
  moreover have "\<forall>b. b \<notin> snd ` set (x # xs) \<longrightarrow> mem s' b = mem s b" using s'(8) u(7) by (simp add: x)
  ultimately show ?case using step s'(1-4) u(2,3) by simp
qed

text \<open>
  What a non-blocking signalfd does: \<open>pend\<close> are the signals it has pending; a read takes the first of them off, and
  fails when there is none.
\<close>

definition signalfd_reads :: "'k ep_sys \<Rightarrow> int \<Rightarrow> ('k \<Rightarrow> int list) \<Rightarrow> bool" where
  "signalfd_reads Y fd pend \<longleftrightarrow>
     (\<forall>k. fst (read_sig Y fd k) = (case pend k of [] \<Rightarrow> None | x # _ \<Rightarrow> Some x) \<and>
          pend (snd (read_sig Y fd k)) = tl (pend k))"

fun after_reads :: "'k ep_sys \<Rightarrow> int \<Rightarrow> nat \<Rightarrow> 'k \<Rightarrow> 'k" where
  "after_reads Y fd 0 k = k"
| "after_reads Y fd (Suc n) k = after_reads Y fd n (snd (read_sig Y fd k))"

lemma signalfd_reads_all:
  "signalfd_reads Y fd pend \<Longrightarrow> pend k = xs \<Longrightarrow> sig_reads Y fd xs k (after_reads Y fd (Suc (length xs)) k)"
proof (induction xs arbitrary: k)
  case Nil
  have "fst (read_sig Y fd k) = None" using Nil by (simp add: signalfd_reads_def)
  then show ?case by (simp add: prod_eq_iff)
next
  case (Cons x xs)
  let ?k1 = "snd (read_sig Y fd k)"
  have "fst (read_sig Y fd k) = Some x" "pend ?k1 = xs" using Cons.prems by (simp_all add: signalfd_reads_def)
  then show ?case using Cons.IH [OF Cons.prems(1), of ?k1] by (auto simp: prod_eq_iff)
qed

text \<open>
  C32: signals arriving on the signalfd, which yields its finitely many pending signals one at a time and then fails. When
  these are for distinct, registered and unqueued watchers (no signal is pending twice), reading ends, after one read more than there are
  signals pending; exactly the watchers of these signals are queued, each with its signal, and the signals are taken out of
  the signalfd's mask (so that they stay pending until re-armed); the kernel is told the new mask.
\<close>

theorem epoll_signals_queued:
  assumes "reg_ok E A s" "snd ` set xs \<subseteq> A" "distinct (map snd xs)" "\<not> lock_held s" "\<not> fault s"
    and "\<forall>(signo, a) \<in> set xs. \<not> is_queued s a \<and> sigdataMap (mech s) signo = Some (Watcher a)"
    and "signalfd_reads Y (sigfd (mech s)) pend" "pend (kern (mech s)) = map fst xs"
  defines "new \<equiv> sigmask (mech s) - fst ` set xs"
    and "k' \<equiv> after_reads Y (sigfd (mech s)) (Suc (length xs)) (kern (mech s))"
  shows "\<exists>s'. ep_process_events Y (ed_receive_signal E) rf [\<lparr>events = ev, ptr = Sigfd\<rparr>] s = Some s' \<and>
    reg_ok E A s' \<and> \<not> fault s' \<and> \<not> lock_held s' \<and>
    (\<forall>b \<in> A. is_queued s' b \<longleftrightarrow> is_queued s b \<or> b \<in> snd ` set xs) \<and>
    (\<forall>(signo, a) \<in> set xs. siginfo (mem s' a) = signo) \<and>
    sigmask (mech s') = new \<and> kern (mech s') = snd (signalfd Y (sigfd (mech s)) new k')"
proof -
  obtain t where t: "ep_read_signals Y (ed_receive_signal E) (lock_base s) = Some t" "reg_ok E A t"
    "fault t = fault (lock_base s)" "lock_held t"
    "mech t = (mech s)\<lparr>kern := k', sigmask := sigmask (mech s) - fst ` set xs\<rparr>"
    "\<forall>b \<in> A. is_queued t b \<longleftrightarrow> is_queued s b \<or> b \<in> snd ` set xs"
    "\<forall>(signo, a) \<in> set xs. siginfo (mem t a) = signo"
    using read_signals_ok [of E A "lock_base s" xs Y k'] assms(1-3,6) signalfd_reads_all [OF assms(7,8)]
    by (auto simp: k'_def)
  then show ?thesis using assms(4,5) by (auto simp: ep_process_events_def new_def)
qed

text \<open>
  A concrete kernel for signals: the signals waiting in the signalfd's queue and the mask it was last
  given.
\<close>

definition sig_sys :: "(int list \<times> int set) ep_sys" where
  "sig_sys = \<lparr>epoll_create1 = \<lambda>k. (Inr 3, k), epoll_ctl_add = \<lambda>ep fd e k. (None, k),
     epoll_ctl_mod = \<lambda>ep fd e k. (None, k), epoll_ctl_del = \<lambda>ep fd k. (None, k),
     epoll_wait = \<lambda>ep w k. ([], k), signalfd = \<lambda>fd ms (q, _). (Inr 4, q, ms),
     read_sig = \<lambda>fd (q, ms). case q of [] \<Rightarrow> (None, q, ms) | x # q \<Rightarrow> (Some x, q, ms), close_fd = \<lambda>fd k. k\<rparr>"

definition sig_loop :: "int list \<Rightarrow> (int list \<times> int set) ep_state" where
  "sig_loop pending =
     \<lparr>event_queue =
        \<lparr>Base = \<lparr>hvec = \<lparr>array = [], size_v = 0, capacity_v = 8\<rparr>, num_nodes = 2,
           handles = \<lambda>_. \<lparr>hd_u = (), heap_index = size_max\<rparr>\<rparr>, sequence = 0\<rparr>,
      mem = \<lambda>_. idle_watcher, removed = [], lock_held = False, fault = False,
      mech = \<lparr>epfd = 3, sigfd = 4, sigmask = {10, 12, 15},
        sigdataMap = [10 \<mapsto> Watcher (W 0), 12 \<mapsto> Watcher (W 1)], kern = (pending, {10, 12, 15})\<rparr>,
      attn_busy = False\<rparr>"

lemma sig_loop_simps [simp]:
  "\<not> is_queued (sig_loop xs) a" "\<not> lock_held (sig_loop xs)" "\<not> fault (sig_loop xs)"
  by (simp_all add: sig_loop_def is_queued_def stable_is_queued_def dary_is_queued_def)

lemma sig_reg: "reg_ok (henv sample_env) {W 0, W 1} (sig_loop xs)"
  by (simp add: sig_loop_def reg_ok_def heap_wf_def svec_inv_def elems_def queued_def indexed_def svec_max_size_16)

theorem epoll_signals_queued_witness:
  "\<exists>s'. ep_process_events sig_sys (ed_receive_signal (henv sample_env)) (\<lambda>_ _ s. ((0, 0), s))
      [\<lparr>events = EPOLLIN, ptr = Sigfd\<rparr>] (sig_loop [12, 10]) = Some s' \<and>
    is_queued s' (W 0) \<and> is_queued s' (W 1) \<and> siginfo (mem s' (W 1)) = 12 \<and> kern (mech s') = ([], {15})"
proof -
  let ?s = "sig_loop [12, 10]" and ?xs = "[(12, W 1), (10, W 0)]"
  have m: "\<forall>(signo, a) \<in> set ?xs. \<not> is_queued ?s a \<and> sigdataMap (mech ?s) signo = Some (Watcher a)"
    by (simp, simp add: sig_loop_def)
  have "signalfd_reads sig_sys (sigfd (mech ?s)) fst" "fst (kern (mech ?s)) = map fst ?xs"
    by (auto simp: signalfd_reads_def sig_sys_def sig_loop_def split: list.splits)
  note m = m this
  have after: "after_reads sig_sys (sigfd (mech ?s)) (Suc (length ?xs)) (kern (mech ?s)) = ([], {10, 12, 15})"
    by (simp add: sig_sys_def sig_loop_def)
  have new: "sigmask (mech ?s) - fst ` set ?xs = {15}" by (auto simp: sig_loop_def)
  have "snd (signalfd sig_sys (sigfd (mech ?s)) {15} ([], {10, 12, 15})) = ([], {15})" by (simp add: sig_sys_def)
  with epoll_signals_queued [OF sig_reg [of "[12, 10]"] _ _ _ _ m, of "\<lambda>_ _ s. ((0, 0), s)" EPOLLIN, unfolded new after]
  show ?thesis by auto
qed

text \<open>The event queue when \<open>W 0\<close> is queued once and twice.\<close>

definition one_node :: "(waddr, int, unit) stable_heap" where
  "one_node =
     \<lparr>Base = \<lparr>hvec = \<lparr>array = [node \<lparr>sp_p = 50, sp_order = 0\<rparr> (W 0)], size_v = 1, capacity_v = 8\<rparr>, num_nodes = 2,
        handles = \<lambda>a. \<lparr>hd_u = (), heap_index = (if a = W 0 then 0 else size_max)\<rparr>\<rparr>, sequence = 1\<rparr>"

lemmas queue_eval = queue_watcher_def stable_insert_def dary_insert_def bubble_down_at_def bubble_down.simps
  emplace_back_def ensure_capacity_def place_node_def svec_set_def set_index_def svec_at_def move_node_def
  compare_stable_prio_def fan_out_def

lemma queue_first:
  assumes "event_queue s = event_queue (sig_loop xs)" "priority (mem s (W 0)) = 50"
  shows "event_queue (queue_watcher (henv sample_env) (W 0) s) = one_node"
  using assms by (simp add: queue_eval sig_loop_def one_node_def fun_eq_iff node_def)

lemma queue_second:
  assumes "event_queue s = one_node" "priority (mem s (W 0)) = 50"
  shows "map hnd (nodes (Base (event_queue (queue_watcher (henv sample_env) (W 0) s)))) = [W 0, W 0]"
  using assms by (simp add: queue_eval one_node_def elems_def node_def)

text \<open>
  A signal that the signalfd delivers twice while it is being read (a real-time signal sent twice, or an
  ordinary one sent again between two reads) has its watcher put on the event queue twice:
  the mask is changed only after the loop. The queue then holds two nodes with one handle, and no set of
  registered watchers fits it.
\<close>

theorem signal_read_twice_corrupts_queue:
  "\<exists>s'. ep_process_events sig_sys (ed_receive_signal (henv sample_env)) (\<lambda>_ _ s. ((0, 0), s))
      [\<lparr>events = EPOLLIN, ptr = Sigfd\<rparr>] (sig_loop [10, 10]) = Some s' \<and>
    map hnd (nodes (Base (event_queue s'))) = [W 0, W 0] \<and> (\<forall>A. \<not> reg_ok (henv sample_env) A s')"
proof -
  let ?H = "henv sample_env" and ?del = "mech_do (\<lambda>m. m\<lparr>sigmask := sigmask m - {10}\<rparr>)"
  let ?rd = "\<lambda>q s. s\<lparr>mech := (mech s)\<lparr>kern := (q, {10, 12, 15})\<rparr>\<rparr>"
  define s0 where "s0 = lock_base (sig_loop [10, 10])"
  define s1 where "s1 = ?del (snd (receive_signal ?H 10 (W 0) (?rd [10] s0)))"
  define s2 where "s2 = ?del (snd (receive_signal ?H 10 (W 0) (?rd [] s1)))"
  have e0: "event_queue (?rd q s0) = event_queue (sig_loop [10, 10])" "priority (mem (?rd q s0) (W 0)) = 50" for q
    by (simp_all add: s0_def sig_loop_def idle_watcher_def)
  have e1: "event_queue s1 = one_node" "priority (mem s1 (W 0)) = 50"
    using queue_first [of "upd (W 0) (siginfo_update (\<lambda>_. 10)) (?rd [10] s0)" "[10, 10]"] e0
    by (simp_all add: s1_def receive_signal_def)
  have e2: "map hnd (nodes (Base (event_queue s2))) = [W 0, W 0]"
    using queue_second [of "upd (W 0) (siginfo_update (\<lambda>_. 10)) (?rd [] s1)"] e1 by (simp add: s2_def receive_signal_def)
  have k: "mech s0 = mech (sig_loop [10, 10])" "mech s1 = (mech (sig_loop [10, 10]))\<lparr>kern := ([10], {10, 12, 15}), sigmask := {12, 15}\<rparr>"
    "mech s2 = (mech (sig_loop [10, 10]))\<lparr>kern := ([], {10, 12, 15}), sigmask := {12, 15}\<rparr>"
    by (auto simp: s0_def s1_def s2_def sig_loop_def)
  have "ep_read_signals sig_sys (ed_receive_signal ?H) s0 = ep_read_signals sig_sys (ed_receive_signal ?H) s1"
    unfolding s1_def by (rule read_signals_some) (simp_all add: k(1) sig_loop_def sig_sys_def)
  also have "\<dots> = ep_read_signals sig_sys (ed_receive_signal ?H) s2"
    unfolding s2_def by (rule read_signals_some) (simp_all add: k(2) sig_loop_def sig_sys_def)
  also have "\<dots> = Some (?rd [] s2)"
    by (rule read_signals_none) (simp add: k(3) sig_loop_def sig_sys_def)
  finally have "\<exists>s'. ep_process_events sig_sys (ed_receive_signal ?H) (\<lambda>_ _ s. ((0, 0), s))
      [\<lparr>events = EPOLLIN, ptr = Sigfd\<rparr>] (sig_loop [10, 10]) = Some s' \<and> event_queue s' = event_queue s2"
    by (simp add: ep_process_events_def s0_def)
  with e2 show ?thesis by (auto simp: reg_ok_def heap_wf_def)
qed

end
