(* ===== verification/Kqueue_Props.thy ===== *)
theory Kqueue_Props
  imports Kqueue_Macos Select_Props Epoll_Props
begin

text \<open>
  The kernel-queue mechanisms together with the dispatcher: a batch of descriptor events (the loops of the two
  mechanisms do the same to it), the life of a signal watch, and the registration of both directions of a descriptor.
\<close>

lemma kq_do_simps [simp]:
  "kqfd (snd (kq_do f m)) = kqfd m" "kq_kern (snd (kq_do f m)) = snd (f (kq_kern m))"
  "fst (kq_do f m) = fst (f (kq_kern m))"
  by (simp_all add: kq_do_def case_prod_beta)

lemma mech_upd_simps [simp]:
  "reg_ok E A (s\<lparr>mech := m\<rparr>) = reg_ok E A s" "is_queued (s\<lparr>mech := m\<rparr>) a = is_queued s a"
  by (simp_all add: reg_ok_def is_queued_def)

section \<open>File descriptor events\<close>

text \<open>A batch: \<open>(descriptor, watcher, input?)\<close>; the direction's flags and the watcher (or half) an event is for.\<close>

definition dir_of :: "bool \<Rightarrow> 32 word" where
  "dir_of inp = (if inp then IN_EVENTS else OUT_EVENTS)"

definition kq_event :: "16 word \<Rightarrow> int \<times> waddr \<times> bool \<Rightarrow> kevent" where
  "kq_event fl e = (case e of (fd, a, inp) \<Rightarrow>
     \<lparr>ident = fd, kfilter = (if inp then EVFILT_READ else EVFILT_WRITE), kflags = fl, fflags = 0, udata = Watcher a\<rparr>)"

definition etgt :: "'z disp_scheme \<Rightarrow> int \<times> waddr \<times> bool \<Rightarrow> waddr" where
  "etgt s e = (case e of (fd, a, inp) \<Rightarrow> tgt s (dir_of inp) a)"

lemma dir_of_cases: "dir_of inp = IN_EVENTS \<or> dir_of inp = OUT_EVENTS"
  by (simp add: dir_of_def)

lemma mac_event_step:
  assumes "fst (fst (receive_fd_event E True a (dir_of inp) s)) = 0"
  shows "mac_events_loop (ed_receive_fd_event E True) (kq_event fl (fd, a, inp) # es) s =
    (let (es, s) = mac_events_loop (ed_receive_fd_event E True) es (snd (receive_fd_event E True a (dir_of inp) s))
     in (kq_event (EV_DISABLE OR EV_CLEAR) (fd, a, inp) # es, s))"
  using assms by (cases inp) (simp_all add: kq_event_def dir_of_def case_prod_beta Let_def)

text \<open>Without signals the loop of \<open>kqueue.h\<close> is that of \<open>kqueue-macos.h\<close>.\<close>

lemma kq_loop_no_signal: "\<forall>e \<in> set es. kfilter e \<noteq> EVFILT_SIGNAL \<Longrightarrow> kq_events_loop Y rs rf es s = Some (mac_events_loop rf es s)"
proof (induction es arbitrary: s)
  case (Cons e es)
  then show ?case by (cases "kfilter e") (simp_all add: case_prod_beta Let_def)
qed simp

lemma mac_batch:
  assumes "reg_ok E A s" "distinct (map (etgt s) es)" "etgt s ` set es \<subseteq> A" "\<forall>a \<in> etgt s ` set es. \<not> is_queued s a"
  shows "\<exists>s'. mac_events_loop (ed_receive_fd_event E True) (map (kq_event fl) es) s =
      (map (kq_event (EV_DISABLE OR EV_CLEAR)) es, s') \<and> reg_ok E A s' \<and> fault s' = fault s \<and>
    lock_held s' = lock_held s \<and> mech s' = mech s \<and> (\<forall>b \<in> A. is_queued s' b \<longleftrightarrow> is_queued s b \<or> b \<in> etgt s ` set es)"
  using assms
proof (induction es arbitrary: s)
  case Nil
  then show ?case by simp
next
  case (Cons e es)
  obtain fd a inp where e: "e = (fd, a, inp)" by (cases e) blast
  let ?t = "tgt s (dir_of inp) a" and ?s = "snd (receive_fd_event E True a (dir_of inp) s)"
  have t: "?t \<in> A" "\<not> is_queued s ?t" "?t \<notin> etgt s ` set es" "etgt s e = ?t"
    using Cons.prems by (auto simp: e etgt_def)
  note r = receive_sep [OF Cons.prems(1) t(1,2) dir_of_cases]
  have tg: "etgt ?s x = etgt s x" for x using tgt_cong [of ?s s, OF r(7)] by (simp add: etgt_def case_prod_beta)
  then have tgf: "etgt ?s = etgt s" by blast
  have nq: "\<forall>b \<in> etgt s ` set es. \<not> is_queued ?s b"
  proof
    fix b assume b: "b \<in> etgt s ` set es"
    then have "b \<noteq> ?t" using t(3) by blast
    moreover have "b \<in> A" "\<not> is_queued s b" using b Cons.prems(3,4) by auto
    ultimately show "\<not> is_queued ?s b" using r(6) by blast
  qed
  have "\<exists>s'. mac_events_loop (ed_receive_fd_event E True) (map (kq_event fl) es) ?s =
      (map (kq_event (EV_DISABLE OR EV_CLEAR)) es, s') \<and> reg_ok E A s' \<and> fault s' = fault ?s \<and>
    lock_held s' = lock_held ?s \<and> mech s' = mech ?s \<and> (\<forall>b \<in> A. is_queued s' b \<longleftrightarrow> is_queued ?s b \<or> b \<in> etgt ?s ` set es)"
    using Cons.prems nq by (intro Cons.IH r(2)) (simp_all add: tgf)
  then obtain s' where s': "mac_events_loop (ed_receive_fd_event E True) (map (kq_event fl) es) ?s =
      (map (kq_event (EV_DISABLE OR EV_CLEAR)) es, s')" "reg_ok E A s'" "fault s' = fault s"
      "lock_held s' = lock_held s" "mech s' = mech s"
      "\<forall>b \<in> A. is_queued s' b \<longleftrightarrow> is_queued ?s b \<or> b \<in> etgt s ` set es" using r(4,5) tgf by auto
  moreover have "is_queued ?s b \<longleftrightarrow> is_queued s b \<or> b = ?t" if "b \<in> A" for b using r(3) r(6) [OF that] by blast
  ultimately show ?case
    using mac_event_step [OF r(1), where fl = fl and fd = fd]
    by (intro exI [of _ s']) (auto simp: e t(4) [unfolded e])
qed

lemma kq_batch:
  assumes "reg_ok E A s" "distinct (map (etgt s) es)" "etgt s ` set es \<subseteq> A" "\<forall>a \<in> etgt s ` set es. \<not> is_queued s a"
  shows "\<exists>s'. kq_events_loop Y rs (ed_receive_fd_event E True) (map (kq_event fl) es) s =
      Some (map (kq_event (EV_DISABLE OR EV_CLEAR)) es, s') \<and> reg_ok E A s' \<and> fault s' = fault s \<and>
    lock_held s' = lock_held s \<and> mech s' = mech s \<and> (\<forall>b \<in> A. is_queued s' b \<longleftrightarrow> is_queued s b \<or> b \<in> etgt s ` set es)"
proof -
  have "\<forall>e \<in> set (map (kq_event fl) es). kfilter e \<noteq> EVFILT_SIGNAL" by (auto simp: kq_event_def split: if_splits)
  then show ?thesis using mac_batch [OF assms, of fl] by (simp add: kq_loop_no_signal)
qed

lemma mac_process_batch:
  fixes Y :: "'k kq_sys" and fl :: "16 word"
  assumes "reg_ok E A s" "\<not> lock_held s" "\<not> fault s" "distinct (map (etgt s) es)" "etgt s ` set es \<subseteq> A"
    and "\<forall>a \<in> etgt s ` set es. \<not> is_queued s a"
  defines "s' \<equiv> mac_process_events Y (ed_receive_fd_event E True) (map (kq_event fl) es) s"
  shows "reg_ok E A s' \<and> \<not> lock_held s' \<and> \<not> fault s' \<and> (\<forall>b \<in> A. is_queued s' b \<longleftrightarrow> is_queued s b \<or> b \<in> etgt s ` set es) \<and>
    mech s' = (mech s)\<lparr>mac_kern := snd (kq_change Y (mac_kqfd (mech s)) (map (kq_event (EV_DISABLE OR EV_CLEAR)) es) (mac_kern (mech s)))\<rparr>"
proof -
  have "etgt (lock_base s) = etgt s" by (rule ext) (simp add: etgt_def tgt_def multi_def split: prod.split)
  then obtain t where "mac_events_loop (ed_receive_fd_event E True) (map (kq_event fl) es) (lock_base s) =
      (map (kq_event (EV_DISABLE OR EV_CLEAR)) es, t)" "reg_ok E A t" "fault t = fault (lock_base s)"
      "lock_held t = lock_held (lock_base s)" "mech t = mech s" "\<forall>b \<in> A. is_queued t b \<longleftrightarrow> is_queued s b \<or> b \<in> etgt s ` set es"
    using mac_batch [of E A "lock_base s" es fl] assms by auto
  then show ?thesis
    using assms(2,3) by (simp add: s'_def mac_process_events_def kq_do_def case_prod_beta on_core_def mac_core_def put_core_def)
qed

lemma kq_fd_batch:
  assumes "reg_ok E A s" "\<not> lock_held s" "\<not> fault s" "distinct (map (etgt s) es)" "etgt s ` set es \<subseteq> A"
    and "\<forall>a \<in> etgt s ` set es. \<not> is_queued s a"
  shows "\<exists>s'. kq_process_events Y rs (ed_receive_fd_event E True) (map (kq_event fl) es) s = Some s' \<and>
    reg_ok E A s' \<and> \<not> lock_held s' \<and> \<not> fault s' \<and> (\<forall>b \<in> A. is_queued s' b \<longleftrightarrow> is_queued s b \<or> b \<in> etgt s ` set es) \<and>
    mech s' = (mech s)\<lparr>kq_kern := snd (kq_change Y (kqfd (mech s)) (map (kq_event (EV_DISABLE OR EV_CLEAR)) es)
      (kq_kern (mech s)))\<rparr>"
proof -
  have "etgt (lock_base s) = etgt s" by (rule ext) (simp add: etgt_def tgt_def multi_def split: prod.split)
  then obtain s' where s': "kq_events_loop Y rs (ed_receive_fd_event E True) (map (kq_event fl) es) (lock_base s) =
      Some (map (kq_event (EV_DISABLE OR EV_CLEAR)) es, s')" "reg_ok E A s'" "fault s' = fault (lock_base s)"
      "lock_held s' = lock_held (lock_base s)" "mech s' = mech s"
      "\<forall>b \<in> A. is_queued s' b \<longleftrightarrow> is_queued s b \<or> b \<in> etgt s ` set es"
    using kq_batch [of E A "lock_base s" es Y rs fl] assms by auto
  then show ?thesis
    using assms(2,3) by (simp add: kq_process_events_def kq_do_def case_prod_beta)
qed

text \<open>One call of \<open>sigtimedwait\<close> decides: every signal that arrives for a registered watcher is accepted.\<close>

lemma pull_signal_once:
  "pull_signal Y (ed_receive_signal E) signo (Watcher a) s =
     (case kq_sigwait Y signo (kq_kern (mech s)) of
        (None, k) \<Rightarrow> Some (True, s\<lparr>mech := (mech s)\<lparr>kq_kern := k\<rparr>\<rparr>)
      | (Some sig, k) \<Rightarrow> Some (False, snd (receive_signal E sig a (s\<lparr>mech := (mech s)\<lparr>kq_kern := k\<rparr>\<rparr>))))"
  by (subst pull_signal.simps) (simp add: kq_do_def case_prod_beta Let_def receive_signal_def split: option.splits prod.splits)

lemma kq_signal_event:
  fixes signo :: int and Y :: "'k kq_sys"
  assumes "reg_ok E A s" "\<not> lock_held s" "\<not> fault s" "a \<in> A" "\<not> is_queued s a"
  defines "p \<equiv> kq_sigwait Y signo (kq_kern (mech s))"
  shows "\<exists>s'. kq_process_events Y (ed_receive_signal E) rf [sig_change signo fl (Watcher a)] s = Some s' \<and>
    reg_ok E A s' \<and> \<not> lock_held s' \<and> \<not> fault s' \<and> (is_queued s' a \<longleftrightarrow> fst p \<noteq> None) \<and>
    (\<forall>b \<in> A - {a}. is_queued s' b = is_queued s b) \<and> (fst p \<noteq> None \<longrightarrow> siginfo (mem s' a) = the (fst p)) \<and>
    mech s' = (mech s)\<lparr>kq_kern := snd (kq_change Y (kqfd (mech s))
      [sig_change signo (if fst p = None then EV_ENABLE else EV_DISABLE) (Watcher a)] (snd p))\<rparr>"
proof (cases "fst p")
  case None
  then have "pull_signal Y (ed_receive_signal E) signo (Watcher a) (lock_base s) =
      Some (True, (lock_base s)\<lparr>mech := (mech s)\<lparr>kq_kern := snd p\<rparr>\<rparr>)"
    by (cases p) (simp add: pull_signal_once p_def)
  with assms(1-3,5) None show ?thesis by (simp add: kq_process_events_def kq_do_def case_prod_beta sig_change_def)
next
  case (Some sig)
  let ?t = "(lock_base s)\<lparr>mech := (mech s)\<lparr>kq_kern := snd p\<rparr>\<rparr>"
  have t: "reg_ok E A ?t" "\<not> is_queued ?t a" using assms(1,5) by simp_all
  note r = receive_signal_ok [OF t(1) assms(4) t(2), where signo = sig]
  have "pull_signal Y (ed_receive_signal E) signo (Watcher a) (lock_base s) = Some (False, snd (receive_signal E sig a ?t))"
    using Some by (cases p) (simp add: pull_signal_once p_def)
  with Some r assms(2,3) show ?thesis by (simp add: kq_process_events_def kq_do_def case_prod_beta sig_change_def)
qed

text \<open>
  C37: a batch of read and write events, at most one for each of some unqueued watchers (or halves of bi-directional watchers), queues exactly the watchers
  (or halves) they are for, and ends with one change of the kernel queue that disables and clears every filter of the batch, so that no event is
  reported again before its watcher is re-armed. An event of a signal takes at most one pending signal: if there is one its
  unqueued watcher is queued with it and the filter is disabled; if none is pending nothing is queued and the filter is
  enabled again. In both cases the lock is free again and there is no fault.
\<close>

theorem kqueue_batch:
  fixes signo :: int and Y :: "'k kq_sys"
  assumes "reg_ok E A s" "\<not> lock_held s" "\<not> fault s" "distinct (map (etgt s) es)" "etgt s ` set es \<subseteq> A"
    and "\<forall>a \<in> etgt s ` set es. \<not> is_queued s a"
  defines "p \<equiv> kq_sigwait Y signo (kq_kern (mech s))"
  shows "(\<exists>s'. kq_process_events Y rs (ed_receive_fd_event E True) (map (kq_event fl) es) s = Some s' \<and>
    reg_ok E A s' \<and> \<not> lock_held s' \<and> \<not> fault s' \<and> (\<forall>b \<in> A. is_queued s' b \<longleftrightarrow> is_queued s b \<or> b \<in> etgt s ` set es) \<and>
    mech s' = (mech s)\<lparr>kq_kern := snd (kq_change Y (kqfd (mech s)) (map (kq_event (EV_DISABLE OR EV_CLEAR)) es)
      (kq_kern (mech s)))\<rparr>) \<and>
    (a \<in> A \<and> \<not> is_queued s a \<longrightarrow>
     (\<exists>s'. kq_process_events Y (ed_receive_signal E) rf [sig_change signo fl (Watcher a)] s = Some s' \<and>
      reg_ok E A s' \<and> \<not> lock_held s' \<and> \<not> fault s' \<and> (is_queued s' a \<longleftrightarrow> fst p \<noteq> None) \<and>
      (\<forall>b \<in> A - {a}. is_queued s' b = is_queued s b) \<and> (fst p \<noteq> None \<longrightarrow> siginfo (mem s' a) = the (fst p)) \<and>
      mech s' = (mech s)\<lparr>kq_kern := snd (kq_change Y (kqfd (mech s))
        [sig_change signo (if fst p = None then EV_ENABLE else EV_DISABLE) (Watcher a)] (snd p))\<rparr>))"
  using kq_fd_batch [OF assms(1-6), of Y rs fl] kq_signal_event [OF assms(1-3), where a = a and Y = Y and signo = signo and rf = rf and fl = fl]
  by (simp add: p_def)

definition kq_sample_sys :: "(int \<times> kq_filter \<rightharpoonup> kevent) kq_sys" where
  "kq_sample_sys = \<lparr>kq_create = \<lambda>k. (Inr 3, k), kq_close = \<lambda>_ k. k,
     kq_change = \<lambda>_ es k. (None, fold (\<lambda>e k. if kflags e AND EV_DELETE \<noteq> 0 then k((ident e, kfilter e) := None)
       else k((ident e, kfilter e) \<mapsto> e)) es k),
     kq_receipt = \<lambda>_ es k. (Inr (map (\<lambda>e. if kfilter e = EVFILT_WRITE then EINVAL else 0) es),
       fold (\<lambda>e k. if kfilter e = EVFILT_WRITE then k else k((ident e, kfilter e) \<mapsto> e)) es k),
     kq_wait = \<lambda>_ _ _ k. (Inl Timeout, k), kq_sigwait = \<lambda>signo k. (if k (0, EVFILT_OTHER) = None then Some signo else None,
       k((0, EVFILT_OTHER) \<mapsto> \<lparr>ident = 0, kfilter = EVFILT_OTHER, kflags = 0, fflags = 0, udata = Nullptr\<rparr>)),
     kq_regular = \<lambda>_ _. Inr False, POLL_SEMANTICS = 0\<rparr>"

definition kq_sample_loop :: "(int \<times> kq_filter \<rightharpoonup> kevent) kq_state" where
  "kq_sample_loop = with_mech \<lparr>kqfd = 3, kq_kern = Map.empty\<rparr> (idle_loop 3 (\<lambda>_. idle_watcher))"

lemma kq_sample_loop_facts:
  "reg_ok (henv sample_env) {W 0, W 1, W 2} kq_sample_loop" "\<not> is_queued kq_sample_loop a"
  "\<not> lock_held kq_sample_loop" "\<not> fault kq_sample_loop" "etgt kq_sample_loop (fd, a, inp) = a"
  "mech kq_sample_loop = \<lparr>kqfd = 3, kq_kern = Map.empty\<rparr>"
  by (simp_all add: kq_sample_loop_def idle_reg etgt_def tgt_def multi_def idle_watcher_def flag_defs)

theorem kqueue_batch_witness:
  "(\<exists>s'. kq_process_events kq_sample_sys (\<lambda>_ _ s. (True, s)) (ed_receive_fd_event (henv sample_env) True)
      (map (kq_event EV_ADD) [(5, W 0, True), (6, W 1, False)]) kq_sample_loop = Some s' \<and>
    is_queued s' (W 0) \<and> is_queued s' (W 1) \<and> \<not> is_queued s' (W 2) \<and>
    kq_kern (mech s') (5, EVFILT_READ) = Some (kq_event (EV_DISABLE OR EV_CLEAR) (5, W 0, True))) \<and>
   (\<exists>s'. kq_process_events kq_sample_sys (ed_receive_signal (henv sample_env)) (\<lambda>_ _ s. ((0, 0), s))
      [sig_change 15 EV_ADD (Watcher (W 2))] kq_sample_loop = Some s' \<and> is_queued s' (W 2) \<and> \<not> is_queued s' (W 0) \<and>
    kq_kern (mech s') (15, EVFILT_SIGNAL) = Some (sig_change 15 EV_DISABLE (Watcher (W 2))))"
proof -
  let ?es = "[(5, W 0, True), (6, W 1, False)]" and ?A = "{W 0, W 1, W 2}"
  have "distinct (map (etgt kq_sample_loop) ?es)" "etgt kq_sample_loop ` set ?es \<subseteq> ?A"
    "\<forall>a \<in> etgt kq_sample_loop ` set ?es. \<not> is_queued kq_sample_loop a" by (simp_all add: kq_sample_loop_facts)
  note b = kqueue_batch [OF kq_sample_loop_facts(1,3,4) this, of kq_sample_sys]
  note c = kq_sample_loop_facts kq_sample_sys_def kq_event_def sig_change_def EV_DELETE_def EV_DISABLE_def EV_CLEAR_def
  from b [THEN conjunct1, of "\<lambda>_ _ s. (True, s)" EV_ADD]
  have "\<exists>s'. kq_process_events kq_sample_sys (\<lambda>_ _ s. (True, s)) (ed_receive_fd_event (henv sample_env) True)
      (map (kq_event EV_ADD) ?es) kq_sample_loop = Some s' \<and>
    is_queued s' (W 0) \<and> is_queued s' (W 1) \<and> \<not> is_queued s' (W 2) \<and>
    kq_kern (mech s') (5, EVFILT_READ) = Some (kq_event (EV_DISABLE OR EV_CLEAR) (5, W 0, True))" by (auto simp: c)
  moreover have "W 2 \<in> ?A \<and> \<not> is_queued kq_sample_loop (W 2)" by (simp add: kq_sample_loop_facts)
  from b [THEN conjunct2, THEN mp, OF this, of "\<lambda>_ _ s. ((0, 0), s)" 15 EV_ADD]
  have "\<exists>s'. kq_process_events kq_sample_sys (ed_receive_signal (henv sample_env)) (\<lambda>_ _ s. ((0, 0), s))
      [sig_change 15 EV_ADD (Watcher (W 2))] kq_sample_loop = Some s' \<and> is_queued s' (W 2) \<and> \<not> is_queued s' (W 0) \<and>
    kq_kern (mech s') (15, EVFILT_SIGNAL) = Some (sig_change 15 EV_DISABLE (Watcher (W 2)))" by (auto simp: c)
  ultimately show ?thesis by (rule conjI)
qed

section \<open>Signals\<close>

text \<open>
  C38: re-arming a signal watch whose watcher is not queued ends, and takes at most one pending signal: if there is
  one the watcher is queued with it and the kernel's filter is left disabled, otherwise nothing is queued and the filter is
  enabled. So the filter is never enabled while the watcher waits to be dispatched.
\<close>

theorem kqueue_rearm_signal:
  fixes signo :: int and Y :: "'k kq_sys"
  assumes "reg_ok E A s" "a \<in> A" "\<not> is_queued s a"
  defines "p \<equiv> kq_sigwait Y signo (kq_kern (mech s))"
  shows "\<exists>s'. kq_rearm_signal_watch Y (ed_receive_signal E) signo (Watcher a) s = Some s' \<and> reg_ok E A s' \<and>
    fault s' = fault s \<and> (is_queued s' a \<longleftrightarrow> fst p \<noteq> None) \<and>
    (\<forall>b \<in> A - {a}. is_queued s' b = is_queued s b) \<and> (fst p \<noteq> None \<longrightarrow> siginfo (mem s' a) = the (fst p)) \<and>
    kq_kern (mech s') = (if fst p \<noteq> None then snd p
      else snd (kq_change Y (kqfd (mech s)) [sig_change signo EV_ENABLE (Watcher a)] (snd p)))"
proof (cases "fst p")
  case None
  then have "pull_signal Y (ed_receive_signal E) signo (Watcher a) s = Some (True, s\<lparr>mech := (mech s)\<lparr>kq_kern := snd p\<rparr>\<rparr>)"
    by (cases p) (simp add: pull_signal_once p_def)
  with assms(1,3) None show ?thesis by (simp add: kq_rearm_signal_watch_def kq_do_def case_prod_beta)
next
  case (Some sig)
  let ?t = "s\<lparr>mech := (mech s)\<lparr>kq_kern := snd p\<rparr>\<rparr>"
  have t: "reg_ok E A ?t" "\<not> is_queued ?t a" using assms(1,3) by simp_all
  note r = receive_signal_ok [OF t(1) assms(2) t(2), where signo = sig]
  have "pull_signal Y (ed_receive_signal E) signo (Watcher a) s = Some (False, snd (receive_signal E sig a ?t))"
    using Some by (cases p) (simp add: pull_signal_once p_def)
  with Some r show ?thesis by (simp add: kq_rearm_signal_watch_def)
qed

theorem kqueue_rearm_signal_witness:
  "\<exists>s'. kq_rearm_signal_watch kq_sample_sys (ed_receive_signal (henv sample_env)) 15 (Watcher (W 1)) kq_sample_loop = Some s' \<and>
    is_queued s' (W 1) \<and> siginfo (mem s' (W 1)) = 15 \<and> \<not> is_queued s' (W 0)"
  using kqueue_rearm_signal [OF kq_sample_loop_facts(1), of "W 1" kq_sample_sys 15]
  by (auto simp: kq_sample_loop_facts kq_sample_sys_def)

section \<open>Bi-directional watches\<close>

text \<open>
  What the code relies on of \<open>kevent\<close>: \<open>F\<close> reads the filters installed. A change that fails installs nothing; with
  receipts every change has a result, and those with result \<open>0\<close> are installed; deletion removes a filter.
\<close>

definition kq_kernel :: "'k kq_sys \<Rightarrow> ('k \<Rightarrow> int \<times> kq_filter \<rightharpoonup> kevent) \<Rightarrow> bool" where
  "kq_kernel Y F \<longleftrightarrow>
     (\<forall>q fd ud filt k. F (snd (kq_change Y q [kq_delete filt fd ud] k)) = (F k)((fd, filt) := None)) \<and>
     (\<forall>q fd ud filt en ff k. F (snd (kq_change Y q [bidi_change fd ud filt en 0 ff] k)) =
       (if fst (kq_change Y q [bidi_change fd ud filt en 0 ff] k) = None
        then (F k)((fd, filt) \<mapsto> bidi_change fd ud filt en 0 ff) else F k)) \<and>
     (\<forall>q fd rd wr k e k'. ident rd = fd \<and> kfilter rd = EVFILT_READ \<and> ident wr = fd \<and> kfilter wr = EVFILT_WRITE \<longrightarrow>
       kq_receipt Y q [rd, wr] k = (Inl e, k') \<longrightarrow> F k' = F k) \<and>
     (\<forall>q fd rd wr k ds k'. ident rd = fd \<and> kfilter rd = EVFILT_READ \<and> ident wr = fd \<and> kfilter wr = EVFILT_WRITE \<longrightarrow>
       kq_receipt Y q [rd, wr] k = (Inr ds, k') \<longrightarrow>
       F k' = (let f = (if ds ! 0 = 0 then (F k)((fd, EVFILT_READ) \<mapsto> rd) else F k)
          in if ds ! 1 = 0 then f((fd, EVFILT_WRITE) \<mapsto> wr) else f))"

lemma kq_kernel_change:
  assumes "kq_kernel Y F"
  shows "F (snd (kq_change Y q [kq_delete filt fd ud] k)) = (F k)((fd, filt) := None)"
    "F (snd (kq_change Y q [bidi_change fd ud filt en 0 ff] k)) =
      (if fst (kq_change Y q [bidi_change fd ud filt en 0 ff] k) = None
       then (F k)((fd, filt) \<mapsto> bidi_change fd ud filt en 0 ff) else F k)"
  using assms by (simp_all add: kq_kernel_def)

lemma kq_kernel_receipt:
  assumes "kq_kernel Y F" "ident rd = fd" "kfilter rd = EVFILT_READ" "ident wr = fd" "kfilter wr = EVFILT_WRITE"
  shows "kq_receipt Y q [rd, wr] k = (Inl e, k') \<Longrightarrow> F k' = F k"
    "kq_receipt Y q [rd, wr] k = (Inr ds, k') \<Longrightarrow> F k' =
      (let f = (if ds ! 0 = 0 then (F k)((fd, EVFILT_READ) \<mapsto> rd) else F k)
       in if ds ! 1 = 0 then f((fd, EVFILT_WRITE) \<mapsto> wr) else f)"
  using assms unfolding kq_kernel_def by blast+

lemma io_bits:
  "OUT_EVENTS AND IN_EVENTS = 0" "IN_EVENTS AND OUT_EVENTS = 0" "OUT_EVENTS AND OUT_EVENTS \<noteq> 0" "IN_EVENTS AND IN_EVENTS \<noteq> 0"
  "(IN_EVENTS OR OUT_EVENTS) AND IN_EVENTS \<noteq> 0" "(IN_EVENTS OR OUT_EVENTS) AND OUT_EVENTS \<noteq> 0"
  "IN_EVENTS \<noteq> 0" "OUT_EVENTS \<noteq> 0" "IN_EVENTS OR OUT_EVENTS \<noteq> 0"
  by (simp_all add: flag_defs)

text \<open>The two variants, by the outcome of their system calls.\<close>

text \<open>The outcome in which the kernel refuses the read filter but installs the write filter.\<close>

definition only_write_installed :: "'k kq_sys \<Rightarrow> int \<Rightarrow> kevent \<Rightarrow> kevent \<Rightarrow> 'k \<Rightarrow> bool" where
  "only_write_installed Y q rd wr k \<longleftrightarrow>
     (case fst (kq_receipt Y q [rd, wr] k) of Inl e \<Rightarrow> False | Inr ds \<Rightarrow> ds ! 0 \<noteq> 0 \<and> ds ! 1 = 0)"

lemma add_bidi_receipt:
  fixes ud :: ep_ptr and flags :: "32 word"
  assumes "kq_kernel Y F" "F (kq_kern m) (fd, EVFILT_READ) = None" "F (kq_kern m) (fd, EVFILT_WRITE) = None"
  defines "rd \<equiv> bidi_change fd ud EVFILT_READ (flags AND IN_EVENTS \<noteq> 0) EV_RECEIPT (POLL_SEMANTICS Y)"
    and "wr \<equiv> bidi_change fd ud EVFILT_WRITE (flags AND OUT_EVENTS \<noteq> 0) EV_RECEIPT 0"
  shows "case kq_add_bidi_fd_watch Y fd ud flags emulate m of
    (Inl e, m') \<Rightarrow> F (kq_kern m') =
      (if only_write_installed Y (kqfd m) rd wr (kq_kern m) then (F (kq_kern m))((fd, EVFILT_WRITE) \<mapsto> wr) else F (kq_kern m))
  | (Inr r, m') \<Rightarrow>
      (F (kq_kern m') (fd, EVFILT_READ) \<noteq> None \<longleftrightarrow> r AND IN_EVENTS = 0) \<and>
      (F (kq_kern m') (fd, EVFILT_WRITE) \<noteq> None \<longleftrightarrow> r AND OUT_EVENTS = 0) \<and> (r \<noteq> 0 \<longrightarrow> emulate)"
proof -
  have id: "ident rd = fd" "kfilter rd = EVFILT_READ" "ident wr = fd" "kfilter wr = EVFILT_WRITE"
    by (simp_all add: bidi_change_def rd_def wr_def)
  note laws = kq_kernel_receipt [OF assms(1) id]
  obtain r k' where rk: "kq_receipt Y (kqfd m) [rd, wr] (kq_kern m) = (r, k')" by fastforce
  define undo where "undo = (\<lambda>m. snd (kq_do (kq_change Y (kqfd m) [kq_delete EVFILT_READ fd ud]) m))"
  have code: "kq_add_bidi_fd_watch Y fd ud flags emulate m =
     (case kq_do (kq_receipt Y (kqfd m) [rd, wr]) m of
           (Inl e, m) \<Rightarrow> (Inl (System_error e), m)
         | (Inr data, m) \<Rightarrow>
             if data ! 0 \<noteq> 0 then (Inl (System_error (data ! 0)), m)
             else if data ! 1 \<noteq> 0 then
               if emulate then
                 if POLL_SEMANTICS Y \<noteq> 0 then (Inr OUT_EVENTS, m)
                 else (Inr (IN_EVENTS OR OUT_EVENTS), undo m)
               else (Inl (System_error (data ! 1)), undo m)
             else (Inr 0, m))" by (simp only: kq_add_bidi_fd_watch_def Let_def rd_def wr_def undo_def)
  show ?thesis
  proof (cases r)
    case (Inl e)
    with laws(1) [OF rk [unfolded Inl]] rk show ?thesis
      by (simp add: code kq_do_def only_write_installed_def)
  next
    case (Inr ds)
    note l = laws(2) [OF rk [unfolded Inr]]
    have gone: "(F (kq_kern m))((fd, EVFILT_READ) := None) = F (kq_kern m)" using assms(2) by (simp add: fun_upd_idem)
    show ?thesis
      using rk Inr l gone assms(2,3)
      by (simp add: code undo_def kq_do_def Let_def case_prod_beta kq_kernel_change(1) [OF assms(1)] io_bits
          only_write_installed_def)
  qed
qed

lemma add_bidi_seq:
  assumes "kq_kernel Y F" "F (kq_kern m) (fd, EVFILT_READ) = None" "F (kq_kern m) (fd, EVFILT_WRITE) = None"
  shows "case kq_add_bidi_fd_watch_seq Y fd ud flags emulate m of
    (Inl e, m') \<Rightarrow> F (kq_kern m') = F (kq_kern m)
  | (Inr r, m') \<Rightarrow>
      (F (kq_kern m') (fd, EVFILT_READ) \<noteq> None \<longleftrightarrow> r AND IN_EVENTS = 0) \<and>
      (F (kq_kern m') (fd, EVFILT_WRITE) \<noteq> None \<longleftrightarrow> r AND OUT_EVENTS = 0) \<and> (r \<noteq> 0 \<longrightarrow> emulate)"
proof -
  note laws = kq_kernel_change [OF assms(1)]
  let ?c = "\<lambda>filt en. [bidi_change fd ud filt en 0 0]"
  obtain r k' where k': "kq_change Y (kqfd m) (?c EVFILT_READ (flags AND IN_EVENTS \<noteq> 0)) (kq_kern m) = (r, k')" by fastforce
  obtain w k'' where k'': "kq_change Y (kqfd m) (?c EVFILT_WRITE (flags AND OUT_EVENTS \<noteq> 0)) k' = (w, k'')" by fastforce
  have F': "F k' = (if r = None then (F (kq_kern m))((fd, EVFILT_READ) \<mapsto> hd (?c EVFILT_READ (flags AND IN_EVENTS \<noteq> 0)))
      else F (kq_kern m))"
    and F'': "F k'' = (if w = None then (F k')((fd, EVFILT_WRITE) \<mapsto> hd (?c EVFILT_WRITE (flags AND OUT_EVENTS \<noteq> 0))) else F k')"
    using laws(2) [of "kqfd m" fd ud EVFILT_READ _ 0 "kq_kern m"] laws(2) [of "kqfd m" fd ud EVFILT_WRITE _ 0 k'] k' k''
    by (metis fst_conv snd_conv list.sel(1))+
  have undo: "(F k'')((fd, EVFILT_READ) := None) = F (kq_kern m)" if "w \<noteq> None" "r = None"
    using that assms(2) F' F'' by (auto simp: fun_upd_idem)
  show ?thesis
  proof (cases r)
    case None
    show ?thesis
      using None k' k'' F' F'' undo assms(2,3)
      by (cases w) (simp_all add: kq_add_bidi_fd_watch_seq_def kq_do_def Let_def case_prod_beta laws(1) io_bits)
  next
    case (Some e)
    with k' F' show ?thesis by (simp add: kq_add_bidi_fd_watch_seq_def kq_do_def)
  qed
qed

text \<open>
  C39: adding a watch of both directions of an unwatched descriptor, in both variants of the code. On success exactly the filters of the
  directions that need no emulation according to the result are installed, and emulation is reported only if
  the caller allows it. After an exception none is installed, with one exception: when the kernel refuses the read filter but
  accepts the write filter of the pair (which the code's comment says should not happen), the variant with receipts throws and leaves the write
  filter installed, with the user data of a watcher whose registration has failed.
\<close>

theorem kqueue_add_bidi:
  fixes ud :: ep_ptr and flags :: "32 word" and emulate :: bool
  assumes "kq_kernel Y F" "F (kq_kern m) (fd, EVFILT_READ) = None" "F (kq_kern m) (fd, EVFILT_WRITE) = None"
  defines "rd \<equiv> bidi_change fd ud EVFILT_READ (flags AND IN_EVENTS \<noteq> 0) EV_RECEIPT (POLL_SEMANTICS Y)"
    and "wr \<equiv> bidi_change fd ud EVFILT_WRITE (flags AND OUT_EVENTS \<noteq> 0) EV_RECEIPT 0"
  defines "exact \<equiv> \<lambda>(r :: 32 word) m'. (F (kq_kern m') (fd, EVFILT_READ) \<noteq> None \<longleftrightarrow> r AND IN_EVENTS = 0) \<and>
      (F (kq_kern m') (fd, EVFILT_WRITE) \<noteq> None \<longleftrightarrow> r AND OUT_EVENTS = 0) \<and> (r \<noteq> 0 \<longrightarrow> emulate)"
  shows "(case kq_add_bidi_fd_watch Y fd ud flags emulate m of
      (Inl e, m') \<Rightarrow> F (kq_kern m') =
        (if only_write_installed Y (kqfd m) rd wr (kq_kern m) then (F (kq_kern m))((fd, EVFILT_WRITE) \<mapsto> wr) else F (kq_kern m))
    | (Inr r, m') \<Rightarrow> exact r m') \<and>
    (case kq_add_bidi_fd_watch_seq Y fd ud flags emulate m of
      (Inl e, m') \<Rightarrow> F (kq_kern m') = F (kq_kern m)
    | (Inr r, m') \<Rightarrow> exact r m')"
  using add_bidi_receipt [OF assms(1-3), where ud = ud and flags = flags and emulate = emulate]
    add_bidi_seq [OF assms(1-3), where ud = ud and flags = flags and emulate = emulate]
  unfolding exact_def rd_def wr_def by (rule conjI)

text \<open>A kernel that refuses a filter of one direction: \<open>no_write\<close> (\<open>kq_sample_sys\<close>) or of the other.\<close>

definition kq_odd_sys :: "(int \<times> kq_filter \<rightharpoonup> kevent) kq_sys" where
  "kq_odd_sys = kq_sample_sys\<lparr>kq_receipt := \<lambda>_ es k. (Inr (map (\<lambda>e. if kfilter e = EVFILT_READ then EINVAL else 0) es),
       fold (\<lambda>e k. if kfilter e = EVFILT_READ then k else k((ident e, kfilter e) \<mapsto> e)) es k)\<rparr>"

theorem kqueue_add_bidi_witness:
  "(case kq_add_bidi_fd_watch kq_sample_sys 5 (Watcher (W 0)) IN_EVENTS False \<lparr>kqfd = 3, kq_kern = Map.empty\<rparr> of
      (r, m') \<Rightarrow> r = Inl (System_error EINVAL) \<and> kq_kern m' = Map.empty) \<and>
   (case kq_add_bidi_fd_watch kq_odd_sys 5 (Watcher (W 0)) IN_EVENTS False \<lparr>kqfd = 3, kq_kern = Map.empty\<rparr> of
      (r, m') \<Rightarrow> r = Inl (System_error EINVAL) \<and> kq_kern m' (5, EVFILT_WRITE) \<noteq> None)"
proof -
  let ?m = "\<lparr>kqfd = 3, kq_kern = Map.empty\<rparr>"
  have k: "kq_kernel kq_sample_sys (\<lambda>k. k)" "kq_kernel kq_odd_sys (\<lambda>k. k)"
    by (auto simp: kq_kernel_def kq_sample_sys_def kq_odd_sys_def bidi_change_def kq_delete_def EV_ADD_def EV_DELETE_def
        EV_DISABLE_def EINVAL_def)
  have r: "fst (kq_add_bidi_fd_watch kq_sample_sys 5 (Watcher (W 0)) IN_EVENTS False ?m) = Inl (System_error EINVAL)"
    "fst (kq_add_bidi_fd_watch kq_odd_sys 5 (Watcher (W 0)) IN_EVENTS False ?m) = Inl (System_error EINVAL)"
    "\<not> only_write_installed kq_sample_sys 3 (bidi_change 5 (Watcher (W 0)) EVFILT_READ b1 x1 y1) (bidi_change 5 (Watcher (W 0)) EVFILT_WRITE b2 x2 y2) k"
    "only_write_installed kq_odd_sys 3 (bidi_change 5 (Watcher (W 0)) EVFILT_READ b1 x1 y1) (bidi_change 5 (Watcher (W 0)) EVFILT_WRITE b2 x2 y2) k"
    for b1 x1 y1 b2 x2 y2 k
    by (simp_all add: kq_add_bidi_fd_watch_def kq_sample_sys_def kq_odd_sys_def kq_do_def Let_def EINVAL_def bidi_change_def
        only_write_installed_def)
  note a = kqueue_add_bidi [OF k(1), where m = ?m and fd = 5 and ud = "Watcher (W 0)" and flags = IN_EVENTS and emulate = False, THEN conjunct1]
  note b = kqueue_add_bidi [OF k(2), where m = ?m and fd = 5 and ud = "Watcher (W 0)" and flags = IN_EVENTS and emulate = False, THEN conjunct1]
  show ?thesis using a b r by (simp add: case_prod_beta)
qed

end
