(* ===== verification/Btree_set.thy ===== *)
theory Btree_set
  imports Prelude
begin

text \<open>
  \<open>btree_set.h\<close>: an ordered set of keys with client-owned handles, as a B-tree of \<open>septnode\<close>s with up to \<open>N = 8\<close>
  values each. The nodes for a tree of the number of allocated slots are kept in reserve, so that \<open>insert\<close> never allocates.

  A \<open>septnode\<close> lives at an address (a natural number) of the memory \<open>septs\<close>; its arrays are functions of the
  index. \<open>live\<close> are the addresses of the nodes that exist; the client's handles are of type \<open>'h\<close>, their members are
  \<open>h_parent\<close> and \<open>h_data\<close>. A null pointer is \<open>None\<close>. An operation that reads through a null pointer or runs
  off an array has the result \<open>None\<close>; so has a loop that does not end, a look-up that reaches a node that does not exist, a
  removal through a handle whose node does not exist, and the deletion of a node that does not exist (a double free).
\<close>

definition N :: nat where "N = 8"

record ('h, 'p) septnode =
  s_prio :: "nat \<Rightarrow> 'p"
  s_hn :: "nat \<Rightarrow> 'h option"
  s_ch :: "nat \<Rightarrow> nat option"
  s_parent :: "nat option"

record ('h, 'p, 't) btree_set =
  septs :: "nat \<Rightarrow> ('h, 'p) septnode"
  live :: "nat set"
  h_parent :: "'h \<Rightarrow> nat option"
  h_data :: "'h \<Rightarrow> 't"
  root_sept :: "nat option"
  left_sept :: "nat option"
  sn_reserve :: "nat option"
  num_alloced :: nat
  num_septs :: nat
  num_septs_needed :: nat
  next_sept :: nat

definition upn ::
  "nat \<Rightarrow> (('h, 'p) septnode \<Rightarrow> ('h, 'p) septnode) \<Rightarrow> ('h, 'p, 't) btree_set \<Rightarrow> ('h, 'p, 't) btree_set" where
  "upn a f s = s\<lparr>septs := (septs s)(a := f (septs s a))\<rparr>"

definition set_prio :: "nat \<Rightarrow> nat \<Rightarrow> 'p \<Rightarrow> ('h, 'p, 't) btree_set \<Rightarrow> ('h, 'p, 't) btree_set" where
  "set_prio a i v s = upn a (\<lambda>n. n\<lparr>s_prio := (s_prio n)(i := v)\<rparr>) s"

definition set_hn :: "nat \<Rightarrow> nat \<Rightarrow> 'h option \<Rightarrow> ('h, 'p, 't) btree_set \<Rightarrow> ('h, 'p, 't) btree_set" where
  "set_hn a i v s = upn a (\<lambda>n. n\<lparr>s_hn := (s_hn n)(i := v)\<rparr>) s"

definition set_ch :: "nat \<Rightarrow> nat \<Rightarrow> nat option \<Rightarrow> ('h, 'p, 't) btree_set \<Rightarrow> ('h, 'p, 't) btree_set" where
  "set_ch a i v s = upn a (\<lambda>n. n\<lparr>s_ch := (s_ch n)(i := v)\<rparr>) s"

definition set_parent :: "nat \<Rightarrow> nat option \<Rightarrow> ('h, 'p, 't) btree_set \<Rightarrow> ('h, 'p, 't) btree_set" where
  "set_parent a v s = upn a (\<lambda>n. n\<lparr>s_parent := v\<rparr>) s"

text \<open>\<open>if (c) c->parent = a\<close> and \<open>h->parent = a\<close>.\<close>

definition adopt :: "nat option \<Rightarrow> nat \<Rightarrow> ('h, 'p, 't) btree_set \<Rightarrow> ('h, 'p, 't) btree_set" where
  "adopt c a s = (case c of None \<Rightarrow> s | Some x \<Rightarrow> set_parent x (Some a) s)"

definition own :: "'h option \<Rightarrow> nat \<Rightarrow> ('h, 'p, 't) btree_set \<Rightarrow> ('h, 'p, 't) btree_set" where
  "own h a s = (case h of None \<Rightarrow> s | Some h \<Rightarrow> s\<lparr>h_parent := (h_parent s)(h := Some a)\<rparr>)"

section \<open>Nodes\<close>

definition sept_init :: "('h, 'p) septnode \<Rightarrow> ('h, 'p) septnode" where
  "sept_init n = n\<lparr>s_hn := (\<lambda>i. if i < N then None else s_hn n i), s_ch := (\<lambda>i. if i \<le> N then None else s_ch n i), s_parent := None\<rparr>"

fun num_vals_loop :: "('h, 'p) septnode \<Rightarrow> nat \<Rightarrow> nat" where
  "num_vals_loop n 0 = 0"
| "num_vals_loop n (Suc i) = (if s_hn n i \<noteq> None then Suc i else num_vals_loop n i)"

definition num_vals :: "('h, 'p) septnode \<Rightarrow> nat" where
  "num_vals n = num_vals_loop n N"

definition is_leaf :: "('h, 'p) septnode \<Rightarrow> bool" where
  "is_leaf n \<longleftrightarrow> s_ch n 0 = None"

text \<open>One element of \<open>shift_elems_left\<close> and \<open>shift_elems_right\<close>: element \<open>i\<close> of a node moves to \<open>j\<close>.\<close>

definition move_elem :: "nat \<Rightarrow> nat \<Rightarrow> nat \<Rightarrow> ('h, 'p, 't) btree_set \<Rightarrow> ('h, 'p, 't) btree_set" where
  "move_elem a j i s =
     (let s = set_prio a j (s_prio (septs s a) i) s; s = set_hn a j (s_hn (septs s a) i) s
      in set_ch a j (s_ch (septs s a) i) s)"

definition shift_elems_left :: "nat \<Rightarrow> nat \<Rightarrow> nat \<Rightarrow> nat \<Rightarrow> ('h, 'p, 't) btree_set \<Rightarrow> ('h, 'p, 't) btree_set" where
  "shift_elems_left a pos newpos num s =
     (let diff = pos - newpos; e = pos + num;
          s = fold (\<lambda>i. move_elem a (i - diff) i) [pos..<e] s
      in set_ch a (e - diff) (s_ch (septs s a) e) s)"

definition shift_elems_right :: "nat \<Rightarrow> nat \<Rightarrow> nat \<Rightarrow> nat \<Rightarrow> ('h, 'p, 't) btree_set \<Rightarrow> ('h, 'p, 't) btree_set" where
  "shift_elems_right a pos newpos num s =
     (let diff = newpos - pos; e = pos + num;
          s = set_ch a (e + diff) (s_ch (septs s a) e) s
      in fold (\<lambda>i. move_elem a (i + diff) i) (rev [pos..<e]) s)"

section \<open>Slots and reserve\<close>

text \<open>\<open>unsigned\<close> counters wrap. \<open>new_at\<close> is the allocator: a fresh address, or none.\<close>

definition u32 :: "nat \<Rightarrow> nat" where
  "u32 n = n mod 2 ^ 32"

definition bset_new :: "(nat \<Rightarrow> ('h, 'p) septnode) \<Rightarrow> ('h \<Rightarrow> 't) \<Rightarrow> ('h, 'p, 't) btree_set" where
  "bset_new garbage d = \<lparr>septs = garbage, live = {}, h_parent = \<lambda>_. None, h_data = d, root_sept = None, left_sept = None,
     sn_reserve = None, num_alloced = 0, num_septs = 0, num_septs_needed = 0, next_sept = 1\<rparr>"

definition release_sept :: "nat \<Rightarrow> ('h, 'p, 't) btree_set \<Rightarrow> ('h, 'p, 't) btree_set" where
  "release_sept a s = (set_parent a (sn_reserve s) s)\<lparr>sn_reserve := Some a\<rparr>"

definition new_reserve ::
  "(nat set \<Rightarrow> nat option) \<Rightarrow> ('h, 'p, 't) btree_set \<Rightarrow> exn option \<times> ('h, 'p, 't) btree_set" where
  "new_reserve new_at s =
     (case new_at (live s) of
        None \<Rightarrow> (Some Bad_alloc, s)
      | Some a \<Rightarrow> (None, release_sept a (s\<lparr>live := insert a (live s), num_septs := u32 (num_septs s + 1)\<rparr>)))"

text \<open>The counters are restored before an exception is passed on.\<close>

definition undo_slot :: "('h, 'p, 't) btree_set \<Rightarrow> ('h, 'p, 't) btree_set" where
  "undo_slot s = s\<lparr>num_septs_needed := u32 (num_septs_needed s + 2 ^ 32 - 1), num_alloced := size_dec (num_alloced s)\<rparr>"

definition alloc_slot ::
  "(nat set \<Rightarrow> nat option) \<Rightarrow> ('h, 'p, 't) btree_set \<Rightarrow> exn option \<times> ('h, 'p, 't) btree_set" where
  "alloc_slot new_at s =
     (let s = s\<lparr>num_alloced := (num_alloced s + 1) mod 2 ^ 64\<rparr> in
      if num_alloced s = next_sept s then
        let s = s\<lparr>num_septs_needed := u32 (num_septs_needed s + 1)\<rparr> in
        case (if num_septs_needed s > num_septs s then new_reserve new_at s else (None, s)) of
          (Some e, s) \<Rightarrow> (Some e, undo_slot s)
        | (None, s) \<Rightarrow>
            if num_septs_needed s = 0 then (Some Bad_alloc, undo_slot s)
            else (None, s\<lparr>next_sept := u32 (next_sept s + N div 2)\<rparr>)
      else (None, s))"

definition alloc_sept :: "('h, 'p, 't) btree_set \<Rightarrow> (nat \<times> ('h, 'p, 't) btree_set) option" where
  "alloc_sept s =
     (case sn_reserve s of
        None \<Rightarrow> None
      | Some r \<Rightarrow> Some (r, upn r sept_init (s\<lparr>sn_reserve := s_parent (septs s r)\<rparr>)))"

definition bset_allocate ::
  "(nat set \<Rightarrow> nat option) \<Rightarrow> 'h \<Rightarrow> 't \<Rightarrow> ('h, 'p, 't) btree_set \<Rightarrow> exn option \<times> ('h, 'p, 't) btree_set" where
  "bset_allocate new_at h d s =
     (case alloc_slot new_at s of
        (Some e, s) \<Rightarrow> (Some e, s)
      | (None, s) \<Rightarrow> (None, s\<lparr>h_data := (h_data s)(h := d)\<rparr>))"

definition bset_deallocate :: "'h \<Rightarrow> ('h, 'p, 't) btree_set \<Rightarrow> ('h, 'p, 't) btree_set option" where
  "bset_deallocate h s =
     (let s = s\<lparr>num_alloced := size_dec (num_alloced s)\<rparr> in
      if num_alloced s < u32 (next_sept s + 2 ^ 32 - N div 2) then
        let s = s\<lparr>next_sept := u32 (next_sept s + 2 ^ 32 - N div 2), num_septs_needed := u32 (num_septs_needed s + 2 ^ 32 - 1)\<rparr> in
        if num_septs_needed s < u32 (num_septs s + 2 ^ 32 - 1) then
          (case sn_reserve s of
             None \<Rightarrow> None
           | Some r \<Rightarrow>
               if r \<notin> live s then None
               else Some (s\<lparr>sn_reserve := s_parent (septs s r), live := live s - {r}, num_septs := u32 (num_septs s + 2 ^ 32 - 1)\<rparr>))
        else Some s
      else Some s)"

section \<open>Search\<close>

text \<open>
  The binary search over the indices \<open>lo\<close> to \<open>hi\<close>: \<open>None\<close> when the value is found, otherwise the final \<open>max\<close>. \<open>lft i\<close>
  is the condition under which the search goes to the left of \<open>i\<close>.
\<close>

function bsearch :: "(nat \<Rightarrow> bool) \<Rightarrow> (nat \<Rightarrow> bool) \<Rightarrow> int \<Rightarrow> int \<Rightarrow> int option" where
  "bsearch lft eq lo hi =
     (if lo \<le> hi then
        let i = (lo + hi) div 2 in
        if lft (nat i) then bsearch lft eq lo (i - 1)
        else if eq (nat i) then None
        else bsearch lft eq (i + 1) hi
      else Some hi)"
  by pat_completeness auto
termination by (relation "measure (\<lambda>(lft, eq, lo, hi). nat (hi - lo + 1))") auto

text \<open>The descent to a leaf: \<open>Some None\<close> when the value is present.\<close>

partial_function (option) descend :: "('h, 'p::linorder, 't) btree_set \<Rightarrow> 'p \<Rightarrow> nat \<Rightarrow> nat option option" where
  "descend s pval a =
     (let n = septs s a in
      if is_leaf n then Some (Some a)
      else
        case bsearch (\<lambda>i. s_hn n i = None \<or> pval < s_prio n i) (\<lambda>i. s_prio n i = pval) 0 (int N - 1) of
          None \<Rightarrow> Some None
        | Some m \<Rightarrow> (case s_ch n (nat (m + 1)) of None \<Rightarrow> None | Some c \<Rightarrow> descend s pval c))"

text \<open>\<open>find\<close>: the scan of one node gives the handle or the index of the child to go on with.\<close>

function find_scan :: "('h, 'p::linorder) septnode \<Rightarrow> 'p \<Rightarrow> nat \<Rightarrow> 'h option + nat" where
  "find_scan n pval i =
     (if i < N \<and> s_hn n i \<noteq> None then
        if s_prio n i = pval then Inl (s_hn n i)
        else if pval < s_prio n i then Inr i
        else find_scan n pval (i + 1)
      else Inr i)"
  by pat_completeness auto
termination by (relation "measure (\<lambda>(n, pval, i). N - i)") auto

declare bsearch.simps [simp del] find_scan.simps [simp del]

partial_function (option) find_from :: "('h, 'p::linorder, 't) btree_set \<Rightarrow> 'p \<Rightarrow> nat option \<Rightarrow> 'h option option" where
  "find_from s pval c =
     (case c of
        None \<Rightarrow> Some None
      | Some a \<Rightarrow>
          if a \<notin> live s then None
          else
            (case find_scan (septs s a) pval 0 of
               Inl h \<Rightarrow> Some h
             | Inr i \<Rightarrow> find_from s pval (s_ch (septs s a) i)))"

definition bset_find :: "'p::linorder \<Rightarrow> ('h, 'p, 't) btree_set \<Rightarrow> 'h option option" where
  "bset_find pval s = find_from s pval (root_sept s)"

definition bset_is_queued :: "'h \<Rightarrow> ('h, 'p, 't) btree_set \<Rightarrow> bool" where
  "bset_is_queued h s \<longleftrightarrow> h_parent s h \<noteq> None"

definition bset_empty :: "('h, 'p, 't) btree_set \<Rightarrow> bool" where
  "bset_empty s \<longleftrightarrow> root_sept s = None"

section \<open>Insertion\<close>

text \<open>
  The split of a full node \<open>a\<close>: value \<open>i\<close> of the upper half, with the child to its right, moves to the new sibling \<open>b\<close>.
\<close>

definition split_copy :: "nat \<Rightarrow> nat \<Rightarrow> nat \<Rightarrow> ('h, 'p, 't) btree_set \<Rightarrow> ('h, 'p, 't) btree_set" where
  "split_copy a b i s =
     (let j = i - N div 2;
          s = set_prio b j (s_prio (septs s a) i) s;
          s = set_hn b j (s_hn (septs s a) i) s;
          s = set_ch b (j + 1) (s_ch (septs s a) (i + 1)) s;
          s = adopt (s_ch (septs s b) (j + 1)) b s;
          s = own (s_hn (septs s b) j) b s
      in set_hn a i None s)"

text \<open>The value to insert is the last of its half's first \<open>i\<close>: the values before it move up.\<close>

fun raise_loop :: "nat \<Rightarrow> 'p::linorder \<Rightarrow> nat \<Rightarrow> ('h, 'p, 't) btree_set \<Rightarrow> nat \<times> ('h, 'p, 't) btree_set" where
  "raise_loop a pval 0 s = (0, s)"
| "raise_loop a pval (Suc j) s =
     (if pval < s_prio (septs s a) j then
        let s = set_prio a (Suc j) (s_prio (septs s a) j) s;
            s = set_ch a (Suc j + 1) (s_ch (septs s a) (Suc j)) s;
            s = set_hn a (Suc j) (s_hn (septs s a) j) s
        in raise_loop a pval j s
      else (Suc j, s))"

text \<open>In the upper half the values before it move down.\<close>

function lower_loop :: "nat \<Rightarrow> 'p::linorder \<Rightarrow> nat \<Rightarrow> ('h, 'p, 't) btree_set \<Rightarrow> nat \<times> ('h, 'p, 't) btree_set" where
  "lower_loop b pval i s =
     (if i < N div 2 - 1 \<and> s_prio (septs s b) (i + 1) < pval then
        let s = set_prio b i (s_prio (septs s b) (i + 1)) s;
            s = set_ch b i (s_ch (septs s b) (i + 1)) s;
            s = set_hn b i (s_hn (septs s b) (i + 1)) s
        in lower_loop b pval (i + 1) s
      else (i, s))"
  by pat_completeness auto
termination by (relation "measure (\<lambda>(b, pval, i, s). N - i)") (auto simp: N_def)

declare lower_loop.simps [simp del]

text \<open>The value \<open>pval\<close> with handle \<open>h\<close> and the nodes \<open>ld\<close>, \<open>rd\<close> on its sides, at index \<open>i\<close> of node \<open>a\<close>.\<close>

definition put_value ::
  "nat \<Rightarrow> nat \<Rightarrow> 'p \<Rightarrow> 'h \<Rightarrow> nat option \<Rightarrow> nat option \<Rightarrow> ('h, 'p, 't) btree_set \<Rightarrow> ('h, 'p, 't) btree_set" where
  "put_value a i pval h ld rd s =
     (let s = set_prio a i pval s; s = set_hn a i (Some h) s; s = own (Some h) a s; s = set_ch a i ld s
      in set_ch a (i + 1) rd s)"

text \<open>The three cases of the split; each returns the value and handle that go up.\<close>

definition split_left ::
  "nat \<Rightarrow> nat \<Rightarrow> 'p::linorder \<Rightarrow> 'h \<Rightarrow> nat option \<Rightarrow> nat option \<Rightarrow> ('h, 'p, 't) btree_set \<Rightarrow>
   'p \<times> 'h option \<times> ('h, 'p, 't) btree_set" where
  "split_left a b pval h ld rd s =
     (let o_prio = s_prio (septs s a) (N div 2 - 1);
          o_hidx = s_hn (septs s a) (N div 2 - 1);
          s = set_ch b 0 (s_ch (septs s a) (N div 2)) s;
          s = adopt (s_ch (septs s b) 0) b s;
          (i, s) = raise_loop a pval (N div 2 - 1) s
      in (o_prio, o_hidx, put_value a i pval h ld rd s))"

definition split_mid ::
  "nat \<Rightarrow> nat \<Rightarrow> 'p::linorder \<Rightarrow> 'h \<Rightarrow> nat option \<Rightarrow> nat option \<Rightarrow> ('h, 'p, 't) btree_set \<Rightarrow>
   'p \<times> 'h option \<times> ('h, 'p, 't) btree_set" where
  "split_mid a b pval h ld rd s =
     (let s = set_ch a (N div 2) ld s; s = set_ch b 0 rd s
      in (pval, Some h, adopt rd b (adopt ld a s)))"

definition split_right ::
  "nat \<Rightarrow> nat \<Rightarrow> 'p::linorder \<Rightarrow> 'h \<Rightarrow> nat option \<Rightarrow> nat option \<Rightarrow> ('h, 'p, 't) btree_set \<Rightarrow>
   'p \<times> 'h option \<times> ('h, 'p, 't) btree_set" where
  "split_right a b pval h ld rd s =
     (let o_prio = s_prio (septs s b) 0;
          o_hidx = s_hn (septs s b) 0;
          (i, s) = lower_loop b pval 0 s
      in (o_prio, o_hidx, adopt rd b (adopt ld b (put_value b i pval h ld rd s))))"

definition split_node ::
  "nat \<Rightarrow> nat \<Rightarrow> 'p::linorder \<Rightarrow> 'h \<Rightarrow> nat option \<Rightarrow> nat option \<Rightarrow> ('h, 'p, 't) btree_set \<Rightarrow>
   'p \<times> 'h option \<times> ('h, 'p, 't) btree_set" where
  "split_node a b pval h ld rd s =
     (let s = set_parent b (s_parent (septs s a)) s;
          s = fold (split_copy a b) [N div 2..<N] s
      in if pval < s_prio (septs s a) (N div 2 - 1) then split_left a b pval h ld rd s
         else if pval < s_prio (septs s b) 0 then split_mid a b pval h ld rd s
         else split_right a b pval h ld rd s)"

text \<open>The loop that splits full nodes towards the root; \<open>n\<close> is \<open>children\<close>.\<close>

partial_function (option) split_loop ::
  "nat \<Rightarrow> nat \<Rightarrow> 'p::linorder \<Rightarrow> 'h \<Rightarrow> nat option \<Rightarrow> nat option \<Rightarrow> ('h, 'p, 't) btree_set \<Rightarrow>
   (nat \<times> nat \<times> 'p \<times> 'h \<times> nat option \<times> nat option \<times> ('h, 'p, 't) btree_set) option" where
  "split_loop a n pval h ld rd s =
     (if n = N then
        Option.bind (alloc_sept s) (\<lambda>(b, s).
          case split_node a b pval h ld rd s of
            (pval, None, s) \<Rightarrow> None
          | (pval, Some h, s) \<Rightarrow>
              (case s_parent (septs s a) of
                 Some p \<Rightarrow> split_loop p (num_vals (septs s p)) pval h (Some a) (Some b) s
               | None \<Rightarrow>
                   Option.bind (alloc_sept s) (\<lambda>(r, s).
                     let s = s\<lparr>root_sept := Some r\<rparr>; s = set_parent a (Some r) s; s = set_parent b (Some r) s
                     in split_loop r 0 pval h (Some a) (Some b) s)))
      else Some (a, n, pval, h, ld, rd, s))"

text \<open>The insertion into a node that is not full.\<close>

fun ins_loop :: "nat \<Rightarrow> 'p::linorder \<Rightarrow> nat \<Rightarrow> ('h, 'p, 't) btree_set \<Rightarrow> nat \<times> ('h, 'p, 't) btree_set" where
  "ins_loop a pval 0 s = (0, s)"
| "ins_loop a pval (Suc j) s =
     (if s_prio (septs s a) j < pval then (Suc j, s)
      else
        let s = set_prio a (Suc j) (s_prio (septs s a) j) s;
            s = set_hn a (Suc j) (s_hn (septs s a) j) s;
            s = set_ch a (Suc j + 1) (s_ch (septs s a) (Suc j)) s
        in ins_loop a pval j s)"

definition insert_nonfull ::
  "nat \<Rightarrow> nat \<Rightarrow> 'p::linorder \<Rightarrow> 'h \<Rightarrow> nat option \<Rightarrow> nat option \<Rightarrow> ('h, 'p, 't) btree_set \<Rightarrow> ('h, 'p, 't) btree_set" where
  "insert_nonfull a n pval h ld rd s =
     (let (i, s) = ins_loop a pval n s;
          s = set_prio a i pval s; s = set_hn a i (Some h) s; s = set_ch a i ld s; s = set_ch a (i + 1) rd s
      in own (Some h) a s)"

definition insert_at_leaf ::
  "'h \<Rightarrow> 'p::linorder \<Rightarrow> nat \<Rightarrow> ('h, 'p, 't) btree_set \<Rightarrow> (bool \<times> ('h, 'p, 't) btree_set) option" where
  "insert_at_leaf h pval a s =
     (let n = num_vals (septs s a) in
      case bsearch (\<lambda>i. pval < s_prio (septs s a) i) (\<lambda>i. s_prio (septs s a) i = pval) 0 (int n - 1) of
        None \<Rightarrow> Some (False, s)
      | Some _ \<Rightarrow>
          map_option (\<lambda>(a, n, pval, h, ld, rd, s). (True, insert_nonfull a n pval h ld rd s))
            (split_loop a n pval h None None s))"

definition bset_insert ::
  "'h \<Rightarrow> 'p::linorder \<Rightarrow> ('h, 'p, 't) btree_set \<Rightarrow> (bool \<times> ('h, 'p, 't) btree_set) option" where
  "bset_insert h pval s =
     Option.bind
       (case root_sept s of
          Some r \<Rightarrow> Some (r, s)
        | None \<Rightarrow> map_option (\<lambda>(r, s). (r, s\<lparr>root_sept := Some r, left_sept := Some r\<rparr>)) (alloc_sept s))
       (\<lambda>(r, s). Option.bind (descend s pval r) (\<lambda>l.
          case l of None \<Rightarrow> Some (False, s) | Some a \<Rightarrow> insert_at_leaf h pval a s))"

section \<open>Removal\<close>

function merge_loop ::
  "nat \<Rightarrow> nat \<Rightarrow> nat \<Rightarrow> nat \<Rightarrow> ('h, 'p, 't) btree_set \<Rightarrow> (nat \<times> nat \<times> ('h, 'p, 't) btree_set) option" where
  "merge_loop l r ri n s =
     (if N \<le> ri then None
      else if s_hn (septs s r) ri = None then Some (ri, n, s)
      else if N \<le> n then None
      else
        let s = set_hn l n (s_hn (septs s r) ri) s;
            s = set_prio l n (s_prio (septs s r) ri) s;
            s = set_ch l n (s_ch (septs s r) ri) s;
            s = adopt (s_ch (septs s l) n) l s;
            s = own (s_hn (septs s l) n) l s
        in merge_loop l r (ri + 1) (n + 1) s)"
  by pat_completeness auto
termination by (relation "measure (\<lambda>(l, r, ri, n, s). N - ri)") auto

declare merge_loop.simps [simp del]

text \<open>One step of the deletion of value \<open>index\<close> of the parent \<open>p\<close>, with the child to its right.\<close>

definition drop_copy :: "nat \<Rightarrow> nat \<Rightarrow> ('h, 'p, 't) btree_set \<Rightarrow> ('h, 'p, 't) btree_set" where
  "drop_copy p i s =
     (let s = set_hn p i (s_hn (septs s p) (i + 1)) s;
          s = set_prio p i (s_prio (septs s p) (i + 1)) s
      in set_ch p (i + 1) (s_ch (septs s p) (i + 2)) s)"

definition merge :: "nat \<Rightarrow> nat \<Rightarrow> nat \<Rightarrow> ('h, 'p, 't) btree_set \<Rightarrow> ('h, 'p, 't) btree_set option" where
  "merge l r index s =
     (case s_parent (septs s l) of
        None \<Rightarrow> None
      | Some p \<Rightarrow>
          let n = num_vals (septs s l);
              s = set_hn l n (s_hn (septs s p) index) s;
              s = set_prio l n (s_prio (septs s p) index) s;
              s = own (s_hn (septs s l) n) l s
          in Option.bind (merge_loop l r 0 (n + 1) s) (\<lambda>(ri, n, s).
               let s = set_ch l n (s_ch (septs s r) ri) s;
                   s = adopt (s_ch (septs s l) n) l s;
                   s = release_sept r s;
                   s = fold (drop_copy p) [index..<N - 1] s;
                   s = set_hn p (N - 1) None s
               in Some (if s_hn (septs s p) 0 = None
                        then set_parent l None ((release_sept p s)\<lparr>root_sept := Some l\<rparr>) else s)))"

text \<open>\<open>repop_node\<close>: borrowing from the right and the left sibling.\<close>

definition borrow_right :: "nat \<Rightarrow> nat \<Rightarrow> nat \<Rightarrow> nat \<Rightarrow> ('h, 'p, 't) btree_set \<Rightarrow> ('h, 'p, 't) btree_set" where
  "borrow_right a p r n s =
     (let s = set_hn a n (s_hn (septs s p) 0) s;
          s = set_prio a n (s_prio (septs s p) 0) s;
          s = own (s_hn (septs s a) n) a s;
          s = set_ch a (n + 1) (s_ch (septs s r) 0) s;
          s = adopt (s_ch (septs s a) (n + 1)) a s;
          s = set_hn p 0 (s_hn (septs s r) 0) s;
          s = set_prio p 0 (s_prio (septs s r) 0) s;
          s = own (s_hn (septs s p) 0) p s;
          s = shift_elems_left r 1 0 (N - 1) s
      in set_hn r (N - 1) None s)"

definition borrow_left :: "nat \<Rightarrow> nat \<Rightarrow> nat \<Rightarrow> nat \<Rightarrow> nat \<Rightarrow> nat \<Rightarrow> ('h, 'p, 't) btree_set \<Rightarrow> ('h, 'p, 't) btree_set" where
  "borrow_left a p l i lc n s =
     (let s = shift_elems_right a 0 1 n s;
          s = set_hn a 0 (s_hn (septs s p) (i - 1)) s;
          s = set_prio a 0 (s_prio (septs s p) (i - 1)) s;
          s = own (s_hn (septs s a) 0) a s;
          s = set_ch a 0 (s_ch (septs s l) lc) s;
          s = adopt (s_ch (septs s a) 0) a s;
          s = set_hn p (i - 1) (s_hn (septs s l) (lc - 1)) s;
          s = set_prio p (i - 1) (s_prio (septs s l) (lc - 1)) s;
          s = own (s_hn (septs s p) (i - 1)) p s
      in set_hn l (lc - 1) None s)"

text \<open>The index of child \<open>a\<close>, searched from \<open>i\<close>; \<open>N\<close> when it is none of the others.\<close>

function child_index :: "('h, 'p) septnode \<Rightarrow> nat \<Rightarrow> nat \<Rightarrow> nat" where
  "child_index n a i = (if i < N then if s_ch n i = Some a then i else child_index n a (i + 1) else i)"
  by pat_completeness auto
termination by (relation "measure (\<lambda>(n, a, i). N - i)") auto

declare child_index.simps [simp del]

text \<open>
  One round of \<open>repop_node\<close> below the root: \<open>Inl\<close> after a borrow, \<open>Inr\<close> with the merged node after a merge.
\<close>

definition repop_step ::
  "nat \<Rightarrow> nat \<Rightarrow> nat \<Rightarrow> ('h, 'p, 't) btree_set \<Rightarrow> (('h, 'p, 't) btree_set + nat \<times> ('h, 'p, 't) btree_set) option" where
  "repop_step a p n s =
     (if s_ch (septs s p) 0 = Some a then
        (case s_ch (septs s p) 1 of
           None \<Rightarrow> None
         | Some r \<Rightarrow>
             if num_vals (septs s r) + n + 1 \<le> N then map_option (\<lambda>s. Inr (a, s)) (merge a r 0 s)
             else Some (Inl (borrow_right a p r n s)))
      else
        let i = child_index (septs s p) a 1 in
        (case s_ch (septs s p) (i - 1) of
           None \<Rightarrow> None
         | Some l \<Rightarrow>
             let lc = num_vals (septs s l) in
             if lc + n + 1 \<le> N then map_option (\<lambda>s. Inr (l, s)) (merge l a (i - 1) s)
             else Some (Inl (borrow_left a p l i lc n s))))"

partial_function (option) repop_node ::
  "nat \<Rightarrow> nat \<Rightarrow> ('h, 'p, 't) btree_set \<Rightarrow> ('h, 'p, 't) btree_set option" where
  "repop_node a n s =
     (case s_parent (septs s a) of
        None \<Rightarrow>
          Some (if s_hn (septs s a) 0 = None then release_sept a (s\<lparr>root_sept := None, left_sept := None\<rparr>) else s)
      | Some p \<Rightarrow>
          Option.bind (repop_step a p n s) (\<lambda>r. case r of
            Inl s \<Rightarrow> Some s
          | Inr (x, s) \<Rightarrow>
              (case s_parent (septs s x) of
                 None \<Rightarrow> Some s
               | Some q \<Rightarrow> if num_vals (septs s q) < N div 2 then repop_node q (num_vals (septs s q)) s else Some s)))"

text \<open>The search for the successor: right, then as far as possible to the left.\<close>

partial_function (option) leftmost :: "('h, 'p, 't) btree_set \<Rightarrow> nat \<Rightarrow> nat option \<Rightarrow> nat option" where
  "leftmost s prev c = (case c of None \<Rightarrow> Some prev | Some x \<Rightarrow> leftmost s x (s_ch (septs s x) 0))"

function del_loop :: "nat \<Rightarrow> nat \<Rightarrow> ('h, 'p, 't) btree_set \<Rightarrow> nat \<times> ('h, 'p, 't) btree_set" where
  "del_loop a i s =
     (if i < N - 1 then
        let s = set_hn a i (s_hn (septs s a) (i + 1)) s;
            s = set_prio a i (s_prio (septs s a) (i + 1)) s
        in if s_hn (septs s a) i = None then (i, s) else del_loop a (i + 1) s
      else (i, s))"
  by pat_completeness auto
termination by (relation "measure (\<lambda>(a, i, s). N - i)") auto

declare del_loop.simps [simp del]

definition remove_at :: "'h \<Rightarrow> nat \<Rightarrow> nat \<Rightarrow> ('h, 'p, 't) btree_set \<Rightarrow> ('h, 'p, 't) btree_set option" where
  "remove_at h a i s =
     Option.bind (leftmost s a (s_ch (septs s a) (i + 1))) (\<lambda>prev.
       let (s, b, i) =
             (if prev \<noteq> a then
                let s = set_hn a i (s_hn (septs s prev) 0) s;
                    s = set_prio a i (s_prio (septs s prev) 0) s;
                    s = own (s_hn (septs s a) i) a s
                in (set_hn prev 0 (Some h) s, prev, 0)
              else (s, a, i));
           (i, s) = del_loop b i s;
           s = set_hn b (N - 1) None s
       in if i < N div 2 then repop_node b i s else Some s)"

definition bset_remove :: "'h \<Rightarrow> ('h, 'p, 't) btree_set \<Rightarrow> ('h, 'p, 't) btree_set option" where
  "bset_remove h s =
     (case h_parent s h of
        None \<Rightarrow> None
      | Some a \<Rightarrow>
          if a \<notin> live s then None
          else
            (case filter (\<lambda>i. s_hn (septs s a) i = Some h) [0..<N] of
               [] \<Rightarrow> Some s
             | i # _ \<Rightarrow> remove_at h a i s))"

text \<open>The destructor: the set is emptied, then the reserve is freed.\<close>

partial_function (option) destroy_reserve :: "('h, 'p, 't) btree_set \<Rightarrow> ('h, 'p, 't) btree_set option" where
  "destroy_reserve s =
     (case sn_reserve s of
        None \<Rightarrow> Some s
      | Some r \<Rightarrow>
          if r \<notin> live s then None
          else destroy_reserve (s\<lparr>sn_reserve := s_parent (septs s r), live := live s - {r}\<rparr>))"

partial_function (option) bset_destroy :: "('h, 'p, 't) btree_set \<Rightarrow> ('h, 'p, 't) btree_set option" where
  "bset_destroy s =
     (case left_sept s of
        None \<Rightarrow> destroy_reserve s
      | Some l \<Rightarrow>
          (case s_hn (septs s l) 0 of
             None \<Rightarrow> None
           | Some h \<Rightarrow> Option.bind (bset_remove h s) bset_destroy))"

declare descend.simps [code] find_from.simps [code] split_loop.simps [code] repop_node.simps [code] leftmost.simps [code]
  destroy_reserve.simps [code] bset_destroy.simps [code]

end
