(* ===== verification/Childproc.thy ===== *)
theory Childproc
  imports Epoll Btree_set
begin

text \<open>
  \<open>childproc.h\<close>: the map from process ids to child watchers (\<open>pid_map\<close>, over \<open>btree_set\<close>) and the mixin
  \<open>child_proc_events\<close>, which reaps terminated children on \<open>SIGCHLD\<close> and reports them to their watchers.

  The handle of a watcher in the map is its member \<open>watch_handle\<close>, so the watcher's address names it; the data kept is
  the address of the watcher (\<open>None\<close> is \<open>nullptr\<close>). The mixin's part of a mechanism's state is read and written by
  \<open>part_of\<close> and \<open>put_part\<close>. \<open>ub\<close> is set when an operation on the map follows a null or dangling pointer.
  The operating system's state is \<open>'k\<close>, its calls are the record \<open>proc_sys\<close>: \<open>waitid\<close> gets the \<open>siginfo_t\<close> it fills, and
  returns whether it succeeded.
\<close>

type_synonym pid_map = "(waddr, int, waddr option) btree_set"
type_synonym pid_entry = "bool \<times> waddr option"

section \<open>The map of process ids\<close>

definition pid_get :: "int \<Rightarrow> pid_map \<Rightarrow> pid_entry option" where
  "pid_get key m =
     map_option (\<lambda>it. case it of None \<Rightarrow> (False, None) | Some h \<Rightarrow> (True, h_data m h)) (bset_find key m)"

definition pid_remove :: "int \<Rightarrow> pid_map \<Rightarrow> (pid_entry \<times> pid_map) option" where
  "pid_remove key m =
     Option.bind (bset_find key m) (\<lambda>it.
       case it of
         None \<Rightarrow> Some ((False, None), m)
       | Some h \<Rightarrow> map_option (\<lambda>m. ((True, h_data m h), m)) (bset_remove h m))"

definition pid_remove_handle :: "waddr \<Rightarrow> pid_map \<Rightarrow> pid_map option" where
  "pid_remove_handle h m = (if bset_is_queued h m then bset_remove h m else Some m)"

definition pid_reserve :: "(nat set \<Rightarrow> nat option) \<Rightarrow> waddr \<Rightarrow> pid_map \<Rightarrow> exn option \<times> pid_map" where
  "pid_reserve new_at h m = bset_allocate new_at h None m"

definition pid_unreserve :: "waddr \<Rightarrow> pid_map \<Rightarrow> pid_map option" where
  "pid_unreserve h m = bset_deallocate h m"

definition set_node_data :: "waddr \<Rightarrow> waddr option \<Rightarrow> pid_map \<Rightarrow> pid_map" where
  "set_node_data h v m = m\<lparr>h_data := (h_data m)(h := v)\<rparr>"

definition pid_add_from_reserve :: "waddr \<Rightarrow> int \<Rightarrow> waddr option \<Rightarrow> pid_map \<Rightarrow> pid_map option" where
  "pid_add_from_reserve h key v m = map_option snd (bset_insert h key (set_node_data h v m))"

definition pid_add ::
  "(nat set \<Rightarrow> nat option) \<Rightarrow> waddr \<Rightarrow> int \<Rightarrow> waddr option \<Rightarrow> pid_map \<Rightarrow> (exn option \<times> pid_map) option" where
  "pid_add new_at h key v m =
     (case pid_reserve new_at h m of
        (Some e, m) \<Rightarrow> Some (Some e, m)
      | (None, m) \<Rightarrow> map_option (\<lambda>(_, m). (None, m)) (bset_insert h key (set_node_data h v m)))"

section \<open>Status of a terminated process\<close>

definition CLD_EXITED :: int where "CLD_EXITED = 1"

definition did_exit :: "proc_status \<Rightarrow> bool" where
  "did_exit p \<longleftrightarrow> wait_si_code p = CLD_EXITED"

definition did_exit_clean :: "proc_status \<Rightarrow> bool" where
  "did_exit_clean p \<longleftrightarrow> wait_si_status p = 0"

definition was_signalled :: "proc_status \<Rightarrow> bool" where
  "was_signalled p \<longleftrightarrow> \<not> did_exit p"

section \<open>The mixin\<close>

record 'k child_proc =
  child_waiters :: pid_map
  reaper_locked :: bool
  ub :: bool
  proc_kern :: 'k

record ('m, 'k) child_part =
  part_of :: "'m \<Rightarrow> 'k child_proc"
  put_part :: "'k child_proc \<Rightarrow> 'm \<Rightarrow> 'm"

record child_info =
  si_pid :: int
  si_code :: int
  si_status :: int

record 'k proc_sys =
  waitid :: "child_info \<Rightarrow> 'k \<Rightarrow> (bool \<times> child_info) \<times> 'k"
  get_sigmask :: "'k \<Rightarrow> int set"
  set_sigmask :: "int set \<Rightarrow> 'k \<Rightarrow> 'k"
  set_handler :: "int \<Rightarrow> 'k \<Rightarrow> 'k"

definition SIGCHLD :: int where "SIGCHLD = 17"

text \<open>The address of \<open>sigchld_handler\<close>, a function that does nothing, as user data.\<close>

definition sigchld_handler :: ep_ptr where "sigchld_handler = Other 17"

definition child_do :: "('m, 'k) child_part \<Rightarrow> ('k child_proc \<Rightarrow> 'k child_proc) \<Rightarrow> 'm loop \<Rightarrow> 'm loop" where
  "child_do P f s = s\<lparr>mech := put_part P (f (part_of P (mech s))) (mech s)\<rparr>"

text \<open>
  The loop of \<open>receive_signal\<close>. It ends when \<open>waitid\<close> fails or leaves no process id; a result \<open>None\<close> is an access through a
  null or dangling pointer, or a loop that does not end.
\<close>

partial_function (option) reap_loop ::
  "heap_env \<Rightarrow> 'k proc_sys \<Rightarrow> ('m, 'k) child_part \<Rightarrow> child_info \<Rightarrow> 'm loop \<Rightarrow> 'm loop option" where
  "reap_loop E Y P buf s =
     (let ((ok, buf), k) = waitid Y buf (proc_kern (part_of P (mech s)));
          s = child_do P (proc_kern_update (\<lambda>_. k)) s
      in if \<not> ok \<or> si_pid buf = 0 then Some s
         else
           case pid_remove (si_pid buf) (child_waiters (part_of P (mech s))) of
             None \<Rightarrow> None
           | Some (ent, w) \<Rightarrow>
               let s = child_do P (child_waiters_update (\<lambda>_. w)) s in
               if fst ent then
                 (case snd ent of
                    None \<Rightarrow> None
                  | Some a \<Rightarrow>
                      reap_loop E Y P (buf\<lparr>si_pid := 0\<rparr>)
                        (receive_child_stat E \<lparr>wait_si_code = si_code buf, wait_si_status = si_status buf\<rparr> a s))
               else reap_loop E Y P (buf\<lparr>si_pid := 0\<rparr>) s)"

definition lock_reaper :: "('m, 'k) child_part \<Rightarrow> 'm loop \<Rightarrow> 'm loop" where
  "lock_reaper P s =
     child_do P (reaper_locked_update (\<lambda>_. True)) (s\<lparr>fault := fault s \<or> reaper_locked (part_of P (mech s))\<rparr>)"

definition unlock_reaper :: "('m, 'k) child_part \<Rightarrow> 'm loop \<Rightarrow> 'm loop" where
  "unlock_reaper P s = child_do P (reaper_locked_update (\<lambda>_. False)) s"

text \<open>\<open>junk\<close>: the uninitialised \<open>child_info\<close>. \<open>base_rs\<close>: \<open>receive_signal\<close> of the base class.\<close>

definition cp_receive_signal ::
  "heap_env \<Rightarrow> 'k proc_sys \<Rightarrow> ('m, 'k) child_part \<Rightarrow> child_info \<Rightarrow> (int \<Rightarrow> ep_ptr \<Rightarrow> 'm loop \<Rightarrow> bool \<times> 'm loop) \<Rightarrow>
   int \<Rightarrow> ep_ptr \<Rightarrow> 'm loop \<Rightarrow> bool \<times> 'm loop" where
  "cp_receive_signal E Y P junk base_rs signo u s =
     (if signo = SIGCHLD then
        let s = lock_reaper P s in
        case reap_loop E Y P (junk\<lparr>si_pid := 0\<rparr>) s of
          None \<Rightarrow> (False, s\<lparr>fault := True\<rparr>)
        | Some s \<Rightarrow> (False, unlock_reaper P s)
      else base_rs signo u s)"

definition waiters_do :: "('m, 'k) child_part \<Rightarrow> (pid_map \<Rightarrow> pid_map option) \<Rightarrow> 'm \<Rightarrow> 'm" where
  "waiters_do P f m =
     (let c = part_of P m in
      put_part P (case f (child_waiters c) of None \<Rightarrow> c\<lparr>ub := True\<rparr> | Some w \<Rightarrow> c\<lparr>child_waiters := w\<rparr>) m)"

definition cp_reserve_child_watch_nolock ::
  "(nat set \<Rightarrow> nat option) \<Rightarrow> ('m, 'k) child_part \<Rightarrow> waddr \<Rightarrow> 'm \<Rightarrow> exn option \<times> 'm" where
  "cp_reserve_child_watch_nolock new_at P a m =
     (let c = part_of P m; (e, w) = pid_reserve new_at a (child_waiters c)
      in (e, put_part P (c\<lparr>child_waiters := w\<rparr>) m))"

definition cp_unreserve_child_watch_nolock :: "('m, 'k) child_part \<Rightarrow> waddr \<Rightarrow> 'm \<Rightarrow> 'm" where
  "cp_unreserve_child_watch_nolock P a m = waiters_do P (pid_unreserve a) m"

definition cp_add_child_watch_nolock ::
  "(nat set \<Rightarrow> nat option) \<Rightarrow> ('m, 'k) child_part \<Rightarrow> int \<Rightarrow> waddr \<Rightarrow> 'm \<Rightarrow> exn option \<times> 'm" where
  "cp_add_child_watch_nolock new_at P child a m =
     (let c = part_of P m in
      case pid_add new_at a child (Some a) (child_waiters c) of
        None \<Rightarrow> (None, put_part P (c\<lparr>ub := True\<rparr>) m)
      | Some (e, w) \<Rightarrow> (e, put_part P (c\<lparr>child_waiters := w\<rparr>) m))"

definition cp_add_reserved_child_watch_nolock :: "('m, 'k) child_part \<Rightarrow> int \<Rightarrow> waddr \<Rightarrow> 'm \<Rightarrow> 'm" where
  "cp_add_reserved_child_watch_nolock P child a m = waiters_do P (pid_add_from_reserve a child (Some a)) m"

definition cp_stop_child_watch :: "('m, 'k) child_part \<Rightarrow> waddr \<Rightarrow> 'm \<Rightarrow> 'm" where
  "cp_stop_child_watch P a m = waiters_do P (pid_remove_handle a) m"

definition cp_remove_child_watch_nolock :: "('m, 'k) child_part \<Rightarrow> waddr \<Rightarrow> 'm \<Rightarrow> 'm" where
  "cp_remove_child_watch_nolock P a m = waiters_do P (pid_unreserve a) (waiters_do P (pid_remove_handle a) m)"

definition cp_init ::
  "'k proc_sys \<Rightarrow> ('m, 'k) child_part \<Rightarrow> (int \<Rightarrow> ep_ptr \<Rightarrow> 'm \<Rightarrow> exn option \<times> 'm) \<Rightarrow> ('m \<Rightarrow> exn option \<times> 'm) \<Rightarrow>
   'm \<Rightarrow> exn option \<times> 'm" where
  "cp_init Y P add_sig base_init m =
     (let c = part_of P m;
          ms = get_sigmask Y (proc_kern c);
          c = c\<lparr>proc_kern := set_sigmask Y (insert SIGCHLD ms) (proc_kern c)\<rparr>;
          c = c\<lparr>proc_kern := set_handler Y SIGCHLD (proc_kern c)\<rparr>;
          m = put_part P c m
      in case add_sig SIGCHLD sigchld_handler m of
           (Some e, m) \<Rightarrow> (Some e, m)
         | (None, m) \<Rightarrow> base_init m)"

text \<open>The operations on child processes of a mechanism that has the mixin among its bases.\<close>

definition child_proc_ops ::
  "(nat set \<Rightarrow> nat option) \<Rightarrow> ('m, 'k) child_part \<Rightarrow> 'm mech_ops \<Rightarrow> 'm mech_ops" where
  "child_proc_ops new_at P other = other\<lparr>
     reserve_child_watch := cp_reserve_child_watch_nolock new_at P,
     unreserve_child_watch := cp_unreserve_child_watch_nolock P,
     add_child_watch := cp_add_child_watch_nolock new_at P,
     add_reserved_child_watch := cp_add_reserved_child_watch_nolock P,
     stop_child_watch := cp_stop_child_watch P,
     remove_child_watch := cp_remove_child_watch_nolock P\<rparr>"

declare reap_loop.simps [code]

end
