(* ===== verification/Btree_Repr.thy ===== *)
theory Btree_Repr
  imports Btree_set
begin

text \<open>
  The abstraction of the pointer structure of \<open>btree_set\<close>: B-trees as a datatype whose nodes carry their address,
  trees with a hole (\<open>frame\<close> lists, innermost first), the relation between them and the memory, and the lemmas about
  single assignments.
\<close>

section \<open>Trees and contexts\<close>

datatype ('h, 'p) bt = Node (baddr: nat) (bkvs: "('p \<times> 'h) list") (bkids: "('h, 'p) bt list")

fun weave :: "'a list list \<Rightarrow> 'a list \<Rightarrow> 'a list" where
  "weave [] ks = ks"
| "weave (x # xs) [] = x @ concat xs"
| "weave (x # xs) (k # ks) = x @ k # weave xs ks"

fun inorder :: "('h, 'p) bt \<Rightarrow> ('p \<times> 'h) list" where
  "inorder (Node a ks cs) = weave (map inorder cs) ks"

fun addrs :: "('h, 'p) bt \<Rightarrow> nat list" where
  "addrs (Node a ks cs) = a # concat (map addrs cs)"

fun leftaddr :: "('h, 'p) bt \<Rightarrow> nat" where
  "leftaddr (Node a ks []) = a"
| "leftaddr (Node a ks (c # cs)) = leftaddr c"

text \<open>\<open>Frame a lk lc rk rc\<close>: a node whose child between \<open>lc\<close> and \<open>rc\<close> is the hole.\<close>

datatype ('h, 'p) frame = Frame (faddr: nat) (flk: "('p \<times> 'h) list") (flc: "('h, 'p) bt list")
  (frk: "('p \<times> 'h) list") (frc: "('h, 'p) bt list")

fun plug :: "('h, 'p) frame list \<Rightarrow> ('h, 'p) bt \<Rightarrow> ('h, 'p) bt" where
  "plug [] t = t"
| "plug (Frame a lk lc rk rc # K) t = plug K (Node a (lk @ rk) (lc @ t # rc))"

fun ctx_left :: "('h, 'p) frame list \<Rightarrow> ('p \<times> 'h) list" where
  "ctx_left [] = []"
| "ctx_left (Frame a lk lc rk rc # K) = ctx_left K @ weave (map inorder lc) lk"

fun ctx_right :: "('h, 'p) frame list \<Rightarrow> ('p \<times> 'h) list" where
  "ctx_right [] = []"
| "ctx_right (Frame a lk lc rk rc # K) = weave ([] # map inorder rc) rk @ ctx_right K"

fun ctx_addrs :: "('h, 'p) frame list \<Rightarrow> nat list" where
  "ctx_addrs [] = []"
| "ctx_addrs (Frame a lk lc rk rc # K) = a # concat (map addrs lc) @ concat (map addrs rc) @ ctx_addrs K"

definition ctx_parent :: "('h, 'p) frame list \<Rightarrow> nat option" where
  "ctx_parent K = (case K of [] \<Rightarrow> None | F # _ \<Rightarrow> Some (faddr F))"

fun ctx_wf :: "('h, 'p) frame list \<Rightarrow> bool" where
  "ctx_wf [] = True"
| "ctx_wf (Frame a lk lc rk rc # K) \<longleftrightarrow> length lc = length lk \<and> length rc = length rk \<and> ctx_wf K"

lemma ctx_parent_simps [simp]: "ctx_parent [] = None" "ctx_parent (Frame a lk lc rk rc # K) = Some a"
  by (simp_all add: ctx_parent_def)

lemma weave_append: "length xs = length ks \<Longrightarrow> weave (xs @ ys) (ks @ ls) = weave xs ks @ weave ys ls"
  by (induction xs ks rule: list_induct2) simp_all

lemma weave_Nil_right [simp]: "weave xs [] = concat xs"
  by (cases xs) simp_all

lemma weave_hd: "weave (x # xs) ks = x @ weave ([] # xs) ks"
  by (cases ks) simp_all

lemma set_weave: "length xs \<le> Suc (length ks) \<Longrightarrow> set (weave xs ks) = \<Union> (set (map set xs)) \<union> set ks"
  by (induction xs ks rule: weave.induct) auto

lemma inorder_plug: "ctx_wf K \<Longrightarrow> inorder (plug K t) = ctx_left K @ inorder t @ ctx_right K"
proof (induction K arbitrary: t)
  case (Cons F K)
  obtain a lk lc rk rc where F: "F = Frame a lk lc rk rc" by (cases F)
  have "inorder (Node a (lk @ rk) (lc @ t # rc)) =
      weave (map inorder lc) lk @ inorder t @ weave ([] # map inorder rc) rk"
    using Cons.prems by (simp add: F weave_append weave_hd [of "inorder t"])
  then show ?case using Cons by (simp add: F)
qed simp

lemma mset_addrs_plug: "mset (addrs (plug K t)) = mset (addrs t) + mset (ctx_addrs K)"
proof (induction K arbitrary: t)
  case (Cons F K)
  then show ?case by (cases F) simp
qed simp

lemma leftaddr_plug_cong: "leftaddr t = leftaddr t' \<Longrightarrow> leftaddr (plug K t) = leftaddr (plug K t')"
proof (induction K arbitrary: t t')
  case (Cons F K)
  obtain a lk lc rk rc where F: "F = Frame a lk lc rk rc" by (cases F)
  have "leftaddr (Node a (lk @ rk) (lc @ t # rc)) = leftaddr (Node a (lk @ rk) (lc @ t' # rc))"
    using Cons.prems by (cases lc) simp_all
  from Cons.IH [OF this] show ?case by (simp add: F)
qed simp

section \<open>Shape\<close>

text \<open>\<open>shape r d t\<close>: \<open>t\<close> has height \<open>d\<close>, its root has at least \<open>r\<close> and every other node at least 4 values; none has more than 8.\<close>

fun shape :: "nat \<Rightarrow> nat \<Rightarrow> ('h, 'p) bt \<Rightarrow> bool" where
  "shape r 0 (Node a ks cs) \<longleftrightarrow> r \<le> length ks \<and> length ks \<le> 8 \<and> cs = []"
| "shape r (Suc d) (Node a ks cs) \<longleftrightarrow> r \<le> length ks \<and> length ks \<le> 8 \<and> length cs = Suc (length ks) \<and> (\<forall>c \<in> set cs. shape 4 d c)"

text \<open>The context of a tree of height \<open>d\<close>.\<close>

fun ctx_shape :: "nat \<Rightarrow> ('h, 'p) frame list \<Rightarrow> bool" where
  "ctx_shape d [] = True"
| "ctx_shape d (Frame a lk lc rk rc # K) \<longleftrightarrow> length lc = length lk \<and> length rc = length rk \<and>
     (if K = [] then 1 else 4) \<le> length lk + length rk \<and> length lk + length rk \<le> 8 \<and>
     (\<forall>c \<in> set lc \<union> set rc. shape 4 d c) \<and> ctx_shape (Suc d) K"

abbreviation least :: "('h, 'p) frame list \<Rightarrow> nat" where
  "least K \<equiv> (if K = [] then 1 else 4)"

lemma ctx_shape_wf: "ctx_shape d K \<Longrightarrow> ctx_wf K"
proof (induction K arbitrary: d)
  case (Cons F K)
  then show ?case by (cases F) auto
qed simp

lemma shape_plug: "ctx_shape d K \<Longrightarrow> shape (least K) d t \<Longrightarrow> \<exists>d'. shape 1 d' (plug K t)"
proof (induction K arbitrary: d t)
  case (Cons F K)
  obtain a lk lc rk rc where F: "F = Frame a lk lc rk rc" by (cases F)
  have "shape (least K) (Suc d) (Node a (lk @ rk) (lc @ t # rc))" using Cons.prems by (auto simp: F)
  with Cons.IH [of "Suc d"] Cons.prems show ?case by (simp add: F)
qed auto

section \<open>Representation\<close>

text \<open>
  \<open>node_at s a par ks ps\<close>: the node at \<open>a\<close> has parent \<open>par\<close>, the values and handles \<open>ks\<close> and the child pointers \<open>ps\<close>, and
  its handles point to it.
\<close>

definition node_at ::
  "('h, 'p, 't) btree_set \<Rightarrow> nat \<Rightarrow> nat option \<Rightarrow> ('p \<times> 'h) list \<Rightarrow> nat option list \<Rightarrow> bool" where
  "node_at s a par ks ps \<longleftrightarrow> s_parent (septs s a) = par \<and> length ks \<le> 8 \<and> length ps = Suc (length ks) \<and>
     (\<forall>i < 8. s_hn (septs s a) i = (if i < length ks then Some (snd (ks ! i)) else None)) \<and>
     (\<forall>i < length ks. s_prio (septs s a) i = fst (ks ! i)) \<and>
     (\<forall>i \<le> length ks. s_ch (septs s a) i = ps ! i) \<and> (\<forall>k \<in> set ks. h_parent s (snd k) = Some a)"

definition ptrs :: "('p \<times> 'h) list \<Rightarrow> ('h, 'p) bt list \<Rightarrow> nat option list" where
  "ptrs ks cs = (if cs = [] then replicate (Suc (length ks)) None else map (Some \<circ> baddr) cs)"

fun bt_repr :: "('h, 'p, 't) btree_set \<Rightarrow> nat option \<Rightarrow> ('h, 'p) bt \<Rightarrow> bool" where
  "bt_repr s par (Node a ks cs) \<longleftrightarrow> node_at s a par ks (ptrs ks cs) \<and> (\<forall>c \<in> set cs. bt_repr s (Some a) c)"

fun ctx_repr :: "('h, 'p, 't) btree_set \<Rightarrow> nat \<Rightarrow> ('h, 'p) frame list \<Rightarrow> bool" where
  "ctx_repr s x [] = True"
| "ctx_repr s x (Frame a lk lc rk rc # K) \<longleftrightarrow>
     node_at s a (ctx_parent K) (lk @ rk) (map (Some \<circ> baddr) lc @ Some x # map (Some \<circ> baddr) rc) \<and>
     (\<forall>c \<in> set lc \<union> set rc. bt_repr s (Some a) c) \<and> ctx_repr s a K"

lemma bt_repr_plug:
  "bt_repr s None (plug K t) \<longleftrightarrow> ctx_repr s (baddr t) K \<and> bt_repr s (ctx_parent K) t"
proof (induction K arbitrary: t)
  case (Cons F K)
  obtain a lk lc rk rc where F: "F = Frame a lk lc rk rc" by (cases F)
  show ?case by (auto simp: F Cons.IH ptrs_def)
qed simp

text \<open>The handles of a tree.\<close>

abbreviation hnds :: "('p \<times> 'h) list \<Rightarrow> 'h set" where
  "hnds ks \<equiv> snd ` set ks"

fun thnds :: "('h, 'p) bt \<Rightarrow> 'h set" where
  "thnds (Node a ks cs) = hnds ks \<union> \<Union> (thnds ` set cs)"

fun ctx_hnds :: "('h, 'p) frame list \<Rightarrow> 'h set" where
  "ctx_hnds [] = {}"
| "ctx_hnds (Frame a lk lc rk rc # K) = hnds lk \<union> hnds rk \<union> \<Union> (thnds ` (set lc \<union> set rc)) \<union> ctx_hnds K"

text \<open>Frame rules.\<close>

lemma node_at_cong:
  "septs s a = septs s' a \<Longrightarrow> \<forall>h \<in> hnds ks. h_parent s h = h_parent s' h \<Longrightarrow> node_at s a par ks ps = node_at s' a par ks ps"
  by (auto simp: node_at_def)

lemma bt_repr_cong:
  "\<forall>x \<in> set (addrs t). septs s x = septs s' x \<Longrightarrow> \<forall>h \<in> thnds t. h_parent s h = h_parent s' h \<Longrightarrow>
   bt_repr s par t = bt_repr s' par t"
proof (induction t arbitrary: par)
  case (Node a ks cs)
  have "node_at s a par ks ps = node_at s' a par ks ps" for ps
    using Node.prems by (intro node_at_cong) auto
  moreover have "bt_repr s (Some a) c = bt_repr s' (Some a) c" if "c \<in> set cs" for c
    using Node.prems that by (intro Node.IH [OF that]) auto
  ultimately show ?case by simp
qed

lemma ctx_repr_cong:
  "\<forall>x \<in> set (ctx_addrs K). septs s x = septs s' x \<Longrightarrow> \<forall>h \<in> ctx_hnds K. h_parent s h = h_parent s' h \<Longrightarrow>
   ctx_repr s x K = ctx_repr s' x K"
proof (induction K arbitrary: x)
  case (Cons F K)
  obtain a lk lc rk rc where F: "F = Frame a lk lc rk rc" by (cases F)
  have "node_at s a par (lk @ rk) ps = node_at s' a par (lk @ rk) ps" for par ps
    using Cons.prems by (intro node_at_cong) (auto simp: F)
  moreover have "bt_repr s (Some a) c = bt_repr s' (Some a) c" if "c \<in> set lc \<union> set rc" for c
    using Cons.prems that by (intro bt_repr_cong) (auto simp: F)
  moreover have "ctx_repr s a K = ctx_repr s' a K" using Cons.prems by (intro Cons.IH) (auto simp: F)
  ultimately show ?case by (auto simp: F)
qed simp

text \<open>A subtree that gets another parent.\<close>

lemma bt_repr_reparent:
  assumes "bt_repr s par t" "septs s' (baddr t) = (septs s (baddr t))\<lparr>s_parent := q\<rparr>" "distinct (addrs t)"
    and "\<forall>x \<in> set (addrs t) - {baddr t}. septs s' x = septs s x" "\<forall>h \<in> thnds t. h_parent s' h = h_parent s h"
  shows "bt_repr s' q t"
proof (cases t)
  case (Node a ks cs)
  have "bt_repr s' (Some a) c = bt_repr s (Some a) c" if "c \<in> set cs" for c
    using assms(3-5) that by (intro bt_repr_cong) (auto simp: Node)
  then show ?thesis using assms(1,2,5) by (auto simp: Node node_at_def)
qed

lemma thnds_inorder: "shape r d t \<Longrightarrow> thnds t = hnds (inorder t)"
proof (induction t arbitrary: r d)
  case (Node a ks cs)
  have "thnds c = hnds (inorder c)" if c: "c \<in> set cs" for c
  proof -
    obtain d' where "shape 4 d' c" using Node.prems c by (cases d) auto
    then show ?thesis by (rule Node.IH [OF c])
  qed
  moreover have "length cs \<le> Suc (length ks)" using Node.prems by (cases d) auto
  ultimately show ?case by (auto simp: set_weave)
qed

lemma num_vals_loop_eq:
  "(\<And>i. i < m \<Longrightarrow> s_hn n i \<noteq> None \<longleftrightarrow> i < k) \<Longrightarrow> k \<le> m \<Longrightarrow> num_vals_loop n m = k"
proof (induction m)
  case (Suc m)
  show ?case
  proof (cases "k = Suc m")
    case False
    then have "num_vals_loop n m = k" using Suc.prems by (intro Suc.IH) auto
    moreover have "s_hn n m = None" using Suc.prems(1) [of m] False Suc.prems(2) by auto
    ultimately show ?thesis by simp
  qed (use Suc.prems in auto)
qed simp

lemma num_vals_node: "node_at s a par ks ps \<Longrightarrow> num_vals (septs s a) = length ks"
  unfolding num_vals_def N_def by (rule num_vals_loop_eq) (auto simp: node_at_def)

section \<open>Assignments\<close>

lemma set_simps [simp]:
  "s_prio (septs (set_prio a i v s) x) = (if x = a then (s_prio (septs s a))(i := v) else s_prio (septs s x))"
  "s_hn (septs (set_prio a i v s) x) = s_hn (septs s x)" "s_ch (septs (set_prio a i v s) x) = s_ch (septs s x)"
  "s_parent (septs (set_prio a i v s) x) = s_parent (septs s x)" "h_parent (set_prio a i v s) = h_parent s"
  "s_hn (septs (set_hn a i w s) x) = (if x = a then (s_hn (septs s a))(i := w) else s_hn (septs s x))"
  "s_prio (septs (set_hn a i w s) x) = s_prio (septs s x)" "s_ch (septs (set_hn a i w s) x) = s_ch (septs s x)"
  "s_parent (septs (set_hn a i w s) x) = s_parent (septs s x)" "h_parent (set_hn a i w s) = h_parent s"
  "s_ch (septs (set_ch a i u s) x) = (if x = a then (s_ch (septs s a))(i := u) else s_ch (septs s x))"
  "s_prio (septs (set_ch a i u s) x) = s_prio (septs s x)" "s_hn (septs (set_ch a i u s) x) = s_hn (septs s x)"
  "s_parent (septs (set_ch a i u s) x) = s_parent (septs s x)" "h_parent (set_ch a i u s) = h_parent s"
  "s_parent (septs (set_parent a u s) x) = (if x = a then u else s_parent (septs s x))"
  "s_prio (septs (set_parent a u s) x) = s_prio (septs s x)" "s_hn (septs (set_parent a u s) x) = s_hn (septs s x)"
  "s_ch (septs (set_parent a u s) x) = s_ch (septs s x)" "h_parent (set_parent a u s) = h_parent s"
  by (simp_all add: set_prio_def set_hn_def set_ch_def set_parent_def upn_def)

lemma adopt_simps [simp]:
  "s_parent (septs (adopt c a s) x) = (if c = Some x then Some a else s_parent (septs s x))"
  "s_prio (septs (adopt c a s) x) = s_prio (septs s x)" "s_hn (septs (adopt c a s) x) = s_hn (septs s x)"
  "s_ch (septs (adopt c a s) x) = s_ch (septs s x)" "h_parent (adopt c a s) = h_parent s"
  by (simp_all add: adopt_def split: option.split)

lemma own_simps [simp]:
  "septs (own h a s) = septs s"
  "h_parent (own h a s) x = (if h = Some x then Some a else h_parent s x)"
  by (simp_all add: own_def split: option.split)

text \<open>The members no assignment to a node or handle changes.\<close>

definition same_hdr :: "('h, 'p, 't) btree_set \<Rightarrow> ('h, 'p, 't) btree_set \<Rightarrow> bool" where
  "same_hdr s s' \<longleftrightarrow> live s' = live s \<and> h_data s' = h_data s \<and> left_sept s' = left_sept s \<and>
     num_alloced s' = num_alloced s \<and> num_septs s' = num_septs s \<and> num_septs_needed s' = num_septs_needed s \<and> next_sept s' = next_sept s"

definition same_top :: "('h, 'p, 't) btree_set \<Rightarrow> ('h, 'p, 't) btree_set \<Rightarrow> bool" where
  "same_top s s' \<longleftrightarrow> same_hdr s s' \<and> root_sept s' = root_sept s \<and> sn_reserve s' = sn_reserve s"

lemma same_refl [simp]: "same_hdr s s" "same_top s s"
  by (simp_all add: same_hdr_def same_top_def)

lemma same_trans: "same_hdr s t \<Longrightarrow> same_hdr t u \<Longrightarrow> same_hdr s u" "same_top s t \<Longrightarrow> same_top t u \<Longrightarrow> same_top s u"
  by (simp_all add: same_hdr_def same_top_def)

lemma same_simps [simp]:
  "same_top s (set_prio a i v t) = same_top s t" "same_top s (set_hn a i w t) = same_top s t"
  "same_top s (set_ch a i u t) = same_top s t" "same_top s (set_parent a u t) = same_top s t"
  "same_top s (adopt c a t) = same_top s t" "same_top s (own h a t) = same_top s t"
  "same_hdr s (set_prio a i v t) = same_hdr s t" "same_hdr s (set_hn a i w t) = same_hdr s t"
  "same_hdr s (set_ch a i u t) = same_hdr s t" "same_hdr s (set_parent a u t) = same_hdr s t"
  "same_hdr s (adopt c a t) = same_hdr s t" "same_hdr s (own h a t) = same_hdr s t"
  by (simp_all add: same_top_def same_hdr_def set_prio_def set_hn_def set_ch_def set_parent_def upn_def adopt_def own_def
      split: option.split)

lemma sept_eqI:
  "s_prio m = s_prio n \<Longrightarrow> s_hn m = s_hn n \<Longrightarrow> s_ch m = s_ch n \<Longrightarrow> s_parent m = s_parent n \<Longrightarrow> (m :: ('h, 'p) septnode) = n"
  by simp

section \<open>The reserve\<close>

fun res_list :: "('h, 'p, 't) btree_set \<Rightarrow> nat option \<Rightarrow> nat list \<Rightarrow> bool" where
  "res_list s p [] \<longleftrightarrow> p = None"
| "res_list s p (x # xs) \<longleftrightarrow> p = Some x \<and> res_list s (s_parent (septs s x)) xs"

lemma res_list_cong: "\<forall>x \<in> set xs. s_parent (septs s x) = s_parent (septs s' x) \<Longrightarrow> res_list s p xs = res_list s' p xs"
  by (induction xs arbitrary: p) simp_all

end
