(* ===== verification/Btree_Find.thy ===== *)
theory Btree_Find
  imports Btree_Repr
begin

text \<open>
  The searches of \<open>btree_set\<close> on a represented tree whose keys are in order: \<open>find\<close> returns the handle of the key, and the
  descent of \<open>insert\<close> ends at the leaf where the key belongs.
\<close>

abbreviation klt :: "('p::linorder \<times> 'h) \<Rightarrow> 'p \<times> 'h \<Rightarrow> bool" where
  "klt x y \<equiv> fst x < fst y"

abbreviation below :: "'p::linorder \<Rightarrow> ('p \<times> 'h) list \<Rightarrow> bool" where
  "below p ks \<equiv> \<forall>x \<in> set ks. fst x < p"

abbreviation beyond :: "'p::linorder \<Rightarrow> ('p \<times> 'h) list \<Rightarrow> bool" where
  "beyond p ks \<equiv> \<forall>x \<in> set ks. p < fst x"

abbreviation keys :: "('p \<times> 'h) list \<Rightarrow> 'p set" where
  "keys ks \<equiv> fst ` set ks"

lemma split_sorted:
  assumes "sorted_wrt klt ks"
  shows "(\<exists>lk x rk. ks = lk @ x # rk \<and> fst x = p \<and> below p lk \<and> beyond p rk) \<or>
    (\<exists>lk rk. ks = lk @ rk \<and> below p lk \<and> beyond p rk)"
  using assms
proof (induction ks)
  case (Cons y ks)
  consider "fst y = p" | "p < fst y" | "fst y < p" by force
  then show ?case
  proof cases
    case 1
    then have "beyond p ks" using Cons.prems by auto
    with 1 show ?thesis by (intro disjI1 exI [of _ "[]"] exI [of _ y] exI [of _ ks]) simp
  next
    case 2
    then have "beyond p (y # ks)" using Cons.prems by (auto intro: less_trans)
    then show ?thesis by (intro disjI2 exI [of _ "[]"] exI [of _ "y # ks"]) simp
  next
    case 3
    have IH: "(\<exists>lk x rk. ks = lk @ x # rk \<and> fst x = p \<and> below p lk \<and> beyond p rk) \<or>
        (\<exists>lk rk. ks = lk @ rk \<and> below p lk \<and> beyond p rk)" using Cons by simp
    then show ?thesis
    proof (elim disjE exE conjE)
      fix lk x rk assume "ks = lk @ x # rk" "fst x = p" "below p lk" "beyond p rk"
      with 3 show ?thesis by (intro disjI1 exI [of _ "y # lk"] exI [of _ x] exI [of _ rk]) simp
    next
      fix lk rk assume "ks = lk @ rk" "below p lk" "beyond p rk"
      with 3 show ?thesis by (intro disjI2 exI [of _ "y # lk"] exI [of _ rk]) simp
    qed
  qed
qed simp

lemma sorted_weave:
  assumes "sorted_wrt klt (weave xs ks)" "length xs \<le> Suc (length ks)"
  shows "sorted_wrt klt ks" "\<forall>x \<in> set xs. sorted_wrt klt x"
  using assms
  by (induction xs ks rule: weave.induct) (auto simp: sorted_wrt_append set_weave)

lemma sorted_node:
  assumes "shape r d (Node a ks cs)" "sorted_wrt klt (inorder (Node a ks cs))"
  shows "sorted_wrt klt ks" "c \<in> set cs \<Longrightarrow> sorted_wrt klt (inorder c)"
proof -
  have "length (map inorder cs) \<le> Suc (length ks)" using assms(1) by (cases d) auto
  from sorted_weave [OF _ this] assms(2) show "sorted_wrt klt ks" "c \<in> set cs \<Longrightarrow> sorted_wrt klt (inorder c)" by auto
qed

text \<open>The children to the left and right of a position hold smaller and larger keys.\<close>

lemma weave_around:
  assumes "sorted_wrt klt (weave (xs @ x # ys) (lk @ rk))" "length xs = length lk" "length ys = length rk"
    and "below p lk" "beyond p rk"
  shows "below p (weave xs lk)" "beyond p (weave ([] # ys) rk)"
proof -
  have s: "sorted_wrt klt (weave xs lk @ x @ weave ([] # ys) rk)"
    using assms(1-3) by (simp add: weave_append weave_hd [of x])
  show "below p (weave xs lk)"
  proof (cases lk rule: rev_cases)
    case (snoc lk' k)
    then obtain xs' z where "xs = xs' @ [z]" using assms(2) by (cases xs rule: rev_cases) auto
    then have "weave xs lk = weave xs' lk' @ z @ [k]" using assms(2) snoc by (simp add: weave_append)
    moreover have "fst k < p" using assms(4) snoc by simp
    ultimately show ?thesis using s by (fastforce simp: sorted_wrt_append)
  qed (use assms(2) in simp)
  show "beyond p (weave ([] # ys) rk)"
  proof (cases rk)
    case (Cons k rk')
    then have "weave ([] # ys) rk = k # weave ys rk'" by simp
    moreover have "p < fst k" using assms(5) Cons by simp
    ultimately show ?thesis using s by (fastforce simp: sorted_wrt_append)
  qed (use assms(3) in simp)
qed

section \<open>Search in a node\<close>

lemma bsearch_absent:
  "\<forall>i. lo \<le> int i \<and> int i \<le> hi \<longrightarrow> (lft i \<longleftrightarrow> j \<le> i) \<and> (i < j \<longrightarrow> \<not> eq i) \<Longrightarrow> 0 \<le> lo \<Longrightarrow> lo \<le> int j \<Longrightarrow> int j \<le> hi + 1 \<Longrightarrow>
   bsearch lft eq lo hi = Some (int j - 1)"
proof (induction lft eq lo hi rule: bsearch.induct)
  case (1 lft eq lo hi)
  show ?case
  proof (cases "lo \<le> hi")
    case True
    let ?i = "(lo + hi) div 2"
    have i: "lo \<le> ?i" "?i \<le> hi" "0 \<le> ?i" using True "1.prems"(2) by auto
    then have p: "(lft (nat ?i) \<longleftrightarrow> j \<le> nat ?i) \<and> (nat ?i < j \<longrightarrow> \<not> eq (nat ?i))" using "1.prems"(1) by simp
    show ?thesis
    proof (cases "lft (nat ?i)")
      case left: True
      then have "bsearch lft eq lo (?i - 1) = Some (int j - 1)" using i p "1.prems" by (intro "1.IH"(1) [OF True refl left]) auto
      with True left show ?thesis by (simp add: bsearch.simps [of lft eq lo hi])
    next
      case right: False
      then have ne: "\<not> eq (nat ?i)" using p by simp
      have "bsearch lft eq (?i + 1) hi = Some (int j - 1)"
        using i p right "1.prems" by (intro "1.IH"(2) [OF True refl right ne]) auto
      with True right ne show ?thesis by (simp add: bsearch.simps [of lft eq lo hi])
    qed
  qed (use "1.prems" in \<open>simp add: bsearch.simps [of lft eq lo hi]\<close>)
qed

lemma bsearch_present:
  "\<forall>i. lo \<le> int i \<and> int i \<le> hi \<longrightarrow> (lft i \<longleftrightarrow> j < i) \<and> (i \<le> j \<longrightarrow> eq i = (i = j)) \<Longrightarrow> 0 \<le> lo \<Longrightarrow> lo \<le> int j \<Longrightarrow> int j \<le> hi \<Longrightarrow>
   bsearch lft eq lo hi = None"
proof (induction lft eq lo hi rule: bsearch.induct)
  case (1 lft eq lo hi)
  then have True: "lo \<le> hi" by simp
  let ?i = "(lo + hi) div 2"
  have i: "lo \<le> ?i" "?i \<le> hi" "0 \<le> ?i" using True "1.prems"(2) by auto
  then have p: "(lft (nat ?i) \<longleftrightarrow> j < nat ?i) \<and> (nat ?i \<le> j \<longrightarrow> eq (nat ?i) = (nat ?i = j))" using "1.prems"(1) by simp
  show ?case
  proof (cases "lft (nat ?i)")
    case left: True
    then have "bsearch lft eq lo (?i - 1) = None" using i p "1.prems" by (intro "1.IH"(1) [OF True refl left]) auto
    with True left show ?thesis by (simp add: bsearch.simps [of lft eq lo hi])
  next
    case right: False
    have "bsearch lft eq (?i + 1) hi = None" if "\<not> eq (nat ?i)"
      using i p right that "1.prems" by (intro "1.IH"(2) [OF True refl right that]) auto
    with True right show ?thesis by (simp add: bsearch.simps [of lft eq lo hi] Let_def)
  qed
qed

lemma node_prio:
  assumes "node_at s a par (lk @ rk) ps" "below p lk" "beyond p rk" "i < length (lk @ rk)"
  shows "p < s_prio (septs s a) i \<longleftrightarrow> length lk \<le> i" "s_prio (septs s a) i < p \<longleftrightarrow> i < length lk" "s_prio (septs s a) i \<noteq> p"
proof -
  have "s_prio (septs s a) i = fst ((lk @ rk) ! i)" using assms(1,4) by (simp add: node_at_def)
  moreover have "if i < length lk then fst ((lk @ rk) ! i) < p else p < fst ((lk @ rk) ! i)"
    using assms(2-4) by (auto simp: nth_append)
  ultimately show "p < s_prio (septs s a) i \<longleftrightarrow> length lk \<le> i" "s_prio (septs s a) i < p \<longleftrightarrow> i < length lk"
    "s_prio (septs s a) i \<noteq> p" by (auto split: if_splits)
qed

lemma node_prio_present:
  assumes "node_at s a par (lk @ x # rk) ps" "below (fst x) lk" "beyond (fst x) rk" "i < length (lk @ x # rk)"
  shows "fst x < s_prio (septs s a) i \<longleftrightarrow> length lk < i" "s_prio (septs s a) i = fst x \<longleftrightarrow> i = length lk"
proof -
  have e: "s_prio (septs s a) i = fst ((lk @ x # rk) ! i)" using assms(1,4) by (simp add: node_at_def)
  have "i < length lk \<Longrightarrow> fst ((lk @ x # rk) ! i) < fst x" using assms(2) by (simp add: nth_append)
  moreover have "fst x < fst ((lk @ x # rk) ! i)" if "length lk < i"
  proof -
    have "(lk @ x # rk) ! i \<in> set rk" using that assms(4) by (auto simp: nth_append nth_Cons')
    then show ?thesis using assms(3) by blast
  qed
  ultimately have "fst x < fst ((lk @ x # rk) ! i) \<longleftrightarrow> length lk < i" "fst ((lk @ x # rk) ! i) = fst x \<longleftrightarrow> i = length lk"
    by (cases "i = length lk"; force simp: nat_neq_iff)+
  then show "fst x < s_prio (septs s a) i \<longleftrightarrow> length lk < i" "s_prio (septs s a) i = fst x \<longleftrightarrow> i = length lk" by (simp_all add: e)
qed

lemma find_scan_absent:
  assumes "node_at s a par (lk @ rk) ps" "below p lk" "beyond p rk" "i \<le> length lk"
  shows "find_scan (septs s a) p i = Inr (length lk)"
  using assms(4)
proof (induction "length lk - i" arbitrary: i)
  case 0
  then have i: "i = length lk" by simp
  show ?case
  proof (cases rk)
    case Nil
    then have "i < 8 \<Longrightarrow> s_hn (septs s a) i = None" using assms(1) i by (simp add: node_at_def)
    then show ?thesis by (subst find_scan.simps) (auto simp: i N_def)
  next
    case (Cons k rk')
    then have "p < s_prio (septs s a) i" "s_prio (septs s a) i \<noteq> p" using node_prio [OF assms(1-3), of i] i by simp_all
    then show ?thesis by (subst find_scan.simps) (simp add: i)
  qed
next
  case (Suc m)
  then have i: "i < length lk" by simp
  then have "i < N" "s_hn (septs s a) i \<noteq> None" using assms(1) by (simp_all add: node_at_def N_def)
  moreover have "\<not> p < s_prio (septs s a) i" "s_prio (septs s a) i \<noteq> p" using node_prio [OF assms(1-3), of i] i by simp_all
  moreover have "find_scan (septs s a) p (i + 1) = Inr (length lk)" using Suc i by (intro Suc.hyps(1)) simp_all
  ultimately show ?case by (subst find_scan.simps) simp
qed

lemma find_scan_present:
  assumes "node_at s a par (lk @ x # rk) ps" "below (fst x) lk" "beyond (fst x) rk" "i \<le> length lk"
  shows "find_scan (septs s a) (fst x) i = Inl (Some (snd x))"
  using assms(4)
proof (induction "length lk - i" arbitrary: i)
  case 0
  then have "i = length lk" by simp
  moreover have "length lk < 8" "s_hn (septs s a) (length lk) = Some (snd x)" using assms(1) by (simp_all add: node_at_def)
  ultimately show ?case using node_prio_present(2) [OF assms(1-3), of i] by (subst find_scan.simps) (simp add: N_def)
next
  case (Suc m)
  then have i: "i < length lk" by simp
  then have "i < N" "s_hn (septs s a) i \<noteq> None" using assms(1) by (simp_all add: node_at_def N_def)
  moreover have "\<not> fst x < s_prio (septs s a) i" "s_prio (septs s a) i \<noteq> fst x"
    using node_prio_present [OF assms(1-3), of i] i by simp_all
  moreover have "find_scan (septs s a) (fst x) (i + 1) = Inl (Some (snd x))" using Suc i by (intro Suc.hyps(1)) simp_all
  ultimately show ?case by (subst find_scan.simps) simp
qed

section \<open>Search in a tree\<close>

lemma shape_cases:
  assumes "shape r d (Node a ks cs)"
  obtains (Leaf) "d = 0" "cs = []" | (Inner) d' where "d = Suc d'" "length cs = Suc (length ks)" "\<forall>c \<in> set cs. shape 4 d' c"
  using assms by (cases d) auto

text \<open>An inner node with a position between its keys is a frame around the child there.\<close>

lemma kid_at:
  assumes "length cs = Suc (length lk + length rk)"
  shows "\<exists>lc c rc. cs = lc @ c # rc \<and> length lc = length lk \<and> length rc = length rk"
proof (intro exI conjI)
  show "cs = take (length lk) cs @ cs ! length lk # drop (Suc (length lk)) cs" using assms by (simp add: id_take_nth_drop)
qed (use assms in auto)

lemma map_of_below: "below p ks \<Longrightarrow> map_of ks p = None" "beyond p ks \<Longrightarrow> map_of ks p = None"
  by (auto simp: map_of_eq_None_iff)

lemma map_of_mid: "below (fst x) lk \<Longrightarrow> map_of (lk @ x # rk) (fst x) = Some (snd x)"
  using map_of_below(1) [of lk "fst x"] by (simp add: map_add_def split: option.split)

lemma find_from_ok:
  assumes "bt_repr s par t" "shape r d t" "sorted_wrt klt (inorder t)" "set (addrs t) \<subseteq> live s"
  shows "find_from s p (Some (baddr t)) = Some (map_of (inorder t) p)"
  using assms
proof (induction d arbitrary: par r t)
  case (0 par r t)
  obtain a ks where t: "t = Node a ks []" using 0 by (cases t) auto
  have lv: "a \<in> live s" using 0(4) by (simp add: t)
  have n: "node_at s a par ks (replicate (Suc (length ks)) None)" using 0 by (simp add: t ptrs_def)
  have "sorted_wrt klt ks" using 0(3) by (simp add: t)
  from split_sorted [OF this, of p] show ?case
  proof (elim disjE exE conjE)
    fix lk x rk assume k: "ks = lk @ x # rk" "fst x = p" "below p lk" "beyond p rk"
    then have "map_of ks p = Some (snd x)" using map_of_mid [of lk x rk] by simp
    then show ?thesis using find_scan_present [of s a par lk x rk _ 0] n k by (subst find_from.simps) (simp add: t lv)
  next
    fix lk rk assume k: "ks = lk @ rk" "below p lk" "beyond p rk"
    then have "p \<notin> fst ` set ks" by auto
    then have "map_of ks p = None" by (simp add: map_of_eq_None_iff)
    moreover have "s_ch (septs s a) (length lk) = None"
      using n k(1) by (simp add: node_at_def nth_Cons' del: replicate_Suc)
    ultimately show ?thesis
      using find_scan_absent [OF n [unfolded k(1)] k(2,3), of 0]
      by (subst find_from.simps) (simp add: t lv find_from.simps [of s p None])
  qed
next
  case (Suc d par r t)
  obtain a ks cs where t: "t = Node a ks cs" by (cases t)
  have lv: "a \<in> live s" "\<forall>c \<in> set cs. set (addrs c) \<subseteq> live s" using Suc.prems(4) by (auto simp: t)
  have l: "length cs = Suc (length ks)" "\<forall>c \<in> set cs. shape 4 d c" using Suc.prems(2) by (simp_all add: t)
  then have ne: "cs \<noteq> []" by auto
  have n: "node_at s a par ks (map (Some \<circ> baddr) cs)" and kids: "\<forall>c \<in> set cs. bt_repr s (Some a) c"
    using Suc.prems(1) ne by (simp_all add: t ptrs_def)
  note so = sorted_node [OF Suc.prems(2) [unfolded t] Suc.prems(3) [unfolded t]]
  have srt: "sorted_wrt klt (weave (map inorder cs) ks)" using Suc.prems(3) by (simp add: t)
  from split_sorted [OF so(1), of p] show ?case
  proof (elim disjE exE conjE)
    fix lk x rk assume k: "ks = lk @ x # rk" "fst x = p" "below p lk" "beyond p rk"
    obtain lc c rc where c: "cs = lc @ c # rc" "length lc = length lk" "length rc = length (x # rk)"
      using kid_at [of cs lk "x # rk"] l(1) k(1) by auto
    obtain c' rc' where rc: "rc = c' # rc'" "length rc' = length rk" using c(3) by (cases rc) auto
    have w: "weave (map inorder cs) ks = weave (map inorder lc) lk @ inorder c @ x # weave (map inorder rc) rk"
      using c k(1) by (simp add: weave_append)
    have "below p (weave (map inorder lc) lk @ inorder c)" using srt k(2) by (auto simp: w sorted_wrt_append)
    then have "map_of (weave (map inorder cs) ks) p = Some (snd x)"
      using map_of_mid [of "weave (map inorder lc) lk @ inorder c" x] k(2) by (simp add: w)
    then show ?thesis using find_scan_present [of s a par lk x rk _ 0] n k by (subst find_from.simps) (simp add: t lv)
  next
    fix lk rk assume k: "ks = lk @ rk" "below p lk" "beyond p rk"
    obtain lc c rc where c: "cs = lc @ c # rc" "length lc = length lk" "length rc = length rk"
      using kid_at [of cs lk rk] l(1) k(1) by auto
    have w: "weave (map inorder cs) ks = weave (map inorder lc) lk @ inorder c @ weave ([] # map inorder rc) rk"
      using c k(1) by (simp add: weave_append weave_hd [of "inorder c"])
    have srt': "sorted_wrt klt (weave (map inorder lc @ inorder c # map inorder rc) (lk @ rk))"
      using srt by (simp add: c(1) k(1))
    have "below p (weave (map inorder lc) lk)" "beyond p (weave ([] # map inorder rc) rk)"
      using weave_around [OF srt' _ _ k(2,3)] c(2,3) by simp_all
    then have "map_of (weave (map inorder lc) lk) p = None" "map_of (weave ([] # map inorder rc) rk) p = None"
      by (auto intro: map_of_below)
    then have "map_of (inorder t) p = map_of (inorder c) p" by (simp add: t w map_add_def split: option.split)
    moreover have "s_ch (septs s a) (length lk) = Some (baddr c)"
      using n c k(1) by (simp add: node_at_def nth_append)
    moreover have "find_from s p (Some (baddr c)) = Some (map_of (inorder c) p)"
      using kids l(2) so(2) lv(2) by (intro Suc.IH) (auto simp: c)
    ultimately show ?thesis using find_scan_absent [of s a par lk rk _ p 0] n k by (subst find_from.simps) (simp add: t lv)
  qed
qed

text \<open>
  The descent for an insertion: it stops at an inner node that has the key, or ends at the leaf of the place for the key.
\<close>

lemma plug_append: "plug (K @ L) t = plug L (plug K t)"
proof (induction K arbitrary: t)
  case (Cons F K)
  then show ?case by (cases F) simp
qed simp

lemma ctx_append:
  "ctx_left (K @ L) = ctx_left L @ ctx_left K" "ctx_right (K @ L) = ctx_right K @ ctx_right L" "ctx_wf (K @ L) \<longleftrightarrow> ctx_wf K \<and> ctx_wf L"
proof (induction K)
  case (Cons F K)
  { case 1 then show ?case using Cons by (cases F) simp next
    case 2 then show ?case using Cons by (cases F) simp next
    case 3 then show ?case using Cons by (cases F) simp }
qed simp_all

lemma descend_ok:
  assumes "bt_repr s par t" "shape r d t" "sorted_wrt klt (inorder t)"
  shows "(descend s p (baddr t) = Some None \<and> p \<in> keys (inorder t)) \<or>
    (\<exists>K a ks. descend s p (baddr t) = Some (Some a) \<and> t = plug K (Node a ks []) \<and> ctx_wf K \<and>
       below p (ctx_left K) \<and> beyond p (ctx_right K))"
  using assms
proof (induction d arbitrary: par r t)
  case (0 par r t)
  obtain a ks where t: "t = Node a ks []" using 0 by (cases t) auto
  have "is_leaf (septs s a)" using 0 by (simp add: t ptrs_def node_at_def is_leaf_def)
  then have "descend s p a = Some (Some a)" by (subst descend.simps) (simp add: Let_def)
  then show ?case by (intro disjI2 exI [of _ "[]"] exI [of _ a] exI [of _ ks]) (simp add: t)
next
  case (Suc d par r t)
  obtain a ks cs where t: "t = Node a ks cs" by (cases t)
  have l: "length cs = Suc (length ks)" "\<forall>c \<in> set cs. shape 4 d c" "length ks \<le> 8" using Suc.prems(2) by (simp_all add: t)
  then have ne: "cs \<noteq> []" by auto
  have n: "node_at s a par ks (map (Some \<circ> baddr) cs)" and kids: "\<forall>c \<in> set cs. bt_repr s (Some a) c"
    using Suc.prems(1) ne by (simp_all add: t ptrs_def)
  have nl: "\<not> is_leaf (septs s a)" using n ne by (simp add: node_at_def is_leaf_def hd_conv_nth [symmetric] hd_map)
  note so = sorted_node [OF Suc.prems(2) [unfolded t] Suc.prems(3) [unfolded t]]
  have srt: "sorted_wrt klt (weave (map inorder cs) ks)" using Suc.prems(3) by (simp add: t)
  let ?b = "bsearch (\<lambda>i. s_hn (septs s a) i = None \<or> p < s_prio (septs s a) i) (\<lambda>i. s_prio (septs s a) i = p) 0 (int N - 1)"
  have hn: "s_hn (septs s a) i = None \<longleftrightarrow> length ks \<le> i" if "i < 8" for i using n that by (simp add: node_at_def)
  from split_sorted [OF so(1), of p] show ?case
  proof (elim disjE exE conjE)
    fix lk x rk assume k: "ks = lk @ x # rk" "fst x = p" "below p lk" "beyond p rk"
    have "?b = None"
    proof (rule bsearch_present [where j = "length lk"])
      have "((s_hn (septs s a) i = None \<or> p < s_prio (septs s a) i) \<longleftrightarrow> length lk < i) \<and>
          (i \<le> length lk \<longrightarrow> (s_prio (septs s a) i = p) = (i = length lk))" if "i < 8" for i
        using hn [OF that] node_prio_present [OF n [unfolded k(1)], of i] k by (cases "i < length ks") auto
      then show "\<forall>i. 0 \<le> int i \<and> int i \<le> int N - 1 \<longrightarrow>
        ((s_hn (septs s a) i = None \<or> p < s_prio (septs s a) i) \<longleftrightarrow> length lk < i) \<and>
        (i \<le> length lk \<longrightarrow> (s_prio (septs s a) i = p) = (i = length lk))" by (simp add: N_def)
    qed (use l(3) k(1) in \<open>auto simp: N_def\<close>)
    then have "descend s p a = Some None" using nl by (subst descend.simps) (simp add: Let_def)
    moreover have "p \<in> keys (weave (map inorder cs) ks)" using l(1) k(1,2) by (subst set_weave) auto
    ultimately show ?thesis by (simp add: t)
  next
    fix lk rk assume k: "ks = lk @ rk" "below p lk" "beyond p rk"
    obtain lc c rc where c: "cs = lc @ c # rc" "length lc = length lk" "length rc = length rk"
      using kid_at [of cs lk rk] l(1) k(1) by auto
    have "?b = Some (int (length lk) - 1)"
    proof (rule bsearch_absent)
      have "((s_hn (septs s a) i = None \<or> p < s_prio (septs s a) i) \<longleftrightarrow> length lk \<le> i) \<and>
          (i < length lk \<longrightarrow> s_prio (septs s a) i \<noteq> p)" if "i < 8" for i
        using hn [OF that] node_prio [OF n [unfolded k(1)] k(2,3), of i] k(1) by (cases "i < length ks") auto
      then show "\<forall>i. 0 \<le> int i \<and> int i \<le> int N - 1 \<longrightarrow>
        ((s_hn (septs s a) i = None \<or> p < s_prio (septs s a) i) \<longleftrightarrow> length lk \<le> i) \<and>
        (i < length lk \<longrightarrow> s_prio (septs s a) i \<noteq> p)" by (simp add: N_def)
    qed (use l(3) k(1) in \<open>auto simp: N_def\<close>)
    moreover have "s_ch (septs s a) (length lk) = Some (baddr c)" using n c k(1) by (simp add: node_at_def nth_append)
    ultimately have step: "descend s p a = descend s p (baddr c)" using nl by (subst descend.simps) (simp add: Let_def)
    have srt': "sorted_wrt klt (weave (map inorder lc @ inorder c # map inorder rc) (lk @ rk))"
      using srt by (simp add: c(1) k(1))
    have w: "below p (weave (map inorder lc) lk)" "beyond p (weave ([] # map inorder rc) rk)"
      using weave_around [OF srt' _ _ k(2,3)] c(2,3) by simp_all
    let ?F = "Frame a lk lc rk rc"
    have pl: "t = plug (K @ [?F]) u" if "c = plug K u" for K u using that c k(1) by (simp add: t plug_append)
    have "p \<in> keys (inorder c) \<Longrightarrow> p \<in> keys (inorder t)"
      using c k(1) by (auto simp: t weave_append weave_hd [of "inorder c"])
    moreover have "(descend s p (baddr c) = Some None \<and> p \<in> keys (inorder c)) \<or>
      (\<exists>K a ks. descend s p (baddr c) = Some (Some a) \<and> c = plug K (Node a ks []) \<and> ctx_wf K \<and>
         below p (ctx_left K) \<and> beyond p (ctx_right K))"
      using kids l(2) so(2) by (intro Suc.IH) (auto simp: c)
    ultimately show ?thesis
    proof (elim disjE exE conjE)
      fix K a' ks' assume K: "descend s p (baddr c) = Some (Some a')" "c = plug K (Node a' ks' [])" "ctx_wf K"
        "below p (ctx_left K)" "beyond p (ctx_right K)"
      have "t = plug (K @ [?F]) (Node a' ks' [])" using pl [OF K(2)] .
      moreover have "below p (ctx_left (K @ [?F]))" "beyond p (ctx_right (K @ [?F]))" "ctx_wf (K @ [?F])"
        using K(3-5) w c(2,3) by (auto simp: ctx_append)
      ultimately show ?thesis using K(1) step by (metis bt.sel(1) t)
    qed (use step in \<open>simp add: t\<close>)
  qed
qed

end
