(* ===== verification/Btree_Insert.thy ===== *)
theory Btree_Insert
  imports Btree_Find
begin

text \<open>
  The insertion of \<open>btree_set\<close>: the effect of its loops on the arrays of a node, the split of a full node, and the
  insertion along the path to the root.
\<close>

section \<open>Loops\<close>

text \<open>A change of one node only.\<close>

definition only_node :: "nat \<Rightarrow> ('h, 'p, 't) btree_set \<Rightarrow> ('h, 'p, 't) btree_set \<Rightarrow> bool" where
  "only_node a s s' \<longleftrightarrow> (\<forall>x. x \<noteq> a \<longrightarrow> septs s' x = septs s x) \<and> h_parent s' = h_parent s \<and> same_top s s'"

lemma only_node_refl [simp]: "only_node a s s"
  by (simp add: only_node_def)

lemma only_node_set [simp]:
  "only_node a s (set_prio a i v t) = only_node a s t" "only_node a s (set_hn a i w t) = only_node a s t"
  "only_node a s (set_ch a i u t) = only_node a s t" "only_node a s (set_parent a u t) = only_node a s t"
  by (simp_all add: only_node_def) (simp_all add: set_prio_def set_hn_def set_ch_def set_parent_def upn_def)

lemma only_node_trans: "only_node a s t \<Longrightarrow> only_node a t u \<Longrightarrow> only_node a s u"
  by (auto simp: only_node_def intro: same_trans)

text \<open>The loops make room at index \<open>j\<close>: the elements from there to \<open>n\<close> move up by one.\<close>

definition ins_shift :: "nat \<Rightarrow> nat \<Rightarrow> (nat \<Rightarrow> 'a) \<Rightarrow> nat \<Rightarrow> 'a" where
  "ins_shift j n f i = (if j < i \<and> i \<le> n then f (i - 1) else f i)"

lemma ins_shift_none [simp]: "ins_shift n n f = f"
  by (rule ext) (auto simp: ins_shift_def)

lemma ins_shift_step: "j \<le> n \<Longrightarrow> ins_shift j n (f(Suc n := f n)) = ins_shift j (Suc n) f"
  by (auto simp: ins_shift_def fun_eq_iff le_Suc_eq)

definition room :: "nat \<Rightarrow> nat \<Rightarrow> ('h, 'p) septnode \<Rightarrow> ('h, 'p) septnode \<Rightarrow> bool" where
  "room j n m m' \<longleftrightarrow> s_prio m' = ins_shift j n (s_prio m) \<and> s_hn m' = ins_shift j n (s_hn m) \<and>
     s_ch m' = ins_shift (Suc j) (Suc n) (s_ch m) \<and> s_parent m' = s_parent m"

lemma room_none [simp]: "room n n m m"
  by (simp add: room_def)

lemma room_step:
  assumes "room j n m' m''" "j \<le> n" "s_prio m' = (s_prio m)(Suc n := s_prio m n)" "s_hn m' = (s_hn m)(Suc n := s_hn m n)"
    and "s_ch m' = (s_ch m)(Suc (Suc n) := s_ch m (Suc n))" "s_parent m' = s_parent m"
  shows "room j (Suc n) m m''"
  using assms by (simp add: room_def ins_shift_step)

lemma ins_loop_room:
  assumes "\<forall>i < n. s_prio (septs s a) i < p \<longleftrightarrow> i < j" "j \<le> n"
  shows "\<exists>s'. ins_loop a p n s = (j, s') \<and> room j n (septs s a) (septs s' a) \<and> only_node a s s'"
  using assms
proof (induction n arbitrary: s)
  case (Suc n)
  show ?case
  proof (cases "s_prio (septs s a) n < p")
    case True
    then have "j = Suc n" using Suc.prems by auto
    with True show ?thesis by simp
  next
    case False
    let ?t = "set_ch a (Suc n + 1) (s_ch (septs s a) (Suc n)) (set_hn a (Suc n) (s_hn (septs s a) n) (set_prio a (Suc n) (s_prio (septs s a) n) s))"
    have j: "j \<le> n" using False Suc.prems by (metis le_SucE lessI)
    have "\<forall>i < n. s_prio (septs ?t a) i < p \<longleftrightarrow> i < j" using Suc.prems(1) by auto
    from Suc.IH [OF this j] obtain s' where s': "ins_loop a p n ?t = (j, s')" "room j n (septs ?t a) (septs s' a)" "only_node a ?t s'"
      by blast
    have "room j (Suc n) (septs s a) (septs s' a)" by (rule room_step [OF s'(2) j]) simp_all
    moreover have "only_node a s s'" by (rule only_node_trans [OF _ s'(3)]) simp
    ultimately show ?thesis using False s'(1) by (simp add: Let_def)
  qed
qed simp

lemma raise_loop_room:
  assumes "\<forall>i < n. p < s_prio (septs s a) i \<longleftrightarrow> j \<le> i" "j \<le> n"
  shows "\<exists>s'. raise_loop a p n s = (j, s') \<and> room j n (septs s a) (septs s' a) \<and> only_node a s s'"
  using assms
proof (induction n arbitrary: s)
  case (Suc n)
  show ?case
  proof (cases "p < s_prio (septs s a) n")
    case False
    then have "j = Suc n" using Suc.prems by auto
    with False show ?thesis by simp
  next
    case True
    let ?t = "set_hn a (Suc n) (s_hn (septs s a) n) (set_ch a (Suc n + 1) (s_ch (septs s a) (Suc n)) (set_prio a (Suc n) (s_prio (septs s a) n) s))"
    have j: "j \<le> n" using True Suc.prems by auto
    have "\<forall>i < n. p < s_prio (septs ?t a) i \<longleftrightarrow> j \<le> i" using Suc.prems(1) by auto
    from Suc.IH [OF this j] obtain s' where s': "raise_loop a p n ?t = (j, s')" "room j n (septs ?t a) (septs s' a)" "only_node a ?t s'"
      by blast
    have "room j (Suc n) (septs s a) (septs s' a)" by (rule room_step [OF s'(2) j]) simp_all
    moreover have "only_node a s s'" by (rule only_node_trans [OF _ s'(3)]) simp
    ultimately show ?thesis using True s'(1) by (simp add: Let_def)
  qed
qed simp

text \<open>The loop in the upper half: the first value leaves, those before the new one move down.\<close>

definition low_shift :: "nat \<Rightarrow> nat \<Rightarrow> (nat \<Rightarrow> 'a) \<Rightarrow> nat \<Rightarrow> 'a" where
  "low_shift i j f k = (if i \<le> k \<and> k < j then f (Suc k) else f k)"

lemma low_shift_step: "i < j \<Longrightarrow> low_shift (Suc i) j (f(i := f (Suc i))) = low_shift i j f"
  by (auto simp: low_shift_def fun_eq_iff)

lemma lower_loop_eff:
  assumes "\<forall>k. 0 < k \<and> k < 4 \<longrightarrow> (s_prio (septs s b) k < p \<longleftrightarrow> k \<le> j)" "j \<le> 3" "i \<le> j"
  shows "\<exists>s'. lower_loop b p i s = (j, s') \<and> only_node b s s' \<and> s_parent (septs s' b) = s_parent (septs s b) \<and>
    s_prio (septs s' b) = low_shift i j (s_prio (septs s b)) \<and> s_hn (septs s' b) = low_shift i j (s_hn (septs s b)) \<and>
    s_ch (septs s' b) = low_shift i j (s_ch (septs s b))"
  using assms
proof (induction "j - i" arbitrary: i s)
  case 0
  then have "i = j" by simp
  then have "lower_loop b p i s = (j, s)" using "0.prems"(1) by (subst lower_loop.simps) (auto simp: N_def)
  then show ?case using \<open>i = j\<close> by (auto simp: low_shift_def fun_eq_iff)
next
  case (Suc m)
  then have i: "i < j" by simp
  let ?t = "set_hn b i (s_hn (septs s b) (i + 1)) (set_ch b i (s_ch (septs s b) (i + 1)) (set_prio b i (s_prio (septs s b) (i + 1)) s))"
  have c: "i < N div 2 - 1 \<and> s_prio (septs s b) (i + 1) < p" using i Suc.prems(1,2) by (auto simp: N_def)
  have eq: "lower_loop b p i s = lower_loop b p (i + 1) ?t" using c by (subst lower_loop.simps) (simp add: Let_def)
  have "\<exists>s'. lower_loop b p (i + 1) ?t = (j, s') \<and> only_node b ?t s' \<and> s_parent (septs s' b) = s_parent (septs ?t b) \<and>
    s_prio (septs s' b) = low_shift (i + 1) j (s_prio (septs ?t b)) \<and> s_hn (septs s' b) = low_shift (i + 1) j (s_hn (septs ?t b)) \<and>
    s_ch (septs s' b) = low_shift (i + 1) j (s_ch (septs ?t b))"
    using i c Suc.hyps(2) Suc.prems by (intro Suc.hyps(1)) auto
  moreover have "only_node b s u" if "only_node b ?t u" for u using only_node_trans [OF _ that, of s] by simp
  ultimately show ?case using i by (auto simp: eq low_shift_step)
qed

section \<open>The split of a node\<close>

lemma upper_half: "[N div 2..<N] = [4, 5, 6, 7]"
  by (simp add: N_def upt_rec)

lemma upd_half:
  "f(0 := g 4, Suc 0 := g 5, 2 := g 6, 3 := g 7) = (\<lambda>i. if i < 4 then g (i + 4) else f i)"
  "f(Suc 0 := g 5, Suc (Suc 0) := g 6, 3 := g 7, 4 := g 8) = (\<lambda>i. if 1 \<le> i \<and> i \<le> 4 then g (i + 4) else f i)"
proof -
  have l: "i < 4 \<longleftrightarrow> i = 0 \<or> i = 1 \<or> i = 2 \<or> i = 3" "1 \<le> i \<and> i \<le> 4 \<longleftrightarrow> i = 1 \<or> i = 2 \<or> i = 3 \<or> i = 4" for i :: nat by auto
  show "f(0 := g 4, Suc 0 := g 5, 2 := g 6, 3 := g 7) = (\<lambda>i. if i < 4 then g (i + 4) else f i)"
    "f(Suc 0 := g 5, Suc (Suc 0) := g 6, 3 := g 7, 4 := g 8) = (\<lambda>i. if 1 \<le> i \<and> i \<le> 4 then g (i + 4) else f i)"
    by (rule ext, auto simp: l)+
qed

lemma split_copies:
  fixes s :: "('h, 'p, 't) btree_set"
  assumes "a \<noteq> b"
  defines "t \<equiv> fold (split_copy a b) [N div 2..<N] s"
  shows "s_prio (septs t a) = s_prio (septs s a)" "s_ch (septs t a) = s_ch (septs s a)"
    "s_hn (septs t a) = (\<lambda>i. if 4 \<le> i \<and> i < 8 then None else s_hn (septs s a) i)"
    "s_prio (septs t b) = (\<lambda>i. if i < 4 then s_prio (septs s a) (i + 4) else s_prio (septs s b) i)"
    "s_hn (septs t b) = (\<lambda>i. if i < 4 then s_hn (septs s a) (i + 4) else s_hn (septs s b) i)"
    "s_ch (septs t b) = (\<lambda>i. if 1 \<le> i \<and> i \<le> 4 then s_ch (septs s a) (i + 4) else s_ch (septs s b) i)"
    "x \<noteq> a \<Longrightarrow> x \<noteq> b \<Longrightarrow> s_prio (septs t x) = s_prio (septs s x) \<and> s_hn (septs t x) = s_hn (septs s x) \<and> s_ch (septs t x) = s_ch (septs s x)"
    "s_parent (septs t x) = (if Some x \<in> s_ch (septs s a) ` {5..8} then Some b else s_parent (septs s x))"
    "h_parent t y = (if Some y \<in> s_hn (septs s a) ` {4..7} then Some b else h_parent s y)"
    "same_top s t"
proof -
  have i: "{5..8::nat} = {5, 6, 7, 8}" "{4..7::nat} = {4, 5, 6, 7}" by auto
  note sc = t_def upper_half split_copy_def Let_def N_def
  show "s_prio (septs t a) = s_prio (septs s a)" "s_ch (septs t a) = s_ch (septs s a)"
    "x \<noteq> a \<Longrightarrow> x \<noteq> b \<Longrightarrow> s_prio (septs t x) = s_prio (septs s x) \<and> s_hn (septs t x) = s_hn (septs s x) \<and> s_ch (septs t x) = s_ch (septs s x)"
    "same_top s t" using assms(1) by (simp_all add: sc)
  show "s_hn (septs t a) = (\<lambda>i. if 4 \<le> i \<and> i < 8 then None else s_hn (septs s a) i)"
    using assms(1) by (auto simp: sc fun_eq_iff)
  show "s_prio (septs t b) = (\<lambda>i. if i < 4 then s_prio (septs s a) (i + 4) else s_prio (septs s b) i)"
    "s_hn (septs t b) = (\<lambda>i. if i < 4 then s_hn (septs s a) (i + 4) else s_hn (septs s b) i)"
    "s_ch (septs t b) = (\<lambda>i. if 1 \<le> i \<and> i \<le> 4 then s_ch (septs s a) (i + 4) else s_ch (septs s b) i)"
    using assms(1) upd_half(1) [of "s_prio (septs s b)" "s_prio (septs s a)"] upd_half(1) [of "s_hn (septs s b)" "s_hn (septs s a)"]
      upd_half(2) [of "s_ch (septs s b)" "s_ch (septs s a)"]
    by (simp_all add: sc)
  show "s_parent (septs t x) = (if Some x \<in> s_ch (septs s a) ` {5..8} then Some b else s_parent (septs s x))"
    "h_parent t y = (if Some y \<in> s_hn (septs s a) ` {4..7} then Some b else h_parent s y)"
    using assms(1) by (auto simp: sc i)
qed

text \<open>The two halves of the values \<open>ks\<close> and pointers \<open>ps\<close> of a full node, after the copying; \<open>b\<close> has no first child yet.\<close>

definition halves ::
  "('h, 'p, 't) btree_set \<Rightarrow> nat \<Rightarrow> nat \<Rightarrow> nat option \<Rightarrow> ('p \<times> 'h) list \<Rightarrow> nat option list \<Rightarrow> bool" where
  "halves t a b par ks ps \<longleftrightarrow> a \<noteq> b \<and> s_parent (septs t a) = par \<and> s_parent (septs t b) = par \<and>
     (\<forall>i < 4. s_prio (septs t a) i = fst (ks ! i)) \<and> (\<forall>i < 4. s_prio (septs t b) i = fst (ks ! (i + 4))) \<and>
     (\<forall>i < 8. s_hn (septs t a) i = (if i < 4 then Some (snd (ks ! i)) else None)) \<and>
     (\<forall>i < 8. s_hn (septs t b) i = (if i < 4 then Some (snd (ks ! (i + 4))) else None)) \<and>
     (\<forall>i \<le> 4. s_ch (septs t a) i = ps ! i) \<and> (\<forall>i. 1 \<le> i \<and> i \<le> 4 \<longrightarrow> s_ch (septs t b) i = ps ! (i + 4)) \<and>
     (\<forall>i < 4. h_parent t (snd (ks ! i)) = Some a) \<and> (\<forall>i < 4. h_parent t (snd (ks ! (i + 4))) = Some b)"

text \<open>The result, with the new value: \<open>ks\<close> has nine values, \<open>ps\<close> ten pointers.\<close>

definition split_done ::
  "('h, 'p, 't) btree_set \<Rightarrow> nat \<Rightarrow> nat \<Rightarrow> nat option \<Rightarrow> ('p \<times> 'h) list \<Rightarrow> nat option list \<Rightarrow> bool" where
  "split_done t a b par ks ps \<longleftrightarrow> node_at t a par (take 4 ks) (take 5 ps) \<and> node_at t b par (drop 5 ks) (drop 5 ps)"

lemma split_doneI:
  assumes "length ks = 9" "length ps = 10" "s_parent (septs t a) = par" "s_parent (septs t b) = par"
    and "\<forall>i < 4. s_prio (septs t a) i = fst (ks ! i)" "\<forall>i < 4. s_prio (septs t b) i = fst (ks ! (i + 5))"
    and "\<forall>i < 8. s_hn (septs t a) i = (if i < 4 then Some (snd (ks ! i)) else None)"
    and "\<forall>i < 8. s_hn (septs t b) i = (if i < 4 then Some (snd (ks ! (i + 5))) else None)"
    and "\<forall>i \<le> 4. s_ch (septs t a) i = ps ! i" "\<forall>i \<le> 4. s_ch (septs t b) i = ps ! (i + 5)"
    and "\<forall>i < 4. h_parent t (snd (ks ! i)) = Some a" "\<forall>i < 4. h_parent t (snd (ks ! (i + 5))) = Some b"
  shows "split_done t a b par ks ps"
proof -
  have "h_parent t (snd k) = Some a" if "k \<in> set (take 4 ks)" for k
    using that assms(1,11) by (auto simp: in_set_conv_nth)
  moreover have "h_parent t (snd k) = Some b" if "k \<in> set (drop 5 ks)" for k
    using that assms(1,12) by (auto simp: in_set_conv_nth add.commute)
  ultimately show ?thesis using assms(1-10) by (simp add: split_done_def node_at_def add.commute less_Suc_eq_le)
qed

text \<open>Values and pointers with one inserted at \<open>j\<close>.\<close>

lemma nth_inserted:
  "length lk = j \<Longrightarrow> i < j \<Longrightarrow> (lk @ x # rk) ! i = (lk @ rk) ! i"
  "length lk = j \<Longrightarrow> j \<le> i \<Longrightarrow> (lk @ x # rk) ! Suc i = (lk @ rk) ! i"
  "length lk = j \<Longrightarrow> (lk @ x # rk) ! j = x"
  by (auto simp: nth_append Suc_diff_le)

lemma ins_shift_nth:
  assumes "length lk = j" "j \<le> n" "\<forall>i < n. f i = g ((lk @ rk) ! i)" "i \<le> n"
  shows "((ins_shift j n f)(j := g x)) i = g ((lk @ x # rk) ! i)"
proof -
  consider "i < j" | "i = j" | k where "i = Suc k" "j \<le> k" by (metis less_linear less_imp_Suc_add less_add_Suc1 le_add1)
  then show ?thesis
  proof cases
    case 1
    then show ?thesis using assms nth_inserted(1) [of lk j i x rk] by (cases "i = n") (auto simp: ins_shift_def)
  next
    case 2
    then show ?thesis using nth_inserted(3) [OF assms(1)] by simp
  next
    case 3
    then show ?thesis using assms nth_inserted(2) [of lk j k x rk] by (simp add: ins_shift_def)
  qed
qed

lemma ins_shift_ptrs:
  assumes "length lp = j" "j \<le> n" "\<forall>i \<le> n. f i = (lp @ l # rp) ! i" "i \<le> Suc n"
  shows "((ins_shift (Suc j) (Suc n) f)(j := ld, Suc j := rd)) i = (lp @ ld # rd # rp) ! i"
proof (cases "i = j")
  case False
  have "((ins_shift (Suc j) (Suc n) f)(Suc j := rd)) i = ((lp @ [l]) @ rd # rp) ! i"
    using assms by (intro ins_shift_nth [where g = "\<lambda>x. x"]) auto
  with False assms(1) show ?thesis by (auto simp: nth_append nth_Cons' split: if_splits)
qed (use nth_inserted(3) [OF assms(1)] in simp)

lemma split_left_ok:
  fixes rd :: "nat option"
  assumes h: "halves t a b par (lk @ rk) (lp @ ld # rp)" and len: "length lk = j" "length lp = j" "j \<le> 3" "length rk = 8 - j" "length rp = 8 - j"
    and pr: "\<forall>i < 3. p < s_prio (septs t a) i \<longleftrightarrow> j \<le> i"
    and di: "h \<notin> hnds (lk @ rk)" and c4: "s_ch (septs t a) 4 \<noteq> Some a" "s_ch (septs t a) 4 \<noteq> Some b"
  defines "ks \<equiv> lk @ (p, h) # rk" and "ps \<equiv> lp @ ld # rd # rp"
  shows "\<exists>s'. split_left a b p h ld rd t = (fst (ks ! 4), Some (snd (ks ! 4)), s') \<and> split_done s' a b par ks ps \<and>
    (\<forall>x. x \<noteq> a \<and> x \<noteq> b \<longrightarrow> septs s' x = (if ps ! 5 = Some x then (septs t x)\<lparr>s_parent := Some b\<rparr> else septs t x)) \<and>
    (\<forall>y. y \<noteq> h \<longrightarrow> h_parent s' y = h_parent t y) \<and> same_top t s'"
proof -
  let ?u = "adopt (s_ch (septs t a) 4) b (set_ch b 0 (s_ch (septs t a) 4) t)"
  note hv = h [unfolded halves_def]
  have ab: "a \<noteq> b" using hv by blast
  have "\<forall>i < 3. p < s_prio (septs ?u a) i \<longleftrightarrow> j \<le> i" using pr by simp
  from raise_loop_room [OF this len(3)] obtain v where v: "raise_loop a p 3 ?u = (j, v)" "room j 3 (septs ?u a) (septs v a)" "only_node a ?u v"
    by blast
  define s' where "s' = put_value a j p h ld rd v"
  have b': "septs v x = septs ?u x" if "x \<noteq> a" for x using v(3) that by (simp add: only_node_def)
  have hp: "h_parent v = h_parent t" using v(3) by (simp add: only_node_def)
  have a': "s_prio (septs v a) = ins_shift j 3 (s_prio (septs t a))" "s_hn (septs v a) = ins_shift j 3 (s_hn (septs t a))"
    "s_ch (septs v a) = ins_shift (Suc j) 4 (s_ch (septs t a))" "s_parent (septs v a) = s_parent (septs t a)"
    using v(2) ab c4 by (simp_all add: room_def)
  have sa: "s_prio (septs s' a) = (ins_shift j 3 (s_prio (septs t a)))(j := p)"
    "s_hn (septs s' a) = (ins_shift j 3 (s_hn (septs t a)))(j := Some h)"
    "s_ch (septs s' a) = (ins_shift (Suc j) 4 (s_ch (septs t a)))(j := ld, Suc j := rd)" "s_parent (septs s' a) = par"
    "\<And>y. h_parent s' y = (if y = h then Some a else h_parent t y)"
    using hv by (simp_all add: s'_def put_value_def Let_def a' hp)
  have sx: "septs s' x = septs ?u x" if "x \<noteq> a" for x
    using that b' [OF that] by (intro sept_eqI) (simp_all add: s'_def put_value_def Let_def)
  have lens: "length ks = 9" "length ps = 10" using len by (simp_all add: ks_def ps_def add.commute)
  have up: "ks ! (i + 5) = (lk @ rk) ! (i + 4)" "ps ! (i + 5) = (lp @ ld # rp) ! (i + 4)" for i
    using nth_inserted(2) [of lk j "i + 4" "(p, h)" rk] nth_inserted(2) [of "lp @ [ld]" "Suc j" "i + 4" rd rp] len
    by (simp_all add: ks_def ps_def add.commute)
  have ne: "h \<noteq> snd ((lk @ rk) ! i)" if "i < 8" for i
  proof -
    have "snd ((lk @ rk) ! i) \<in> hnds (lk @ rk)" using that len by (intro imageI nth_mem) simp
    then show ?thesis using di by blast
  qed
  have "split_done s' a b par ks ps"
  proof (rule split_doneI [OF lens])
    show "\<forall>i < 4. s_prio (septs s' a) i = fst (ks ! i)"
      unfolding sa ks_def using ins_shift_nth [OF len(1,3), of "s_prio (septs t a)" fst rk _ "(p, h)"] hv by simp
    have "(if i < 4 then s_hn (septs s' a) i = Some (snd (ks ! i)) else s_hn (septs s' a) i = None)" if "i < 8" for i
      using ins_shift_nth [OF len(1,3), of "s_hn (septs t a)" "\<lambda>k. Some (snd k)" rk i "(p, h)"] hv len(3) that
      by (simp add: sa ks_def) (simp add: ins_shift_def)
    then show "\<forall>i < 8. s_hn (septs s' a) i = (if i < 4 then Some (snd (ks ! i)) else None)" by (metis (full_types))
    show "\<forall>i \<le> 4. s_ch (septs s' a) i = ps ! i"
      unfolding sa ps_def using ins_shift_ptrs [OF len(2,3), of "s_ch (septs t a)" ld rp _ ld rd] hv by (simp add: eval_nat_numeral)
    show "\<forall>i < 4. h_parent s' (snd (ks ! i)) = Some a"
    proof (intro allI impI)
      fix i :: nat assume i: "i < 4"
      consider "i < j" | "i = j" | k where "i = Suc k" "j \<le> k" by (metis less_linear less_imp_Suc_add less_add_Suc1 le_add1)
      then show "h_parent s' (snd (ks ! i)) = Some a"
        using nth_inserted [of lk j] len(1) hv i ne [of i] ne [of "i - 1"] by cases (auto simp: sa ks_def)
    qed
    show "\<forall>i < 4. h_parent s' (snd (ks ! (i + 5))) = Some b" using hv ne [of "_ + 4"] by (auto simp: sa up)
  qed (use hv sx ab up c4 in \<open>auto simp: sa\<close>)
  moreover have "split_left a b p h ld rd t = (fst (ks ! 4), Some (snd (ks ! 4)), s')"
  proof -
    have "ks ! 4 = (lk @ rk) ! 3" using nth_inserted(2) [of lk j 3 "(p, h)" rk] len by (simp add: ks_def)
    then show ?thesis using hv v(1) by (simp add: split_left_def Let_def N_def s'_def)
  qed
  moreover have "septs s' x = (if ps ! 5 = Some x then (septs t x)\<lparr>s_parent := Some b\<rparr> else septs t x)" if "x \<noteq> a" "x \<noteq> b" for x
    using that sx [OF that(1)] up(2) [of 0] hv by (intro sept_eqI) simp_all
  moreover have "same_top t s'"
    using v(3) same_trans(2) [of t ?u v] by (simp add: s'_def put_value_def Let_def only_node_def)
  ultimately show ?thesis using sa(5) by (intro exI [of _ s']) simp
qed

lemma split_mid_ok:
  fixes p :: "'p::linorder" and h :: 'h and rd :: "nat option"
  assumes h: "halves t a b par (lk @ rk) (lp @ ld # rp)" and len: "length lk = 4" "length lp = 4" "length rk = 4" "length rp = 4"
    and ne: "ld \<noteq> Some a" "ld \<noteq> Some b" "rd \<noteq> Some a" "rd \<noteq> Some b"
    and pa: "\<And>x. ld = Some x \<Longrightarrow> s_parent (septs t x) = Some a"
  defines "ks \<equiv> lk @ (p, h) # rk" and "ps \<equiv> lp @ ld # rd # rp"
  shows "\<exists>s'. split_mid a b p h ld rd t = (fst (ks ! 4), Some (snd (ks ! 4)), s') \<and> split_done s' a b par ks ps \<and>
    (\<forall>x. x \<noteq> a \<and> x \<noteq> b \<longrightarrow> septs s' x = (if ps ! 5 = Some x then (septs t x)\<lparr>s_parent := Some b\<rparr> else septs t x)) \<and>
    h_parent s' = h_parent t \<and> same_top t s'"
proof -
  define s' where "s' = adopt rd b (adopt ld a (set_ch b 0 rd (set_ch a 4 ld t)))"
  note hv = h [unfolded halves_def]
  have ab: "a \<noteq> b" using hv by blast
  have lens: "length ks = 9" "length ps = 10" using len by (simp_all add: ks_def ps_def)
  have lo: "ks ! i = (lk @ rk) ! i" "ps ! i = (lp @ ld # rp) ! i" if "i < 4" for i
    using that len by (simp_all add: ks_def ps_def nth_append)
  have up: "ks ! (i + 5) = (lk @ rk) ! (i + 4)" for i using len by (simp add: ks_def nth_append)
  have pu: "ps ! (i + 5) = (lp @ ld # rp) ! (i + 4)" if "1 \<le> i" for i using that len by (cases i) (simp_all add: ps_def nth_append)
  have p4: "ks ! 4 = (p, h)" "ps ! 4 = ld" "ps ! 5 = rd" using len by (simp_all add: ks_def ps_def nth_append)
  have "split_done s' a b par ks ps"
  proof (rule split_doneI [OF lens])
    show "\<forall>i \<le> 4. s_ch (septs s' a) i = ps ! i" using hv ab lo p4 by (auto simp: s'_def le_eq_less_or_eq)
    have "s_ch (septs s' b) i = ps ! (i + 5)" if "i \<le> 4" for i
      using hv ab pu [of i] p4 that by (cases "i = 0") (auto simp: s'_def)
    then show "\<forall>i \<le> 4. s_ch (septs s' b) i = ps ! (i + 5)" by blast
  qed (use hv ab lo up ne in \<open>auto simp: s'_def\<close>)
  moreover have "split_mid a b p h ld rd t = (fst (ks ! 4), Some (snd (ks ! 4)), s')"
    by (simp add: split_mid_def Let_def N_def p4 s'_def)
  moreover have "septs s' x = (if ps ! 5 = Some x then (septs t x)\<lparr>s_parent := Some b\<rparr> else septs t x)" if "x \<noteq> a" "x \<noteq> b" for x
    using that pa [of x] p4 by (intro sept_eqI) (auto simp: s'_def)
  ultimately show ?thesis by (auto simp: s'_def)
qed

lemma split_right_ok:
  fixes rd :: "nat option"
  assumes h: "halves t a b par (lk @ rk) (lp @ ld # rp)"
    and len: "length lk = j + 5" "length lp = j + 5" "j \<le> 3" "length rk = 3 - j" "length rp = 3 - j"
    and pr: "\<forall>i. 0 < i \<and> i < 4 \<longrightarrow> (s_prio (septs t b) i < p \<longleftrightarrow> i \<le> j)"
    and di: "h \<notin> hnds (lk @ rk)" and ne: "ld \<noteq> Some a" "ld \<noteq> Some b" "rd \<noteq> Some a" "rd \<noteq> Some b"
  defines "ks \<equiv> lk @ (p, h) # rk" and "ps \<equiv> lp @ ld # rd # rp"
  shows "\<exists>s'. split_right a b p h ld rd t = (fst (ks ! 4), Some (snd (ks ! 4)), s') \<and> split_done s' a b par ks ps \<and>
    (\<forall>x. x \<noteq> a \<and> x \<noteq> b \<longrightarrow> septs s' x = (if ld = Some x \<or> rd = Some x then (septs t x)\<lparr>s_parent := Some b\<rparr> else septs t x)) \<and>
    (\<forall>y. y \<noteq> h \<longrightarrow> h_parent s' y = h_parent t y) \<and> same_top t s'"
proof -
  note hv = h [unfolded halves_def]
  have ab: "a \<noteq> b" using hv by blast
  obtain v where v: "lower_loop b p 0 t = (j, v)" "only_node b t v" "s_parent (septs v b) = s_parent (septs t b)"
      "s_prio (septs v b) = low_shift 0 j (s_prio (septs t b))" "s_hn (septs v b) = low_shift 0 j (s_hn (septs t b))"
      "s_ch (septs v b) = low_shift 0 j (s_ch (septs t b))"
    using lower_loop_eff [OF pr len(3), of 0] by blast
  define s' where "s' = adopt rd b (adopt ld b (put_value b j p h ld rd v))"
  have x': "septs v x = septs t x" if "x \<noteq> b" for x using v(2) that by (simp add: only_node_def)
  have hp: "h_parent v = h_parent t" using v(2) by (simp add: only_node_def)
  have sb: "s_prio (septs s' b) = (low_shift 0 j (s_prio (septs t b)))(j := p)"
    "s_hn (septs s' b) = (low_shift 0 j (s_hn (septs t b)))(j := Some h)"
    "s_ch (septs s' b) = (low_shift 0 j (s_ch (septs t b)))(j := ld, Suc j := rd)" "s_parent (septs s' b) = par"
    "\<And>y. h_parent s' y = (if y = h then Some b else h_parent t y)"
    using hv v ne by (simp_all add: s'_def put_value_def Let_def hp)
  have sx: "septs s' x = (if ld = Some x \<or> rd = Some x then (septs t x)\<lparr>s_parent := Some b\<rparr> else septs t x)" if "x \<noteq> b" for x
    using that x' [OF that] by (intro sept_eqI) (simp_all add: s'_def put_value_def Let_def)
  have lens: "length ks = 9" "length ps = 10" using len by (simp_all add: ks_def ps_def)
  have lo: "ks ! i = (lk @ rk) ! i" "ps ! i = (lp @ ld # rp) ! i" if "i < 5" for i
    using that len by (simp_all add: ks_def ps_def nth_append)
  have kb: "ks ! (i + 5) = (if i < j then (lk @ rk) ! (i + 5) else if i = j then (p, h) else (lk @ rk) ! (i + 4))" for i
    using len(1) by (auto simp: ks_def nth_append nth_Cons')
  have pb: "ps ! (i + 5) = (if i < j then (lp @ ld # rp) ! (i + 5) else if i = j then ld else if i = Suc j then rd
      else (lp @ ld # rp) ! (i + 4))" for i
    using len(2) by (auto simp: ps_def nth_append nth_Cons')
  have ne': "h \<noteq> snd ((lk @ rk) ! i)" if "i < 8" for i
  proof -
    have "snd ((lk @ rk) ! i) \<in> hnds (lk @ rk)" using that len by (intro imageI nth_mem) simp
    then show ?thesis using di by blast
  qed
  have "split_done s' a b par ks ps"
  proof (rule split_doneI [OF lens])
    show "\<forall>i < 4. s_prio (septs s' b) i = fst (ks ! (i + 5))" using hv len(3) by (auto simp: sb kb low_shift_def add.commute)
    show "\<forall>i < 8. s_hn (septs s' b) i = (if i < 4 then Some (snd (ks ! (i + 5))) else None)"
      using hv len(3) by (auto simp: sb kb low_shift_def add.commute)
    show "\<forall>i \<le> 4. s_ch (septs s' b) i = ps ! (i + 5)" using hv len(3) by (auto simp: sb pb low_shift_def add.commute)
    have "h_parent t (snd ((lk @ rk) ! (i + 5))) = Some b" if "i < j" for i
    proof -
      have "Suc i < 4" using that len(3) by simp
      then have "h_parent t (snd ((lk @ rk) ! (Suc i + 4))) = Some b" using hv by blast
      then show ?thesis by (simp add: add.commute)
    qed
    then show "\<forall>i < 4. h_parent s' (snd (ks ! (i + 5))) = Some b"
      using hv len(3) by (auto simp: sb kb)
    show "\<forall>i < 4. h_parent s' (snd (ks ! i)) = Some a" using hv lo(1) ne' [symmetric] by (simp add: sb)
  qed (use hv sx [OF ab] ne lo sb(4) in auto)
  moreover have "split_right a b p h ld rd t = (fst (ks ! 4), Some (snd (ks ! 4)), s')"
    using hv lo(1) [of 4] v(1) by (simp add: split_right_def Let_def s'_def)
  moreover have "same_top t s'"
    using v(2) by (simp add: s'_def put_value_def Let_def only_node_def)
  ultimately show ?thesis using sb(5) sx by (intro exI [of _ s']) simp
qed

lemma set_drop_image: "set (drop n xs) = (!) xs ` {n..<length xs}"
proof -
  have "drop n xs = map ((!) xs) [n..<length xs]" by (metis add_0 drop_map drop_upt map_nth)
  then show ?thesis by simp
qed

lemma halves_copied:
  assumes nd: "node_at s a par ks ps" and ab: "a \<noteq> b" and len: "length ks = 8" and di: "distinct (map snd ks)"
    and bn: "\<forall>i < 8. s_hn (septs s b) i = None" and pn: "Some a \<notin> set ps" "Some b \<notin> set ps"
  defines "t \<equiv> fold (split_copy a b) [N div 2..<N] (set_parent b par s)"
  shows "halves t a b par ks ps" "\<forall>i < 4. s_prio (septs t a) i = s_prio (septs s a) i" "\<forall>i < 4. s_prio (septs t b) i = s_prio (septs s a) (i + 4)"
    "x \<noteq> a \<Longrightarrow> x \<noteq> b \<Longrightarrow> septs t x = (if Some x \<in> set (drop 5 ps) then (septs s x)\<lparr>s_parent := Some b\<rparr> else septs s x)"
    "y \<notin> hnds ks \<Longrightarrow> h_parent t y = h_parent s y" "same_top s t"
proof -
  note c = split_copies [OF ab, where s = "set_parent b par s", folded t_def]
  have lp: "length ps = 9" using nd len by (simp add: node_at_def)
  have ch: "s_ch (septs s a) i = ps ! i" if "i \<le> 8" for i using nd that len by (simp add: node_at_def)
  have hn: "s_hn (septs s a) i = Some (snd (ks ! i))" if "i < 8" for i using nd that len by (simp add: node_at_def)
  have "{5..<9::nat} = {5..8}" by auto
  then have up: "s_ch (septs s a) ` {5..8} = set (drop 5 ps)" using ch lp by (simp add: set_drop_image)
  have hu: "s_hn (septs s a) ` {4..7} = (\<lambda>i. Some (snd (ks ! i))) ` {4..7}" using hn by (auto intro!: image_cong)
  have nd4: "snd (ks ! i) \<noteq> snd (ks ! k)" if "i < 4" "4 \<le> k" "k \<le> 7" for i k
    using that di len by (simp add: distinct_conv_nth)
  have notin: "Some a \<notin> set (drop 5 ps)" "Some b \<notin> set (drop 5 ps)" using pn by (auto dest: in_set_dropD)
  have hp: "h_parent s (snd (ks ! i)) = Some a" if "i < 8" for i using nd that len by (simp add: node_at_def)
  have pr: "s_prio (septs s a) i = fst (ks ! i)" if "i < 8" for i using nd that len by (simp add: node_at_def)
  show "halves t a b par ks ps"
    unfolding halves_def
  proof (intro conjI)
    show "s_parent (septs t a) = par" "s_parent (septs t b) = par" using c(8) up notin nd ab by (simp_all add: node_at_def)
    show "\<forall>i < 4. h_parent t (snd (ks ! i)) = Some a" using c(9) hp nd4 by (auto simp: hu)
    have "Some (snd (ks ! (i + 4))) \<in> (\<lambda>i. Some (snd (ks ! i))) ` {4..7}" if "i < 4" for i using that by (intro image_eqI) auto
    then show "\<forall>i < 4. h_parent t (snd (ks ! (i + 4))) = Some b" using c(9) by (simp add: hu)
  qed (use ab c pr hn ch bn in simp_all)
  show "\<forall>i < 4. s_prio (septs t a) i = s_prio (septs s a) i" "\<forall>i < 4. s_prio (septs t b) i = s_prio (septs s a) (i + 4)"
    using c by simp_all
  show "x \<noteq> a \<Longrightarrow> x \<noteq> b \<Longrightarrow> septs t x = (if Some x \<in> set (drop 5 ps) then (septs s x)\<lparr>s_parent := Some b\<rparr> else septs s x)"
    using c(7,8) [of x] up by (intro sept_eqI) simp_all
  show "h_parent t y = h_parent s y" if "y \<notin> hnds ks"
    using that c(9) [of y] len by (auto simp: hu)
  show "same_top s t" using same_trans(2) [OF _ c(10), of s] by simp
qed

lemma split_node_ok:
  fixes rd :: "nat option"
  assumes nd: "node_at s a par (lk @ rk) (lp @ ld # rp)" and len: "length lp = length lk" "length rp = length rk" "length (lk @ rk) = 8"
    and p: "below p lk" "beyond p rk" and ab: "a \<noteq> b" and bn: "\<forall>i < 8. s_hn (septs s b) i = None"
    and di: "distinct (map snd (lk @ (p, h) # rk))" "distinct (filter (\<lambda>x. x \<noteq> None) (lp @ ld # rd # rp))"
    and pn: "Some a \<notin> set (lp @ ld # rd # rp)" "Some b \<notin> set (lp @ ld # rd # rp)"
    and pa: "\<And>x. Some x \<in> set (lp @ ld # rd # rp) \<Longrightarrow> s_parent (septs s x) = Some a"
  defines "ks \<equiv> lk @ (p, h) # rk" and "ps \<equiv> lp @ ld # rd # rp"
  shows "\<exists>s'. split_node a b p h ld rd s = (fst (ks ! 4), Some (snd (ks ! 4)), s') \<and> split_done s' a b par ks ps \<and>
    (\<forall>x. x \<noteq> a \<and> x \<noteq> b \<longrightarrow> septs s' x = (if Some x \<in> set (drop 5 ps) then (septs s x)\<lparr>s_parent := Some b\<rparr> else septs s x)) \<and>
    (\<forall>y. y \<notin> hnds ks \<longrightarrow> h_parent s' y = h_parent s y) \<and> same_top s s'"
proof -
  let ?q = "lp @ ld # rp" and ?k = "lk @ rk"
  define t where "t = fold (split_copy a b) [N div 2..<N] (set_parent b par s)"
  have par: "s_parent (septs s a) = par" using nd by (simp add: node_at_def)
  have dk: "distinct (map snd ?k)" "h \<notin> hnds ?k" using di(1) by auto
  have qn: "Some a \<notin> set ?q" "Some b \<notin> set ?q" using pn by auto
  note c = halves_copied [OF nd ab len(3) dk(1) bn qn, folded t_def]
  note np = node_prio [OF nd p]
  have ch4: "s_ch (septs t a) 4 = ?q ! 4" using c(1) by (simp add: halves_def)
  have q4: "?q ! 4 \<in> set ?q" using len by (intro nth_mem) simp
  have pr3: "s_prio (septs t a) 3 = s_prio (septs s a) 3" "s_prio (septs t b) 0 = s_prio (septs s a) 4" using c(2,3) by simp_all
  have eq: "split_node a b p h ld rd s = (if length lk \<le> 3 then split_left a b p h ld rd t
      else if length lk \<le> 4 then split_mid a b p h ld rd t else split_right a b p h ld rd t)"
    using np(1) [of 3] np(1) [of 4] len(3) pr3
    by (simp add: split_node_def Let_def t_def [symmetric] par) (simp add: N_def)
  have fin: ?thesis
    if r: "split_node a b p h ld rd s = (fst (ks ! 4), Some (snd (ks ! 4)), s')" "split_done s' a b par ks ps" "same_top t s'"
      and x: "\<forall>x. x \<noteq> a \<and> x \<noteq> b \<longrightarrow> septs s' x = (if P x then (septs t x)\<lparr>s_parent := Some b\<rparr> else septs t x)"
      and y: "\<forall>y. y \<noteq> h \<longrightarrow> h_parent s' y = h_parent t y" and d: "\<And>x. Some x \<in> set (drop 5 ps) \<longleftrightarrow> P x \<or> Some x \<in> set (drop 5 ?q)" for s' P
  proof (intro exI conjI allI impI)
    fix x assume "x \<noteq> a \<and> x \<noteq> b"
    with x c(4) [of x] show "septs s' x = (if Some x \<in> set (drop 5 ps) then (septs s x)\<lparr>s_parent := Some b\<rparr> else septs s x)"
      unfolding d by auto
  next
    fix z assume "z \<notin> hnds ks"
    then show "h_parent s' z = h_parent s z" using y c(5) [of z] by (auto simp: ks_def)
  qed (rule r(1,2) same_trans(2) [OF c(6) r(3)])+
  have "\<exists>j. length lk = j + 5 \<and> j \<le> 3" if "5 \<le> length lk" using that len(3) by (intro exI [of _ "length lk - 5"]) simp
  then consider "length lk \<le> 3" | "length lk = 4" | j where "length lk = j + 5" "j \<le> 3" by fastforce
  then show ?thesis
  proof cases
    case 1
    have "\<forall>i < 3. p < s_prio (septs t a) i \<longleftrightarrow> length lk \<le> i" using c(2) np(1) len(3) by simp
    moreover have "length rk = 8 - length lk" "length rp = 8 - length lk" using len by auto
    ultimately obtain s' where s': "split_left a b p h ld rd t = (fst (ks ! 4), Some (snd (ks ! 4)), s')" "split_done s' a b par ks ps"
        "\<forall>x. x \<noteq> a \<and> x \<noteq> b \<longrightarrow> septs s' x = (if ps ! 5 = Some x then (septs t x)\<lparr>s_parent := Some b\<rparr> else septs t x)"
        "\<forall>y. y \<noteq> h \<longrightarrow> h_parent s' y = h_parent t y" "same_top t s'"
      using split_left_ok [OF c(1) refl len(1) 1, of p h rd] dk(2) qn q4 ch4 unfolding ks_def ps_def by metis
    show ?thesis
    proof (rule fin [OF _ s'(2,5,3,4)])
      have "5 \<le> length ps - 1" "length ps = 10" using len by (simp_all add: ps_def)
      then have "drop 5 ps = ps ! 5 # drop 6 ps" using Cons_nth_drop_Suc [of 5 ps] by (simp add: eval_nat_numeral)
      moreover have "drop 6 ps = drop 5 ?q" using len(1) 1 by (simp add: ps_def drop_Cons')
      ultimately show "Some x \<in> set (drop 5 ps) \<longleftrightarrow> ps ! 5 = Some x \<or> Some x \<in> set (drop 5 ?q)" for x by auto
    qed (use s'(1) eq 1 in simp)
  next
    case 2
    have l: "length lp = 4" "length rk = 4" "length rp = 4" using 2 len by auto
    have "s_parent (septs t x) = Some a" if "ld = Some x" for x
    proof -
      have "x \<noteq> a" "x \<noteq> b" "Some x \<notin> set (drop 5 ?q)" using that pn di(2) l by (auto split: if_splits)
      then show ?thesis using c(4) [of x] pa [of x] that by simp
    qed
    then obtain s' where s': "split_mid a b p h ld rd t = (fst (ks ! 4), Some (snd (ks ! 4)), s')" "split_done s' a b par ks ps"
        "\<forall>x. x \<noteq> a \<and> x \<noteq> b \<longrightarrow> septs s' x = (if ps ! 5 = Some x then (septs t x)\<lparr>s_parent := Some b\<rparr> else septs t x)"
        "h_parent s' = h_parent t" "same_top t s'"
      using split_mid_ok [OF c(1) 2 l, of rd p h] pn unfolding ks_def ps_def by auto
    show ?thesis
    proof (rule fin [OF _ s'(2,5,3)])
      show "Some x \<in> set (drop 5 ps) \<longleftrightarrow> ps ! 5 = Some x \<or> Some x \<in> set (drop 5 ?q)" for x
        using l by (auto simp: ps_def nth_append)
    qed (use s' eq 2 in simp_all)
  next
    case 3
    have l: "length lp = j + 5" "length rk = 3 - j" "length rp = 3 - j" using 3 len by auto
    have "s_prio (septs t b) i < p \<longleftrightarrow> i \<le> j" if "0 < i \<and> i < 4" for i
      using c(3) np(2) [of "i + 4"] that 3 len(3) by auto
    then have "\<forall>i. 0 < i \<and> i < 4 \<longrightarrow> (s_prio (septs t b) i < p \<longleftrightarrow> i \<le> j)" by blast
    then obtain s' where s': "split_right a b p h ld rd t = (fst (ks ! 4), Some (snd (ks ! 4)), s')" "split_done s' a b par ks ps"
        "\<forall>x. x \<noteq> a \<and> x \<noteq> b \<longrightarrow> septs s' x = (if ld = Some x \<or> rd = Some x then (septs t x)\<lparr>s_parent := Some b\<rparr> else septs t x)"
        "\<forall>y. y \<noteq> h \<longrightarrow> h_parent s' y = h_parent t y" "same_top t s'"
      using split_right_ok [OF c(1) 3(1) l(1) 3(2) l(2,3), of p h rd] dk(2) pn unfolding ks_def ps_def by auto
    show ?thesis
    proof (rule fin [OF _ s'(2,5,3,4)])
      show "Some x \<in> set (drop 5 ps) \<longleftrightarrow> (ld = Some x \<or> rd = Some x) \<or> Some x \<in> set (drop 5 ?q)" for x
        using l(1) by (auto simp: ps_def)
    qed (use s'(1) eq 3 in simp)
  qed
qed

section \<open>Insertion into a node that is not full\<close>

lemma insert_nonfull_ok:
  fixes rd ld :: "nat option"
  assumes nd: "node_at s a par (lk @ rk) (lp @ l # rp)" and len: "length lp = length lk" "length rp = length rk" "length (lk @ rk) < 8"
    and p: "below p lk" "beyond p rk" and di: "h \<notin> hnds (lk @ rk)"
  defines "s' \<equiv> insert_nonfull a (length (lk @ rk)) p h ld rd s"
  shows "node_at s' a par (lk @ (p, h) # rk) (lp @ ld # rd # rp)" "x \<noteq> a \<Longrightarrow> septs s' x = septs s x"
    "h_parent s' y = (if y = h then Some a else h_parent s y)" "same_top s s'"
proof -
  let ?n = "length (lk @ rk)"
  have "\<forall>i < ?n. s_prio (septs s a) i < p \<longleftrightarrow> i < length lk" using node_prio(2) [OF nd p] by simp
  then obtain v where v: "ins_loop a p ?n s = (length lk, v)" "room (length lk) ?n (septs s a) (septs v a)" "only_node a s v"
    using ins_loop_room [of ?n s a p "length lk"] by auto
  note nv = nd [unfolded node_at_def]
  have sa: "s_prio (septs s' a) = (ins_shift (length lk) ?n (s_prio (septs s a)))(length lk := p)"
    "s_hn (septs s' a) = (ins_shift (length lk) ?n (s_hn (septs s a)))(length lk := Some h)"
    "s_ch (septs s' a) = (ins_shift (Suc (length lk)) (Suc ?n) (s_ch (septs s a)))(length lk := ld, Suc (length lk) := rd)"
    "s_parent (septs s' a) = par"
    using v nv by (simp_all add: s'_def insert_nonfull_def Let_def room_def del: length_append)
  show hp: "h_parent s' y = (if y = h then Some a else h_parent s y)" for y
    using v by (simp add: s'_def insert_nonfull_def Let_def only_node_def del: length_append)
  show "septs s' x = septs s x" if "x \<noteq> a"
    using v that by (intro sept_eqI) (simp_all add: s'_def insert_nonfull_def Let_def only_node_def del: length_append)
  show "same_top s s'" using v by (simp add: s'_def insert_nonfull_def Let_def only_node_def del: length_append)
  let ?ks = "lk @ (p, h) # rk" and ?ps = "lp @ ld # rd # rp"
  have "s_prio (septs s' a) i = fst (?ks ! i)" if "i < length ?ks" for i
    using ins_shift_nth [of lk "length lk" ?n "s_prio (septs s a)" fst rk i "(p, h)"] nv that by (simp add: sa)
  moreover have "s_hn (septs s' a) i = (if i < length ?ks then Some (snd (?ks ! i)) else None)" if "i < 8" for i
    using ins_shift_nth [of lk "length lk" ?n "s_hn (septs s a)" "\<lambda>k. Some (snd k)" rk i "(p, h)"] nv len(3) that
    by (cases "i \<le> ?n") (auto simp: sa ins_shift_def)
  moreover have "s_ch (septs s' a) i = ?ps ! i" if "i \<le> length ?ks" for i
    using ins_shift_ptrs [of lp "length lk" ?n "s_ch (septs s a)" l rp i ld rd] nv len that by (simp add: sa)
  moreover have "h_parent s' (snd k) = Some a" if "k \<in> set ?ks" for k using that nv di by (auto simp: hp)
  ultimately show "node_at s' a par ?ks ?ps" using len sa(4) by (simp add: node_at_def)
qed

end
