(* ===== verification/Btree_Insert_Tree.thy ===== *)
theory Btree_Insert_Tree
  imports Btree_Insert
begin

text \<open>
  The insertion into the tree: \<open>split_loop\<close> followed by the insertion into the node it stops at adds the value to a
  represented tree, by induction on the path to the root.
\<close>

text \<open>Number of nodes a loop that starts at a node with \<open>n\<close> values takes from the reserve.\<close>

fun need :: "('h, 'p) frame list \<Rightarrow> nat \<Rightarrow> nat" where
  "need [] n = (if n = 8 then 2 else 0)"
| "need (Frame a lk lc rk rc # K) n = (if n = 8 then Suc (need K (length lk + length rk)) else 0)"

text \<open>
  The state in which \<open>(p, h)\<close> is to be put between \<open>lk\<close> and \<open>rk\<close> of node \<open>a\<close>, whose children are then \<open>cs\<close>: \<open>l\<close> is the
  pointer to be replaced by \<open>ld\<close> and \<open>rd\<close>. The node's context is \<open>K\<close>, the reserve \<open>res\<close>.
\<close>

definition kids_ok :: "nat \<Rightarrow> ('p \<times> 'h) list \<Rightarrow> ('h, 'p) bt list \<Rightarrow> bool" where
  "kids_ok d ks cs \<longleftrightarrow> (if d = 0 then cs = [] else length cs = Suc (length ks) \<and> (\<forall>c \<in> set cs. shape 4 (d - 1) c))"

definition ins_ready ::
  "('h, 'p::linorder, 't) btree_set \<Rightarrow> ('h, 'p) frame list \<Rightarrow> nat \<Rightarrow> ('p \<times> 'h) list \<Rightarrow> ('p \<times> 'h) list \<Rightarrow> 'p \<Rightarrow> 'h \<Rightarrow>
   ('h, 'p) bt list \<Rightarrow> nat option \<Rightarrow> nat option \<Rightarrow> nat option \<Rightarrow> nat \<Rightarrow> nat list \<Rightarrow> bool" where
  "ins_ready s K a lk rk p h cs l ld rd d res \<longleftrightarrow>
     (\<exists>lp rp. node_at s a (ctx_parent K) (lk @ rk) (lp @ l # rp) \<and> length lp = length lk \<and> length rp = length rk \<and>
        ptrs (lk @ (p, h) # rk) cs = lp @ ld # rd # rp) \<and>
     (\<forall>c \<in> set cs. bt_repr s (Some a) c) \<and> ctx_repr s a K \<and>
     distinct (a # concat (map addrs cs) @ ctx_addrs K @ res) \<and> res_list s (sn_reserve s) res \<and>
     distinct (map snd (ctx_left K @ weave (map inorder cs) (lk @ (p, h) # rk) @ ctx_right K)) \<and>
     kids_ok d (lk @ (p, h) # rk) cs \<and> ctx_shape d K \<and> least K \<le> Suc (length (lk @ rk)) \<and>
     sorted_wrt klt (ctx_left K @ weave (map inorder cs) (lk @ (p, h) # rk) @ ctx_right K) \<and>
     root_sept s = Some (if K = [] then a else faddr (last K))"

definition ins_result ::
  "('h, 'p, 't) btree_set \<Rightarrow> ('h, 'p, 't) btree_set \<Rightarrow> ('h, 'p) bt \<Rightarrow> ('p \<times> 'h) list \<Rightarrow> nat \<Rightarrow> nat list \<Rightarrow> nat list \<Rightarrow> bool" where
  "ins_result s s' t ios lft all res \<longleftrightarrow> bt_repr s' None t \<and> root_sept s' = Some (baddr t) \<and> inorder t = ios \<and>
     (\<exists>d. shape 1 d t) \<and> res_list s' (sn_reserve s') res \<and> mset (addrs t @ res) = mset all \<and> leftaddr t = lft \<and>
     same_hdr s s' \<and> (\<forall>y. y \<notin> hnds ios \<longrightarrow> h_parent s' y = h_parent s y)"

lemma kids_shape: "kids_ok d ks cs \<Longrightarrow> r \<le> length ks \<Longrightarrow> length ks \<le> 8 \<Longrightarrow> shape r d (Node a ks cs)"
  by (cases d) (auto simp: kids_ok_def)

lemma baddr_plug: "baddr (plug K t) = (if K = [] then baddr t else faddr (last K))"
proof (induction K arbitrary: t)
  case (Cons F K)
  then show ?case by (cases F) simp
qed simp

lemma weave_hnds: "kids_ok d ks cs \<Longrightarrow> hnds (weave (map inorder cs) ks) = hnds ks \<union> \<Union> (thnds ` set cs)"
proof -
  assume k: "kids_ok d ks cs"
  then have "length (map inorder cs) \<le> Suc (length ks)" by (simp add: kids_ok_def split: if_splits)
  moreover have "thnds c = hnds (inorder c)" if "c \<in> set cs" for c
    using k that thnds_inorder [of 4 "d - 1" c] by (auto simp: kids_ok_def split: if_splits)
  ultimately show ?thesis by (simp add: set_weave image_Un image_UN Un_commute)
qed

lemma ctx_hnds_eq: "ctx_shape d K \<Longrightarrow> ctx_hnds K = hnds (ctx_left K) \<union> hnds (ctx_right K)"
proof (induction K arbitrary: d)
  case (Cons F K)
  obtain a lk lc rk rc where F: "F = Frame a lk lc rk rc" by (cases F)
  have l: "length lc = length lk" "length rc = length rk" "\<forall>c \<in> set lc \<union> set rc. shape 4 d c" "ctx_shape (Suc d) K"
    using Cons.prems by (simp_all add: F)
  have "thnds c = hnds (inorder c)" if "c \<in> set lc \<union> set rc" for c using l(3) that thnds_inorder [of 4 d c] by blast
  then show ?case using Cons.IH [OF l(4)] l(1,2)
    by (auto simp: F set_weave image_Un image_UN)
qed simp

lemma mset_weave: "mset (weave xs ks) = mset (concat xs) + mset ks"
  by (induction xs ks rule: weave.induct) simp_all

text \<open>The handles of the node are different from all others.\<close>

lemma ins_handles:
  assumes "kids_ok d ks cs" "ctx_shape d K" "distinct (map snd (ctx_left K @ weave (map inorder cs) ks @ ctx_right K))"
  shows "distinct (map snd ks)" "hnds ks \<inter> (\<Union> (thnds ` set cs) \<union> ctx_hnds K) = {}"
proof -
  have "mset (map snd (weave (map inorder cs) ks)) = mset (map snd (concat (map inorder cs) @ ks))"
    by (simp add: mset_weave mset_map del: map_append map_concat)
  then have w: "distinct (map snd (weave (map inorder cs) ks)) \<longleftrightarrow> distinct (map snd (concat (map inorder cs) @ ks))"
    by (rule mset_eq_imp_distinct_iff)
  then show "distinct (map snd ks)" using assms(3) by simp
  have "thnds c = hnds (inorder c)" if "c \<in> set cs" for c
    using assms(1) that thnds_inorder [of 4 "d - 1" c] by (auto simp: kids_ok_def split: if_splits)
  then have t: "\<Union> (thnds ` set cs) = hnds (concat (map inorder cs))" by (simp add: image_UN)
  have "hnds (weave (map inorder cs) ks) \<inter> (hnds (ctx_left K) \<union> hnds (ctx_right K)) = {}" using assms(3) by auto
  then have "hnds ks \<inter> ctx_hnds K = {}" unfolding weave_hnds [OF assms(1)] ctx_hnds_eq [OF assms(2)] by blast
  moreover have "distinct (map snd (concat (map inorder cs) @ ks))" using w assms(3) by simp
  then have "hnds ks \<inter> hnds (concat (map inorder cs)) = {}" unfolding map_append distinct_append set_map by blast
  ultimately show "hnds ks \<inter> (\<Union> (thnds ` set cs) \<union> ctx_hnds K) = {}" unfolding t by blast
qed

lemma ins_readyD:
  assumes "ins_ready s K a lk rk p h cs l ld rd d res"
  shows "(\<exists>lp rp. node_at s a (ctx_parent K) (lk @ rk) (lp @ l # rp) \<and> length lp = length lk \<and> length rp = length rk \<and>
        ptrs (lk @ (p, h) # rk) cs = lp @ ld # rd # rp) \<and>
     (\<forall>c \<in> set cs. bt_repr s (Some a) c) \<and> ctx_repr s a K \<and>
     distinct (a # concat (map addrs cs) @ ctx_addrs K @ res) \<and> res_list s (sn_reserve s) res \<and>
     distinct (map snd (lk @ (p, h) # rk)) \<and> hnds (lk @ (p, h) # rk) \<inter> (\<Union> (thnds ` set cs) \<union> ctx_hnds K) = {} \<and>
     kids_ok d (lk @ (p, h) # rk) cs \<and> ctx_shape d K \<and> least K \<le> Suc (length (lk @ rk)) \<and>
     sorted_wrt klt (ctx_left K @ weave (map inorder cs) (lk @ (p, h) # rk) @ ctx_right K) \<and>
     root_sept s = Some (if K = [] then a else faddr (last K))"
proof -
  note rv = assms [unfolded ins_ready_def]
  then have "kids_ok d (lk @ (p, h) # rk) cs" "ctx_shape d K"
    "distinct (map snd (ctx_left K @ weave (map inorder cs) (lk @ (p, h) # rk) @ ctx_right K))" by blast+
  from ins_handles [OF this] rv show ?thesis by simp
qed

lemma ins_end:
  assumes r: "ins_ready s K a lk rk p h cs l ld rd d res" and n: "length (lk @ rk) < 8"
  defines "ks \<equiv> lk @ (p, h) # rk"
  shows "ins_result s (insert_nonfull a (length (lk @ rk)) p h ld rd s) (plug K (Node a ks cs))
    (ctx_left K @ weave (map inorder cs) ks @ ctx_right K) (leftaddr (plug K (Node a ks cs)))
    (a # concat (map addrs cs) @ ctx_addrs K @ res) res"
proof -
  let ?s = "insert_nonfull a (length (lk @ rk)) p h ld rd s"
  note rv = ins_readyD [OF r, folded ks_def]
  obtain lp rp where lp: "node_at s a (ctx_parent K) (lk @ rk) (lp @ l # rp)" "length lp = length lk" "length rp = length rk"
      "ptrs ks cs = lp @ ld # rd # rp" using rv by blast
  have kk: "kids_ok d ks cs" "ctx_shape d K" using rv by blast+
  have "sorted_wrt klt ks"
    using rv sorted_weave(1) [of "map inorder cs" ks] by (auto simp: sorted_wrt_append kids_ok_def split: if_splits)
  then have p: "below p lk" "beyond p rk" by (auto simp: ks_def sorted_wrt_append)
  have h: "h \<notin> hnds (lk @ rk)" using rv by (auto simp: ks_def)
  note e = insert_nonfull_ok [OF lp(1-3) n p h, where ld = ld and rd = rd]
  have e2: "\<forall>x. x \<noteq> a \<longrightarrow> septs ?s x = septs s x" using e(2) by blast
  have ad: "\<forall>c \<in> set cs. a \<notin> set (addrs c)" "a \<notin> set (ctx_addrs K)" "a \<notin> set res" using rv by auto
  have hk: "h \<notin> thnds c" if "c \<in> set cs" for c using rv that by (auto simp: ks_def)
  have "bt_repr ?s (Some a) c = bt_repr s (Some a) c" if "c \<in> set cs" for c
    using that hk [OF that] e2 e(3) ad(1) by (intro bt_repr_cong) (metis, metis)
  then have t: "bt_repr ?s (ctx_parent K) (Node a ks cs)"
    using rv e(1) [folded ks_def] by (simp add: lp(4) del: length_append)
  have "ctx_repr ?s a K = ctx_repr s a K" using rv e2 e(3) ad(2) by (intro ctx_repr_cong) (metis, auto simp: ks_def)
  then have rep: "bt_repr ?s None (plug K (Node a ks cs))" using rv t by (simp add: bt_repr_plug)
  have io: "inorder (plug K (Node a ks cs)) = ctx_left K @ weave (map inorder cs) ks @ ctx_right K"
    using ctx_shape_wf [OF kk(2)] by (simp add: inorder_plug)
  have "shape (least K) d (Node a ks cs)" using rv n by (intro kids_shape) (auto simp: ks_def)
  then have sh: "\<exists>d'. shape 1 d' (plug K (Node a ks cs))" using kk(2) by (intro shape_plug)
  have "res_list ?s (sn_reserve s) res = res_list s (sn_reserve s) res" using e2 ad(3) by (intro res_list_cong) metis
  then have rs: "res_list ?s (sn_reserve ?s) res" using rv e(4) by (simp add: same_top_def)
  show ?thesis
    unfolding ins_result_def
  proof (intro conjI)
    show "root_sept ?s = Some (baddr (plug K (Node a ks cs)))" using rv e(4) by (simp add: same_top_def baddr_plug)
    show "mset (addrs (plug K (Node a ks cs)) @ res) = mset (a # concat (map addrs cs) @ ctx_addrs K @ res)"
      by (simp add: mset_addrs_plug)
    show "same_hdr s ?s" using e(4) by (simp add: same_top_def)
    show "\<forall>y. y \<notin> hnds (ctx_left K @ weave (map inorder cs) ks @ ctx_right K) \<longrightarrow> h_parent ?s y = h_parent s y"
      using e(3) weave_hnds [OF kk(1)] by (auto simp: ks_def image_Un)
  qed (use rep io sh rs in simp_all)
qed

section \<open>The split of a node of the tree\<close>

lemma baddr_addrs: "baddr t \<in> set (addrs t)"
  by (cases t) simp

lemma addrs_unique:
  "distinct (concat (map addrs cs)) \<Longrightarrow> c \<in> set cs \<Longrightarrow> c' \<in> set cs \<Longrightarrow> x \<in> set (addrs c) \<Longrightarrow> x \<in> set (addrs c') \<Longrightarrow> c = c'"
  by (induction cs) (auto simp: disjoint_iff)

lemma distinct_baddr: "distinct (concat (map addrs cs)) \<Longrightarrow> distinct (map baddr cs)"
proof (induction cs)
  case (Cons c cs)
  have "baddr c \<notin> baddr ` set cs"
  proof
    assume "baddr c \<in> baddr ` set cs"
    then obtain x where "x \<in> set cs" "baddr c \<in> set (addrs x)" using baddr_addrs by (metis imageE)
    then show False using Cons.prems baddr_addrs [of c] by (auto simp: disjoint_iff)
  qed
  with Cons show ?case by simp
qed simp

lemma set_ptrs: "Some x \<in> set (ptrs ks cs) \<longleftrightarrow> (\<exists>c \<in> set cs. x = baddr c)"
  by (auto simp: ptrs_def)

lemma ptrs_parts:
  assumes "length ks = 9" "cs = [] \<or> length cs = 10"
  shows "take 5 (ptrs ks cs) = ptrs (take 4 ks) (take 5 cs)" "drop 5 (ptrs ks cs) = ptrs (drop 5 ks) (drop 5 cs)"
  using assms by (auto simp: ptrs_def take_map drop_map simp del: replicate_Suc)

lemma kids_parts:
  "kids_ok d ks cs \<Longrightarrow> length ks = 9 \<Longrightarrow> kids_ok d (take 4 ks) (take 5 cs)"
  "kids_ok d ks cs \<Longrightarrow> length ks = 9 \<Longrightarrow> kids_ok d (drop 5 ks) (drop 5 cs)"
  by (auto simp: kids_ok_def dest: in_set_takeD in_set_dropD split: if_splits)

text \<open>\<open>s1\<close>: the state after \<open>alloc_sept\<close> took \<open>b\<close> off the reserve.\<close>

lemma alloc_sept_ok:
  assumes "res_list s (sn_reserve s) (b # res)" "b \<notin> set res"
  shows "\<exists>s1. alloc_sept s = Some (b, s1) \<and> res_list s1 (sn_reserve s1) res \<and> (\<forall>x. x \<noteq> b \<longrightarrow> septs s1 x = septs s x) \<and>
    septs s1 b = sept_init (septs s b) \<and> h_parent s1 = h_parent s \<and> root_sept s1 = root_sept s \<and> same_hdr s s1"
proof -
  let ?s1 = "upn b sept_init (s\<lparr>sn_reserve := s_parent (septs s b)\<rparr>)"
  have "alloc_sept s = Some (b, ?s1)" using assms(1) by (simp add: alloc_sept_def)
  moreover have "res_list ?s1 (s_parent (septs s b)) res = res_list s (s_parent (septs s b)) res"
    using assms(2) by (intro res_list_cong) (auto simp: upn_def)
  ultimately show ?thesis using assms(1) by (auto simp: upn_def same_hdr_def)
qed

text \<open>Subtrees of which those in \<open>M\<close> get another parent, while the nodes \<open>X\<close> outside of them change.\<close>

lemma kids_moved:
  assumes di: "distinct (concat (map addrs cs))" and M: "M \<subseteq> set cs" and X: "\<forall>c \<in> set cs. set (addrs c) \<inter> X = {}"
    and eff: "\<And>x. x \<notin> X \<Longrightarrow> septs t x = (if \<exists>c \<in> M. x = baddr c then (septs s x)\<lparr>s_parent := q\<rparr> else septs s x)"
    and th: "\<forall>c \<in> set cs. \<forall>y \<in> thnds c. h_parent t y = h_parent s y" and c: "c \<in> set cs" "bt_repr s par c"
  shows "bt_repr t (if c \<in> M then q else par) c"
proof -
  have same: "septs t x = septs s x" if x: "x \<in> set (addrs c)" "c \<in> M \<longrightarrow> x \<noteq> baddr c" for x
  proof -
    have "x \<noteq> baddr c'" if "c' \<in> M" for c'
      using addrs_unique [OF di, of c c' x] c(1) x M that baddr_addrs [of c'] by auto
    then show ?thesis using eff [of x] X c(1) x(1) by auto
  qed
  show ?thesis
  proof (cases "c \<in> M")
    case True
    have "baddr c \<notin> X" using X c(1) baddr_addrs [of c] by blast
    then have q: "septs t (baddr c) = (septs s (baddr c))\<lparr>s_parent := q\<rparr>" using eff True by auto
    have d: "distinct (addrs c)" using di c(1) by (auto simp: distinct_concat_iff)
    have o: "\<forall>x \<in> set (addrs c) - {baddr c}. septs t x = septs s x" using same by simp
    have "bt_repr t q c" using c th by (intro bt_repr_reparent [OF _ q d o]) auto
    then show ?thesis using True by simp
  next
    case False
    then have "bt_repr t par c = bt_repr s par c" using same th c(1) by (intro bt_repr_cong) auto
    then show ?thesis using False c(2) by simp
  qed
qed

text \<open>The children of the halves: those of the upper half get the new node as their parent.\<close>

lemma split_kids:
  assumes di: "distinct (concat (map addrs cs))" and re: "\<forall>c \<in> set cs. bt_repr s (Some a) c"
    and ad: "\<forall>c \<in> set cs. a \<notin> set (addrs c) \<and> b \<notin> set (addrs c)"
    and eff: "\<And>x. x \<noteq> a \<Longrightarrow> x \<noteq> b \<Longrightarrow>
      septs s' x = (if \<exists>c \<in> set (drop k cs). x = baddr c then (septs s x)\<lparr>s_parent := Some b\<rparr> else septs s x)"
    and th: "\<forall>c \<in> set cs. \<forall>y \<in> thnds c. h_parent s' y = h_parent s y"
  shows "\<forall>c \<in> set (take k cs). bt_repr s' (Some a) c" "\<forall>c \<in> set (drop k cs). bt_repr s' (Some b) c"
proof -
  have dj: "set (take k cs) \<inter> set (drop k cs) = {}"
    using distinct_baddr [OF di] by (intro set_take_disj_set_drop_if_distinct) (simp_all add: distinct_map)
  have mv: "bt_repr s' (if c \<in> set (drop k cs) then Some b else Some a) c" if "c \<in> set cs" for c
    using re that ad by (intro kids_moved [OF di _ _ _ th, where X = "{a, b}"] eff) (auto dest: in_set_dropD)
  show "\<forall>c \<in> set (take k cs). bt_repr s' (Some a) c"
  proof
    fix c assume c: "c \<in> set (take k cs)"
    then have "c \<in> set cs" "c \<notin> set (drop k cs)" using dj in_set_takeD [OF c] by auto
    then show "bt_repr s' (Some a) c" using mv [of c] by simp
  qed
  show "\<forall>c \<in> set (drop k cs). bt_repr s' (Some b) c"
  proof
    fix c assume c: "c \<in> set (drop k cs)"
    then show "bt_repr s' (Some b) c" using mv [OF in_set_dropD [OF c]] by simp
  qed
qed

lemma split_weave:
  assumes "length ks = 9" "cs = [] \<or> length cs = 10"
  shows "weave (map f (take 5 cs)) (take 4 ks) @ ks ! 4 # weave (map f (drop 5 cs)) (drop 5 ks) = weave (map f cs) ks"
proof -
  have k: "ks = (take 4 ks @ [ks ! 4]) @ drop 5 ks" using assms(1) id_take_nth_drop [of 4 ks] by simp
  show ?thesis
  proof (cases "cs = []")
    case False
    then have l: "length cs = 10" using assms(2) by simp
    have c: "take 5 cs = take 4 cs @ [cs ! 4]" using l take_Suc_conv_app_nth [of 4 cs] by simp
    have "weave (map f (take 5 cs @ drop 5 cs)) ((take 4 ks @ [ks ! 4]) @ drop 5 ks) =
        weave (map f (take 5 cs)) (take 4 ks @ [ks ! 4]) @ weave (map f (drop 5 cs)) (drop 5 ks)"
      unfolding map_append using l assms(1) by (intro weave_append) simp
    then have "weave (map f cs) ks = weave (map f (take 5 cs)) (take 4 ks @ [ks ! 4]) @ weave (map f (drop 5 cs)) (drop 5 ks)"
      unfolding append_take_drop_id k [symmetric] .
    moreover have "weave (map f (take 4 cs) @ [f (cs ! 4)]) (take 4 ks @ [ks ! 4]) =
        weave (map f (take 4 cs)) (take 4 ks) @ f (cs ! 4) @ [ks ! 4]"
      using l assms(1) weave_append [of "map f (take 4 cs)" "take 4 ks" "[f (cs ! 4)]" "[ks ! 4]"] by simp
    moreover have "weave (map f (take 4 cs) @ [f (cs ! 4)]) (take 4 ks @ []) = weave (map f (take 4 cs)) (take 4 ks) @ f (cs ! 4)"
      using l assms(1) by (subst weave_append) simp_all
    ultimately show ?thesis by (simp add: c)
  qed (use k in simp)
qed

lemma split_tree:
  assumes r: "ins_ready s K a lk rk p h cs ld ld rd d (b # res)" and n: "length (lk @ rk) = 8"
  defines "ks \<equiv> lk @ (p, h) # rk"
  defines "ta \<equiv> Node a (take 4 ks) (take 5 cs)" and "tb \<equiv> Node b (drop 5 ks) (drop 5 cs)"
  shows "\<exists>s1 s2. alloc_sept s = Some (b, s1) \<and> split_node a b p h ld rd s1 = (fst (ks ! 4), Some (snd (ks ! 4)), s2) \<and>
    bt_repr s2 (ctx_parent K) ta \<and> bt_repr s2 (ctx_parent K) tb \<and> ctx_repr s2 a K \<and> res_list s2 (sn_reserve s2) res \<and>
    shape 4 d ta \<and> shape 4 d tb \<and> root_sept s2 = root_sept s \<and> same_hdr s s2 \<and>
    (\<forall>y. y \<notin> hnds ks \<longrightarrow> h_parent s2 y = h_parent s y) \<and>
    inorder ta @ ks ! 4 # inorder tb = weave (map inorder cs) ks"
proof -
  note rv = ins_readyD [OF r, folded ks_def]
  obtain lp rp where lp: "node_at s a (ctx_parent K) (lk @ rk) (lp @ ld # rp)" "length lp = length lk" "length rp = length rk"
      "ptrs ks cs = lp @ ld # rd # rp" using rv by blast
  have kk: "kids_ok d ks cs" "ctx_shape d K" using rv by blast+
  have l9: "length ks = 9" "cs = [] \<or> length cs = 10" using n kk(1) by (auto simp: ks_def kids_ok_def split: if_splits)
  obtain s1 where s1: "alloc_sept s = Some (b, s1)" "res_list s1 (sn_reserve s1) res" "\<forall>x. x \<noteq> b \<longrightarrow> septs s1 x = septs s x"
      "septs s1 b = sept_init (septs s b)" "h_parent s1 = h_parent s" "root_sept s1 = root_sept s" "same_hdr s s1"
    using alloc_sept_ok [of s b res] rv by auto
  have ad: "a \<noteq> b" "\<forall>c \<in> set cs. a \<notin> set (addrs c) \<and> b \<notin> set (addrs c)" "a \<notin> set (ctx_addrs K)" "b \<notin> set (ctx_addrs K)"
      "a \<notin> set res" "b \<notin> set res" "distinct (concat (map addrs cs))" "set (ctx_addrs K) \<inter> \<Union> (set ` addrs ` set cs) = {}"
      "set res \<inter> \<Union> (set ` addrs ` set cs) = {}" using rv by auto
  have srt: "sorted_wrt klt ks"
    using rv sorted_weave(1) [of "map inorder cs" ks] kk(1) by (auto simp: sorted_wrt_append kids_ok_def split: if_splits)
  then have p: "below p lk" "beyond p rk" by (auto simp: ks_def sorted_wrt_append)
  have nd: "node_at s1 a (ctx_parent K) (lk @ rk) (lp @ ld # rp)"
    using lp(1) s1(3,5) ad(1) node_at_cong [of s1 a s "lk @ rk" "ctx_parent K" "lp @ ld # rp"] by auto
  have db: "distinct (map baddr cs)" using ad(7) by (rule distinct_baddr)
  have pn: "Some a \<notin> set (lp @ ld # rd # rp)" "Some b \<notin> set (lp @ ld # rd # rp)"
    using ad(2) baddr_addrs unfolding lp(4) [symmetric] set_ptrs by metis+
  have pa: "s_parent (septs s1 x) = Some a" if x: "Some x \<in> set (lp @ ld # rd # rp)" for x
  proof -
    obtain c where c: "c \<in> set cs" "x = baddr c" using x unfolding lp(4) [symmetric] set_ptrs by blast
    then have "x \<noteq> b" "bt_repr s (Some a) c" using ad(2) baddr_addrs [of c] rv by auto
    then show ?thesis using s1(3) c(2) by (cases c) (auto simp: node_at_def)
  qed
  have "distinct (filter (\<lambda>x. x \<noteq> None) (ptrs ks cs))"
    using db by (auto simp: ptrs_def distinct_map inj_on_def)
  with split_node_ok [OF nd lp(2,3) n p ad(1), where h = h and rd = rd] rv s1(4) pn pa
  obtain s2 where s2: "split_node a b p h ld rd s1 = (fst (ks ! 4), Some (snd (ks ! 4)), s2)"
      "split_done s2 a b (ctx_parent K) ks (ptrs ks cs)"
      "\<forall>x. x \<noteq> a \<and> x \<noteq> b \<longrightarrow> septs s2 x = (if Some x \<in> set (drop 5 (ptrs ks cs)) then (septs s1 x)\<lparr>s_parent := Some b\<rparr> else septs s1 x)"
      "\<forall>y. y \<notin> hnds ks \<longrightarrow> h_parent s2 y = h_parent s1 y" "same_top s1 s2"
    unfolding lp(4) ks_def [symmetric] by (auto simp: sept_init_def N_def)
  have dk: "drop 5 (ptrs ks cs) = ptrs (drop 5 ks) (drop 5 cs)" "take 5 (ptrs ks cs) = ptrs (take 4 ks) (take 5 cs)"
    using ptrs_parts [OF l9] by simp_all
  have out: "septs s2 x = septs s1 x" if "x \<noteq> a" "x \<noteq> b" "\<forall>c \<in> set (drop 5 cs). x \<noteq> baddr c" for x
    using s2(3) that unfolding dk(1) set_ptrs by auto
  have cs: "cs = take 5 cs @ drop 5 cs" by simp
  have hp: "h_parent s2 y = h_parent s y" if "y \<notin> hnds ks" for y using s2(4) s1(5) that by simp
  have eff: "septs s2 x = (if \<exists>c \<in> set (drop 5 cs). x = baddr c then (septs s x)\<lparr>s_parent := Some b\<rparr> else septs s x)"
    if "x \<noteq> a" "x \<noteq> b" for x using s2(3) s1(3) that unfolding dk(1) set_ptrs by simp
  have "\<forall>c \<in> set cs. \<forall>y \<in> thnds c. h_parent s2 y = h_parent s y" using rv hp by blast
  with split_kids [OF ad(7), of s a b s2] rv ad(2) eff
  have "\<forall>c \<in> set (take 5 cs). bt_repr s2 (Some a) c" "\<forall>c \<in> set (drop 5 cs). bt_repr s2 (Some b) c" by blast+
  then have t: "bt_repr s2 (ctx_parent K) ta" "bt_repr s2 (ctx_parent K) tb"
    using s2(2) by (simp_all add: split_done_def dk ta_def tb_def)
  have kad: "baddr c \<notin> set (ctx_addrs K)" "baddr c \<notin> set res" if "c \<in> set (drop 5 cs)" for c
    using ad(8,9) in_set_dropD [OF that] baddr_addrs [of c] unfolding disjoint_iff by blast+
  have "\<forall>x \<in> set (ctx_addrs K). septs s2 x = septs s x" using eff ad(3,4) kad(1) by metis
  moreover have "\<forall>y \<in> ctx_hnds K. h_parent s2 y = h_parent s y" using rv hp by blast
  ultimately have "ctx_repr s2 a K = ctx_repr s a K" by (rule ctx_repr_cong)
  then have c: "ctx_repr s2 a K" using rv by simp
  have "\<forall>x \<in> set res. septs s2 x = septs s x" using eff ad(5,6) kad(2) by metis
  then have "res_list s2 (sn_reserve s2) res = res_list s1 (sn_reserve s1) res"
    using s2(5) s1(3) ad(6) by (simp add: same_top_def) (intro res_list_cong, metis)
  moreover have "shape 4 d ta" "shape 4 d tb"
    using kids_parts [OF kk(1) l9(1)] l9(1) by (auto simp: ta_def tb_def intro!: kids_shape)
  moreover have "inorder ta @ ks ! 4 # inorder tb = weave (map inorder cs) ks"
    using split_weave [OF l9] by (simp add: ta_def tb_def)
  ultimately show ?thesis using s1 s2 t c hp
    by (intro exI [of _ s1] exI [of _ s2]) (auto simp: same_top_def intro: same_trans)
qed

lemma ins_result_trans:
  "ins_result s2 s' t ios lft all res \<Longrightarrow> same_hdr s s2 \<Longrightarrow> \<forall>y. y \<notin> hnds ios \<longrightarrow> h_parent s2 y = h_parent s y \<Longrightarrow>
   mset all = mset all' \<Longrightarrow> ins_result s s' t ios lft all' res"
  by (auto simp: ins_result_def intro: same_trans)

section \<open>The insertion along the path\<close>

lemma frame_weave:
  assumes "length lc = length lk" "length rc = length rk"
  shows "weave (map inorder (lc @ t # u # rc)) (lk @ k # rk) =
    weave (map inorder lc) lk @ (inorder t @ k # inorder u) @ weave ([] # map inorder rc) rk"
  using assms by (simp add: weave_append weave_hd [of "inorder u"])

lemma leftaddr_split:
  "leftaddr (Node a (take 4 ks) (take 5 cs)) = leftaddr (Node a ks cs)"
  "leftaddr t = leftaddr t' \<Longrightarrow> leftaddr (Node x ks (lc @ t # rc)) = leftaddr (Node x ks' (lc @ t' # rc'))"
  by (cases cs; simp) (cases lc; simp)

text \<open>The step to the parent after a split.\<close>

lemma split_up:
  assumes r: "ins_ready s (Frame u ul uc ur ud # K) a lk rk p h cs ld ld rd d (b # res)" and n: "length (lk @ rk) = 8"
  defines "ks \<equiv> lk @ (p, h) # rk"
  defines "ta \<equiv> Node a (take 4 ks) (take 5 cs)" and "tb \<equiv> Node b (drop 5 ks) (drop 5 cs)"
  shows "\<exists>s2. split_loop a 8 p h ld rd s =
      split_loop u (length (ul @ ur)) (fst (ks ! 4)) (snd (ks ! 4)) (Some a) (Some b) s2 \<and> same_hdr s s2 \<and>
    (\<forall>y. y \<notin> hnds ks \<longrightarrow> h_parent s2 y = h_parent s y) \<and>
    ins_ready s2 K u ul ur (fst (ks ! 4)) (snd (ks ! 4)) (uc @ ta # tb # ud) (Some a) (Some a) (Some b) (Suc d) res"
proof -
  note sp = split_tree [OF r n, folded ks_def, folded ta_def tb_def]
  obtain s1 s2 where s: "alloc_sept s = Some (b, s1)" "split_node a b p h ld rd s1 = (fst (ks ! 4), Some (snd (ks ! 4)), s2)"
    "bt_repr s2 (Some u) ta" "bt_repr s2 (Some u) tb" "ctx_repr s2 a (Frame u ul uc ur ud # K)" "res_list s2 (sn_reserve s2) res"
    "shape 4 d ta" "shape 4 d tb" "root_sept s2 = root_sept s" "same_hdr s s2"
    "\<forall>y. y \<notin> hnds ks \<longrightarrow> h_parent s2 y = h_parent s y" "inorder ta @ ks ! 4 # inorder tb = weave (map inorder cs) ks"
    using sp by auto
  note rv = r [unfolded ins_ready_def, folded ks_def]
  have fr: "length uc = length ul" "length ud = length ur" using rv by auto
  have pa: "s_parent (septs s2 a) = Some u" using s(3) by (simp add: ta_def node_at_def)
  have nv: "num_vals (septs s2 u) = length (ul @ ur)" using s(5) num_vals_node [of s2 u] by fastforce
  have step: "split_loop a 8 p h ld rd s = split_loop u (length (ul @ ur)) (fst (ks ! 4)) (snd (ks ! 4)) (Some a) (Some b) s2"
    by (subst split_loop.simps) (simp add: N_def s(1,2) pa nv)
  have io: "weave (map inorder (uc @ ta # tb # ud)) (ul @ ks ! 4 # ur) =
      weave (map inorder uc) ul @ weave (map inorder cs) ks @ weave ([] # map inorder ud) ur"
    using frame_weave [OF fr, of ta tb "ks ! 4"] s(12) by simp
  have ms: "mset (concat (map addrs cs)) = mset (concat (map addrs (take 5 cs))) + mset (concat (map addrs (drop 5 cs)))"
    by (metis append_take_drop_id concat_append map_append mset_append)
  have "mset (u # concat (map addrs (uc @ ta # tb # ud)) @ ctx_addrs K @ res) =
      mset (a # concat (map addrs cs) @ ctx_addrs (Frame u ul uc ur ud # K) @ b # res)"
    by (simp add: ta_def tb_def ms)
  then have di: "distinct (u # concat (map addrs (uc @ ta # tb # ud)) @ ctx_addrs K @ res)"
    using rv mset_eq_imp_distinct_iff by blast
  have "ins_ready s2 K u ul ur (fst (ks ! 4)) (snd (ks ! 4)) (uc @ ta # tb # ud) (Some a) (Some a) (Some b) (Suc d) res"
    unfolding ins_ready_def prod.collapse
  proof (intro conjI)
    show "\<exists>lp rp. node_at s2 u (ctx_parent K) (ul @ ur) (lp @ Some a # rp) \<and> length lp = length ul \<and> length rp = length ur \<and>
        ptrs (ul @ ks ! 4 # ur) (uc @ ta # tb # ud) = lp @ Some a # Some b # rp"
      using s(5) fr by (intro exI [of _ "map (Some \<circ> baddr) uc"] exI [of _ "map (Some \<circ> baddr) ud"])
        (simp add: ptrs_def ta_def tb_def)
    show "distinct (map snd (ctx_left K @ weave (map inorder (uc @ ta # tb # ud)) (ul @ ks ! 4 # ur) @ ctx_right K))"
      "sorted_wrt klt (ctx_left K @ weave (map inorder (uc @ ta # tb # ud)) (ul @ ks ! 4 # ur) @ ctx_right K)"
      unfolding io using rv by (simp_all del: map_append)
    show "kids_ok (Suc d) (ul @ ks ! 4 # ur) (uc @ ta # tb # ud)" using rv s(7,8) fr by (auto simp: kids_ok_def)
  qed (use s di rv in auto)
  then show ?thesis using step s(10,11) by blast
qed

lemma kids_len: "kids_ok d ks cs \<Longrightarrow> cs = [] \<or> length cs = Suc (length ks)"
  by (simp add: kids_ok_def split: if_splits)

lemma mset_concat_split: "mset (concat (map f (take k cs))) + mset (concat (map f (drop k cs))) = mset (concat (map f cs))"
  by (metis append_take_drop_id concat_append map_append mset_append)

text \<open>The split of the root: a new root above the halves.\<close>

lemma split_root:
  assumes r: "ins_ready s [] a lk rk p h cs ld ld rd d (b # r # res)" and n: "length (lk @ rk) = 8"
  defines "ks \<equiv> lk @ (p, h) # rk"
  defines "ta \<equiv> Node a (take 4 ks) (take 5 cs)" and "tb \<equiv> Node b (drop 5 ks) (drop 5 cs)"
  shows "\<exists>s3. split_loop a 8 p h ld rd s = Some (r, 0, fst (ks ! 4), snd (ks ! 4), Some a, Some b, s3) \<and> same_hdr s s3 \<and>
    (\<forall>y. y \<notin> hnds ks \<longrightarrow> h_parent s3 y = h_parent s y) \<and>
    ins_ready s3 [] r [] [] (fst (ks ! 4)) (snd (ks ! 4)) [ta, tb] None (Some a) (Some b) (Suc d) res"
proof -
  note sp = split_tree [OF r n, folded ks_def, folded ta_def tb_def]
  obtain s1 s2 where s: "alloc_sept s = Some (b, s1)" "split_node a b p h ld rd s1 = (fst (ks ! 4), Some (snd (ks ! 4)), s2)"
    "bt_repr s2 None ta" "bt_repr s2 None tb" "res_list s2 (sn_reserve s2) (r # res)"
    "shape 4 d ta" "shape 4 d tb" "same_hdr s s2"
    "\<forall>y. y \<notin> hnds ks \<longrightarrow> h_parent s2 y = h_parent s y" "inorder ta @ ks ! 4 # inorder tb = weave (map inorder cs) ks"
    using sp by auto
  note rv = r [unfolded ins_ready_def, folded ks_def]
  have ms: "mset (concat (map addrs cs)) = mset (concat (map addrs (take 5 cs))) + mset (concat (map addrs (drop 5 cs)))"
    by (metis append_take_drop_id concat_append map_append mset_append)
  have "mset (r # concat (map addrs [ta, tb]) @ ctx_addrs [] @ res) =
      mset (a # concat (map addrs cs) @ ctx_addrs [] @ b # r # res)"
    by (simp add: ta_def tb_def ms)
  then have di: "distinct (r # concat (map addrs [ta, tb]) @ ctx_addrs [] @ res)"
    using rv mset_eq_imp_distinct_iff by blast
  then have dt: "distinct (addrs ta)" "distinct (addrs tb)" "r \<notin> set (addrs ta)" "r \<notin> set (addrs tb)" "r \<notin> set res"
      "set (addrs ta) \<inter> set (addrs tb) = {}" "set (addrs ta) \<inter> set res = {}" "set (addrs tb) \<inter> set res = {}" by auto
  obtain s2' where q: "alloc_sept s2 = Some (r, s2')" "res_list s2' (sn_reserve s2') res" "\<forall>x. x \<noteq> r \<longrightarrow> septs s2' x = septs s2 x"
      "septs s2' r = sept_init (septs s2 r)" "h_parent s2' = h_parent s2" "same_hdr s2 s2'"
    using alloc_sept_ok [OF s(5) dt(5)] by blast
  define s3 where "s3 = set_parent b (Some r) (set_parent a (Some r) (s2'\<lparr>root_sept := Some r\<rparr>))"
  have ab: "baddr ta = a" "baddr tb = b" "a \<noteq> b" "a \<noteq> r" "b \<noteq> r" using dt by (auto simp: ta_def tb_def)
  have s3: "septs s3 x = (if x = a \<or> x = b then (septs s2 x)\<lparr>s_parent := Some r\<rparr> else septs s2' x)" for x
    using ab q(3) by (auto simp: s3_def set_parent_def upn_def)
  have h3: "h_parent s3 = h_parent s2" "sn_reserve s3 = sn_reserve s2'" "root_sept s3 = Some r" "same_hdr s2 s3"
    using q(5,6) by (simp_all add: s3_def) (simp_all add: set_parent_def upn_def same_hdr_def)
  have "bt_repr s3 (Some r) ta"
  proof (rule bt_repr_reparent [OF s(3) _ dt(1)])
    show "\<forall>x \<in> set (addrs ta) - {baddr ta}. septs s3 x = septs s2 x"
      using s3 q(3) ab dt(3,6) baddr_addrs [of tb] by (metis DiffD1 DiffD2 IntI empty_iff singletonI)
  qed (use s3 ab h3 in simp_all)
  moreover have "bt_repr s3 (Some r) tb"
  proof (rule bt_repr_reparent [OF s(4) _ dt(2)])
    show "\<forall>x \<in> set (addrs tb) - {baddr tb}. septs s3 x = septs s2 x"
      using s3 q(3) ab dt(4,6) baddr_addrs [of ta] by (metis DiffD1 DiffD2 IntI empty_iff singletonI)
  qed (use s3 ab h3 in simp_all)
  moreover have "res_list s3 (sn_reserve s3) res = res_list s2' (sn_reserve s2') res"
    unfolding h3 using s3 dt(7,8) baddr_addrs [of ta] baddr_addrs [of tb] ab(1,2)
    by (intro res_list_cong) (auto simp: disjoint_iff)
  moreover have nr: "node_at s3 r None [] [None]" using ab s3 [of r] q(4) by (simp add: node_at_def sept_init_def N_def)
  ultimately have "ins_ready s3 [] r [] [] (fst (ks ! 4)) (snd (ks ! 4)) [ta, tb] None (Some a) (Some b) (Suc d) res"
    unfolding ins_ready_def prod.collapse
    using s di rv h3 q(2) by (auto simp: ptrs_def ab kids_ok_def)
  moreover have "split_loop a 8 p h ld rd s = Some (r, 0, fst (ks ! 4), snd (ks ! 4), Some a, Some b, s3)"
  proof -
    have "s_parent (septs s2 a) = None" using s(3) by (simp add: ta_def node_at_def)
    then show ?thesis
      by (subst split_loop.simps, simp add: N_def s(1,2) q(1) Let_def s3_def [symmetric], subst split_loop.simps, simp add: N_def)
  qed
  ultimately show ?thesis using same_trans(1) [OF s(8) h3(4)] s(9) h3(1) by auto
qed

text \<open>The whole loop, with the insertion at its end.\<close>

lemma ins_tree:
  assumes "ins_ready s K a lk rk p h cs ld ld rd d res" "need K (length (lk @ rk)) \<le> length res" "length (lk @ rk) \<le> 8"
  shows "\<exists>a' n' p' h' ld' rd' s1 t res'.
    split_loop a (length (lk @ rk)) p h ld rd s = Some (a', n', p', h', ld', rd', s1) \<and>
    ins_result s (insert_nonfull a' n' p' h' ld' rd' s1) t
      (ctx_left K @ weave (map inorder cs) (lk @ (p, h) # rk) @ ctx_right K)
      (leftaddr (plug K (Node a (lk @ (p, h) # rk) cs))) (a # concat (map addrs cs) @ ctx_addrs K @ res) res'"
  using assms
proof (induction K arbitrary: s a lk rk p h cs ld rd d res)
  case (Nil s a lk rk p h cs ld rd d res)
  show ?case
  proof (cases "length (lk @ rk) = 8")
    case False
    then have n: "length (lk @ rk) < 8" using Nil.prems(3) by simp
    have "split_loop a (length (lk @ rk)) p h ld rd s = Some (a, length (lk @ rk), p, h, ld, rd, s)"
      using n by (subst split_loop.simps) (simp add: N_def)
    with ins_end [OF Nil.prems(1) n] show ?thesis by blast
  next
    case True
    then obtain b r res' where res: "res = b # r # res'" using Nil.prems(2) by (cases res rule: remdups_adj.cases) auto
    let ?ks = "lk @ (p, h) # rk" and ?all = "a # concat (map addrs cs) @ res"
    let ?ta = "Node a (take 4 ?ks) (take 5 cs)" and ?tb = "Node b (drop 5 ?ks) (drop 5 cs)"
    obtain s3 where s3: "split_loop a 8 p h ld rd s = Some (r, 0, fst (?ks ! 4), snd (?ks ! 4), Some a, Some b, s3)" "same_hdr s s3"
        "\<forall>y. y \<notin> hnds ?ks \<longrightarrow> h_parent s3 y = h_parent s y"
        "ins_ready s3 [] r [] [] (fst (?ks ! 4)) (snd (?ks ! 4)) [?ta, ?tb] None (Some a) (Some b) (Suc d) res'"
      using split_root [OF Nil.prems(1) [unfolded res] True] by blast
    have kk: "kids_ok d ?ks cs" using Nil.prems(1) by (simp add: ins_ready_def)
    have io: "weave (map inorder [?ta, ?tb]) ([] @ (fst (?ks ! 4), snd (?ks ! 4)) # []) = weave (map inorder cs) ?ks"
      using split_weave [of ?ks cs inorder] kids_len [OF kk] True by (simp add: numeral_eq_Suc)
    have ms: "mset (r # concat (map addrs [?ta, ?tb]) @ res') = mset ?all"
      using mset_concat_split [of addrs 5 cs] by (simp add: res)
    from ins_end [OF s3(4)] have e: "ins_result s3 (insert_nonfull r 0 (fst (?ks ! 4)) (snd (?ks ! 4)) (Some a) (Some b) s3)
        (Node r [?ks ! 4] [?ta, ?tb]) (weave (map inorder cs) ?ks) (leftaddr ?ta)
        (r # concat (map addrs [?ta, ?tb]) @ res') res'"
      unfolding io by simp
    have "hnds ?ks \<subseteq> hnds (weave (map inorder cs) ?ks)" using weave_hnds [OF kk] by blast
    then have "\<forall>y. y \<notin> hnds (weave (map inorder cs) ?ks) \<longrightarrow> h_parent s3 y = h_parent s y" using s3(3) by blast
    from ins_result_trans [OF e [unfolded leftaddr_split(1)] s3(2) this ms] show ?thesis
      unfolding True s3(1) ctx_left.simps ctx_right.simps ctx_addrs.simps append_Nil append_Nil2 plug.simps by blast
  qed
next
  case (Cons F K s a lk rk p h cs ld rd d res)
  obtain u ul uc ur ud where F: "F = Frame u ul uc ur ud" by (cases F)
  show ?case
  proof (cases "length (lk @ rk) = 8")
    case False
    then have n: "length (lk @ rk) < 8" using Cons.prems(3) by simp
    have "split_loop a (length (lk @ rk)) p h ld rd s = Some (a, length (lk @ rk), p, h, ld, rd, s)"
      using n by (subst split_loop.simps) (simp add: N_def)
    with ins_end [OF Cons.prems(1) n] show ?thesis by blast
  next
    case True
    then obtain b res' where res: "res = b # res'" "need K (length (ul @ ur)) \<le> length res'"
      using Cons.prems(2) by (cases res) (auto simp: F)
    let ?ks = "lk @ (p, h) # rk" and ?all = "a # concat (map addrs cs) @ ctx_addrs (F # K) @ res"
    let ?ta = "Node a (take 4 ?ks) (take 5 cs)" and ?tb = "Node b (drop 5 ?ks) (drop 5 cs)"
    let ?us = "ul @ ?ks ! 4 # ur" and ?cs = "uc @ ?ta # ?tb # ud"
    obtain s2 where s2: "split_loop a 8 p h ld rd s = split_loop u (length (ul @ ur)) (fst (?ks ! 4)) (snd (?ks ! 4)) (Some a) (Some b) s2"
        "same_hdr s s2" "\<forall>y. y \<notin> hnds ?ks \<longrightarrow> h_parent s2 y = h_parent s y"
        "ins_ready s2 K u ul ur (fst (?ks ! 4)) (snd (?ks ! 4)) ?cs (Some a) (Some a) (Some b) (Suc d) res'"
      using split_up [OF Cons.prems(1) [unfolded F res(1)] True] by blast
    have sh: "kids_ok d ?ks cs" "length uc = length ul" "length ud = length ur" "length (ul @ ur) \<le> 8"
      using Cons.prems(1) by (auto simp: ins_ready_def F)
    have "inorder ?ta @ ?ks ! 4 # inorder ?tb = weave (map inorder cs) ?ks"
      using split_weave [of ?ks cs inorder] kids_len [OF sh(1)] True by (simp add: numeral_eq_Suc)
    then have io: "ctx_left K @ weave (map inorder ?cs) ?us @ ctx_right K =
        ctx_left (F # K) @ weave (map inorder cs) ?ks @ ctx_right (F # K)"
      using frame_weave [OF sh(2,3), of ?ta ?tb "?ks ! 4"] by (simp add: F)
    have ms: "mset (u # concat (map addrs ?cs) @ ctx_addrs K @ res') = mset ?all"
      using mset_concat_split [of addrs 5 cs] by (simp add: F res(1))
    have la: "leftaddr (plug K (Node u ?us ?cs)) = leftaddr (plug (F # K) (Node a ?ks cs))"
      unfolding F plug.simps by (intro leftaddr_plug_cong leftaddr_split)
    obtain a' n' p' h' ld' rd' s1 t r' where e:
        "split_loop u (length (ul @ ur)) (fst (?ks ! 4)) (snd (?ks ! 4)) (Some a) (Some b) s2 = Some (a', n', p', h', ld', rd', s1)"
        "ins_result s2 (insert_nonfull a' n' p' h' ld' rd' s1) t (ctx_left K @ weave (map inorder ?cs) ?us @ ctx_right K)
          (leftaddr (plug K (Node u ?us ?cs))) (u # concat (map addrs ?cs) @ ctx_addrs K @ res') r'"
      using Cons.IH [OF s2(4) res(2) sh(4)] unfolding prod.collapse by blast
    have "hnds ?ks \<subseteq> hnds (ctx_left (F # K) @ weave (map inorder cs) ?ks @ ctx_right (F # K))"
      using weave_hnds [OF sh(1)] unfolding set_append image_Un by blast
    then have "\<forall>y. y \<notin> hnds (ctx_left (F # K) @ weave (map inorder cs) ?ks @ ctx_right (F # K)) \<longrightarrow> h_parent s2 y = h_parent s y"
      using s2(3) by blast
    from ins_result_trans [OF e(2) [unfolded io la] s2(2) this ms] show ?thesis
      unfolding True s2(1) e(1) by blast
  qed
qed

end
