(* ===== verification/Btree_Inv.thy ===== *)
theory Btree_Inv
  imports Btree_Insert_Tree
begin

text \<open>
  The invariant of \<open>btree_set\<close>: the represented tree, its order, the reserve and the counters that guarantee that the
  reserve suffices; and that the operations which do not remove a value keep it.
\<close>

section \<open>Counting nodes\<close>

lemma length_weave: "length (weave xs ks) = length (concat xs) + length ks"
  using arg_cong [OF mset_weave [of xs ks], of size] by simp

lemma count_concat: "\<forall>c \<in> set cs. 4 * length (f c) \<le> length (g c) \<Longrightarrow> 4 * length (concat (map f cs)) \<le> length (concat (map g cs))"
  by (induction cs) simp_all

lemma shape_count: "shape 4 d t \<Longrightarrow> 4 * length (addrs t) \<le> length (inorder t)"
proof (induction t arbitrary: d)
  case (Node a ks cs)
  have "4 * length (addrs c) \<le> length (inorder c)" if "c \<in> set cs" for c
    using Node.prems that Node.IH [OF that] by (cases d) auto
  then have "4 * length (concat (map addrs cs)) \<le> length (concat (map inorder cs))" by (intro count_concat) simp
  moreover have "4 \<le> length ks" using Node.prems by (cases d) auto
  ultimately show ?case by (simp add: length_weave)
qed

lemma forest_count: "\<forall>c \<in> set cs. shape 4 d c \<Longrightarrow> 4 * length (concat (map addrs cs)) \<le> length (concat (map inorder cs))"
  by (intro count_concat) (blast intro: shape_count)

text \<open>The nodes of the tree with those an insertion takes: at most a quarter of the values, rounded up, with one more value.\<close>

lemma ctx_count:
  "ctx_shape d K \<Longrightarrow> least K - 1 \<le> n \<Longrightarrow> K \<noteq> [] \<longrightarrow> 4 \<le> n \<Longrightarrow>
   4 * (1 + length (ctx_addrs K) + need K n) \<le> n + length (ctx_left K @ ctx_right K) + 4"
proof (induction K arbitrary: d n)
  case (Cons F K)
  obtain u ul uc ur ud where F: "F = Frame u ul uc ur ud" by (cases F)
  let ?m = "length ul + length ur"
  have l: "length uc = length ul" "length ud = length ur" "\<forall>c \<in> set (uc @ ud). shape 4 d c" "ctx_shape (Suc d) K" "least K \<le> ?m"
    using Cons.prems(1) by (auto simp: F)
  have "4 * (1 + length (ctx_addrs K) + need K ?m) \<le> ?m + length (ctx_left K @ ctx_right K) + 4"
    using l(4,5) by (intro Cons.IH) auto
  moreover have "4 * length (concat (map addrs (uc @ ud))) \<le> length (concat (map inorder (uc @ ud)))"
    using l(3) by (rule forest_count)
  ultimately show ?case using Cons.prems(3) by (auto simp: F length_weave)
qed simp

lemma tree_count: "shape 1 d t \<Longrightarrow> 4 * length (addrs t) \<le> length (inorder t) + 3"
proof (cases t)
  case (Node a ks cs)
  assume s: "shape 1 d t"
  then have "4 * length (concat (map addrs cs)) \<le> length (concat (map inorder cs))"
    by (intro forest_count [of _ "d - 1"]) (cases d, auto simp: Node)
  moreover have "1 \<le> length ks" using s by (cases d) (auto simp: Node)
  ultimately show ?thesis by (simp add: Node length_weave)
qed

lemma plug_shape: "shape 1 d (plug K t) \<Longrightarrow> ctx_wf K \<Longrightarrow> \<exists>d'. ctx_shape d' K \<and> shape (least K) d' t"
proof (induction K arbitrary: t)
  case (Cons F K)
  obtain u ul uc ur ud where F: "F = Frame u ul uc ur ud" by (cases F)
  obtain d' where d': "ctx_shape d' K" "shape (least K) d' (Node u (ul @ ur) (uc @ t # ud))"
    using Cons.IH [of "Node u (ul @ ur) (uc @ t # ud)"] Cons.prems by (auto simp: F)
  then obtain e where e: "d' = Suc e" by (cases d') auto
  show ?case using Cons.prems(2) d' by (intro exI [of _ e]) (auto simp: F e)
qed auto

section \<open>The invariant\<close>

definition ents :: "('h, 'p) bt option \<Rightarrow> ('p \<times> 'h) list" where
  "ents T = (case T of None \<Rightarrow> [] | Some t \<Rightarrow> inorder t)"

definition taddrs :: "('h, 'p) bt option \<Rightarrow> nat list" where
  "taddrs T = (case T of None \<Rightarrow> [] | Some t \<Rightarrow> addrs t)"

definition tree_ok :: "('h, 'p::linorder, 't) btree_set \<Rightarrow> ('h, 'p) bt option \<Rightarrow> bool" where
  "tree_ok s T \<longleftrightarrow> root_sept s = map_option baddr T \<and> left_sept s = map_option leftaddr T \<and>
     (\<forall>t. T = Some t \<longrightarrow> bt_repr s None t \<and> (\<exists>d. shape 1 d t)) \<and>
     sorted_wrt klt (ents T) \<and> distinct (map snd (ents T))"

definition mem_ok :: "('h, 'p, 't) btree_set \<Rightarrow> nat list \<Rightarrow> nat list \<Rightarrow> bool" where
  "mem_ok s xs res \<longleftrightarrow> res_list s (sn_reserve s) res \<and> distinct (xs @ res) \<and> live s = set (xs @ res) \<and>
     num_septs s = length (xs @ res)"

definition counts_ok :: "('h, 'p, 't) btree_set \<Rightarrow> bool" where
  "counts_ok s \<longleftrightarrow> num_septs_needed s = (num_alloced s + 3) div 4 \<and> next_sept s = 1 + 4 * num_septs_needed s \<and>
     num_septs_needed s \<le> num_septs s \<and> num_septs s \<le> num_septs_needed s + 1 \<and> num_alloced s < 2 ^ 31"

text \<open>The set with the allocated handles \<open>A\<close> maps keys to handles by \<open>m\<close>.\<close>

definition bset_inv :: "('h, 'p::linorder, 't) btree_set \<Rightarrow> 'h set \<Rightarrow> ('p \<Rightarrow> 'h option) \<Rightarrow> bool" where
  "bset_inv s A m \<longleftrightarrow> (\<exists>T res. tree_ok s T \<and> mem_ok s (taddrs T) res \<and> m = map_of (ents T) \<and> hnds (ents T) \<subseteq> A) \<and>
     counts_ok s \<and> finite A \<and> card A = num_alloced s"

lemma ents_simps [simp]: "ents None = []" "ents (Some t) = inorder t" "taddrs None = []" "taddrs (Some t) = addrs t"
  by (simp_all add: ents_def taddrs_def)

lemma bset_inv_new: "bset_inv (bset_new garbage d) {} Map.empty"
  unfolding bset_inv_def by (auto intro!: exI [of _ None] exI [of _ "[]"] simp: bset_new_def tree_ok_def mem_ok_def counts_ok_def)

text \<open>A sorted list of entries as a map.\<close>

lemma sorted_distinct: "sorted_wrt klt es \<Longrightarrow> distinct (map fst es)"
  by (induction es) auto

lemma map_of_insert:
  assumes "sorted_wrt klt (xs @ (p, h) # ys)"
  shows "map_of (xs @ (p, h) # ys) = (map_of (xs @ ys))(p \<mapsto> h)"
proof -
  have "distinct (map fst (xs @ (p, h) # ys))" using assms by (rule sorted_distinct)
  then have "map_of xs p = None" by (auto simp: map_of_eq_None_iff)
  then show ?thesis by (auto simp: fun_eq_iff map_add_def split: option.split)
qed

lemma ran_ents: "sorted_wrt klt es \<Longrightarrow> ran (map_of es) = hnds es" "dom (map_of es) = keys es"
  by (simp_all add: ran_distinct sorted_distinct dom_map_of_conv_image_fst)

text \<open>The number of nodes is at most what the counters provide for.\<close>

lemma size_ents: "tree_ok s T \<Longrightarrow> hnds (ents T) \<subseteq> A \<Longrightarrow> finite A \<Longrightarrow> length (ents T) \<le> card A"
  using card_mono [of A "hnds (ents T)"] distinct_card [of "map snd (ents T)"] by (simp add: tree_ok_def)

lemma nodes_bound: "tree_ok s T \<Longrightarrow> 4 * length (taddrs T) \<le> length (ents T) + 3"
  using tree_count by (cases T) (auto simp: tree_ok_def)

section \<open>Search and slots\<close>

lemma find_inv: "bset_inv s A m \<Longrightarrow> bset_find p s = Some (m p)"
proof -
  assume "bset_inv s A m"
  then obtain T res where T: "tree_ok s T" "m = map_of (ents T)" "mem_ok s (taddrs T) res" by (auto simp: bset_inv_def)
  show ?thesis
  proof (cases T)
    case None
    then show ?thesis using T by (simp add: bset_find_def tree_ok_def find_from.simps [of s p None])
  next
    case (Some t)
    then show ?thesis using T find_from_ok [of s None t] by (auto simp: bset_find_def tree_ok_def mem_ok_def)
  qed
qed

lemma empty_inv: "bset_inv s A m \<Longrightarrow> bset_empty s \<longleftrightarrow> m = Map.empty"
proof -
  assume "bset_inv s A m"
  then obtain T where T: "tree_ok s T" "m = map_of (ents T)" by (auto simp: bset_inv_def)
  have "ents T \<noteq> []" if "T = Some t" for t
    using T(1) that tree_count [of _ t] by (cases t) (auto simp: tree_ok_def)
  then show ?thesis using T by (cases T) (auto simp: tree_ok_def bset_empty_def)
qed

text \<open>A change of the counters, the reserve and the data.\<close>

lemma tree_ok_cong:
  assumes "tree_ok s T" "\<forall>x \<in> set (taddrs T). septs s' x = septs s x" "h_parent s' = h_parent s" "root_sept s' = root_sept s"
    and "left_sept s' = left_sept s"
  shows "tree_ok s' T"
proof (cases T)
  case (Some t)
  have "bt_repr s' None t = bt_repr s None t" using assms(2,3) by (intro bt_repr_cong) (auto simp: Some)
  then show ?thesis using assms by (simp add: tree_ok_def Some)
qed (use assms in \<open>simp add: tree_ok_def\<close>)

lemma release_sept_ok:
  assumes "res_list s (sn_reserve s) res" "a \<notin> set res"
  shows "res_list (release_sept a s) (sn_reserve (release_sept a s)) (a # res)" "h_parent (release_sept a s) = h_parent s"
    "septs (release_sept a s) = (septs s)(a := (septs s a)\<lparr>s_parent := sn_reserve s\<rparr>)" "live (release_sept a s) = live s"
    "root_sept (release_sept a s) = root_sept s" "left_sept (release_sept a s) = left_sept s" "num_septs (release_sept a s) = num_septs s"
    "num_alloced (release_sept a s) = num_alloced s" "num_septs_needed (release_sept a s) = num_septs_needed s"
    "next_sept (release_sept a s) = next_sept s" "h_data (release_sept a s) = h_data s"
proof -
  have "res_list (release_sept a s) (sn_reserve s) res = res_list s (sn_reserve s) res"
    using assms(2) by (intro res_list_cong) (auto simp: release_sept_def)
  then show "res_list (release_sept a s) (sn_reserve (release_sept a s)) (a # res)" using assms(1) by (simp add: release_sept_def)
qed (simp_all add: release_sept_def set_parent_def upn_def)

text \<open>The counters after one more or one less slot.\<close>

lemma slot_added:
  assumes "counts_ok s" "num_alloced s + 1 < 2 ^ 31"
  shows "(num_alloced s + 1 = next_sept s \<longrightarrow> (num_alloced s + 4) div 4 = num_septs_needed s + 1) \<and>
    (num_alloced s + 1 \<noteq> next_sept s \<longrightarrow> (num_alloced s + 4) div 4 = num_septs_needed s)"
  using assms by (auto simp: counts_ok_def)

lemma ok_cong:
  assumes "septs s' = septs s" "h_parent s' = h_parent s" "root_sept s' = root_sept s" "left_sept s' = left_sept s"
    and "sn_reserve s' = sn_reserve s" "live s' = live s" "num_septs s' = num_septs s" "tree_ok s T" "mem_ok s (taddrs T) res"
  shows "tree_ok s' T" "mem_ok s' (taddrs T) res"
proof -
  show "tree_ok s' T" using assms by (intro tree_ok_cong [OF assms(8)]) simp_all
  have "res_list s' (sn_reserve s') res = res_list s (sn_reserve s') res" using assms(1) by (intro res_list_cong) simp
  then show "mem_ok s' (taddrs T) res" using assms by (simp add: mem_ok_def)
qed

lemma alloc_slot_inv:
  assumes i: "tree_ok s T" "mem_ok s (taddrs T) res" "counts_ok s" and c: "num_alloced s + 1 < 2 ^ 31"
    and na: "\<And>X a. new_at X = Some a \<Longrightarrow> a \<notin> X"
  shows "(alloc_slot new_at s = (Some Bad_alloc, s) \<and> new_at (live s) = None) \<or>
    (\<exists>s' res'. alloc_slot new_at s = (None, s') \<and> tree_ok s' T \<and> mem_ok s' (taddrs T) res' \<and> counts_ok s' \<and>
       num_alloced s' = num_alloced s + 1 \<and> h_data s' = h_data s \<and> h_parent s' = h_parent s)"
proof -
  note co = i(3) [unfolded counts_ok_def]
  note ad = slot_added [OF i(3) c]
  have u: "num_septs_needed s + 1 < 2 ^ 32" "num_septs s + 1 < 2 ^ 32" "next_sept s + 4 < 2 ^ 32" using co by auto
  consider "num_alloced s + 1 \<noteq> next_sept s" | "num_alloced s + 1 = next_sept s" "num_septs_needed s + 1 \<le> num_septs s"
    | "num_alloced s + 1 = next_sept s" "num_septs s = num_septs_needed s" using co by linarith
  then show ?thesis
  proof cases
    case 1
    let ?s = "s\<lparr>num_alloced := num_alloced s + 1\<rparr>"
    have "alloc_slot new_at s = (None, ?s)" using 1 c by (simp add: alloc_slot_def)
    moreover have "tree_ok ?s T" "mem_ok ?s (taddrs T) res" by (rule ok_cong [OF _ _ _ _ _ _ _ i(1,2)]; simp)+
    moreover have "counts_ok ?s" using 1 ad co c by (simp add: counts_ok_def)
    ultimately show ?thesis by (intro disjI2 exI [of _ ?s] exI [of _ res]) simp
  next
    case 2
    let ?s = "s\<lparr>num_alloced := num_alloced s + 1, num_septs_needed := num_septs_needed s + 1, next_sept := next_sept s + 4\<rparr>"
    have "alloc_slot new_at s = (None, ?s)" using 2 c u by (simp add: alloc_slot_def Let_def u32_def N_def)
    moreover have "tree_ok ?s T" "mem_ok ?s (taddrs T) res" by (rule ok_cong [OF _ _ _ _ _ _ _ i(1,2)]; simp)+
    moreover have "counts_ok ?s" using 2 ad co c by (simp add: counts_ok_def)
    ultimately show ?thesis by (intro disjI2 exI [of _ ?s] exI [of _ res]) simp
  next
    case 3
    show ?thesis
    proof (cases "new_at (live s)")
      case None
      have "alloc_slot new_at s = (Some Bad_alloc, undo_slot (s\<lparr>num_alloced := num_alloced s + 1, num_septs_needed := num_septs_needed s + 1\<rparr>))"
        using None 3 c u by (simp add: alloc_slot_def Let_def u32_def N_def new_reserve_def)
      then show ?thesis using None u by (simp add: undo_slot_def size_dec_def u32_def)
    next
      case (Some a)
      let ?t = "s\<lparr>num_alloced := num_alloced s + 1, num_septs_needed := num_septs_needed s + 1, live := insert a (live s),
        num_septs := num_septs s + 1\<rparr>"
      let ?s = "(release_sept a ?t)\<lparr>next_sept := next_sept s + 4\<rparr>"
      have a: "a \<notin> set (taddrs T)" "a \<notin> set res" using na [OF Some] i(2) by (auto simp: mem_ok_def)
      have "res_list ?t (sn_reserve ?t) res = res_list s (sn_reserve s) res" by (simp, rule res_list_cong) simp
      then have r: "res_list ?t (sn_reserve ?t) res" using i(2) by (simp add: mem_ok_def)
      note rel = release_sept_ok [OF r a(2)]
      have "res_list ?s (sn_reserve ?s) (a # res) = res_list (release_sept a ?t) (sn_reserve ?s) (a # res)" by (rule res_list_cong) simp
      then have "mem_ok ?s (taddrs T) (a # res)" using rel a i(2) by (simp add: mem_ok_def)
      moreover have "tree_ok ?s T" using rel a i(1) by (intro tree_ok_cong [OF i(1)]) auto
      moreover have "alloc_slot new_at s = (None, ?s)"
        using 3 c u Some rel by (simp add: alloc_slot_def Let_def u32_def N_def new_reserve_def)
      moreover have "counts_ok ?s" using 3 ad co c rel(7-9) by (simp add: counts_ok_def add.commute)
      ultimately show ?thesis using rel by (intro disjI2 exI [of _ ?s] exI [of _ "a # res"]) simp
    qed
  qed
qed

lemma allocate_inv:
  assumes i: "bset_inv s A m" and h: "h \<notin> A" and c: "card A + 1 < 2 ^ 31"
    and na: "\<And>X a. new_at X = Some a \<Longrightarrow> a \<notin> X"
  shows "(bset_allocate new_at h d s = (Some Bad_alloc, s) \<and> new_at (live s) = None) \<or>
    (\<exists>s'. bset_allocate new_at h d s = (None, s') \<and> bset_inv s' (insert h A) m \<and> h_data s' = (h_data s)(h := d) \<and>
       h_parent s' = h_parent s)"
proof -
  obtain T res where T: "tree_ok s T" "mem_ok s (taddrs T) res" "m = map_of (ents T)" "hnds (ents T) \<subseteq> A"
    and o: "counts_ok s" "finite A" "card A = num_alloced s" using i by (auto simp: bset_inv_def)
  have "num_alloced s + 1 < 2 ^ 31" using c o(3) by simp
  then have "(alloc_slot new_at s = (Some Bad_alloc, s) \<and> new_at (live s) = None) \<or>
    (\<exists>s' res'. alloc_slot new_at s = (None, s') \<and> tree_ok s' T \<and> mem_ok s' (taddrs T) res' \<and> counts_ok s' \<and>
       num_alloced s' = num_alloced s + 1 \<and> h_data s' = h_data s \<and> h_parent s' = h_parent s)"
    by (rule alloc_slot_inv [OF T(1,2) o(1)]) (rule na)
  then show ?thesis
  proof (elim disjE exE conjE, goal_cases)
    case (2 s' res')
    let ?s = "s'\<lparr>h_data := (h_data s')(h := d)\<rparr>"
    have "tree_ok ?s T" "mem_ok ?s (taddrs T) res'" by (rule ok_cong [OF _ _ _ _ _ _ _ 2(2,3)]; simp)+
    moreover have "counts_ok ?s" using 2(4) by (simp add: counts_ok_def)
    ultimately have "bset_inv ?s (insert h A) m" using T(3,4) o h 2(5) unfolding bset_inv_def by auto
    then show ?thesis using 2 by (auto simp: bset_allocate_def)
  qed (simp_all add: bset_allocate_def)
qed

lemma slot_removed:
  assumes "counts_ok s" "0 < num_alloced s"
  shows "if num_alloced s - 1 < next_sept s - 4 then (num_alloced s + 2) div 4 = num_septs_needed s - 1 \<and> 5 \<le> next_sept s
    else (num_alloced s + 2) div 4 = num_septs_needed s"
proof -
  have e: "num_septs_needed s = (num_alloced s + 3) div 4" "next_sept s = 1 + 4 * ((num_alloced s + 3) div 4)"
    using assms(1) by (auto simp: counts_ok_def)
  define q r where "q = (num_alloced s + 2) div 4" and "r = (num_alloced s + 2) mod 4"
  have n: "num_alloced s + 2 = 4 * q + r" "r < 4" by (simp_all add: q_def r_def)
  have n3: "num_alloced s + 3 = (r + 1) + 4 * q" using n by simp
  have "(num_alloced s + 3) div 4 = q + (r + 1) div 4" unfolding n3 by (rule div_mult_self2) simp
  also have "(r + 1) div 4 = (if r = 3 then 1 else 0)" using n(2) by auto
  finally have "(num_alloced s + 3) div 4 = (if r = 3 then q + 1 else q)" by simp
  then show ?thesis unfolding e q_def [symmetric] using n assms(2) by (cases "r = 3") auto
qed

lemma counts_bounds:
  assumes "counts_ok s" "0 < num_alloced s"
  shows "4 \<le> next_sept s" "next_sept s < 2 ^ 32" "1 \<le> num_septs_needed s" "num_septs_needed s < 2 ^ 32"
    "1 \<le> num_septs s" "num_septs s < 2 ^ 32"
proof -
  have c: "next_sept s = 1 + 4 * num_septs_needed s" "num_septs s \<le> num_septs_needed s + 1" "num_septs_needed s \<le> num_septs s"
      "num_alloced s < 2 ^ 31" "num_septs_needed s = (num_alloced s + 3) div 4" using assms(1) unfolding counts_ok_def by blast+
  have "4 * num_septs_needed s \<le> num_alloced s + 3" unfolding c(5) by simp
  moreover show "1 \<le> num_septs_needed s" using assms(2) unfolding c(5) by simp
  ultimately show "4 \<le> next_sept s" "next_sept s < 2 ^ 32" "num_septs_needed s < 2 ^ 32" "1 \<le> num_septs s" "num_septs s < 2 ^ 32"
    using c(1-4) by auto
qed

lemma u32_sub: "k \<le> n \<Longrightarrow> n < 2 ^ 32 \<Longrightarrow> u32 (n + 2 ^ 32 - k) = n - k"
proof -
  assume "k \<le> n" "n < 2 ^ 32"
  then have "n + 2 ^ 32 - k = (n - k) + 2 ^ 32" "n - k < 2 ^ 32" by simp_all
  then show ?thesis unfolding u32_def by (simp only: mod_add_self2 mod_less)
qed

lemma deallocate_inv:
  assumes i: "bset_inv s A m" and h: "h \<in> A" "h \<notin> ran m"
  shows "\<exists>s'. bset_deallocate h s = Some s' \<and> bset_inv s' (A - {h}) m \<and> h_data s' = h_data s \<and> h_parent s' = h_parent s"
proof -
  obtain T res where T: "tree_ok s T" "mem_ok s (taddrs T) res" "m = map_of (ents T)" "hnds (ents T) \<subseteq> A"
    and o: "counts_ok s" "finite A" "card A = num_alloced s" using i by (auto simp: bset_inv_def)
  have "hnds (ents T) = ran m" using T(1,3) ran_ents(1) by (auto simp: tree_ok_def)
  then have hT: "hnds (ents T) \<subseteq> A - {h}" using T(4) h(2) by auto
  have cA: "card (A - {h}) = num_alloced s - 1" "0 < num_alloced s" using o(2,3) h(1) card_gt_0_iff [of A] by auto
  note co = o(1) [unfolded counts_ok_def] and rm = slot_removed [OF o(1) cA(2)]
  note bd = counts_bounds [OF o(1) cA(2)]
  have lt: "num_alloced s - 1 < 2 ^ 31" using co by (meson diff_le_self le_less_trans)
  have u: "u32 (next_sept s + 2 ^ 32 - 4) = next_sept s - 4"
    "u32 (num_septs_needed s + 2 ^ 32 - 1) = num_septs_needed s - 1" "u32 (num_septs s + 2 ^ 32 - 1) = num_septs s - 1"
    using bd by (intro u32_sub; simp)+
  have fin: "bset_inv s' (A - {h}) m" if "tree_ok s' T" "mem_ok s' (taddrs T) res'" "counts_ok s'" "num_alloced s' = num_alloced s - 1"
    for s' :: "('a, 'b, 'c) btree_set" and res'
    using that hT T(3) cA o(2) unfolding bset_inv_def by auto
  have eq: "bset_deallocate h s =
      (let s = s\<lparr>num_alloced := num_alloced s - 1\<rparr> in
       if num_alloced s < next_sept s - 4 then
         let s = s\<lparr>next_sept := next_sept s - 4, num_septs_needed := num_septs_needed s - 1\<rparr> in
         if num_septs_needed s < num_septs s - 1 then
           (case sn_reserve s of None \<Rightarrow> None
            | Some r \<Rightarrow> if r \<notin> live s then None
                else Some (s\<lparr>sn_reserve := s_parent (septs s r), live := live s - {r}, num_septs := num_septs s - 1\<rparr>))
         else Some s
       else Some s)"
    using cA(2) u by (simp add: bset_deallocate_def Let_def N_def split: option.split)
  consider "\<not> num_alloced s - 1 < next_sept s - 4" | "num_alloced s - 1 < next_sept s - 4" "num_septs s = num_septs_needed s"
    | "num_alloced s - 1 < next_sept s - 4" "num_septs s = num_septs_needed s + 1" using co by linarith
  then show ?thesis
  proof cases
    case 1
    let ?s = "s\<lparr>num_alloced := num_alloced s - 1\<rparr>"
    have "tree_ok ?s T" "mem_ok ?s (taddrs T) res" by (rule ok_cong [OF _ _ _ _ _ _ _ T(1,2)]; simp)+
    moreover have "counts_ok ?s" using 1 rm co cA(2) lt by (auto simp: counts_ok_def)
    ultimately show ?thesis using fin [of ?s res] 1 by (simp add: eq Let_def)
  next
    case 2
    let ?s = "s\<lparr>num_alloced := num_alloced s - 1, next_sept := next_sept s - 4, num_septs_needed := num_septs_needed s - 1\<rparr>"
    have "tree_ok ?s T" "mem_ok ?s (taddrs T) res" by (rule ok_cong [OF _ _ _ _ _ _ _ T(1,2)]; simp)+
    moreover have "counts_ok ?s" using 2 rm co cA(2) lt by (auto simp: counts_ok_def)
    ultimately show ?thesis using fin [of ?s res] 2 by (simp add: eq Let_def)
  next
    case 3
    have "length (ents T) \<le> num_alloced s - 1" using size_ents [OF T(1) hT] o(2) cA by simp
    then have "length (taddrs T) < num_septs s" using nodes_bound [OF T(1)] rm 3 co cA(2) by simp
    then obtain r res' where res: "res = r # res'" using T(2) by (cases res) (auto simp: mem_ok_def)
    note mo = T(2) [unfolded mem_ok_def res]
    let ?s = "s\<lparr>num_alloced := num_alloced s - 1, next_sept := next_sept s - 4, num_septs_needed := num_septs_needed s - 1,
      sn_reserve := s_parent (septs s r), live := live s - {r}, num_septs := num_septs s - 1\<rparr>"
    have "tree_ok ?s T" by (rule tree_ok_cong [OF T(1)]) simp_all
    moreover have "res_list ?s (sn_reserve ?s) res' = res_list s (sn_reserve ?s) res'" by (rule res_list_cong) simp
    then have "mem_ok ?s (taddrs T) res'" using mo by (auto simp: mem_ok_def)
    moreover have "counts_ok ?s" using 3 rm co cA(2) lt by (auto simp: counts_ok_def)
    moreover have "bset_deallocate h s = Some ?s" using 3 mo co by (simp add: eq Let_def)
    ultimately show ?thesis using fin [of ?s res'] by simp
  qed
qed

section \<open>Insertion\<close>

text \<open>The leaf the search ends at, when the key is not in it, is ready for the loop.\<close>

lemma ready_at_leaf:
  assumes "bt_repr s None (plug K (Node a (lk @ rk) []))" "ctx_shape 0 K" "least K \<le> Suc (length (lk @ rk))"
    and "sorted_wrt klt (ctx_left K @ (lk @ (p, h) # rk) @ ctx_right K)"
    and "distinct (map snd (ctx_left K @ (lk @ (p, h) # rk) @ ctx_right K))"
    and "root_sept s = Some (baddr (plug K (Node a (lk @ rk) [])))" "res_list s (sn_reserve s) res"
    and "distinct (addrs (plug K (Node a (lk @ rk) [])) @ res)"
  shows "ins_ready s K a lk rk p h [] None None None 0 res"
proof -
  have n: "node_at s a (ctx_parent K) (lk @ rk) (replicate (Suc (length (lk @ rk))) None)" "ctx_repr s a K"
    using assms(1) by (simp_all add: bt_repr_plug ptrs_def)
  have "mset (addrs (plug K (Node a (lk @ rk) [])) @ res) = mset (a # ctx_addrs K @ res)" by (simp add: mset_addrs_plug)
  then have di: "distinct (a # ctx_addrs K @ res)" using assms(8) mset_eq_imp_distinct_iff by blast
  have re: "replicate (Suc (length (lk @ rk))) None = replicate (length lk) None @ None # replicate (length rk) (None :: nat option)"
    by (simp add: replicate_add replicate_app_Cons_same)
  have "ptrs (lk @ (p, h) # rk) [] = replicate (length lk) None @ None # None # replicate (length rk) None"
    by (simp add: ptrs_def replicate_add replicate_app_Cons_same)
  then have "\<exists>lp rp. node_at s a (ctx_parent K) (lk @ rk) (lp @ None # rp) \<and> length lp = length lk \<and> length rp = length rk \<and>
      ptrs (lk @ (p, h) # rk) [] = lp @ None # None # rp"
    using n(1) unfolding re by (intro exI [of _ "replicate (length lk) None"] exI [of _ "replicate (length rk) None"]) simp
  then show ?thesis using assms di n(2) unfolding ins_ready_def by (auto simp: kids_ok_def baddr_plug)
qed

text \<open>The search of the leaf.\<close>

lemma leaf_search:
  assumes "node_at s a par (lk @ rk) ps" "below p lk" "beyond p rk"
  shows "bsearch (\<lambda>i. p < s_prio (septs s a) i) (\<lambda>i. s_prio (septs s a) i = p) 0 (int (length (lk @ rk)) - 1) =
    Some (int (length lk) - 1)"
  using node_prio [OF assms] by (intro bsearch_absent) auto

lemma leaf_search_present:
  assumes "node_at s a par (lk @ x # rk) ps" "below (fst x) lk" "beyond (fst x) rk"
  shows "bsearch (\<lambda>i. fst x < s_prio (septs s a) i) (\<lambda>i. s_prio (septs s a) i = fst x) 0 (int (length (lk @ x # rk)) - 1) = None"
  using node_prio_present [OF assms] by (intro bsearch_present [where j = "length lk"]) auto

lemma insert_at_leaf_ok:
  assumes r: "ins_ready s K a lk rk p h [] None None None 0 res" and n: "need K (length (lk @ rk)) \<le> length res" "length (lk @ rk) \<le> 8"
  shows "\<exists>s' t res'. insert_at_leaf h p a s = Some (True, s') \<and>
    ins_result s s' t (ctx_left K @ (lk @ (p, h) # rk) @ ctx_right K) (leftaddr (plug K (Node a (lk @ (p, h) # rk) [])))
      (a # ctx_addrs K @ res) res'"
proof -
  note rv = ins_readyD [OF r]
  obtain ps where nd: "node_at s a (ctx_parent K) (lk @ rk) ps" using rv by blast
  have "sorted_wrt klt (lk @ (p, h) # rk)" using rv by (simp add: sorted_wrt_append)
  then have p: "below p lk" "beyond p rk" by (auto simp: sorted_wrt_append)
  from ins_tree [OF r n] obtain a' n' p' h' ld' rd' s1 t res' where
    e: "split_loop a (length (lk @ rk)) p h None None s = Some (a', n', p', h', ld', rd', s1)"
    "ins_result s (insert_nonfull a' n' p' h' ld' rd' s1) t (ctx_left K @ (lk @ (p, h) # rk) @ ctx_right K)
      (leftaddr (plug K (Node a (lk @ (p, h) # rk) []))) (a # ctx_addrs K @ res) res'" by auto
  have "insert_at_leaf h p a s = Some (True, insert_nonfull a' n' p' h' ld' rd' s1)"
    using leaf_search [OF nd p] e(1) by (simp add: insert_at_leaf_def num_vals_node [OF nd] Let_def del: length_append)
  with e(2) show ?thesis by blast
qed

text \<open>The invariant after an insertion.\<close>

lemma ins_result_inv:
  assumes r: "ins_result s s' t ios lft (xs @ ys) res" and so: "sorted_wrt klt ios" "distinct (map snd ios)" "left_sept s = Some lft"
    and me: "distinct (xs @ ys)" "live s = set (xs @ ys)" "num_septs s = length (xs @ ys)"
  shows "tree_ok s' (Some t)" "mem_ok s' (addrs t) res" "inorder t = ios" "h_data s' = h_data s" "num_alloced s' = num_alloced s"
    "counts_ok s' = counts_ok s"
proof -
  note rv = r [unfolded ins_result_def same_hdr_def]
  show "tree_ok s' (Some t)" using rv so by (simp add: tree_ok_def)
  have m: "mset (addrs t @ res) = mset (xs @ ys)" using rv by blast
  then have "distinct (addrs t @ res)" "set (addrs t @ res) = set (xs @ ys)" "length (addrs t @ res) = length (xs @ ys)"
    using me(1) mset_eq_imp_distinct_iff mset_eq_setD mset_eq_length by blast+
  then show "mem_ok s' (addrs t) res" using rv me unfolding mem_ok_def by simp
  show "inorder t = ios" "h_data s' = h_data s" "num_alloced s' = num_alloced s" "counts_ok s' = counts_ok s"
    using rv by (simp_all add: counts_ok_def)
qed

lemma handle_parent: "bt_repr s par t \<Longrightarrow> h \<in> thnds t \<Longrightarrow> \<exists>a \<in> set (addrs t). h_parent s h = Some a"
proof (induction t arbitrary: par)
  case (Node a ks cs)
  then show ?case by (auto simp: node_at_def) blast
qed

lemma queued_inv: "bset_inv s A m \<Longrightarrow> h \<in> ran m \<Longrightarrow> bset_is_queued h s"
proof -
  assume "bset_inv s A m" "h \<in> ran m"
  then obtain T where T: "tree_ok s T" "h \<in> ran (map_of (ents T))" by (auto simp: bset_inv_def)
  then have "h \<in> hnds (ents T)" using ran_ents(1) [of "ents T"] by (simp add: tree_ok_def)
  then obtain t d where t: "T = Some t" "h \<in> hnds (inorder t)" "bt_repr s None t" "shape 1 d t"
    using T(1) by (cases T) (auto simp: tree_ok_def)
  then show ?thesis using handle_parent [OF t(3), of h] thnds_inorder [OF t(4)] by (auto simp: bset_is_queued_def)
qed

text \<open>The result of an insertion that found its leaf.\<close>

lemma insert_inv_leaf:
  assumes r: "ins_ready s K a lk rk p h [] None None None 0 res" and n: "length (lk @ rk) \<le> 8" "4 \<le> length (lk @ rk) \<or> K = []"
    and ls: "left_sept s = Some (leftaddr (plug K (Node a ks [])))" and me: "live s = set (a # ctx_addrs K @ res)" "num_septs s = length (a # ctx_addrs K @ res)"
    and co: "counts_ok s" "length (ctx_left K @ (lk @ rk) @ ctx_right K) < num_alloced s" and A: "finite A" "card A = num_alloced s"
    and hA: "hnds (ctx_left K @ (lk @ (p, h) # rk) @ ctx_right K) \<subseteq> A"
  shows "\<exists>s'. insert_at_leaf h p a s = Some (True, s') \<and>
    bset_inv s' A ((map_of (ctx_left K @ (lk @ rk) @ ctx_right K))(p \<mapsto> h)) \<and> h_data s' = h_data s \<and>
    (\<forall>y. y \<notin> hnds (ctx_left K @ (lk @ (p, h) # rk) @ ctx_right K) \<longrightarrow> h_parent s' y = h_parent s y)"
proof -
  note rv = r [unfolded ins_ready_def]
  let ?es = "ctx_left K @ (lk @ (p, h) # rk) @ ctx_right K"
  have so: "sorted_wrt klt ?es" "distinct (map snd ?es)" "distinct (a # ctx_addrs K @ res)" "ctx_shape 0 K" using rv by simp_all
  have "4 * (1 + length (ctx_addrs K) + need K (length (lk @ rk))) \<le> length (lk @ rk) + length (ctx_left K @ ctx_right K) + 4"
    using n by (intro ctx_count [OF so(4)]) auto
  then have "need K (length (lk @ rk)) \<le> length res" using me(2) co by (auto simp: counts_ok_def)
  from insert_at_leaf_ok [OF r this n(1)] obtain s' t res' where e: "insert_at_leaf h p a s = Some (True, s')"
    "ins_result s s' t ?es (leftaddr (plug K (Node a (lk @ (p, h) # rk) []))) ((a # ctx_addrs K) @ res) res'" by auto
  have "left_sept s = Some (leftaddr (plug K (Node a (lk @ (p, h) # rk) [])))"
    using ls leftaddr_plug_cong [of "Node a ks []" "Node a (lk @ (p, h) # rk) []"] by simp
  note i = ins_result_inv [OF e(2) so(1,2) this, simplified append_Cons, OF so(3) me]
  have "map_of ?es = (map_of (ctx_left K @ (lk @ rk) @ ctx_right K))(p \<mapsto> h)"
    using map_of_insert [of "ctx_left K @ lk" p h "rk @ ctx_right K"] so(1) by simp
  then have "bset_inv s' A ((map_of (ctx_left K @ (lk @ rk) @ ctx_right K))(p \<mapsto> h))"
    unfolding bset_inv_def using i co(1) A hA by (intro conjI exI [of _ "Some t"] exI [of _ res']) simp_all
  then show ?thesis using e(1) i(4) e(2) [unfolded ins_result_def] by blast
qed

text \<open>The first value: the root is taken from the reserve.\<close>

lemma insert_inv_first:
  assumes T: "tree_ok s None" "mem_ok s [] res" and o: "counts_ok s" "finite A" "card A = num_alloced s" and h: "h \<in> A"
  shows "\<exists>s'. bset_insert h p s = Some (True, s') \<and> bset_inv s' A [p \<mapsto> h] \<and> h_data s' = h_data s \<and>
    (\<forall>y. y \<noteq> h \<longrightarrow> h_parent s' y = h_parent s y)"
proof -
  have a: "0 < num_alloced s" using o(2,3) h card_gt_0_iff [of A] by auto
  then obtain r res' where res: "res = r # res'"
    using T(2) counts_bounds [OF o(1) a] by (cases res) (auto simp: mem_ok_def)
  have mo: "res_list s (sn_reserve s) (r # res')" "distinct (r # res')" "live s = set (r # res')" "num_septs s = length (r # res')"
    using T(2) by (simp_all add: mem_ok_def res)
  obtain s1 where s1: "alloc_sept s = Some (r, s1)" "res_list s1 (sn_reserve s1) res'" "septs s1 r = sept_init (septs s r)"
      "h_parent s1 = h_parent s" "same_hdr s s1" using alloc_sept_ok [OF mo(1)] mo(2) by auto
  let ?s = "s1\<lparr>root_sept := Some r, left_sept := Some r\<rparr>"
  have rl: "res_list ?s (sn_reserve ?s) res' = res_list s1 (sn_reserve s1) res'" by (simp, rule res_list_cong) simp
  have nd: "node_at ?s r None [] [None]" using s1(3) by (simp add: node_at_def sept_init_def N_def)
  have "descend ?s p r = Some (Some r)"
    using s1(3) by (subst descend.simps) (simp add: Let_def is_leaf_def sept_init_def)
  then have eq: "bset_insert h p s = insert_at_leaf h p r ?s" using T(1) s1(1) by (simp add: bset_insert_def tree_ok_def)
  have "ins_ready ?s [] r [] [] p h [] None None None 0 res'"
    using nd s1(2) rl mo(2) by (intro ready_at_leaf) (simp_all add: ptrs_def)
  then have "\<exists>s'. insert_at_leaf h p r ?s = Some (True, s') \<and>
    bset_inv s' A ((map_of (ctx_left [] @ ([] @ []) @ ctx_right []))(p \<mapsto> h)) \<and> h_data s' = h_data ?s \<and>
    (\<forall>y. y \<notin> hnds (ctx_left ([] :: ('a, 'b) frame list) @ ([] @ (p, h) # []) @ ctx_right ([] :: ('a, 'b) frame list)) \<longrightarrow>
      h_parent s' y = h_parent ?s y)"
    by (rule insert_inv_leaf) (use s1(5) mo o a h in \<open>auto simp: same_hdr_def counts_ok_def\<close>)
  then show ?thesis using s1(4,5) unfolding eq by (simp add: same_hdr_def)
qed

text \<open>The search ends at a leaf without the key.\<close>

lemma insert_inv_absent:
  assumes T: "tree_ok s (Some t)" "mem_ok s (addrs t) res" "hnds (inorder t) \<subseteq> A" and o: "counts_ok s" "finite A" "card A = num_alloced s"
    and h: "h \<in> A" "h \<notin> hnds (inorder t)" and k: "t = plug K (Node a (lk @ rk) [])" "ctx_wf K"
    and p: "below p (ctx_left K @ lk)" "beyond p (rk @ ctx_right K)"
  shows "\<exists>s'. insert_at_leaf h p a s = Some (True, s') \<and> bset_inv s' A ((map_of (inorder t))(p \<mapsto> h)) \<and> h_data s' = h_data s \<and>
    (\<forall>y. y \<noteq> h \<and> y \<notin> hnds (inorder t) \<longrightarrow> h_parent s' y = h_parent s y)"
proof -
  have io: "inorder t = ctx_left K @ (lk @ rk) @ ctx_right K" using inorder_plug [OF k(2)] by (simp add: k(1))
  obtain d where t: "bt_repr s None t" "shape 1 d t" "root_sept s = Some (baddr t)" "left_sept s = Some (leftaddr t)"
      "sorted_wrt klt (inorder t)" "distinct (map snd (inorder t))" using T(1) by (auto simp: tree_ok_def)
  obtain d' where d': "ctx_shape d' K" "shape (least K) d' (Node a (lk @ rk) [])"
    using plug_shape [of d K "Node a (lk @ rk) []"] t(2) k by auto
  then have d0: "d' = 0" by (cases d') auto
  have n: "length (lk @ rk) \<le> 8" "least K \<le> length (lk @ rk)" using d'(2) by (simp_all add: d0)
  have fr: "sorted_wrt klt (ctx_left K @ (lk @ (p, h) # rk) @ ctx_right K)"
    using t(5) p by (auto simp: io sorted_wrt_append)
  have fd: "distinct (map snd (ctx_left K @ (lk @ (p, h) # rk) @ ctx_right K))"
    using t(6) h(2) by (auto simp: io)
  have me: "res_list s (sn_reserve s) res" "distinct (addrs t @ res)" "live s = set (addrs t @ res)" "num_septs s = length (addrs t @ res)"
    using T(2) by (simp_all add: mem_ok_def)
  have ms: "mset (addrs t @ res) = mset (a # ctx_addrs K @ res)" by (simp add: k(1) mset_addrs_plug)
  have me': "live s = set (a # ctx_addrs K @ res)" "num_septs s = length (a # ctx_addrs K @ res)"
    using me(3,4) mset_eq_setD [OF ms] mset_eq_length [OF ms] by simp_all
  have r: "ins_ready s K a lk rk p h [] None None None 0 res"
    using t(1,3) me(1,2) d' n(2) by (intro ready_at_leaf fr fd) (simp_all add: k(1) d0)
  have "card (insert h (hnds (inorder t))) \<le> card A" using o(2) T(3) h(1) by (intro card_mono) auto
  then have "length (inorder t) < num_alloced s" using h(2) o(3) distinct_card [OF t(6)] by simp
  then have sz: "length (ctx_left K @ (lk @ rk) @ ctx_right K) < num_alloced s" unfolding io .
  have hA: "hnds (ctx_left K @ (lk @ (p, h) # rk) @ ctx_right K) \<subseteq> A" using T(3) h(1) by (auto simp: io)
  have ls: "left_sept s = Some (leftaddr (plug K (Node a (lk @ rk) [])))" using t(4) by (simp add: k(1))
  have n2: "4 \<le> length (lk @ rk) \<or> K = []" using n(2) by (auto split: if_splits)
  from insert_inv_leaf [OF r n(1) n2 ls me' o(1) sz o(2,3) hA] show ?thesis unfolding io by (auto simp: image_Un)
qed

lemma insert_inv:
  assumes i: "bset_inv s A m" and h: "h \<in> A" "h \<notin> ran m"
  shows "if m p = None
    then \<exists>s'. bset_insert h p s = Some (True, s') \<and> bset_inv s' A (m(p \<mapsto> h)) \<and> h_data s' = h_data s \<and>
      (\<forall>y. y \<noteq> h \<and> y \<notin> ran m \<longrightarrow> h_parent s' y = h_parent s y)
    else bset_insert h p s = Some (False, s)"
proof -
  obtain T res where T: "tree_ok s T" "mem_ok s (taddrs T) res" "m = map_of (ents T)" "hnds (ents T) \<subseteq> A"
    and o: "counts_ok s" "finite A" "card A = num_alloced s" using i by (auto simp: bset_inv_def)
  have so: "sorted_wrt klt (ents T)" using T(1) by (simp add: tree_ok_def)
  have rm: "ran m = hnds (ents T)" "dom m = keys (ents T)" using ran_ents(1) [OF so] ran_ents(2) [of "ents T"] T(3) by auto
  show ?thesis
  proof (cases T)
    case None
    then show ?thesis using insert_inv_first [of s res A h p] T o h by simp
  next
    case (Some t)
    obtain d where t: "bt_repr s None t" "shape 1 d t" "root_sept s = Some (baddr t)"
      using T(1) by (auto simp: tree_ok_def Some)
    have st: "sorted_wrt klt (inorder t)" using so by (simp add: Some)
    have ins: "bset_insert h p s = Option.bind (descend s p (baddr t)) (\<lambda>l. case l of None \<Rightarrow> Some (False, s) | Some a \<Rightarrow> insert_at_leaf h p a s)"
      using t(3) by (simp add: bset_insert_def)
    from descend_ok [OF t(1,2) st, of p] show ?thesis
    proof (elim disjE exE conjE)
      assume "descend s p (baddr t) = Some None" "p \<in> keys (inorder t)"
      then show ?thesis using rm(2) by (auto simp: ins Some)
    next
      fix K a ks assume k: "descend s p (baddr t) = Some (Some a)" "t = plug K (Node a ks [])" "ctx_wf K"
        "below p (ctx_left K)" "beyond p (ctx_right K)"
      have io: "inorder t = ctx_left K @ ks @ ctx_right K" using inorder_plug [OF k(3)] by (simp add: k(2))
      have nd: "node_at s a (ctx_parent K) ks (ptrs ks [])" using t(1) by (simp add: k(2) bt_repr_plug)
      have "sorted_wrt klt ks" using st by (simp add: io sorted_wrt_append)
      from split_sorted [OF this, of p] show ?thesis
      proof (elim disjE exE conjE)
        fix lk x rk assume x: "ks = lk @ x # rk" "fst x = p" "below p lk" "beyond p rk"
        have "insert_at_leaf h p a s = Some (False, s)"
          using leaf_search_present [OF nd [unfolded x(1)]] x num_vals_node [OF nd] by (simp add: insert_at_leaf_def Let_def)
        moreover have "p \<in> dom m" using rm(2) x(1,2) by (auto simp: io Some)
        ultimately show ?thesis using k(1) by (auto simp: ins)
      next
        fix lk rk assume x: "ks = lk @ rk" "below p lk" "beyond p rk"
        have "p \<notin> dom m" using rm(2) x k(4,5) by (auto simp: io Some)
        then have mp: "m p = None" by auto
        have "\<exists>s'. insert_at_leaf h p a s = Some (True, s') \<and> bset_inv s' A ((map_of (inorder t))(p \<mapsto> h)) \<and> h_data s' = h_data s \<and>
            (\<forall>y. y \<noteq> h \<and> y \<notin> hnds (inorder t) \<longrightarrow> h_parent s' y = h_parent s y)"
          using T h rm(1) k x by (intro insert_inv_absent [OF _ _ _ o]) (auto simp: Some)
        then show ?thesis using mp k(1) T(3) rm(1) by (simp add: ins Some)
      qed
    qed
  qed
qed

end
