(* ===== verification/Btree_Merge.thy ===== *)
theory Btree_Merge
  imports Btree_Inv
begin

text \<open>
  The removal of \<open>btree_set\<close>, first part: the effect of its loops on the arrays of a node, and the three ways in which a
  node with too few values is filled up: merging with a sibling, and borrowing from the right or the left one.
\<close>

section \<open>Loops\<close>

text \<open>The elements from \<open>i\<close> to \<open>j\<close> move down by one.\<close>

definition del_shift :: "nat \<Rightarrow> nat \<Rightarrow> (nat \<Rightarrow> 'a) \<Rightarrow> nat \<Rightarrow> 'a" where
  "del_shift i j f k = (if i \<le> k \<and> k < j then f (Suc k) else f k)"

lemma del_shift_none [simp]: "del_shift i i f = f"
  by (auto simp: del_shift_def fun_eq_iff)

lemma del_shift_last: "i \<le> j \<Longrightarrow> (del_shift i j f)(j := f (Suc j)) = del_shift i (Suc j) f"
  by (auto simp: del_shift_def fun_eq_iff)

lemma del_shift_at: "del_shift i j f (Suc j) = f (Suc j)" "del_shift i j f j = f j"
  by (simp_all add: del_shift_def)

lemma del_shift_first: "i < j \<Longrightarrow> del_shift (Suc i) j (f(i := f (Suc i))) = del_shift i j f"
  by (auto simp: del_shift_def fun_eq_iff)

lemma drop_copies:
  fixes s :: "('h, 'p, 't) btree_set" and p :: nat
  assumes "i \<le> j"
  defines "t \<equiv> fold (drop_copy p) [i..<j] s"
  shows "s_hn (septs t p) = del_shift i j (s_hn (septs s p)) \<and> s_prio (septs t p) = del_shift i j (s_prio (septs s p)) \<and>
    s_ch (septs t p) = del_shift (Suc i) (Suc j) (s_ch (septs s p)) \<and> s_parent (septs t p) = s_parent (septs s p) \<and> only_node p s t"
  using assms(1) unfolding t_def
proof (induction j)
  case (Suc j)
  show ?case
  proof (cases "i = Suc j")
    case False
    then have i: "i \<le> j" using Suc.prems by simp
    show ?thesis using Suc.IH [OF i] i by (simp add: drop_copy_def Let_def del_shift_at del_shift_last)
  qed simp
qed simp

lemma shift_left_one:
  fixes s :: "('h, 'p, 't) btree_set" and p :: nat
  assumes "i \<le> j"
  defines "t \<equiv> fold (\<lambda>k. move_elem p (k - 1) k) [Suc i..<Suc j] s"
  shows "s_hn (septs t p) = del_shift i j (s_hn (septs s p)) \<and> s_prio (septs t p) = del_shift i j (s_prio (septs s p)) \<and>
    s_ch (septs t p) = del_shift i j (s_ch (septs s p)) \<and> s_parent (septs t p) = s_parent (septs s p) \<and> only_node p s t"
  using assms(1) unfolding t_def
proof (induction j)
  case (Suc j)
  show ?case
  proof (cases "i = Suc j")
    case False
    then have i: "i \<le> j" using Suc.prems by simp
    show ?thesis using Suc.IH [OF i] i by (simp add: move_elem_def Let_def del_shift_at del_shift_last)
  qed simp
qed simp

lemma shift_right_one:
  fixes s :: "('h, 'p, 't) btree_set" and p n :: nat
  defines "t \<equiv> fold (\<lambda>k. move_elem p (k + 1) k) (rev [0..<n]) s"
  shows "s_hn (septs t p) = ins_shift 0 n (s_hn (septs s p)) \<and> s_prio (septs t p) = ins_shift 0 n (s_prio (septs s p)) \<and>
    s_ch (septs t p) = ins_shift 0 n (s_ch (septs s p)) \<and> s_parent (septs t p) = s_parent (septs s p) \<and> only_node p s t"
  unfolding t_def
proof (induction n arbitrary: s)
  case (Suc n)
  let ?u = "move_elem p (n + 1) n s"
  have u: "s_hn (septs ?u p) = (s_hn (septs s p))(Suc n := s_hn (septs s p) n)" "s_prio (septs ?u p) = (s_prio (septs s p))(Suc n := s_prio (septs s p) n)"
      "s_ch (septs ?u p) = (s_ch (septs s p))(Suc n := s_ch (septs s p) n)" "s_parent (septs ?u p) = s_parent (septs s p)" "only_node p s ?u"
    by (simp_all add: move_elem_def Let_def)
  have "fold (\<lambda>k. move_elem p (k + 1) k) (rev [0..<Suc n]) s = fold (\<lambda>k. move_elem p (k + 1) k) (rev [0..<n]) ?u" by simp
  then show ?case using Suc.IH [of ?u] only_node_trans [OF u(5)] unfolding u by (simp only: ins_shift_step [OF le0])
qed simp

text \<open>The deletion of an element of a leaf: the loop ends at the new number of values.\<close>

lemma del_loop_eff:
  assumes "\<forall>k < 8. s_hn (septs s a) k = None \<longleftrightarrow> n \<le> k" "i < n" "n \<le> 8"
  shows "\<exists>t. del_loop a i s = (n - 1, t) \<and> only_node a s t \<and> s_parent (septs t a) = s_parent (septs s a) \<and>
    s_ch (septs t a) = s_ch (septs s a) \<and> s_prio (septs t a) = del_shift i (min n 7) (s_prio (septs s a)) \<and>
    s_hn (septs t a) = del_shift i (min n 7) (s_hn (septs s a))"
  using assms
proof (induction "n - i" arbitrary: i s)
  case (Suc m)
  show ?case
  proof (cases "i < 7")
    case False
    then have "i = 7" "n = 8" using Suc.prems by auto
    then show ?thesis by (subst del_loop.simps) (simp add: N_def)
  next
    case True
    let ?t = "set_prio a i (s_prio (septs s a) (i + 1)) (set_hn a i (s_hn (septs s a) (i + 1)) s)"
    have st: "del_loop a i s = (if s_hn (septs s a) (i + 1) = None then (i, ?t) else del_loop a (i + 1) ?t)"
      using True by (subst del_loop.simps) (simp add: N_def Let_def)
    show ?thesis
    proof (cases "i + 1 < n")
      case False
      then have n: "n = i + 1" using Suc.prems(2) by simp
      then have "del_loop a i s = (i, ?t)" using st Suc.prems(1) True by simp
      then show ?thesis using n True del_shift_last [of i i "s_hn (septs s a)"] del_shift_last [of i i "s_prio (septs s a)"] by simp
    next
      case i: True
      have "\<exists>t. del_loop a (i + 1) ?t = (n - 1, t) \<and> only_node a ?t t \<and> s_parent (septs t a) = s_parent (septs ?t a) \<and>
          s_ch (septs t a) = s_ch (septs ?t a) \<and> s_prio (septs t a) = del_shift (i + 1) (min n 7) (s_prio (septs ?t a)) \<and>
          s_hn (septs t a) = del_shift (i + 1) (min n 7) (s_hn (septs ?t a))"
        using Suc.prems i Suc.hyps(2) by (intro Suc.hyps(1)) auto
      moreover have "del_loop a i s = del_loop a (i + 1) ?t" using st Suc.prems(1) i True by simp
      moreover have "i < min n 7" using i True by simp
      moreover have "only_node a s u" if "only_node a ?t u" for u using only_node_trans [OF _ that, of s] by simp
      ultimately show ?thesis by (auto simp: del_shift_first)
    qed
  qed
qed simp

text \<open>The loop of \<open>merge\<close>: the values of \<open>r\<close> from \<open>i\<close> on are appended to \<open>l\<close>.\<close>

definition app_from :: "nat \<Rightarrow> nat \<Rightarrow> nat \<Rightarrow> (nat \<Rightarrow> 'a) \<Rightarrow> (nat \<Rightarrow> 'a) \<Rightarrow> nat \<Rightarrow> 'a" where
  "app_from i m n g f k = (if m + i \<le> k \<and> k < m + n then g (k - m) else f k)"

lemma app_from_none [simp]: "app_from n m n g f = f"
  by (auto simp: app_from_def fun_eq_iff)

lemma app_from_step: "i < n \<Longrightarrow> app_from (Suc i) m n g (f(m + i := g i)) = app_from i m n g f"
  by (auto simp: app_from_def fun_eq_iff)

lemma merge_loop_eff:
  assumes "\<forall>k < 8. s_hn (septs s r) k = None \<longleftrightarrow> n \<le> k" "i \<le> n" "m + n \<le> 8" "0 < m" "l \<noteq> r" "\<forall>k < n. s_ch (septs s r) k \<noteq> Some l \<and> s_ch (septs s r) k \<noteq> Some r"
  shows "\<exists>t. merge_loop l r i (m + i) s = Some (n, m + n, t) \<and>
    s_hn (septs t l) = app_from i m n (s_hn (septs s r)) (s_hn (septs s l)) \<and>
    s_prio (septs t l) = app_from i m n (s_prio (septs s r)) (s_prio (septs s l)) \<and>
    s_ch (septs t l) = app_from i m n (s_ch (septs s r)) (s_ch (septs s l)) \<and>
    (\<forall>x. x \<noteq> l \<longrightarrow> s_hn (septs t x) = s_hn (septs s x) \<and> s_prio (septs t x) = s_prio (septs s x) \<and> s_ch (septs t x) = s_ch (septs s x)) \<and>
    (\<forall>x. s_parent (septs t x) = (if \<exists>k. i \<le> k \<and> k < n \<and> s_ch (septs s r) k = Some x then Some l else s_parent (septs s x))) \<and>
    (\<forall>y. h_parent t y = (if \<exists>k. i \<le> k \<and> k < n \<and> s_hn (septs s r) k = Some y then Some l else h_parent s y)) \<and> same_top s t"
  using assms
proof (induction "n - i" arbitrary: i s)
  case 0
  then have "i = n" by simp
  moreover have "s_hn (septs s r) n = None" "n < 8" using "0.prems" by auto
  ultimately show ?case by (subst merge_loop.simps) (auto simp: N_def)
next
  case (Suc j)
  then have i: "i < n" by simp
  let ?t = "own (s_hn (septs s r) i) l (adopt (s_ch (septs s r) i) l
    (set_ch l (m + i) (s_ch (septs s r) i) (set_prio l (m + i) (s_prio (septs s r) i) (set_hn l (m + i) (s_hn (septs s r) i) s))))"
  have "merge_loop l r i (m + i) s = merge_loop l r (i + 1) (m + i + 1) ?t"
    using i Suc.prems by (subst merge_loop.simps) (auto simp: N_def Let_def)
  then have eq: "merge_loop l r i (m + i) s = merge_loop l r (Suc i) (m + Suc i) ?t" by simp
  have r: "s_hn (septs ?t r) = s_hn (septs s r)" "s_prio (septs ?t r) = s_prio (septs s r)" "s_ch (septs ?t r) = s_ch (septs s r)"
    using Suc.prems(5) by simp_all
  have l: "s_hn (septs ?t l) = (s_hn (septs s l))(m + i := s_hn (septs s r) i)" "s_prio (septs ?t l) = (s_prio (septs s l))(m + i := s_prio (septs s r) i)"
    "s_ch (septs ?t l) = (s_ch (septs s l))(m + i := s_ch (septs s r) i)" using Suc.prems(5) by simp_all
  have pr: "j = n - Suc i" "\<forall>k < 8. s_hn (septs ?t r) k = None \<longleftrightarrow> n \<le> k" "Suc i \<le> n" "m + n \<le> 8" "0 < m" "l \<noteq> r"
      "\<forall>k < n. s_ch (septs ?t r) k \<noteq> Some l \<and> s_ch (septs ?t r) k \<noteq> Some r"
    unfolding r using Suc.prems Suc.hyps(2) i by simp_all
  obtain t where t: "merge_loop l r (Suc i) (m + Suc i) ?t = Some (n, m + n, t)"
    "s_hn (septs t l) = app_from (Suc i) m n (s_hn (septs ?t r)) (s_hn (septs ?t l))"
    "s_prio (septs t l) = app_from (Suc i) m n (s_prio (septs ?t r)) (s_prio (septs ?t l))"
    "s_ch (septs t l) = app_from (Suc i) m n (s_ch (septs ?t r)) (s_ch (septs ?t l))"
    "\<forall>x. x \<noteq> l \<longrightarrow> s_hn (septs t x) = s_hn (septs ?t x) \<and> s_prio (septs t x) = s_prio (septs ?t x) \<and> s_ch (septs t x) = s_ch (septs ?t x)"
    "\<forall>x. s_parent (septs t x) = (if \<exists>k. Suc i \<le> k \<and> k < n \<and> s_ch (septs ?t r) k = Some x then Some l else s_parent (septs ?t x))"
    "\<forall>y. h_parent t y = (if \<exists>k. Suc i \<le> k \<and> k < n \<and> s_hn (septs ?t r) k = Some y then Some l else h_parent ?t y)" "same_top ?t t"
    using Suc.hyps(1) [OF pr] by blast
  have ex: "(\<exists>k. i \<le> k \<and> k < n \<and> P k) \<longleftrightarrow> P i \<or> (\<exists>k. Suc i \<le> k \<and> k < n \<and> P k)" for P
    using i by (metis Suc_leD Suc_leI le_neq_implies_less order_refl)
  show ?case
  proof (intro exI conjI)
    show "\<forall>x. s_parent (septs t x) = (if \<exists>k. i \<le> k \<and> k < n \<and> s_ch (septs s r) k = Some x then Some l else s_parent (septs s x))"
      using t(6) unfolding r ex [of "\<lambda>k. s_ch (septs s r) k = Some _"] by auto
    show "\<forall>y. h_parent t y = (if \<exists>k. i \<le> k \<and> k < n \<and> s_hn (septs s r) k = Some y then Some l else h_parent s y)"
      using t(7) unfolding r ex [of "\<lambda>k. s_hn (septs s r) k = Some _"] by auto
    show "same_top s t" by (rule same_trans(2) [OF _ t(8)]) simp
  qed (use t(1-5) eq i r l in \<open>simp_all add: app_from_step\<close>)
qed

section \<open>Merging\<close>

text \<open>A node given by its arrays.\<close>

lemma node_atI:
  assumes "s_parent (septs s a) = par" "length ks \<le> 8" "length ps = Suc (length ks)"
    and "\<And>i. i < length ks \<Longrightarrow> s_hn (septs s a) i = Some (snd (ks ! i))" "\<And>i. length ks \<le> i \<Longrightarrow> i < 8 \<Longrightarrow> s_hn (septs s a) i = None"
    and "\<And>i. i < length ks \<Longrightarrow> s_prio (septs s a) i = fst (ks ! i)" "\<And>i. i \<le> length ks \<Longrightarrow> s_ch (septs s a) i = ps ! i"
    and "\<And>k. k \<in> set ks \<Longrightarrow> h_parent s (snd k) = Some a"
  shows "node_at s a par ks ps"
  using assms unfolding node_at_def by auto

lemma node_atD:
  assumes "node_at s a par ks ps"
  shows "s_parent (septs s a) = par" "length ks \<le> 8" "length ps = Suc (length ks)"
    "i < length ks \<Longrightarrow> s_hn (septs s a) i = Some (snd (ks ! i))" "length ks \<le> i \<Longrightarrow> i < 8 \<Longrightarrow> s_hn (septs s a) i = None"
    "i < length ks \<Longrightarrow> s_prio (septs s a) i = fst (ks ! i)" "i \<le> length ks \<Longrightarrow> s_ch (septs s a) i = ps ! i"
    "k \<in> set ks \<Longrightarrow> h_parent s (snd k) = Some a"
  using assms unfolding node_at_def by auto

text \<open>The parent without value \<open>k\<close> and the child to its right.\<close>

lemma nth_removed:
  "i < length A \<Longrightarrow> (A @ k # B) ! i = (A @ B) ! i" "length A \<le> i \<Longrightarrow> (A @ k # B) ! Suc i = (A @ B) ! i"
  by (auto simp: nth_append Suc_diff_le)

lemma parent_dropped:
  assumes nu: "node_at s u q (A @ k # B) (pa @ x # pb)" and l: "length pa = Suc (length A)" "length pb = length B"
    and hn: "s_hn (septs t u) = (del_shift (length A) 7 (s_hn (septs s u)))(7 := None)"
    and pr: "s_prio (septs t u) = del_shift (length A) 7 (s_prio (septs s u))"
    and ch: "s_ch (septs t u) = del_shift (Suc (length A)) 8 (s_ch (septs s u))"
    and pq: "s_parent (septs t u) = q" and hp: "\<And>y. y \<in> hnds (A @ B) \<Longrightarrow> h_parent t y = h_parent s y"
  shows "node_at t u q (A @ B) (pa @ pb)"
proof -
  note d = node_atD [OF nu]
  have n: "length A + length B < 8" using d(2) by simp
  show ?thesis
  proof (rule node_atI [OF pq])
    fix i assume i: "i < length (A @ B)"
    have s: "s_hn (septs s u) (if i < length A then i else Suc i) = Some (snd ((A @ B) ! i))"
        "s_prio (septs s u) (if i < length A then i else Suc i) = fst ((A @ B) ! i)"
      using d(4) [of "if i < length A then i else Suc i"] d(6) [of "if i < length A then i else Suc i"] i
        nth_removed(1) [of i A k B] nth_removed(2) [of A i k B] by (auto split: if_splits)
    show "s_hn (septs t u) i = Some (snd ((A @ B) ! i))" "s_prio (septs t u) i = fst ((A @ B) ! i)"
      using s i n by (auto simp: hn pr del_shift_def split: if_splits)
  next
    fix i assume "length (A @ B) \<le> i" "i < 8"
    then show "s_hn (septs t u) i = None" using d(5) [of "Suc i"] by (cases "i = 7") (auto simp: hn del_shift_def)
  next
    fix i assume i: "i \<le> length (A @ B)"
    have "s_ch (septs t u) i = (pa @ x # pb) ! (if i \<le> length A then i else Suc i)"
      using d(7) [of "if i \<le> length A then i else Suc i"] i n by (auto simp: ch del_shift_def split: if_splits)
    then show "s_ch (septs t u) i = (pa @ pb) ! i"
      using nth_removed(1) [of i pa x pb] nth_removed(2) [of pa i x pb] l(1) by (auto split: if_splits)
  next
    fix k' assume "k' \<in> set (A @ B)"
    then show "h_parent t (snd k') = Some u" using d(8) [of k'] hp [of "snd k'"] by auto
  qed (use n l in auto)
qed

text \<open>The left sibling with the values of the right one appended.\<close>

lemma left_extended:
  assumes nl: "node_at s l q lks pl" and nr: "node_at s r q' rks pr" and len: "length lks + length rks < 8"
  defines "m \<equiv> Suc (length lks)" and "n \<equiv> length rks"
  assumes hn: "s_hn (septs t l) = app_from 0 m n (s_hn (septs s r)) ((s_hn (septs s l))(length lks := Some (snd k)))"
    and pr: "s_prio (septs t l) = app_from 0 m n (s_prio (septs s r)) ((s_prio (septs s l))(length lks := fst k))"
    and ch: "s_ch (septs t l) = (app_from 0 m n (s_ch (septs s r)) (s_ch (septs s l)))(m + n := s_ch (septs s r) n)"
    and pq: "s_parent (septs t l) = q" and hp: "\<And>y. y \<in> hnds (lks @ k # rks) \<Longrightarrow> h_parent t y = Some l"
  shows "node_at t l q (lks @ k # rks) (pl @ pr)"
proof (rule node_atI [OF pq])
  note dl = node_atD [OF nl] and dr = node_atD [OF nr]
  have c: "(lks @ k # rks) ! i = (if i < length lks then lks ! i else if i = length lks then k else rks ! (i - m))" for i
    by (auto simp: nth_append nth_Cons' m_def)
  fix i
  show "s_hn (septs t l) i = Some (snd ((lks @ k # rks) ! i))" "s_prio (septs t l) i = fst ((lks @ k # rks) ! i)" if "i < length (lks @ k # rks)"
    using that dl(4) [of i] dr(4) [of "i - m"] dl(6) [of i] dr(6) [of "i - m"] unfolding c hn pr
    by (auto simp: app_from_def m_def n_def)
  show "s_hn (septs t l) i = None" if "length (lks @ k # rks) \<le> i" "i < 8"
    using that dl(5) [of i] by (auto simp: hn app_from_def m_def n_def)
  show "s_ch (septs t l) i = (pl @ pr) ! i" if "i \<le> length (lks @ k # rks)"
    using that dl(7) [of i] dr(7) [of "i - m"] dl(3) by (auto simp: ch app_from_def m_def n_def nth_append)
qed (use len node_atD(3) [OF nl] node_atD(3) [OF nr] hp in \<open>auto simp: image_iff\<close>)

lemma node_hn_None: "node_at s a par ks ps \<Longrightarrow> i < 8 \<Longrightarrow> s_hn (septs s a) i = None \<longleftrightarrow> length ks \<le> i"
  by (simp add: node_at_def)

lemma node_hn_mem: "node_at s a par ks ps \<Longrightarrow> (\<exists>i < length ks. s_hn (septs s a) i = Some y) \<longleftrightarrow> y \<in> hnds ks"
  using node_atD(4) by (fastforce simp: in_set_conv_nth image_iff)

lemma node_ch_mem: "node_at s a par ks ps \<Longrightarrow> (\<exists>i \<le> length ks. s_ch (septs s a) i = x) \<longleftrightarrow> x \<in> set ps"
  using node_atD(3,7) by (fastforce simp: in_set_conv_nth less_Suc_eq_le)

text \<open>\<open>merge\<close>, up to the release of the right sibling.\<close>

lemma merge_left:
  fixes s :: "('h, 'p, 't) btree_set" and k :: "'p \<times> 'h"
  assumes nl: "node_at s l (Some u) lks pl" and nr: "node_at s r (Some u) rks pr" and len: "length lks + length rks < 8"
    and di: "l \<noteq> r" and pn: "Some l \<notin> set pr" "Some r \<notin> set pr"
  defines "s1 \<equiv> own (Some (snd k)) l (set_prio l (length lks) (fst k) (set_hn l (length lks) (Some (snd k)) s))"
  shows "\<exists>s2. merge_loop l r 0 (Suc (length lks)) s1 = Some (length rks, Suc (length lks) + length rks, s2) \<and>
    (let t = adopt (s_ch (septs s2 r) (length rks)) l (set_ch l (Suc (length lks) + length rks) (s_ch (septs s2 r) (length rks)) s2) in
     node_at t l (Some u) (lks @ k # rks) (pl @ pr) \<and>
     (\<forall>x. x \<noteq> l \<longrightarrow> septs t x = (if Some x \<in> set pr then (septs s x)\<lparr>s_parent := Some l\<rparr> else septs s x)) \<and>
     (\<forall>y. h_parent t y = (if y \<in> hnds (k # rks) then Some l else h_parent s y)) \<and> same_top s t)"
proof -
  note dl = node_atD [OF nl] and dr = node_atD [OF nr]
  let ?m = "Suc (length lks)" and ?n = "length rks"
  have s1: "septs s1 x = septs s x" if "x \<noteq> l" for x using that by (intro sept_eqI) (simp_all add: s1_def)
  then have sr: "septs s1 r = septs s r" using di by simp
  have s1': "s_hn (septs s1 l) = (s_hn (septs s l))(length lks := Some (snd k))" "s_prio (septs s1 l) = (s_prio (septs s l))(length lks := fst k)"
      "s_ch (septs s1 l) = s_ch (septs s l)" "s_parent (septs s1 l) = Some u" "same_top s s1"
      "h_parent s1 y = (if y = snd k then Some l else h_parent s y)" for y using dl(1) by (simp_all add: s1_def)
  have "s_ch (septs s r) i \<in> set pr" if "i < ?n" for i using node_ch_mem [OF nr] that less_imp_le by blast
  then have ml: "\<forall>i < 8. s_hn (septs s1 r) i = None \<longleftrightarrow> ?n \<le> i" "0 \<le> ?n" "?m + ?n \<le> 8" "0 < ?m"
      "\<forall>i < ?n. s_ch (septs s1 r) i \<noteq> Some l \<and> s_ch (septs s1 r) i \<noteq> Some r"
    using len pn node_hn_None [OF nr] by (auto simp: sr) metis+
  obtain s2 where s2: "merge_loop l r 0 (?m + 0) s1 = Some (?n, ?m + ?n, s2)"
    "s_hn (septs s2 l) = app_from 0 ?m ?n (s_hn (septs s r)) (s_hn (septs s1 l))"
    "s_prio (septs s2 l) = app_from 0 ?m ?n (s_prio (septs s r)) (s_prio (septs s1 l))"
    "s_ch (septs s2 l) = app_from 0 ?m ?n (s_ch (septs s r)) (s_ch (septs s1 l))"
    "\<forall>x. x \<noteq> l \<longrightarrow> s_hn (septs s2 x) = s_hn (septs s1 x) \<and> s_prio (septs s2 x) = s_prio (septs s1 x) \<and> s_ch (septs s2 x) = s_ch (septs s1 x)"
    "\<forall>x. s_parent (septs s2 x) = (if \<exists>i. 0 \<le> i \<and> i < ?n \<and> s_ch (septs s r) i = Some x then Some l else s_parent (septs s1 x))"
    "\<forall>y. h_parent s2 y = (if \<exists>i. 0 \<le> i \<and> i < ?n \<and> s_hn (septs s r) i = Some y then Some l else h_parent s1 y)" "same_top s1 s2"
    using merge_loop_eff [OF ml(1-4) di ml(5)] unfolding sr by blast
  let ?t = "adopt (s_ch (septs s2 r) ?n) l (set_ch l (?m + ?n) (s_ch (septs s2 r) ?n) s2)"
  have rc: "s_ch (septs s2 r) ?n = s_ch (septs s r) ?n" using s2(5) di sr by simp
  have pa: "s_parent (septs ?t x) = (if Some x \<in> set pr then Some l else s_parent (septs s1 x))" for x
    using s2(6) node_ch_mem [OF nr, of "Some x"] unfolding rc by (auto simp: le_less)
  have hp: "h_parent ?t y = (if y \<in> hnds (k # rks) then Some l else h_parent s y)" for y
    using s2(7) node_hn_mem [OF nr, of y] s1'(6) by auto
  have "node_at ?t l (Some u) (lks @ k # rks) (pl @ pr)"
  proof (rule left_extended [OF nl nr len])
    show "h_parent ?t y = Some l" if "y \<in> hnds (lks @ k # rks)" for y using that dl(8) unfolding hp by auto
  qed (use s2(2-4) s1' rc pa [of l] pn in \<open>simp_all\<close>)
  moreover have "septs ?t x = (if Some x \<in> set pr then (septs s x)\<lparr>s_parent := Some l\<rparr> else septs s x)" if "x \<noteq> l" for x
    using that s2(5) s1 [OF that] pa [of x] by (intro sept_eqI) simp_all
  moreover have "same_top s ?t" using same_trans(2) [OF s1'(5) s2(8)] by simp
  ultimately show ?thesis using s2(1) hp by (intro exI [of _ s2]) (auto simp: Let_def)
qed

text \<open>The effect of \<open>merge\<close> on the three nodes, the children of the right sibling and the reserve.\<close>

lemma merge_nodes:
  assumes nu: "node_at s u q (A @ k # B) ((pa @ [Some l]) @ Some r # pb)" and lp: "length pa = length A" "length pb = length B"
    and nl: "node_at s l (Some u) lks pl" and nr: "node_at s r (Some u) rks pr" and len: "length lks + length rks < 8"
    and di: "u \<noteq> l" "u \<noteq> r" "l \<noteq> r" and hd: "hnds (lks @ k # rks) \<inter> hnds (A @ B) = {}" "distinct (map snd (lks @ k # rks))"
    and pn: "Some u \<notin> set pr" "Some l \<notin> set pr" "Some r \<notin> set pr"
  shows "\<exists>t. merge l r (length A) s = Some (if A @ B = [] then set_parent l None ((release_sept u t)\<lparr>root_sept := Some l\<rparr>) else t) \<and>
    node_at t u q (A @ B) (pa @ Some l # pb) \<and> node_at t l (Some u) (lks @ k # rks) (pl @ pr) \<and>
    (\<forall>x. x \<noteq> u \<and> x \<noteq> l \<and> x \<noteq> r \<longrightarrow> septs t x = (if Some x \<in> set pr then (septs s x)\<lparr>s_parent := Some l\<rparr> else septs s x)) \<and>
    (\<forall>y. y \<notin> hnds (lks @ k # rks) \<longrightarrow> h_parent t y = h_parent s y) \<and> s_parent (septs t r) = sn_reserve s \<and>
    sn_reserve t = Some r \<and> root_sept t = root_sept s \<and> same_hdr s t"
proof -
  note du = node_atD [OF nu] and dl = node_atD [OF nl]
  have kk: "s_hn (septs s u) (length A) = Some (snd k)" "s_prio (septs s u) (length A) = fst k"
    using du(4) [of "length A"] du(6) [of "length A"] by simp_all
  let ?m = "Suc (length lks)" and ?n = "length rks"
  define s1 where "s1 = own (Some (snd k)) l (set_prio l (length lks) (fst k) (set_hn l (length lks) (Some (snd k)) s))"
  obtain s2 where s2: "merge_loop l r 0 ?m s1 = Some (?n, ?m + ?n, s2)"
    using merge_left [OF nl nr len di(3) pn(2,3), of k] unfolding s1_def by blast
  define s3 where "s3 = adopt (s_ch (septs s2 r) ?n) l (set_ch l (?m + ?n) (s_ch (septs s2 r) ?n) s2)"
  have s3: "node_at s3 l (Some u) (lks @ k # rks) (pl @ pr)"
      "\<forall>x. x \<noteq> l \<longrightarrow> septs s3 x = (if Some x \<in> set pr then (septs s x)\<lparr>s_parent := Some l\<rparr> else septs s x)"
      "\<forall>y. h_parent s3 y = (if y \<in> hnds (k # rks) then Some l else h_parent s y)" "same_top s s3"
    using merge_left [OF nl nr len di(3) pn(2,3), of k] s2 unfolding s1_def s3_def Let_def by auto
  define s4 where "s4 = release_sept r s3"
  have s4: "septs s4 = (septs s3)(r := (septs s3 r)\<lparr>s_parent := sn_reserve s\<rparr>)" "h_parent s4 = h_parent s3" "sn_reserve s4 = Some r"
      "root_sept s4 = root_sept s" "same_hdr s s4"
    using s3(4) by (simp_all add: s4_def release_sept_def set_parent_def upn_def same_top_def same_hdr_def)
  define s5 where "s5 = fold (drop_copy u) [length A..<7] s4"
  have A: "length A \<le> 7" using du(2) by simp
  note s5 = drop_copies [OF A, of u s4, folded s5_def]
  define t where "t = set_hn u 7 None s5"
  have u3: "septs s4 u = septs s u" using s3(2) s4(1) di pn(1) by auto
  have tu: "s_hn (septs t u) = (del_shift (length A) 7 (s_hn (septs s u)))(7 := None)" "s_prio (septs t u) = del_shift (length A) 7 (s_prio (septs s u))"
      "s_ch (septs t u) = del_shift (Suc (length A)) 8 (s_ch (septs s u))" "s_parent (septs t u) = q"
    using s5 u3 du(1) by (simp_all add: t_def)
  have tx: "septs t x = septs s4 x" if "x \<noteq> u" for x
    using that s5 by (intro sept_eqI) (simp_all add: t_def only_node_def)
  have th: "h_parent t = h_parent s3" "sn_reserve t = Some r" "root_sept t = root_sept s" "same_hdr s t"
  proof -
    have o: "only_node u s4 t" using s5 by (simp add: t_def)
    then show "h_parent t = h_parent s3" "sn_reserve t = Some r" "root_sept t = root_sept s"
      using s4 by (simp_all add: only_node_def same_top_def)
    show "same_hdr s t" using same_trans(1) [OF s4(5)] o by (simp add: only_node_def same_top_def)
  qed
  have "h_parent t y = h_parent s y" if "y \<in> hnds (A @ B)" for y
  proof -
    have "y \<notin> hnds (lks @ k # rks)" using hd(1) that by blast
    then show ?thesis using s3(3) th(1) by auto
  qed
  then have "node_at t u q (A @ B) ((pa @ [Some l]) @ pb)" using lp by (intro parent_dropped [OF nu _ _ tu]) auto
  then have n1: "node_at t u q (A @ B) (pa @ Some l # pb)" by simp
  have "septs t l = septs s3 l" using tx [of l] s4(1) di by simp
  then have n2: "node_at t l (Some u) (lks @ k # rks) (pl @ pr)" using s3(1) th(1) node_at_cong [of t l s3 "lks @ k # rks"] by simp
  have e: "s_hn (septs t u) 0 = None \<longleftrightarrow> A @ B = []" using node_hn_None [OF n1, of 0] by simp
  have "merge l r (length A) s = Some (if A @ B = [] then set_parent l None ((release_sept u t)\<lparr>root_sept := Some l\<rparr>) else t)"
    using dl(1) s2 num_vals_node [OF nl] kk e [unfolded t_def s5_def s4_def s3_def]
    by (simp add: merge_def Let_def s1_def [symmetric] t_def s5_def s4_def s3_def N_def del: append_is_Nil_conv)
  moreover have "septs t x = (if Some x \<in> set pr then (septs s x)\<lparr>s_parent := Some l\<rparr> else septs s x)" if "x \<noteq> u \<and> x \<noteq> l \<and> x \<noteq> r" for x
    using that tx [of x] s4(1) s3(2) by simp
  moreover have "h_parent t y = h_parent s y" if "y \<notin> hnds (lks @ k # rks)" for y using that s3(3) th(1) by auto
  moreover have "s_parent (septs t r) = sn_reserve s" using tx [of r] s4(1) di by simp
  ultimately show ?thesis using n1 n2 th by blast
qed

text \<open>The same on trees. First the handles of a node and two of its children.\<close>

lemma forest_hnds: "\<forall>c \<in> set cs. shape 4 d c \<Longrightarrow> \<Union> (thnds ` set cs) = hnds (concat (map inorder cs))"
proof -
  assume "\<forall>c \<in> set cs. shape 4 d c"
  then have "thnds c = hnds (inorder c)" if "c \<in> set cs" for c using thnds_inorder [of 4 d c] that by simp
  then show ?thesis by (simp add: image_UN)
qed

lemma distinct_three:
  "distinct (map f (xs @ ys @ zs)) \<Longrightarrow>
   distinct (map f xs) \<and> distinct (map f ys) \<and> f ` set xs \<inter> (f ` set ys \<union> f ` set zs) = {} \<and> f ` set ys \<inter> f ` set zs = {}"
  by auto

lemma kids_hnds: "kids_ok d ks cs \<Longrightarrow> \<Union> (thnds ` set cs) = hnds (concat (map inorder cs))"
  by (rule forest_hnds [of _ "d - 1"]) (auto simp: kids_ok_def split: if_splits)

lemma sibling_handles:
  assumes "distinct (map snd (inorder (Node u (A @ k # B) (lc @ Node l lks lcs # Node r rks rcs # rc))))"
    and "kids_ok d lks lcs" "kids_ok d rks rcs" "\<forall>c \<in> set (lc @ rc). shape 4 d c"
  shows "distinct (map snd (lks @ k # rks))" "hnds (lks @ k # rks) \<inter> hnds (A @ B) = {}" "distinct (map snd (A @ B))"
    "c \<in> set (lcs @ rcs @ lc @ rc) \<Longrightarrow> thnds c \<inter> (hnds (lks @ k # rks) \<union> hnds (A @ B)) = {}"
proof -
  let ?cs = "concat (map inorder (lcs @ rcs @ lc @ rc))"
  have "mset (inorder (Node u (A @ k # B) (lc @ Node l lks lcs # Node r rks rcs # rc))) = mset ((lks @ k # rks) @ (A @ B) @ ?cs)"
    by (simp add: mset_weave)
  then have "mset (map snd (inorder (Node u (A @ k # B) (lc @ Node l lks lcs # Node r rks rcs # rc)))) =
      mset (map snd ((lks @ k # rks) @ (A @ B) @ ?cs))" by (simp only: mset_map)
  then have d: "distinct (map snd ((lks @ k # rks) @ (A @ B) @ ?cs))" using assms(1) mset_eq_imp_distinct_iff by blast
  show "distinct (map snd (lks @ k # rks))" "distinct (map snd (A @ B))" using distinct_three [OF d] by blast+
  have e: "hnds (lks @ k # rks) \<inter> (hnds (A @ B) \<union> hnds ?cs) = {}" "hnds (A @ B) \<inter> hnds ?cs = {}"
    using distinct_three [OF d] by blast+
  then show "hnds (lks @ k # rks) \<inter> hnds (A @ B) = {}" by blast
  have "\<Union> (thnds ` set (lcs @ rcs @ lc @ rc)) = hnds ?cs"
    using kids_hnds [OF assms(2)] kids_hnds [OF assms(3)] forest_hnds [OF assms(4)] by (simp add: image_Un)
  moreover assume "c \<in> set (lcs @ rcs @ lc @ rc)"
  ultimately have "thnds c \<subseteq> hnds ?cs" by blast
  then show "thnds c \<inter> (hnds (lks @ k # rks) \<union> hnds (A @ B)) = {}" using e by blast
qed

lemma ptrs_merge:
  assumes "kids_ok d lks lcs" "kids_ok d rks rcs"
  shows "ptrs (lks @ k # rks) (lcs @ rcs) = ptrs lks lcs @ ptrs rks rcs" "kids_ok d (lks @ k # rks) (lcs @ rcs)"
proof -
  have "replicate (Suc (length (lks @ k # rks))) None = replicate (Suc (length lks)) None @ replicate (Suc (length rks)) (None :: nat option)"
    by (simp add: replicate_add [symmetric] replicate_app_Cons_same)
  then show "ptrs (lks @ k # rks) (lcs @ rcs) = ptrs lks lcs @ ptrs rks rcs" "kids_ok d (lks @ k # rks) (lcs @ rcs)"
    using assms by (auto simp: ptrs_def kids_ok_def split: if_splits)
qed

lemma merge_tree:
  assumes tu: "tu = Node u (A @ k # B) (lc @ Node l lks lcs # Node r rks rcs # rc)" and re: "bt_repr s q tu"
    and di: "distinct (addrs tu)" "distinct (map snd (inorder tu))" and lp: "length lc = length A" "length rc = length B"
    and len: "length lks + length rks < 8" and k: "kids_ok d lks lcs" "kids_ok d rks rcs" "\<forall>c \<in> set (lc @ rc). shape 4 d c"
    and rs: "res_list s (sn_reserve s) res" "set (addrs tu) \<inter> set res = {}"
  shows "\<exists>t. merge l r (length A) s = Some (if A @ B = [] then set_parent l None ((release_sept u t)\<lparr>root_sept := Some l\<rparr>) else t) \<and>
    bt_repr t q (Node u (A @ B) (lc @ Node l (lks @ k # rks) (lcs @ rcs) # rc)) \<and>
    (\<forall>x. x \<notin> set (addrs tu) \<longrightarrow> septs t x = septs s x) \<and> (\<forall>y. y \<notin> hnds (lks @ k # rks) \<longrightarrow> h_parent t y = h_parent s y) \<and>
    res_list t (sn_reserve t) (r # res) \<and> root_sept t = root_sept s \<and> same_hdr s t"
proof -
  let ?pa = "map (Some \<circ> baddr) lc" and ?pb = "map (Some \<circ> baddr) rc"
  note h = sibling_handles [OF di(2) [unfolded tu] k]
  have nu: "node_at s u q (A @ k # B) ((?pa @ [Some l]) @ Some r # ?pb)" and kids: "\<forall>c \<in> set (lc @ rc). bt_repr s (Some u) c"
    and nl: "node_at s l (Some u) lks (ptrs lks lcs)" "\<forall>c \<in> set lcs. bt_repr s (Some l) c"
    and nr: "node_at s r (Some u) rks (ptrs rks rcs)" "\<forall>c \<in> set rcs. bt_repr s (Some r) c"
    using re by (simp_all add: tu ptrs_def)
  have ad: "u \<noteq> l" "u \<noteq> r" "l \<noteq> r" "\<forall>c \<in> set (lcs @ rcs @ lc @ rc). u \<notin> set (addrs c) \<and> l \<notin> set (addrs c) \<and> r \<notin> set (addrs c)"
      "distinct (concat (map addrs (lcs @ rcs @ lc @ rc)))" using di(1) by (auto simp: tu)
  have pn: "Some u \<notin> set (ptrs rks rcs)" "Some l \<notin> set (ptrs rks rcs)" "Some r \<notin> set (ptrs rks rcs)"
    using ad(4) baddr_addrs unfolding set_ptrs by (metis Un_iff set_append)+
  obtain t where t: "merge l r (length A) s = Some (if A @ B = [] then set_parent l None ((release_sept u t)\<lparr>root_sept := Some l\<rparr>) else t)"
      "node_at t u q (A @ B) (?pa @ Some l # ?pb)" "node_at t l (Some u) (lks @ k # rks) (ptrs lks lcs @ ptrs rks rcs)"
      "\<forall>x. x \<noteq> u \<and> x \<noteq> l \<and> x \<noteq> r \<longrightarrow> septs t x = (if Some x \<in> set (ptrs rks rcs) then (septs s x)\<lparr>s_parent := Some l\<rparr> else septs s x)"
      "\<forall>y. y \<notin> hnds (lks @ k # rks) \<longrightarrow> h_parent t y = h_parent s y" "s_parent (septs t r) = sn_reserve s"
      "sn_reserve t = Some r" "root_sept t = root_sept s" "same_hdr s t"
    using merge_nodes [OF nu _ _ nl(1) nr(1) len ad(1-3) h(2,1) pn] lp by auto
  have eff: "septs t x = (if \<exists>c \<in> set rcs. x = baddr c then (septs s x)\<lparr>s_parent := Some l\<rparr> else septs s x)"
    if "x \<noteq> u" "x \<noteq> l" "x \<noteq> r" for x using t(4) that unfolding set_ptrs by simp
  have th: "\<forall>c \<in> set (lcs @ rcs @ lc @ rc). \<forall>y \<in> thnds c. h_parent t y = h_parent s y" using t(5) h(4) by blast
  have dc: "distinct (lcs @ rcs @ lc @ rc)" using distinct_baddr [OF ad(5)] by (simp only: distinct_map)
  have mv: "bt_repr t (if c \<in> set rcs then Some l else par) c" if "c \<in> set (lcs @ rcs @ lc @ rc)" "bt_repr s par c" for c par
    using ad(4) that by (intro kids_moved [OF ad(5) _ _ _ th, where X = "{u, l, r}"] eff) auto
  have keep: "bt_repr t par c" if "c \<in> set (lcs @ lc @ rc)" "bt_repr s par c" for c par
  proof -
    have "c \<notin> set rcs" "c \<in> set (lcs @ rcs @ lc @ rc)" using that(1) dc by auto
    then show ?thesis using mv [of c par] that(2) by simp
  qed
  have move: "bt_repr t (Some l) c" if "c \<in> set rcs" for c using mv [of c "Some r"] nr(2) that by auto
  have "bt_repr t (Some u) (Node l (lks @ k # rks) (lcs @ rcs))"
    using t(3) keep nl(2) move by (auto simp: ptrs_merge(1) [OF k(1,2)])
  then have "bt_repr t q (Node u (A @ B) (lc @ Node l (lks @ k # rks) (lcs @ rcs) # rc))"
    using t(2) keep kids by (auto simp: ptrs_def)
  moreover have "septs t x = septs s x" if "x \<notin> set (addrs tu)" for x
  proof -
    have "x \<noteq> u" "x \<noteq> l" "x \<noteq> r" "\<forall>c \<in> set rcs. x \<noteq> baddr c" using that baddr_addrs by (auto simp: tu)
    then show ?thesis using eff by simp
  qed
  moreover have "res_list t (sn_reserve t) (r # res)"
  proof -
    have "\<forall>x \<in> set res. septs t x = septs s x" using rs(2) calculation(2) by blast
    then have "res_list t (sn_reserve s) res = res_list s (sn_reserve s) res" by (intro res_list_cong) simp
    then show ?thesis using t(6,7) rs(1) by simp
  qed
  ultimately show ?thesis using t(1,5,8,9) by blast
qed

end
