(* ===== verification/Btree_Borrow.thy ===== *)
theory Btree_Borrow
  imports Btree_Merge
begin

text \<open>
  The removal of \<open>btree_set\<close>, second part: borrowing a value from the right and from the left sibling.
\<close>

section \<open>Single changes of a node\<close>

lemma node_snoc:
  assumes "node_at s a par ks ps" "length ks < 8" "s_hn (septs t a) = (s_hn (septs s a))(length ks := Some (snd k))"
    and "s_prio (septs t a) = (s_prio (septs s a))(length ks := fst k)" "s_ch (septs t a) = (s_ch (septs s a))(Suc (length ks) := y)"
    and "s_parent (septs t a) = par" "\<forall>h \<in> hnds (ks @ [k]). h_parent t h = Some a"
  shows "node_at t a par (ks @ [k]) (ps @ [y])"
proof -
  note d = node_atD [OF assms(1)]
  show ?thesis
    using assms(2,6,7) d by (intro node_atI) (auto simp: assms(3-5) nth_append)
qed

lemma node_Cons:
  assumes "node_at s a par ks ps" "length ks < 8" "s_hn (septs t a) = (ins_shift 0 (length ks) (s_hn (septs s a)))(0 := Some (snd k))"
    and "s_prio (septs t a) = (ins_shift 0 (length ks) (s_prio (septs s a)))(0 := fst k)"
    and "s_ch (septs t a) = (ins_shift 0 (Suc (length ks)) (s_ch (septs s a)))(0 := y)"
    and "s_parent (septs t a) = par" "\<forall>h \<in> hnds (k # ks). h_parent t h = Some a"
  shows "node_at t a par (k # ks) (y # ps)"
proof -
  note d = node_atD [OF assms(1)]
  show ?thesis
    using assms(2,6,7) d by (intro node_atI) (auto simp: assms(3-5) ins_shift_def nth_Cons')
qed

lemma node_tl:
  assumes "node_at s a par (x # ks) (y # ps)" "s_hn (septs t a) = (del_shift 0 7 (s_hn (septs s a)))(7 := None)"
    and "s_prio (septs t a) = del_shift 0 7 (s_prio (septs s a))" "s_ch (septs t a) = del_shift 0 8 (s_ch (septs s a))"
    and "s_parent (septs t a) = par" "\<forall>h \<in> hnds ks. h_parent t h = Some a"
  shows "node_at t a par ks ps"
proof -
  note d = node_atD [OF assms(1)]
  have h: "s_hn (septs s a) (Suc i) = (if i < length ks then Some (snd (ks ! i)) else None)" if "i < 7" for i
    using d(4) [of "Suc i"] d(5) [of "Suc i"] that by auto
  have p: "s_prio (septs s a) (Suc i) = fst (ks ! i)" if "i < length ks" for i using d(6) [of "Suc i"] that by simp
  have c: "s_ch (septs s a) (Suc i) = ps ! i" if "i \<le> length ks" for i using d(7) [of "Suc i"] that by simp
  have l: "length ks < 8" "length ps = Suc (length ks)" using d(2,3) by simp_all
  show ?thesis
  proof (rule node_atI [OF assms(5)])
    fix i assume "length ks \<le> i" "i < 8"
    then show "s_hn (septs t a) i = None" using h [of i] by (cases "i = 7") (auto simp: assms(2) del_shift_def)
  qed (use l assms(6) in \<open>auto simp: assms(2-4) del_shift_def h p c\<close>)
qed

lemma node_butlast:
  assumes "node_at s a par (ks @ [x]) (ps @ [y])" "s_hn (septs t a) = (s_hn (septs s a))(length ks := None)"
    and "s_prio (septs t a) = s_prio (septs s a)" "s_ch (septs t a) = s_ch (septs s a)"
    and "s_parent (septs t a) = par" "\<forall>h \<in> hnds ks. h_parent t h = Some a"
  shows "node_at t a par ks ps"
proof -
  note d = node_atD [OF assms(1)]
  have l: "length ks < 8" "length ps = Suc (length ks)" using d(2,3) by simp_all
  have h: "s_hn (septs s a) i = Some (snd (ks ! i))" "s_prio (septs s a) i = fst (ks ! i)" if "i < length ks" for i
    using d(4) [of i] d(6) [of i] that by (simp_all add: nth_append)
  have c: "s_ch (septs s a) i = ps ! i" if "i \<le> length ks" for i using d(7) [of i] that l by (simp add: nth_append)
  show ?thesis
  proof (rule node_atI [OF assms(5)])
    fix i assume "length ks \<le> i" "i < 8"
    then show "s_hn (septs t a) i = None" using d(5) [of i] by (cases "i = length ks") (auto simp: assms(2))
  qed (use l assms(6) in \<open>auto simp: assms(2-4) h c\<close>)
qed

lemma node_replace:
  assumes "node_at s u q (A @ k # B) ps" "s_hn (septs t u) = (s_hn (septs s u))(length A := Some (snd x))"
    and "s_prio (septs t u) = (s_prio (septs s u))(length A := fst x)" "s_ch (septs t u) = s_ch (septs s u)"
    and "s_parent (septs t u) = q" "\<forall>h \<in> hnds (A @ x # B). h_parent t h = Some u"
  shows "node_at t u q (A @ x # B) ps"
proof -
  note d = node_atD [OF assms(1)]
  have e: "(A @ x # B) ! i = (if i = length A then x else (A @ k # B) ! i)" for i by (simp add: nth_append nth_Cons')
  show ?thesis
    using assms(5,6) d by (intro node_atI) (auto simp: assms(2-4) e)
qed

section \<open>Borrowing on nodes\<close>

lemma handles_at: "node_at s a par ks ps \<Longrightarrow> g \<in> hnds ks \<Longrightarrow> h_parent s g = Some a"
  by (auto simp: node_at_def)

lemma own_two: "h \<noteq> h' \<Longrightarrow> h_parent (own (Some h') b (own (Some h) a s)) y = (if y = h then Some a else if y = h' then Some b else h_parent s y)"
  by simp

lemma borrow_right_nodes:
  fixes s :: "('h, 'p, 't) btree_set"
  assumes na: "node_at s a (Some u) ks pa" and nu: "node_at s u q (k # B) pu" and nr: "node_at s r (Some u) (x # rks) (y # pr)"
    and n: "length ks < 8" and di: "a \<noteq> u" "a \<noteq> r" "u \<noteq> r" and yn: "y \<noteq> Some a" "y \<noteq> Some u" "y \<noteq> Some r"
    and h: "distinct (map snd (ks @ k # x # B @ rks))"
  defines "t \<equiv> borrow_right a u r (length ks) s"
  shows "node_at t a (Some u) (ks @ [k]) (pa @ [y])" "node_at t u q (x # B) pu" "node_at t r (Some u) rks pr"
    "z \<noteq> a \<Longrightarrow> z \<noteq> u \<Longrightarrow> z \<noteq> r \<Longrightarrow> septs t z = (if y = Some z then (septs s z)\<lparr>s_parent := Some a\<rparr> else septs s z)"
    "g \<noteq> snd k \<Longrightarrow> g \<noteq> snd x \<Longrightarrow> h_parent t g = h_parent s g" "same_top s t"
proof -
  note da = node_atD [OF na] and du = node_atD [OF nu] and dr = node_atD [OF nr]
  let ?n = "length ks"
  have k: "s_hn (septs s u) 0 = Some (snd k)" "s_prio (septs s u) 0 = fst k" using du(4) [of 0] du(6) [of 0] by simp_all
  have x: "s_hn (septs s r) 0 = Some (snd x)" "s_prio (septs s r) 0 = fst x" "s_ch (septs s r) 0 = y"
    using dr(4) [of 0] dr(6) [of 0] dr(7) [of 0] by simp_all
  define s1 where "s1 = own (Some (snd x)) u (set_prio u 0 (fst x) (set_hn u 0 (Some (snd x))
    (adopt y a (set_ch a (?n + 1) y (own (Some (snd k)) a (set_prio a ?n (fst k) (set_hn a ?n (Some (snd k)) s)))))))"
  define s2 where "s2 = fold (\<lambda>i. move_elem r (i - 1) i) [Suc 0..<Suc 7] s1"
  have r1: "s_hn (septs s1 r) = s_hn (septs s r)" "s_prio (septs s1 r) = s_prio (septs s r)" "s_ch (septs s1 r) = s_ch (septs s r)"
      "s_parent (septs s1 r) = Some u" using di yn dr(1) by (simp_all add: s1_def)
  note s2 = shift_left_one [of 0 7 r s1, folded s2_def]
  have t: "t = set_hn r 7 None (set_ch r 7 (s_ch (septs s2 r) 8) s2)"
    using di k x by (simp add: t_def borrow_right_def Let_def shift_elems_left_def N_def s1_def s2_def del: upt_Suc upt_conv_Cons)
  have o: "only_node r s1 t" using s2 by (simp add: t)
  have r2: "s_hn (septs t r) = (del_shift 0 7 (s_hn (septs s r)))(7 := None)" "s_prio (septs t r) = del_shift 0 7 (s_prio (septs s r))"
      "s_ch (septs t r) = del_shift 0 8 (s_ch (septs s r))" "s_parent (septs t r) = Some u"
    using s2 r1 del_shift_last [of 0 7 "s_ch (septs s r)"] by (simp_all add: t del_shift_def [of 0 7 _ 8])
  have hp: "h_parent t g = (if g = snd k then Some a else if g = snd x then Some u else h_parent s g)" for g
    using o h by (auto simp: only_node_def s1_def)
  have ne: "septs t z = septs s1 z" if "z \<noteq> r" for z using o that by (simp add: only_node_def)
  have ha: "\<forall>g \<in> hnds (ks @ [k]). h_parent t g = Some a" "\<forall>g \<in> hnds (x # B). h_parent t g = Some u" "\<forall>g \<in> hnds rks. h_parent t g = Some r"
  proof -
    have n: "snd k \<noteq> snd x" "snd k \<notin> hnds (ks @ B @ rks)" "snd x \<notin> hnds (ks @ B @ rks)" using h by auto
    show "\<forall>g \<in> hnds (ks @ [k]). h_parent t g = Some a" using n handles_at [OF na] unfolding hp set_append list.set image_Un image_insert image_empty by (metis Un_iff empty_iff insert_iff)
    show "\<forall>g \<in> hnds (x # B). h_parent t g = Some u" using n handles_at [OF nu] unfolding hp set_append list.set image_Un image_insert image_empty by (metis Un_iff empty_iff insert_iff)
    show "\<forall>g \<in> hnds rks. h_parent t g = Some r" using n handles_at [OF nr] unfolding hp set_append list.set image_Un image_insert image_empty by (metis Un_iff empty_iff insert_iff)
  qed
  show "node_at t a (Some u) (ks @ [k]) (pa @ [y])"
    using ne [of a] di yn da(1) ha(1) by (intro node_snoc [OF na n]) (simp_all add: s1_def)
  show "node_at t u q (x # B) pu"
    using node_replace [of s u q "[]" k B pu t x] nu ne [of u] di yn du(1) ha(2) by (simp add: s1_def)
  show "node_at t r (Some u) rks pr" by (rule node_tl [OF nr r2 ha(3)])
  show "septs t z = (if y = Some z then (septs s z)\<lparr>s_parent := Some a\<rparr> else septs s z)" if "z \<noteq> a" "z \<noteq> u" "z \<noteq> r"
    using that ne [of z] by (intro sept_eqI) (simp_all add: s1_def)
  show "h_parent t g = h_parent s g" if "g \<noteq> snd k" "g \<noteq> snd x" using that by (simp add: hp)
  show "same_top s t" using same_trans(2) [of s s1 t] o by (simp add: only_node_def s1_def)
qed

lemma borrow_left_nodes:
  fixes s :: "('h, 'p, 't) btree_set"
  assumes na: "node_at s a (Some u) ks pa" and nu: "node_at s u q (A @ k # B) pu" and nl: "node_at s l (Some u) (lks @ [x]) (pl @ [y])"
    and n: "length ks < 8" and di: "a \<noteq> u" "a \<noteq> l" "u \<noteq> l" and yn: "y \<noteq> Some a" "y \<noteq> Some u" "y \<noteq> Some l"
    and h: "distinct (map snd (ks @ k # x # A @ B @ lks))"
  defines "t \<equiv> borrow_left a u l (Suc (length A)) (Suc (length lks)) (length ks) s"
  shows "node_at t a (Some u) (k # ks) (y # pa)" "node_at t u q (A @ x # B) pu" "node_at t l (Some u) lks pl"
    "z \<noteq> a \<Longrightarrow> z \<noteq> u \<Longrightarrow> z \<noteq> l \<Longrightarrow> septs t z = (if y = Some z then (septs s z)\<lparr>s_parent := Some a\<rparr> else septs s z)"
    "g \<noteq> snd k \<Longrightarrow> g \<noteq> snd x \<Longrightarrow> h_parent t g = h_parent s g" "same_top s t"
proof -
  note da = node_atD [OF na] and du = node_atD [OF nu] and dl = node_atD [OF nl]
  let ?n = "length ks" and ?i = "length A" and ?j = "length lks"
  have k: "s_hn (septs s u) ?i = Some (snd k)" "s_prio (septs s u) ?i = fst k" using du(4) [of ?i] du(6) [of ?i] by simp_all
  have x: "s_hn (septs s l) ?j = Some (snd x)" "s_prio (septs s l) ?j = fst x" "s_ch (septs s l) (Suc ?j) = y"
    using dl(3) dl(4) [of ?j] dl(6) [of ?j] dl(7) [of "Suc ?j"] by (simp_all add: nth_append)
  define s0 where "s0 = set_ch a (?n + 1) (s_ch (septs s a) ?n) s"
  define s1 where "s1 = fold (\<lambda>i. move_elem a (i + 1) i) (rev [0..<?n]) s0"
  note s1 = shift_right_one [of a ?n s0, folded s1_def]
  have o: "only_node a s s1" using only_node_trans [of a s s0 s1] s1 by (simp add: s0_def)
  have ne: "septs s1 z = septs s z" if "z \<noteq> a" for z using o that by (simp add: only_node_def)
  have a1: "s_hn (septs s1 a) = ins_shift 0 ?n (s_hn (septs s a))" "s_prio (septs s1 a) = ins_shift 0 ?n (s_prio (septs s a))"
      "s_ch (septs s1 a) = ins_shift 0 (Suc ?n) (s_ch (septs s a))" "s_parent (septs s1 a) = Some u"
    using s1 da(1) by (simp_all add: s0_def ins_shift_step)
  have t: "t = set_hn l ?j None (own (Some (snd x)) u (set_prio u ?i (fst x) (set_hn u ?i (Some (snd x))
      (adopt y a (set_ch a 0 y (own (Some (snd k)) a (set_prio a 0 (fst k) (set_hn a 0 (Some (snd k)) s1))))))))"
    using di k x ne [of u] ne [of l] by (simp add: t_def borrow_left_def Let_def shift_elems_right_def s0_def s1_def)
  have hp: "h_parent t g = (if g = snd k then Some a else if g = snd x then Some u else h_parent s g)" for g
    using o h by (auto simp: only_node_def t)
  have ha: "\<forall>g \<in> hnds (k # ks). h_parent t g = Some a" "\<forall>g \<in> hnds (A @ x # B). h_parent t g = Some u" "\<forall>g \<in> hnds lks. h_parent t g = Some l"
  proof -
    have n: "snd k \<noteq> snd x" "snd k \<notin> hnds (ks @ A @ B @ lks)" "snd x \<notin> hnds (ks @ A @ B @ lks)" using h by auto
    show "\<forall>g \<in> hnds (k # ks). h_parent t g = Some a" using n handles_at [OF na] unfolding hp set_append list.set image_Un image_insert image_empty by (metis Un_iff empty_iff insert_iff)
    show "\<forall>g \<in> hnds (A @ x # B). h_parent t g = Some u" using n handles_at [OF nu] unfolding hp set_append list.set image_Un image_insert image_empty by (metis Un_iff empty_iff insert_iff)
    show "\<forall>g \<in> hnds lks. h_parent t g = Some l" using n handles_at [OF nl] unfolding hp set_append list.set image_Un image_insert image_empty by (metis Un_iff empty_iff insert_iff)
  qed
  show "node_at t a (Some u) (k # ks) (y # pa)"
    using a1 di yn ha(1) by (intro node_Cons [OF na n]) (simp_all add: t)
  show "node_at t u q (A @ x # B) pu"
    using ne [of u] di yn du(1) ha(2) by (intro node_replace [OF nu]) (simp_all add: t)
  show "node_at t l (Some u) lks pl"
    using ne [of l] di yn dl(1) ha(3) by (intro node_butlast [OF nl]) (simp_all add: t)
  show "septs t z = (if y = Some z then (septs s z)\<lparr>s_parent := Some a\<rparr> else septs s z)" if "z \<noteq> a" "z \<noteq> u" "z \<noteq> l"
    using that ne [of z] by (intro sept_eqI) (simp_all add: t)
  show "h_parent t g = h_parent s g" if "g \<noteq> snd k" "g \<noteq> snd x" using that by (simp add: hp)
  show "same_top s t" using o by (simp add: only_node_def t)
qed

section \<open>Borrowing on trees\<close>

lemma ptrs_Cons:
  assumes "kids_ok d (x # rks) rcs"
  shows "ptrs (x # rks) rcs = (if rcs = [] then None else Some (baddr (hd rcs))) # ptrs rks (tl rcs)" "kids_ok d rks (tl rcs)"
  using assms by (cases rcs; auto simp: ptrs_def kids_ok_def split: if_splits)+

lemma ptrs_snoc:
  assumes "kids_ok d (lks @ [x]) lcs"
  shows "ptrs (lks @ [x]) lcs = ptrs lks (butlast lcs) @ [if lcs = [] then None else Some (baddr (last lcs))]" "kids_ok d lks (butlast lcs)"
  using assms by (cases lcs rule: rev_cases; auto simp: ptrs_def kids_ok_def replicate_append_same split: if_splits)+

lemma ptrs_add:
  assumes "kids_ok d ks cs" "ys = [] \<longleftrightarrow> cs = []" "length ys \<le> 1" "\<forall>c \<in> set ys. shape 4 (d - 1) c"
  defines "y \<equiv> (if ys = [] then None else Some (baddr (hd ys)))"
  shows "ptrs (ks @ [k]) (cs @ ys) = ptrs ks cs @ [y]" "ptrs (k # ks) (ys @ cs) = y # ptrs ks cs"
    "kids_ok d (ks @ [k]) (cs @ ys)" "kids_ok d (k # ks) (ys @ cs)"
  using assms(1-4) by (cases ys; auto simp: y_def ptrs_def kids_ok_def replicate_append_same split: if_splits)+

lemma borrow_right_tree:
  assumes tu: "tu = Node u (k # B) (Node a ks cs # Node r (x # rks) rcs # rc)" and re: "bt_repr s q tu"
    and di: "distinct (addrs tu)" "distinct (map snd (inorder tu))" and n: "length ks < 8"
    and kk: "kids_ok d ks cs" "kids_ok d (x # rks) rcs" "\<forall>c \<in> set rc. shape 4 d c"
  defines "t \<equiv> borrow_right a u r (length ks) s"
  shows "bt_repr t q (Node u (x # B) (Node a (ks @ [k]) (cs @ take 1 rcs) # Node r rks (tl rcs) # rc))"
    "z \<notin> set (addrs tu) \<Longrightarrow> septs t z = septs s z" "g \<notin> thnds tu \<Longrightarrow> h_parent t g = h_parent s g" "same_top s t"
proof -
  define y where "y = (if rcs = [] then None else Some (baddr (hd rcs)))"
  have h: "distinct (map snd (ks @ k # x # rks))" "hnds (ks @ k # x # rks) \<inter> hnds B = {}" "distinct (map snd B)"
    "\<And>c. c \<in> set (cs @ rcs @ rc) \<Longrightarrow> thnds c \<inter> (hnds (ks @ k # x # rks) \<union> hnds B) = {}"
    using sibling_handles [of u "[]" k B "[]" a ks cs r "x # rks" rcs rc d, unfolded append_Nil, OF di(2) [unfolded tu] kk] by blast+
  have nu: "node_at s u q (k # B) (Some a # Some r # map (Some \<circ> baddr) rc)" "\<forall>c \<in> set rc. bt_repr s (Some u) c"
    and na: "node_at s a (Some u) ks (ptrs ks cs)" "\<forall>c \<in> set cs. bt_repr s (Some a) c"
    and nr: "node_at s r (Some u) (x # rks) (y # ptrs rks (tl rcs))" "\<forall>c \<in> set rcs. bt_repr s (Some r) c"
    using re ptrs_Cons(1) [OF kk(2)] by (simp_all add: tu ptrs_def [of "k # B"] y_def)
  have ad: "a \<noteq> u" "a \<noteq> r" "u \<noteq> r" "\<forall>c \<in> set (cs @ rcs @ rc). set (addrs c) \<inter> {a, u, r} = {}"
      "distinct (concat (map addrs (cs @ rcs @ rc)))" using di(1) by (auto simp: tu)
  have y: "y = Some z \<longleftrightarrow> (\<exists>c \<in> set (take 1 rcs). z = baddr c)" for z by (cases rcs) (auto simp: y_def)
  have yn: "y \<noteq> Some a" "y \<noteq> Some u" "y \<noteq> Some r"
    using ad(4) baddr_addrs in_set_takeD unfolding y by (metis IntI Un_iff empty_iff insertCI set_append)+
  have hd: "distinct (map snd (ks @ k # x # B @ rks))" using h(1-3) by auto
  note e = borrow_right_nodes [OF na(1) nu(1) nr(1) n ad(1-3) yn hd, folded t_def]
  show "same_top s t" by (rule e(6))
  have eff: "septs t z = (if \<exists>c \<in> set (take 1 rcs). z = baddr c then (septs s z)\<lparr>s_parent := Some a\<rparr> else septs s z)"
    if "z \<notin> {a, u, r}" for z using e(4) [of z] that unfolding y by simp
  have th: "\<forall>c \<in> set (cs @ rcs @ rc). \<forall>g \<in> thnds c. h_parent t g = h_parent s g" using e(5) h(4) by (auto simp: disjoint_iff)
  have dc: "distinct (cs @ rcs @ rc)" using distinct_baddr [OF ad(5)] by (simp only: distinct_map)
  have mv: "bt_repr t (if c \<in> set (take 1 rcs) then Some a else par) c" if "c \<in> set (cs @ rcs @ rc)" "bt_repr s par c" for c par
    using that ad(4) by (intro kids_moved [OF ad(5) _ _ _ th, where X = "{a, u, r}"] eff) (auto dest: in_set_takeD)
  have keep: "bt_repr t par c" if "c \<in> set (cs @ tl rcs @ rc)" "bt_repr s par c" for c par
  proof -
    have "c \<notin> set (take 1 rcs)" "c \<in> set (cs @ rcs @ rc)" using that(1) dc by (cases rcs; auto)+
    then show ?thesis using mv [of c par] that(2) by simp
  qed
  have move: "bt_repr t (Some a) c" if "c \<in> set (take 1 rcs)" for c using mv [of c "Some r"] nr(2) that in_set_takeD [OF that] by auto
  have ys: "take 1 rcs = [] \<longleftrightarrow> cs = []" "\<forall>c \<in> set (take 1 rcs). shape 4 (d - 1) c"
    using kk(1,2) by (auto simp: kids_ok_def dest: in_set_takeD split: if_splits)
  have tlr: "set (tl rcs) \<subseteq> set rcs" by (cases rcs) auto
  have pt: "ptrs (ks @ [k]) (cs @ take 1 rcs) = ptrs ks cs @ [y]"
    using ptrs_add(1) [OF kk(1) ys(1) _ ys(2)] by (cases rcs) (simp_all add: y_def)
  show "bt_repr t q (Node u (x # B) (Node a (ks @ [k]) (cs @ take 1 rcs) # Node r rks (tl rcs) # rc))"
    using e(1-3) pt keep move na(2) nr(2) nu(2) tlr by (auto simp: ptrs_def [of "x # B"])
  show "septs t z = septs s z" if "z \<notin> set (addrs tu)"
  proof -
    have "z \<notin> {a, u, r}" "\<forall>c \<in> set (take 1 rcs). z \<noteq> baddr c" using that baddr_addrs by (auto simp: tu dest!: in_set_takeD)
    then show ?thesis using eff [of z] by simp
  qed
  show "h_parent t g = h_parent s g" if "g \<notin> thnds tu" using that e(5) [of g] by (auto simp: tu)
qed

lemma borrow_left_tree:
  assumes tu: "tu = Node u (A @ k # B) (lc @ Node l (lks @ [x]) lcs # Node a ks cs # rc)" and re: "bt_repr s q tu"
    and di: "distinct (addrs tu)" "distinct (map snd (inorder tu))" and n: "length ks < 8"
    and kk: "kids_ok d (lks @ [x]) lcs" "kids_ok d ks cs" "\<forall>c \<in> set (lc @ rc). shape 4 d c"
  defines "t \<equiv> borrow_left a u l (Suc (length A)) (Suc (length lks)) (length ks) s"
    and "ys \<equiv> (if lcs = [] then [] else [last lcs])"
  shows "bt_repr t q (Node u (A @ x # B) (lc @ Node l lks (butlast lcs) # Node a (k # ks) (ys @ cs) # rc))"
    "z \<notin> set (addrs tu) \<Longrightarrow> septs t z = septs s z" "g \<notin> thnds tu \<Longrightarrow> h_parent t g = h_parent s g" "same_top s t"
proof -
  define y where "y = (if lcs = [] then None else Some (baddr (last lcs)))"
  have h: "distinct (map snd ((lks @ [x]) @ k # ks))" "hnds ((lks @ [x]) @ k # ks) \<inter> hnds (A @ B) = {}" "distinct (map snd (A @ B))"
    "\<And>c. c \<in> set (lcs @ cs @ lc @ rc) \<Longrightarrow> thnds c \<inter> (hnds ((lks @ [x]) @ k # ks) \<union> hnds (A @ B)) = {}"
    using sibling_handles [OF di(2) [unfolded tu] kk] by blast+
  have nu: "node_at s u q (A @ k # B) (map (Some \<circ> baddr) lc @ Some l # Some a # map (Some \<circ> baddr) rc)" "\<forall>c \<in> set (lc @ rc). bt_repr s (Some u) c"
    and na: "node_at s a (Some u) ks (ptrs ks cs)" "\<forall>c \<in> set cs. bt_repr s (Some a) c"
    and nl: "node_at s l (Some u) (lks @ [x]) (ptrs lks (butlast lcs) @ [y])" "\<forall>c \<in> set lcs. bt_repr s (Some l) c"
    using re ptrs_snoc(1) [OF kk(1)] by (simp_all add: tu ptrs_def [of "A @ k # B"] y_def)
  have ad: "a \<noteq> u" "a \<noteq> l" "u \<noteq> l" "\<forall>c \<in> set (lcs @ cs @ lc @ rc). set (addrs c) \<inter> {a, u, l} = {}"
      "distinct (concat (map addrs (lcs @ cs @ lc @ rc)))" using di(1) by (auto simp: tu)
  have ysl: "set ys \<subseteq> set lcs" "length ys \<le> 1" "y = (if ys = [] then None else Some (baddr (hd ys)))"
    by (auto simp: ys_def y_def)
  have y: "y = Some z \<longleftrightarrow> (\<exists>c \<in> set ys. z = baddr c)" for z by (auto simp: y_def ys_def)
  have yn: "y \<noteq> Some a" "y \<noteq> Some u" "y \<noteq> Some l"
  proof -
    have "z \<notin> {a, u, l}" if yz: "y = Some z" for z
    proof -
      obtain c where "c \<in> set ys" "z = baddr c" using yz unfolding y by blast
      then show ?thesis using ad(4) ysl(1) baddr_addrs [of c] by auto
    qed
    then show "y \<noteq> Some a" "y \<noteq> Some u" "y \<noteq> Some l" by blast+
  qed
  have "distinct (map snd ((lks @ [x]) @ k # ks) @ map snd (A @ B))"
    unfolding distinct_append set_map using h(1-3) by blast
  moreover have "mset (map snd ((lks @ [x]) @ k # ks) @ map snd (A @ B)) = mset (map snd (ks @ k # x # A @ B @ lks))" by simp
  ultimately have hd: "distinct (map snd (ks @ k # x # A @ B @ lks))" using mset_eq_imp_distinct_iff by blast
  note e = borrow_left_nodes [OF na(1) nu(1) nl(1) n ad(1-3) yn hd, folded t_def]
  show "same_top s t" by (rule e(6))
  have eff: "septs t z = (if \<exists>c \<in> set ys. z = baddr c then (septs s z)\<lparr>s_parent := Some a\<rparr> else septs s z)"
    if "z \<notin> {a, u, l}" for z using e(4) [of z] that unfolding y by simp
  have th: "\<forall>c \<in> set (lcs @ cs @ lc @ rc). \<forall>g \<in> thnds c. h_parent t g = h_parent s g" using e(5) h(4) by (auto simp: disjoint_iff)
  have dc: "distinct (lcs @ cs @ lc @ rc)" using distinct_baddr [OF ad(5)] by (simp only: distinct_map)
  have mv: "bt_repr t (if c \<in> set ys then Some a else par) c" if "c \<in> set (lcs @ cs @ lc @ rc)" "bt_repr s par c" for c par
    using that ad(4) ysl(1) by (intro kids_moved [OF ad(5) _ _ _ th, where X = "{a, u, l}"] eff) auto
  have keep: "bt_repr t par c" if "c \<in> set (butlast lcs @ cs @ lc @ rc)" "bt_repr s par c" for c par
  proof -
    have "c \<notin> set ys" "c \<in> set (lcs @ cs @ lc @ rc)" using that(1) dc by (cases lcs rule: rev_cases; auto simp: ys_def)+
    then show ?thesis using mv [of c par] that(2) by simp
  qed
  have move: "bt_repr t (Some a) c" if "c \<in> set ys" for c using mv [of c "Some l"] nl(2) that ysl(1) by auto
  have ys: "ys = [] \<longleftrightarrow> cs = []" "\<forall>c \<in> set ys. shape 4 (d - 1) c"
    using kk(1,2) by (auto simp: kids_ok_def ys_def split: if_splits)
  have bl: "set (butlast lcs) \<subseteq> set lcs" using in_set_butlastD by fastforce
  have pt: "ptrs (k # ks) (ys @ cs) = y # ptrs ks cs"
    using ptrs_add(2) [OF kk(2) ys(1) ysl(2) ys(2)] by (simp add: ysl(3))
  show "bt_repr t q (Node u (A @ x # B) (lc @ Node l lks (butlast lcs) # Node a (k # ks) (ys @ cs) # rc))"
    using e(1-3) pt keep move na(2) nl(2) nu(2) bl by (auto simp: ptrs_def [of "A @ x # B"])
  show "septs t z = septs s z" if "z \<notin> set (addrs tu)"
  proof -
    have "z \<notin> {a, u, l}" "\<forall>c \<in> set ys. z \<noteq> baddr c" using that baddr_addrs ysl(1) by (auto simp: tu)
    then show ?thesis using eff [of z] by simp
  qed
  show "h_parent t g = h_parent s g" if "g \<notin> thnds tu" using that e(5) [of g] by (auto simp: tu)
qed

end
