(* ===== verification/Btree_Repop.thy ===== *)
theory Btree_Repop
  imports Btree_Borrow
begin

text \<open>
  The removal of \<open>btree_set\<close>, third part: \<open>repop_node\<close> restores the balance of a tree of which one node has one value too
  few, by induction on the path to the root.
\<close>

section \<open>Steps that keep the contents\<close>

text \<open>The memory holds the tree \<open>t\<close>, the reserve is \<open>res\<close>; nothing is said about the number of values of the nodes.\<close>

definition whole :: "('h, 'p, 't) btree_set \<Rightarrow> ('h, 'p) bt \<Rightarrow> nat list \<Rightarrow> bool" where
  "whole s t res \<longleftrightarrow> bt_repr s None t \<and> distinct (addrs t @ res) \<and> res_list s (sn_reserve s) res \<and>
     distinct (map snd (inorder t)) \<and> root_sept s = Some (baddr t) \<and> left_sept s = Some (leftaddr t)"

definition rebal ::
  "('h, 'p, 't) btree_set \<Rightarrow> ('h, 'p, 't) btree_set \<Rightarrow> ('h, 'p) bt \<Rightarrow> ('h, 'p) bt \<Rightarrow> nat list \<Rightarrow> nat list \<Rightarrow> bool" where
  "rebal s s' t t' res res' \<longleftrightarrow> whole s' t' res' \<and> inorder t' = inorder t \<and> mset (addrs t' @ res') = mset (addrs t @ res) \<and>
     same_hdr s s' \<and> (\<forall>g. g \<notin> hnds (inorder t) \<longrightarrow> h_parent s' g = h_parent s g)"

lemma rebal_refl: "whole s t res \<Longrightarrow> rebal s s t t res res"
  by (simp add: rebal_def)

lemma rebal_trans: "rebal s s' t t' r r' \<Longrightarrow> rebal s' s'' t' t'' r' r'' \<Longrightarrow> rebal s s'' t t'' r r''"
  by (auto simp: rebal_def intro: same_trans)

lemma rebal_whole: "rebal s s' t t' r r' \<Longrightarrow> whole s' t' r'"
  by (simp add: rebal_def)

lemma whole_at:
  assumes w: "whole s (plug K tu) res" and K: "ctx_shape d K"
  shows "bt_repr s (ctx_parent K) tu" "ctx_repr s (baddr tu) K" "res_list s (sn_reserve s) res" "distinct (map snd (inorder tu))"
    "distinct (addrs tu @ ctx_addrs K @ res)" "distinct (addrs tu)" "set (addrs tu) \<inter> set res = {}"
proof -
  have "mset (addrs (plug K tu) @ res) = mset (addrs tu @ ctx_addrs K @ res)" by (simp add: mset_addrs_plug)
  then show d: "distinct (addrs tu @ ctx_addrs K @ res)" using w mset_eq_imp_distinct_iff unfolding whole_def by blast
  then show "distinct (addrs tu)" "set (addrs tu) \<inter> set res = {}" by auto
  show "distinct (map snd (inorder tu))" using w ctx_shape_wf [OF K] by (simp add: whole_def inorder_plug)
  show "bt_repr s (ctx_parent K) tu" "ctx_repr s (baddr tu) K" "res_list s (sn_reserve s) res" using w by (simp_all add: whole_def bt_repr_plug)
qed

text \<open>A change of a subtree, in its context.\<close>

lemma plug_rebal:
  assumes w: "whole s (plug K tu) res" and K: "ctx_shape d K" and tu: "thnds tu = hnds (inorder tu)"
    and re: "bt_repr s' (ctx_parent K) tu'" "baddr tu' = baddr tu" "inorder tu' = inorder tu" "leftaddr tu' = leftaddr tu"
    and ms: "mset (addrs tu' @ res') = mset (addrs tu @ res)" and rl: "res_list s' (sn_reserve s') res'"
    and eff: "\<And>x. x \<notin> set (addrs tu) \<Longrightarrow> x \<notin> set res \<Longrightarrow> septs s' x = septs s x" "\<And>g. g \<notin> thnds tu \<Longrightarrow> h_parent s' g = h_parent s g"
    and hd: "root_sept s' = root_sept s" "same_hdr s s'"
  shows "rebal s s' (plug K tu) (plug K tu') res res'"
proof -
  have wf: "ctx_wf K" using K by (rule ctx_shape_wf)
  have io: "inorder (plug K tu') = inorder (plug K tu)" using wf re(3) by (simp add: inorder_plug)
  note da = whole_at(5) [OF w K]
  have m': "mset (addrs (plug K tu') @ res') = mset (addrs (plug K tu) @ res)" using ms by (simp add: mset_addrs_plug)
  have "distinct (map snd (ctx_left K @ inorder tu @ ctx_right K))" using w wf by (simp add: whole_def inorder_plug)
  then have hk: "ctx_hnds K \<inter> thnds tu = {}" using ctx_hnds_eq [OF K] tu by auto
  have "set (ctx_addrs K) \<inter> (set (addrs tu) \<union> set res) = {}" using da by auto
  then have "\<forall>x \<in> set (ctx_addrs K). septs s' x = septs s x" "\<forall>g \<in> ctx_hnds K. h_parent s' g = h_parent s g" using eff hk by blast+
  then have "ctx_repr s' (baddr tu') K = ctx_repr s (baddr tu) K" unfolding re(2) by (rule ctx_repr_cong)
  then have "bt_repr s' None (plug K tu')" using w re(1) by (simp add: whole_def bt_repr_plug)
  moreover have "distinct (addrs (plug K tu') @ res')" using w m' mset_eq_imp_distinct_iff unfolding whole_def by blast
  moreover have "left_sept s' = Some (leftaddr (plug K tu'))"
    using w hd(2) leftaddr_plug_cong [OF re(4)] by (simp add: whole_def same_hdr_def)
  moreover have "root_sept s' = Some (baddr (plug K tu'))" using w hd(1) re(2) by (simp add: whole_def baddr_plug)
  ultimately have "whole s' (plug K tu') res'" using w rl io by (simp add: whole_def)
  moreover have "\<forall>g. g \<notin> hnds (inorder (plug K tu)) \<longrightarrow> h_parent s' g = h_parent s g"
    using eff(2) tu wf by (auto simp: inorder_plug)
  ultimately show ?thesis using io m' hd(2) by (simp add: rebal_def)
qed

text \<open>The node above the two siblings.\<close>

lemma siblings_hnds:
  assumes "tu = Node u (A @ k # B) (lc @ Node l lks lcs # Node r rks rcs # rc)" "length lc = length A" "length rc = length B"
    and "kids_ok d lks lcs" "kids_ok d rks rcs" "\<forall>c \<in> set (lc @ rc). shape 4 d c"
  shows "thnds tu = hnds (inorder tu)"
proof -
  have l: "thnds (Node x ks cs) = hnds (inorder (Node x ks cs))" if "kids_ok d ks cs" for x ks cs
    using weave_hnds [OF that] by simp
  have c: "thnds c = hnds (inorder c)" if "c \<in> set (lc @ rc)" for c using assms(6) that thnds_inorder [of 4 d c] by blast
  have "\<forall>c \<in> set (bkids tu). thnds c = hnds (inorder c)" using c l [OF assms(4)] l [OF assms(5)] by (auto simp: assms(1))
  moreover have "length (map inorder (bkids tu)) \<le> Suc (length (bkvs tu))" using assms(2,3) by (simp add: assms(1))
  then have "set (inorder tu) = \<Union> (set (map set (map inorder (bkids tu)))) \<union> set (bkvs tu)"
    using set_weave [of "map inorder (bkids tu)" "bkvs tu"] by (cases tu) simp
  moreover have "thnds tu = hnds (bkvs tu) \<union> \<Union> (thnds ` set (bkids tu))" by (cases tu) simp
  ultimately show ?thesis by (simp add: image_Un image_UN Un_commute)
qed

lemma siblings_inorder:
  assumes "length lc = length A" "length rc = length B"
  shows "inorder (Node u (A @ k # B) (lc @ t1 # t2 # rc)) =
    weave (map inorder lc) A @ (inorder t1 @ k # inorder t2) @ weave ([] # map inorder rc) B"
  using frame_weave [OF assms, of t1 t2 k] by simp

lemma siblings_inorder_first:
  "length rc = length B \<Longrightarrow> inorder (Node u (k # B) (t1 # t2 # rc)) = (inorder t1 @ k # inorder t2) @ weave ([] # map inorder rc) B"
  by (simp add: weave_hd [of "inorder t2"])

text \<open>A merge below a node that keeps at least one value.\<close>

lemma merge_weave:
  assumes "kids_ok d lks lcs" "kids_ok d rks rcs"
  shows "weave (map inorder (lcs @ rcs)) (lks @ k # rks) = weave (map inorder lcs) lks @ k # weave (map inorder rcs) rks"
proof (cases "lcs = []")
  case True
  then show ?thesis using assms by (auto simp: kids_ok_def split: if_splits)
next
  case False
  then obtain c cs where c: "lcs = cs @ [c]" "length cs = length lks" using assms(1)
    by (cases lcs rule: rev_cases) (auto simp: kids_ok_def split: if_splits)
  have "weave (map inorder (cs @ [c])) (lks @ []) = weave (map inorder cs) lks @ weave [inorder c] []"
    using weave_append [of "map inorder cs" lks "[inorder c]" "[]"] c(2) by simp
  moreover have "weave (map inorder cs @ inorder c # map inorder rcs) (lks @ k # rks) =
      weave (map inorder cs) lks @ weave (inorder c # map inorder rcs) (k # rks)"
    using c(2) by (intro weave_append) simp
  ultimately show ?thesis by (simp add: c(1))
qed

lemma leftaddr_merge: "kids_ok d lks lcs \<Longrightarrow> kids_ok d rks rcs \<Longrightarrow> leftaddr (Node l (lks @ k # rks) (lcs @ rcs)) = leftaddr (Node l lks lcs)"
  by (cases lcs) (auto simp: kids_ok_def split: if_splits)

lemma merge_step:
  assumes tu: "tu = Node u (A @ k # B) (lc @ Node l lks lcs # Node r rks rcs # rc)" and w: "whole s (plug K tu) res"
    and K: "ctx_shape (Suc d) K" and lp: "length lc = length A" "length rc = length B" and len: "length lks + length rks < 8"
    and kk: "kids_ok d lks lcs" "kids_ok d rks rcs" "\<forall>c \<in> set (lc @ rc). shape 4 d c" and ne: "A @ B \<noteq> []"
  defines "tu' \<equiv> Node u (A @ B) (lc @ Node l (lks @ k # rks) (lcs @ rcs) # rc)"
  shows "\<exists>s'. merge l r (length A) s = Some s' \<and> rebal s s' (plug K tu) (plug K tu') res (r # res)"
proof -
  note at = whole_at [OF w K]
  obtain t where t: "merge l r (length A) s = Some t" "bt_repr t (ctx_parent K) tu'" "\<forall>x. x \<notin> set (addrs tu) \<longrightarrow> septs t x = septs s x"
      "\<forall>y. y \<notin> hnds (lks @ k # rks) \<longrightarrow> h_parent t y = h_parent s y" "res_list t (sn_reserve t) (r # res)"
      "root_sept t = root_sept s" "same_hdr s t"
    using merge_tree [OF tu at(1,6,4) lp len kk at(3,7)] ne unfolding tu'_def by auto
  have "rebal s t (plug K tu) (plug K tu') res (r # res)"
  proof (rule plug_rebal [OF w K siblings_hnds [OF tu lp kk] t(2)])
    show "inorder tu' = inorder tu"
      using siblings_inorder [OF lp, of u k "Node l lks lcs" "Node r rks rcs"] merge_weave [OF kk(1,2), of k] lp
      by (simp add: tu tu'_def weave_append weave_hd [of "weave _ _ @ _"] weave_hd [of "_ @ _"])
    show "leftaddr tu' = leftaddr tu" using leftaddr_merge [OF kk(1,2)] unfolding tu tu'_def by (intro leftaddr_split(2))
    show "mset (addrs tu' @ r # res) = mset (addrs tu @ res)" by (simp add: tu tu'_def)
    show "h_parent t g = h_parent s g" if "g \<notin> thnds tu" for g using that t(4) by (auto simp: tu)
  qed (use t in \<open>simp_all add: tu tu'_def\<close>)
  then show ?thesis using t(1) by blast
qed

text \<open>A merge that leaves the root empty: the merged node becomes the root.\<close>

lemma merge_root:
  assumes tu: "tu = Node u [k] [Node l lks lcs, Node r rks rcs]" and w: "whole s tu res" and len: "length lks + length rks < 8"
    and kk: "kids_ok d lks lcs" "kids_ok d rks rcs"
  defines "tm \<equiv> Node l (lks @ k # rks) (lcs @ rcs)"
  shows "\<exists>s'. merge l r 0 s = Some s' \<and> rebal s s' tu tm res (u # r # res)"
proof -
  have "whole s (plug [] tu) res" "ctx_shape d []" using w by simp_all
  note at = whole_at [OF this]
  have tu': "tu = Node u ([] @ k # []) ([] @ Node l lks lcs # Node r rks rcs # [])" by (simp add: tu)
  obtain t where t: "merge l r 0 s = Some (set_parent l None ((release_sept u t)\<lparr>root_sept := Some l\<rparr>))" "bt_repr t None (Node u [] [tm])"
      "\<forall>x. x \<notin> set (addrs tu) \<longrightarrow> septs t x = septs s x" "\<forall>y. y \<notin> hnds (lks @ k # rks) \<longrightarrow> h_parent t y = h_parent s y"
      "res_list t (sn_reserve t) (r # res)" "same_hdr s t"
    using merge_tree [OF tu' at(1,6,4) _ _ len kk _ at(3,7)] unfolding tm_def by auto
  define s' where "s' = set_parent l None ((release_sept u t)\<lparr>root_sept := Some l\<rparr>)"
  have ad: "u \<noteq> l" "u \<noteq> r" "l \<noteq> r" "u \<notin> set (addrs tm)" "r \<notin> set (addrs tm)" "u \<notin> set (r # res)" "l \<notin> set (u # r # res)" "distinct (addrs tm)"
    using at(5) by (auto simp: tu tm_def)
  note rel = release_sept_ok [OF t(5) ad(6)]
  have se: "septs s' x = (if x = l then (septs t l)\<lparr>s_parent := None\<rparr> else if x = u then (septs t u)\<lparr>s_parent := sn_reserve t\<rparr> else septs t x)" for x
    using ad(1) rel(3) by (simp add: s'_def set_parent_def upn_def)
  have hd: "h_parent s' = h_parent t" "root_sept s' = Some l" "sn_reserve s' = sn_reserve (release_sept u t)" "same_hdr s s'"
    using rel t(6) by (simp_all add: s'_def set_parent_def upn_def same_hdr_def)
  have "bt_repr t (Some u) tm" using t(2) by simp
  then have re: "bt_repr s' None tm"
  proof (rule bt_repr_reparent [OF _ _ ad(8)])
    show "\<forall>x \<in> set (addrs tm) - {baddr tm}. septs s' x = septs t x" using ad(4) se by (auto simp: tm_def)
  qed (use se hd(1) in \<open>simp_all add: tm_def\<close>)
  have "res_list s' (sn_reserve s') (u # r # res) = res_list (release_sept u t) (sn_reserve s') (u # r # res)"
    using ad(7) rel(3) by (intro res_list_cong) (auto simp: se)
  then have rl: "res_list s' (sn_reserve s') (u # r # res)" using rel(1) by (simp add: hd(3))
  have io: "inorder tm = inorder tu" using merge_weave [OF kk, of k] by (simp add: tu tm_def)
  have ms: "mset (addrs tm @ u # r # res) = mset (addrs tu @ res)" by (simp add: tu tm_def)
  have "distinct (addrs tm @ u # r # res)" using w ms mset_eq_imp_distinct_iff unfolding whole_def by blast
  moreover have "left_sept s' = Some (leftaddr tm)"
    using w hd(4) leftaddr_merge [OF kk, of l k] by (simp add: whole_def same_hdr_def tu tm_def)
  ultimately have "whole s' tm (u # r # res)" using w re rl io hd(2) by (simp add: whole_def tm_def)
  moreover have "\<forall>g. g \<notin> hnds (inorder tu) \<longrightarrow> h_parent s' g = h_parent s g"
  proof -
    have "thnds tu = hnds (inorder tu)" using siblings_hnds [OF tu' _ _ kk] by simp
    moreover have "hnds (lks @ k # rks) \<subseteq> thnds tu" by (auto simp: tu)
    ultimately show ?thesis using t(4) hd(1) by (metis subsetD)
  qed
  ultimately show ?thesis using t(1) io ms hd(4) by (auto simp: rebal_def s'_def)
qed

text \<open>Borrowing, in the context.\<close>

lemma weave_snoc:
  assumes "length xs = Suc (length ks)"
  shows "weave xs (ks @ [k]) = weave xs ks @ [k]" "weave (xs @ [y]) (ks @ [k]) = weave xs ks @ k # y"
proof -
  obtain xs' x where x: "xs = xs' @ [x]" "length xs' = length ks" using assms by (cases xs rule: rev_cases) auto
  show "weave xs (ks @ [k]) = weave xs ks @ [k]"
    using weave_append [of xs' ks "[x]" "[k]"] weave_append [of xs' ks "[x]" "[]"] x by simp
  show "weave (xs @ [y]) (ks @ [k]) = weave xs ks @ k # y"
    using weave_append [of xs' ks "[x, y]" "[k]"] weave_append [of xs' ks "[x]" "[]"] x by simp
qed

lemma borrow_weave:
  "kids_ok d ks cs \<Longrightarrow> kids_ok d (x # rks) rcs \<Longrightarrow>
   inorder (Node a (ks @ [k]) (cs @ take 1 rcs)) @ x # inorder (Node r rks (tl rcs)) =
   inorder (Node a ks cs) @ k # inorder (Node r (x # rks) rcs)"
  "kids_ok d (lks @ [x]) lcs \<Longrightarrow> kids_ok d ks cs \<Longrightarrow>
   inorder (Node l lks (butlast lcs)) @ x # inorder (Node a (k # ks) ((if lcs = [] then [] else [last lcs]) @ cs)) =
   inorder (Node l (lks @ [x]) lcs) @ k # inorder (Node a ks cs)"
proof -
  show "inorder (Node a (ks @ [k]) (cs @ take 1 rcs)) @ x # inorder (Node r rks (tl rcs)) =
     inorder (Node a ks cs) @ k # inorder (Node r (x # rks) rcs)" if "kids_ok d ks cs" "kids_ok d (x # rks) rcs"
    using that weave_snoc(2) [of "map inorder cs" ks] by (cases rcs) (auto simp: kids_ok_def split: if_splits)
  show "inorder (Node l lks (butlast lcs)) @ x # inorder (Node a (k # ks) ((if lcs = [] then [] else [last lcs]) @ cs)) =
     inorder (Node l (lks @ [x]) lcs) @ k # inorder (Node a ks cs)" if "kids_ok d (lks @ [x]) lcs" "kids_ok d ks cs"
    using that weave_snoc(2) [of "map inorder (butlast lcs)" lks] by (cases lcs rule: rev_cases) (auto simp: kids_ok_def split: if_splits)
qed

lemma borrow_right_step:
  assumes tu: "tu = Node u (k # B) (Node a ks cs # Node r (x # rks) rcs # rc)" and w: "whole s (plug K tu) res"
    and K: "ctx_shape (Suc d) K" and lp: "length rc = length B" and n: "length ks < 8"
    and kk: "kids_ok d ks cs" "kids_ok d (x # rks) rcs" "\<forall>c \<in> set rc. shape 4 d c"
  defines "tu' \<equiv> Node u (x # B) (Node a (ks @ [k]) (cs @ take 1 rcs) # Node r rks (tl rcs) # rc)"
  shows "rebal s (borrow_right a u r (length ks) s) (plug K tu) (plug K tu') res res"
proof -
  note at = whole_at [OF w K]
  note b = borrow_right_tree [OF tu at(1,6,4) n kk, folded tu'_def]
  let ?t = "borrow_right a u r (length ks) s"
  have ys: "take 1 rcs = [] \<longleftrightarrow> cs = []" using kk(1,2) by (auto simp: kids_ok_def split: if_splits)
  have tu0: "tu = Node u ([] @ k # B) ([] @ Node a ks cs # Node r (x # rks) rcs # rc)" by (simp add: tu)
  have hn: "thnds tu = hnds (inorder tu)" using siblings_hnds [OF tu0 _ lp kk(1,2)] kk(3) by simp
  show ?thesis
  proof (rule plug_rebal [OF w K hn b(1)])
    show "inorder tu' = inorder tu"
      unfolding tu tu'_def siblings_inorder_first [OF lp] borrow_weave(1) [OF kk(1,2)] ..
    show "leftaddr tu' = leftaddr tu" using ys by (cases cs) (auto simp: tu tu'_def)
    show "mset (addrs tu' @ res) = mset (addrs tu @ res)" by (cases rcs) (simp_all add: tu tu'_def)
    have "\<forall>x \<in> set res. septs ?t x = septs s x" using b(2) at(7) by blast
    then have "res_list ?t (sn_reserve s) res = res_list s (sn_reserve s) res" by (intro res_list_cong) simp
    then show "res_list ?t (sn_reserve ?t) res" using b(4) at(3) by (simp add: same_top_def)
  qed (use b in \<open>simp_all add: tu tu'_def same_top_def\<close>)
qed

lemma borrow_left_step:
  assumes tu: "tu = Node u (A @ k # B) (lc @ Node l (lks @ [x]) lcs # Node a ks cs # rc)" and w: "whole s (plug K tu) res"
    and K: "ctx_shape (Suc d) K" and lp: "length lc = length A" "length rc = length B" and n: "length ks < 8"
    and kk: "kids_ok d (lks @ [x]) lcs" "kids_ok d ks cs" "\<forall>c \<in> set (lc @ rc). shape 4 d c"
    and ys: "ys = (if lcs = [] then [] else [last lcs])"
  defines "tu' \<equiv> Node u (A @ x # B) (lc @ Node l lks (butlast lcs) # Node a (k # ks) (ys @ cs) # rc)"
  shows "rebal s (borrow_left a u l (Suc (length A)) (Suc (length lks)) (length ks) s) (plug K tu) (plug K tu') res res"
proof -
  note at = whole_at [OF w K]
  note b = borrow_left_tree [OF tu at(1,6,4) n kk, folded ys, folded tu'_def]
  let ?t = "borrow_left a u l (Suc (length A)) (Suc (length lks)) (length ks) s"
  show ?thesis
  proof (rule plug_rebal [OF w K siblings_hnds [OF tu lp kk] b(1)])
    show "inorder tu' = inorder tu"
      unfolding tu tu'_def siblings_inorder [OF lp] ys borrow_weave(2) [OF kk(1,2)] ..
    have "leftaddr (Node l lks (butlast lcs)) = leftaddr (Node l (lks @ [x]) lcs)"
      using kk(1) by (cases lcs; cases "tl lcs") (auto simp: kids_ok_def split: if_splits)
    then show "leftaddr tu' = leftaddr tu" unfolding tu tu'_def by (intro leftaddr_split(2))
    show "mset (addrs tu' @ res) = mset (addrs tu @ res)" by (cases lcs rule: rev_cases) (simp_all add: tu tu'_def ys)
    have "\<forall>x \<in> set res. septs ?t x = septs s x" using b(2) at(7) by blast
    then have "res_list ?t (sn_reserve s) res = res_list s (sn_reserve s) res" by (intro res_list_cong) simp
    then show "res_list ?t (sn_reserve ?t) res" using b(4) at(3) by (simp add: same_top_def)
  qed (use b in \<open>simp_all add: tu tu'_def same_top_def\<close>)
qed

section \<open>One level\<close>

text \<open>
  The outcome of one round at a node whose parent is \<open>u\<close>: the tree is balanced again, or the parent has one value less.
\<close>

definition balanced :: "('h, 'p, 't) btree_set \<Rightarrow> ('h, 'p, 't) btree_set \<Rightarrow> ('h, 'p) bt \<Rightarrow> nat list \<Rightarrow> bool" where
  "balanced s s' t res \<longleftrightarrow> (\<exists>t' res' d. rebal s s' t t' res res' \<and> shape 1 d t')"

definition one_less ::
  "('h, 'p, 't) btree_set \<Rightarrow> ('h, 'p, 't) btree_set \<Rightarrow> ('h, 'p) frame list \<Rightarrow> ('h, 'p) bt \<Rightarrow> nat \<Rightarrow> nat list \<Rightarrow> bool" where
  "one_less s s' K tu d res \<longleftrightarrow> (\<exists>ks cs res'. rebal s s' (plug K tu) (plug K (Node (baddr tu) ks cs)) res res' \<and>
     kids_ok d ks cs \<and> Suc (length ks) = length (bkvs tu) \<and> ks \<noteq> [])"

lemma merge_level:
  assumes tu: "tu = Node u (A @ k # B) (lc @ Node l lks lcs # Node r rks rcs # rc)" and w: "whole s (plug K tu) res"
    and K: "ctx_shape (Suc d) K" and lp: "length lc = length A" "length rc = length B" and len: "length lks + length rks = 7"
    and kk: "kids_ok d lks lcs" "kids_ok d rks rcs" "\<forall>c \<in> set (lc @ rc). shape 4 d c" and le: "least K \<le> length (A @ k # B)"
  shows "\<exists>s'. merge l r (length A) s = Some s' \<and>
    (s_parent (septs s' l) = None \<and> balanced s s' (plug K tu) res \<or> s_parent (septs s' l) = Some u \<and> one_less s s' K tu (Suc d) res)"
proof (cases "A @ B = []")
  case True
  then have e: "A = []" "B = []" "lc = []" "rc = []" "K = []" using lp le by (auto split: if_splits)
  have tu': "tu = Node u [k] [Node l lks lcs, Node r rks rcs]" "whole s tu res" using tu w e by simp_all
  obtain s' where s': "merge l r 0 s = Some s'" "rebal s s' tu (Node l (lks @ k # rks) (lcs @ rcs)) res (u # r # res)"
    using merge_root [OF tu' _ kk(1,2)] len by auto
  have "shape 1 d (Node l (lks @ k # rks) (lcs @ rcs))" using ptrs_merge(2) [OF kk(1,2)] len by (intro kids_shape) auto
  moreover have "s_parent (septs s' l) = None" using rebal_whole [OF s'(2)] by (simp add: whole_def node_at_def)
  ultimately show ?thesis using s' unfolding balanced_def e by auto
next
  case False
  let ?tu = "Node u (A @ B) (lc @ Node l (lks @ k # rks) (lcs @ rcs) # rc)"
  obtain s' where s': "merge l r (length A) s = Some s'" "rebal s s' (plug K tu) (plug K ?tu) res (r # res)"
    using merge_step [OF tu w K lp _ kk False] len by auto
  have "shape 4 d (Node l (lks @ k # rks) (lcs @ rcs))" using ptrs_merge(2) [OF kk(1,2)] len by (intro kids_shape) auto
  then have "kids_ok (Suc d) (A @ B) (lc @ Node l (lks @ k # rks) (lcs @ rcs) # rc)" using kk(3) lp by (auto simp: kids_ok_def)
  then have "one_less s s' K tu (Suc d) res" using s'(2) False unfolding one_less_def
    by (intro exI [of _ "A @ B"] exI [of _ "lc @ Node l (lks @ k # rks) (lcs @ rcs) # rc"] exI [of _ "r # res"]) (simp add: tu)
  moreover have "bt_repr s' (ctx_parent K) ?tu" using rebal_whole [OF s'(2)] K whole_at(1) by blast
  then have "s_parent (septs s' l) = Some u" by (simp add: node_at_def)
  ultimately show ?thesis using s'(1) by blast
qed

lemma borrowed:
  assumes "rebal s s' (plug K tu) (plug K (Node u ks cs)) res res'" "ctx_shape (Suc d) K" "kids_ok (Suc d) ks cs" "least K \<le> length ks" "length ks \<le> 8"
  shows "balanced s s' (plug K tu) res"
proof -
  have "\<exists>d'. shape 1 d' (plug K (Node u ks cs))" using assms(2-5) by (intro shape_plug [of "Suc d"] kids_shape)
  then show ?thesis using assms(1) unfolding balanced_def by blast
qed

text \<open>What the two cases of \<open>repop_step\<close> give.\<close>

definition level_ok ::
  "('h, 'p, 't) btree_set \<Rightarrow> ('h, 'p) frame list \<Rightarrow> ('h, 'p) bt \<Rightarrow> nat \<Rightarrow> nat list \<Rightarrow>
   (('h, 'p, 't) btree_set + nat \<times> ('h, 'p, 't) btree_set) option \<Rightarrow> bool" where
  "level_ok s K tu d res r \<longleftrightarrow>
     (\<exists>s'. r = Some (Inl s') \<and> balanced s s' (plug K tu) res) \<or>
     (\<exists>x s'. r = Some (Inr (x, s')) \<and> (s_parent (septs s' x) = None \<and> balanced s s' (plug K tu) res \<or>
        s_parent (septs s' x) = Some (baddr tu) \<and> one_less s s' K tu d res))"

lemma level_first:
  assumes tu: "tu = Node u (k # B) (Node a ks cs # Node r rks rcs # rc)" and w: "whole s (plug K tu) res"
    and K: "ctx_shape (Suc d) K" and lp: "length rc = length B" and n: "length ks = 3" "4 \<le> length rks" "length rks \<le> 8"
    and kk: "kids_ok d ks cs" "kids_ok d rks rcs" "\<forall>c \<in> set rc. shape 4 d c" and le: "least K \<le> length (k # B)" "length (k # B) \<le> 8"
  shows "level_ok s K tu (Suc d) res (repop_step a u 3 s)"
proof -
  have re: "bt_repr s (ctx_parent K) tu" using whole_at(1) [OF w K] .
  have nu: "node_at s u (ctx_parent K) (k # B) (Some a # Some r # map (Some \<circ> baddr) rc)" and nr: "node_at s r (Some u) rks (ptrs rks rcs)"
    using re by (simp_all add: tu ptrs_def [of "k # B"])
  have ch: "s_ch (septs s u) 0 = Some a" "s_ch (septs s u) 1 = Some r"
    using node_atD(7) [OF nu, of 0] node_atD(7) [OF nu, of 1] by simp_all
  note nv = num_vals_node [OF nr]
  show ?thesis
  proof (cases "length rks = 4")
    case True
    have tu0: "tu = Node u ([] @ k # B) ([] @ Node a ks cs # Node r rks rcs # rc)" by (simp add: tu)
    obtain s' where "merge a r (length []) s = Some s'"
        "s_parent (septs s' a) = None \<and> balanced s s' (plug K tu) res \<or> s_parent (septs s' a) = Some u \<and> one_less s s' K tu (Suc d) res"
      using merge_level [OF tu0 w K _ lp _ kk(1,2)] n True kk(3) le by auto
    then show ?thesis using ch nv True by (auto simp: level_ok_def repop_step_def N_def tu)
  next
    case False
    then obtain x rks' where x: "rks = x # rks'" "4 \<le> length rks'" using n by (cases rks) auto
    let ?t = "borrow_right a u r 3 s" and ?tr = "Node r rks' (tl rcs)" and ?ta = "Node a (ks @ [k]) (cs @ take 1 rcs)"
    have rb: "rebal s ?t (plug K tu) (plug K (Node u (x # B) (?ta # ?tr # rc))) res res"
      using borrow_right_step [OF tu [unfolded x(1)] w K lp _ kk(1) kk(2) [unfolded x(1)] kk(3)] n(1) by simp
    have ys: "take 1 rcs = [] \<longleftrightarrow> cs = []" "\<forall>c \<in> set (take 1 rcs). shape 4 (d - 1) c"
      using kk(1,2) by (auto simp: kids_ok_def dest: in_set_takeD split: if_splits)
    have "shape 4 d ?ta" using ptrs_add(3) [OF kk(1) ys(1) _ ys(2)] n(1) by (intro kids_shape) auto
    moreover have "shape 4 d ?tr" using ptrs_Cons(2) [OF kk(2) [unfolded x(1)]] x n(3) by (intro kids_shape) auto
    ultimately have "kids_ok (Suc d) (x # B) (?ta # ?tr # rc)" using kk(3) lp by (auto simp: kids_ok_def)
    then have "balanced s ?t (plug K tu) res" using le by (intro borrowed [OF rb K]) auto
    moreover have "repop_step a u 3 s = Some (Inl ?t)" using ch nv x by (simp add: repop_step_def N_def)
    ultimately show ?thesis by (simp add: level_ok_def)
  qed
qed

lemma child_index_eq:
  "(\<And>j. m \<le> j \<Longrightarrow> j < i \<Longrightarrow> s_ch n j \<noteq> Some a) \<Longrightarrow> (i < 8 \<Longrightarrow> s_ch n i = Some a) \<Longrightarrow> m \<le> i \<Longrightarrow> i \<le> 8 \<Longrightarrow> child_index n a m = i"
proof (induction "i - m" arbitrary: m)
  case 0
  then show ?case by (subst child_index.simps) (auto simp: N_def)
next
  case (Suc j)
  then have "child_index n a (m + 1) = i" by (intro Suc.hyps(1)) auto
  then show ?case using Suc by (subst child_index.simps) (auto simp: N_def)
qed

lemma level_later:
  assumes tu: "tu = Node u (A @ k # B) (lc @ Node l lks lcs # Node a ks cs # rc)" and w: "whole s (plug K tu) res"
    and K: "ctx_shape (Suc d) K" and lp: "length lc = length A" "length rc = length B" and n: "length ks = 3" "4 \<le> length lks" "length lks \<le> 8"
    and kk: "kids_ok d lks lcs" "kids_ok d ks cs" "\<forall>c \<in> set (lc @ rc). shape 4 d c" and le: "least K \<le> length (A @ k # B)" "length (A @ k # B) \<le> 8"
  shows "level_ok s K tu (Suc d) res (repop_step a u 3 s)"
proof -
  note at = whole_at [OF w K]
  let ?p = "map (Some \<circ> baddr) (lc @ Node l lks lcs # Node a ks cs # rc)" and ?i = "Suc (length A)"
  have nu: "node_at s u (ctx_parent K) (A @ k # B) ?p" and nl: "node_at s l (Some u) lks (ptrs lks lcs)"
    using at(1) by (simp_all add: tu ptrs_def [of "A @ k # B"])
  have "distinct (map baddr (lc @ Node l lks lcs # Node a ks cs # rc))" using at(6) by (intro distinct_baddr) (simp add: tu)
  then have "distinct (map Some (map baddr (lc @ Node l lks lcs # Node a ks cs # rc)))" using distinct_map [of Some] inj_Some by blast
  then have da: "distinct ?p" unfolding map_map .
  have ne: "s_ch (septs s u) j \<noteq> Some a" if "j < ?i" for j
  proof -
    have "s_ch (septs s u) j = ?p ! j" using node_atD(7) [OF nu, of j] that by simp
    moreover have "?p ! ?i = Some a" using lp by (simp add: nth_append)
    moreover have "?p ! j \<noteq> ?p ! ?i" using that lp nth_eq_iff_index_eq [OF da, of j ?i] by simp
    ultimately show ?thesis by simp
  qed
  have ch: "s_ch (septs s u) ?i = Some a" "s_ch (septs s u) (length A) = Some l"
    using node_atD(7) [OF nu, of ?i] node_atD(7) [OF nu, of "length A"] lp by (simp_all add: nth_append)
  have ci: "child_index (septs s u) a 1 = ?i" using ne ch(1) le by (intro child_index_eq) auto
  have c0: "s_ch (septs s u) 0 \<noteq> Some a" using ne [of 0] by simp
  note nv = num_vals_node [OF nl]
  show ?thesis
  proof (cases "length lks = 4")
    case True
    obtain s' where "merge l a (length A) s = Some s'"
        "s_parent (septs s' l) = None \<and> balanced s s' (plug K tu) res \<or> s_parent (septs s' l) = Some u \<and> one_less s s' K tu (Suc d) res"
      using merge_level [OF tu w K lp _ kk le(1)] n True by auto
    then show ?thesis using c0 ci ch nv True by (auto simp: level_ok_def repop_step_def N_def tu Let_def)
  next
    case False
    then obtain x lks' where x: "lks = lks' @ [x]" "4 \<le> length lks'" using n by (cases lks rule: rev_cases) auto
    let ?t = "borrow_left a u l ?i (Suc (length lks')) 3 s" and ?tl = "Node l lks' (butlast lcs)"
    define ys where "ys = (if lcs = [] then [] else [last lcs])"
    let ?ta = "Node a (k # ks) (ys @ cs)"
    have rb: "rebal s ?t (plug K tu) (plug K (Node u (A @ x # B) (lc @ ?tl # ?ta # rc))) res res"
      using borrow_left_step [OF tu [unfolded x(1)] w K lp _ kk(1) [unfolded x(1)] kk(2,3) ys_def] n(1) by simp
    have ys: "ys = [] \<longleftrightarrow> cs = []" "length ys \<le> 1" "\<forall>c \<in> set ys. shape 4 (d - 1) c"
      using kk(1,2) by (auto simp: kids_ok_def ys_def split: if_splits)
    have "shape 4 d ?ta" using ptrs_add(4) [OF kk(2) ys] n(1) by (intro kids_shape) auto
    moreover have "shape 4 d ?tl" using ptrs_snoc(2) [OF kk(1) [unfolded x(1)]] x n(3) by (intro kids_shape) auto
    ultimately have "kids_ok (Suc d) (A @ x # B) (lc @ ?tl # ?ta # rc)" using kk(3) lp by (auto simp: kids_ok_def)
    then have "balanced s ?t (plug K tu) res" using le by (intro borrowed [OF rb K]) auto
    moreover have "repop_step a u 3 s = Some (Inl ?t)" using c0 ci ch nv x by (simp add: repop_step_def N_def Let_def)
    ultimately show ?thesis by (simp add: level_ok_def)
  qed
qed

text \<open>Both cases, for a node in its context.\<close>

lemma level:
  assumes w: "whole s (plug (Frame u ul uc ur ud # K) (Node a ks cs)) res" and K: "ctx_shape d (Frame u ul uc ur ud # K)"
    and kk: "kids_ok d ks cs" and n: "length ks = 3"
  shows "level_ok s K (Node u (ul @ ur) (uc @ Node a ks cs # ud)) (Suc d) res (repop_step a u 3 s)"
proof (cases uc rule: rev_cases)
  case Nil
  then have e: "ul = []" using K by simp
  then obtain k B where k: "ur = k # B" using K by (cases ur) (auto split: if_splits)
  then obtain t rc where t: "ud = t # rc" using K by (cases ud) auto
  obtain r rks rcs where r: "t = Node r rks rcs" by (cases t)
  have sh: "shape 4 d (Node r rks rcs)" using K by (simp add: t r)
  then have "kids_ok d rks rcs" "4 \<le> length rks" "length rks \<le> 8" by (cases d; auto simp: kids_ok_def)+
  then show ?thesis using w K kk n by (intro level_first [where k = k and B = B and ks = ks and cs = cs and r = r and rks = rks and rcs = rcs and rc = rc]) (auto simp: Nil e k t r)
next
  case (snoc lc t)
  then obtain A k where A: "ul = A @ [k]" using K by (cases ul rule: rev_cases) auto
  obtain l lks lcs where l: "t = Node l lks lcs" by (cases t)
  have sh: "shape 4 d (Node l lks lcs)" using K by (simp add: snoc l)
  then have "kids_ok d lks lcs" "4 \<le> length lks" "length lks \<le> 8" by (cases d; auto simp: kids_ok_def)+
  then show ?thesis using w K kk n by (intro level_later [where A = A and k = k and B = ur and lc = lc and l = l and lks = lks and lcs = lcs and ks = ks and cs = cs and rc = ud]) (auto simp: snoc A l)
qed

section \<open>The path to the root\<close>

lemma balanced_trans: "rebal s s' t t' res res' \<Longrightarrow> balanced s' s'' t' res' \<Longrightarrow> balanced s s'' t res"
  unfolding balanced_def by (blast intro: rebal_trans)

lemma repop_ok:
  assumes "whole s (plug K (Node a ks cs)) res" "kids_ok d ks cs" "ctx_shape d K" "if K = [] then ks \<noteq> [] \<and> length ks \<le> 8 else length ks = 3"
  shows "\<exists>s'. repop_node a (length ks) s = Some s' \<and> balanced s s' (plug K (Node a ks cs)) res"
  using assms
proof (induction K arbitrary: s a ks cs res d)
  case (Nil s a ks cs res d)
  have n: "node_at s a None ks (ptrs ks cs)" using Nil.prems(1) by (simp add: whole_def)
  have "repop_node a (length ks) s = Some s"
    using node_atD(1) [OF n] node_hn_None [OF n, of 0] Nil.prems(4) by (subst repop_node.simps) auto
  moreover have "shape 1 d (Node a ks cs)" using Nil.prems by (intro kids_shape) (auto simp: Suc_le_eq)
  then have "balanced s s (Node a ks cs) res" using rebal_refl Nil.prems(1) unfolding balanced_def by fastforce
  ultimately show ?case by simp
next
  case (Cons F K s a ks cs res d)
  obtain u ul uc ur ud where F: "F = Frame u ul uc ur ud" by (cases F)
  let ?tu = "Node u (ul @ ur) (uc @ Node a ks cs # ud)"
  have n3: "length ks = 3" using Cons.prems(4) by simp
  have pl: "plug (F # K) (Node a ks cs) = plug K ?tu" by (simp add: F)
  have K: "ctx_shape (Suc d) K" "length (ul @ ur) \<le> 8" "least K \<le> length (ul @ ur)" using Cons.prems(3) by (simp_all add: F)
  have "s_parent (septs s a) = Some u"
    using whole_at(1) [OF Cons.prems(1,3)] by (simp add: F node_at_def)
  then have rn: "repop_node a (length ks) s = Option.bind (repop_step a u 3 s) (\<lambda>r. case r of Inl s \<Rightarrow> Some s
      | Inr (x, s) \<Rightarrow> (case s_parent (septs s x) of None \<Rightarrow> Some s
          | Some q \<Rightarrow> if num_vals (septs s q) < 4 then repop_node q (num_vals (septs s q)) s else Some s))"
    by (subst repop_node.simps) (simp add: n3 N_def cong: option.case_cong)
  have "level_ok s K ?tu (Suc d) res (repop_step a u 3 s)" using Cons.prems n3 unfolding F by (intro level)
  then consider s' where "repop_step a u 3 s = Some (Inl s')" "balanced s s' (plug K ?tu) res"
    | x s' where "repop_step a u 3 s = Some (Inr (x, s'))" "s_parent (septs s' x) = None" "balanced s s' (plug K ?tu) res"
    | x s' where "repop_step a u 3 s = Some (Inr (x, s'))" "s_parent (septs s' x) = Some u" "one_less s s' K ?tu (Suc d) res"
    unfolding level_ok_def by auto
  then show ?case
  proof cases
    case 3
    obtain vs ds res' where v: "rebal s s' (plug K ?tu) (plug K (Node u vs ds)) res res'" "kids_ok (Suc d) vs ds"
        "Suc (length vs) = length (ul @ ur)" "vs \<noteq> []" using 3(3) unfolding one_less_def by auto
    note w = rebal_whole [OF v(1)]
    have nv: "num_vals (septs s' u) = length vs" using whole_at(1) [OF w K(1)] num_vals_node [of s' u] by fastforce
    show ?thesis
    proof (cases "length vs < 4")
      case True
      then have "if K = [] then vs \<noteq> [] \<and> length vs \<le> 8 else length vs = 3" using v K by (auto split: if_splits)
      from Cons.IH [OF w v(2) K(1) this] obtain s'' where "repop_node u (length vs) s' = Some s''" "balanced s' s'' (plug K (Node u vs ds)) res'" by blast
      then show ?thesis using rn 3 nv True balanced_trans [OF v(1)] by (auto simp: pl)
    next
      case False
      then have "balanced s s' (plug K ?tu) res" using v K(2) by (intro borrowed [OF v(1) K(1)]) auto
      then show ?thesis using rn 3 nv False by (simp add: pl)
    qed
  qed (use rn in \<open>simp_all add: pl\<close>)
qed

end
