(* ===== verification/Btree_Remove.thy ===== *)
theory Btree_Remove
  imports Btree_Repop
begin

text \<open>
  The removal of \<open>btree_set\<close>, last part: the value to be removed is located by its handle, exchanged with its successor
  when it is not in a leaf, deleted from the leaf, and the tree is balanced again.
\<close>

section \<open>Locating a value\<close>

fun twf :: "('h, 'p) bt \<Rightarrow> bool" where
  "twf (Node a ks cs) \<longleftrightarrow> length cs \<le> Suc (length ks) \<and> (\<forall>c \<in> set cs. twf c)"

lemma shape_twf: "shape r d t \<Longrightarrow> twf t"
proof (induction t arbitrary: r d)
  case (Node a ks cs)
  then show ?case by (cases d) auto
qed

lemma thnds_twf: "twf t \<Longrightarrow> thnds t = hnds (inorder t)"
proof (induction t)
  case (Node a ks cs)
  then have "\<Union> (thnds ` set cs) = \<Union> (hnds ` inorder ` set cs)" by simp
  then show ?case using Node.prems by (simp add: set_weave image_Un image_UN Un_commute)
qed

lemma twf_plug: "twf (plug K t) \<Longrightarrow> twf t \<and> (\<forall>t'. twf t' \<longrightarrow> twf (plug K t'))"
proof (induction K arbitrary: t)
  case (Cons F K)
  obtain u ul uc ur ud where F: "F = Frame u ul uc ur ud" by (cases F)
  have i: "twf (Node u (ul @ ur) (uc @ t # ud))" "\<And>t'. twf t' \<Longrightarrow> twf (plug K t')"
    using Cons.IH [of "Node u (ul @ ur) (uc @ t # ud)"] Cons.prems unfolding F plug.simps by blast+
  show ?case unfolding F plug.simps
  proof (intro conjI allI impI i(2))
    fix t' :: "('a, 'b) bt"
    assume "twf t'"
    then show "twf (Node u (ul @ ur) (uc @ t' # ud))" using i(1) by simp
  qed (use i(1) in simp)
qed simp

lemma thnds_plug: "thnds (plug K t) = thnds t \<union> ctx_hnds K"
proof (induction K arbitrary: t)
  case (Cons F K)
  then show ?case by (cases F) auto
qed simp

lemma locate:
  assumes "shape r d t" "h \<in> thnds t"
  shows "\<exists>K a lk p rk cs. t = plug K (Node a (lk @ (p, h) # rk) cs) \<and> ctx_wf K"
  using assms
proof (induction t arbitrary: r d)
  case (Node a ks cs)
  show ?case
  proof (cases "h \<in> hnds ks")
    case True
    then obtain lk p rk where "ks = lk @ (p, h) # rk" by (metis imageE prod.collapse split_list)
    then show ?thesis by (intro exI [of _ "[]"]) auto
  next
    case False
    then obtain c where c: "c \<in> set cs" "h \<in> thnds c" using Node.prems(2) by auto
    then obtain d' where d: "d = Suc d'" "shape 4 d' c" "length cs = Suc (length ks)" using Node.prems(1) by (cases d) auto
    obtain lc rc where l: "cs = lc @ c # rc" using split_list [OF c(1)] by blast
    obtain K x lk p rk cs' where K: "c = plug K (Node x (lk @ (p, h) # rk) cs')" "ctx_wf K" using Node.IH [OF c(1) d(2) c(2)] by blast
    let ?F = "Frame a (take (length lc) ks) lc (drop (length lc) ks) rc"
    have "Node a ks cs = plug (K @ [?F]) (Node x (lk @ (p, h) # rk) cs')" by (simp add: plug_append K(1) [symmetric] l)
    moreover have "ctx_wf (K @ [?F])" using K(2) d(3) by (simp add: ctx_append l)
    ultimately show ?thesis by blast
  qed
qed

lemma filter_index: "(\<And>i. i < n \<Longrightarrow> P i \<longleftrightarrow> i = j) \<Longrightarrow> j < n \<Longrightarrow> filter P [0..<n] = [j]"
proof -
  assume a: "\<And>i. i < n \<Longrightarrow> P i \<longleftrightarrow> i = j" "j < n"
  have "filter (\<lambda>i. i = j) [0..<m] = (if j < m then [j] else [])" for m by (induction m) auto
  moreover have "filter P [0..<n] = filter (\<lambda>i. i = j) [0..<n]" using a(1) by (intro filter_cong) auto
  ultimately show ?thesis using a(2) by simp
qed

lemma handle_index:
  assumes "node_at s a par (lk @ (p, h) # rk) ps" "distinct (map snd (lk @ (p, h) # rk))"
  shows "filter (\<lambda>i. s_hn (septs s a) i = Some h) [0..<N] = [length lk]"
proof (rule filter_index)
  note d = node_atD [OF assms(1)]
  show "length lk < N" using d(2) by (simp add: N_def)
  fix i assume i: "i < N"
  show "s_hn (septs s a) i = Some h \<longleftrightarrow> i = length lk"
  proof (cases "i < length (lk @ (p, h) # rk)")
    case True
    then have "s_hn (septs s a) i = Some (map snd (lk @ (p, h) # rk) ! i)" using d(4) [of i] by (simp only: nth_map)
    moreover have "map snd (lk @ (p, h) # rk) ! length lk = h" by (simp add: nth_append)
    ultimately show ?thesis using nth_eq_iff_index_eq [OF assms(2), of i "length lk"] True by auto
  next
    case False
    then show ?thesis using d(5) [of i] i by (auto simp: N_def)
  qed
qed

text \<open>The successor: the first value of the leftmost leaf of the child to the right.\<close>

lemma leftmost_ok:
  assumes "bt_repr s par c" "shape 4 d c"
  shows "\<exists>K b ks. leftmost s prev (Some (baddr c)) = Some b \<and> c = plug K (Node b ks []) \<and> ctx_wf K \<and> ctx_left K = []"
  using assms
proof (induction d arbitrary: par c prev)
  case 0
  obtain b ks where c: "c = Node b ks []" using "0.prems"(2) by (cases c) auto
  have "s_ch (septs s b) 0 = None" using "0.prems"(1) by (simp add: c ptrs_def node_at_def)
  then have "leftmost s prev (Some b) = Some b" by (simp add: leftmost.simps [of s prev] leftmost.simps [of s b])
  then show ?case by (intro exI [of _ "[]"]) (auto simp: c)
next
  case (Suc d)
  obtain a ks c0 cs where c: "c = Node a ks (c0 # cs)" using Suc.prems(2) by (cases c; cases "bkids c") auto
  have n: "node_at s a par ks (ptrs ks (c0 # cs))" "bt_repr s (Some a) c0" "shape 4 d c0" "length cs = length ks" using Suc.prems by (simp_all add: c)
  have "s_ch (septs s a) 0 = Some (baddr c0)" using node_atD(7) [OF n(1), of 0] by (simp add: ptrs_def)
  then have st: "leftmost s prev (Some a) = leftmost s a (Some (baddr c0))" by (simp add: leftmost.simps [of s prev])
  obtain K b vs where K: "leftmost s a (Some (baddr c0)) = Some b" "c0 = plug K (Node b vs [])" "ctx_wf K" "ctx_left K = []"
    using Suc.IH [OF n(2,3)] by blast
  let ?F = "Frame a [] [] ks cs"
  have "c = plug (K @ [?F]) (Node b vs [])" by (simp add: c plug_append K(2) [symmetric])
  moreover have "ctx_wf (K @ [?F])" "ctx_left (K @ [?F]) = []" using K(3,4) n(4) by (simp_all add: ctx_append)
  moreover have "leftmost s prev (Some (baddr c)) = Some b" using st K(1) by (simp add: c)
  ultimately show ?case by blast
qed

section \<open>Deletion from a leaf\<close>

lemma leaf_deleted:
  assumes nd: "node_at s b par (lk @ x # rk) (ptrs (lk @ x # rk) [])"
    and s1: "s_hn (septs s1 b) = (s_hn (septs s b))(length lk := Some y)" "s_prio (septs s1 b) = s_prio (septs s b)"
      "s_ch (septs s1 b) = s_ch (septs s b)" "s_parent (septs s1 b) = par"
    and hp: "\<And>h. h \<in> hnds (lk @ rk) \<Longrightarrow> h_parent s1 h = Some b"
  shows "\<exists>t. del_loop b (length lk) s1 = (length (lk @ rk), t) \<and> only_node b s1 (set_hn b 7 None t) \<and>
    node_at (set_hn b 7 None t) b par (lk @ rk) (ptrs (lk @ rk) [])"
proof -
  note d = node_atD [OF nd]
  let ?n = "length (lk @ x # rk)" and ?i = "length lk"
  have n: "?i < ?n" "?n \<le> 8" using d(2) by simp_all
  have "\<forall>j < 8. s_hn (septs s1 b) j = None \<longleftrightarrow> ?n \<le> j" using node_hn_None [OF nd] n by (auto simp: s1(1))
  from del_loop_eff [OF this n] obtain t where t: "del_loop b ?i s1 = (?n - 1, t)" "only_node b s1 t" "s_parent (septs t b) = par"
      "s_ch (septs t b) = s_ch (septs s b)" "s_prio (septs t b) = del_shift ?i (min ?n 7) (s_prio (septs s b))"
      "s_hn (septs t b) = del_shift ?i (min ?n 7) ((s_hn (septs s b))(?i := Some y))" using s1 by auto
  have "node_at (set_hn b 7 None t) b par (lk @ rk) (ptrs (lk @ rk) [])"
  proof (rule node_atI)
    fix j assume j: "j < length (lk @ rk)"
    have e: "s_hn (septs s b) (if j < ?i then j else Suc j) = Some (snd ((lk @ rk) ! j))"
        "s_prio (septs s b) (if j < ?i then j else Suc j) = fst ((lk @ rk) ! j)"
      using d(4) [of "if j < ?i then j else Suc j"] d(6) [of "if j < ?i then j else Suc j"] j
        nth_removed(1) [of j lk x rk] nth_removed(2) [of lk j x rk] by (auto split: if_splits)
    show "s_hn (septs (set_hn b 7 None t) b) j = Some (snd ((lk @ rk) ! j))" "s_prio (septs (set_hn b 7 None t) b) j = fst ((lk @ rk) ! j)"
      using e j n by (auto simp: t(5,6) del_shift_def min_def split: if_splits)
  next
    fix j assume "length (lk @ rk) \<le> j" "j < 8"
    then show "s_hn (septs (set_hn b 7 None t) b) j = None"
      using d(5) [of "Suc j"] d(5) [of j] by (cases "j = 7") (auto simp: t(6) del_shift_def min_def)
  next
    fix j assume j: "j \<le> length (lk @ rk)"
    then show "s_ch (septs (set_hn b 7 None t) b) j = ptrs (lk @ rk) [] ! j" using d(7) [of j] by (simp add: t(4) ptrs_def nth_Cons')
  next
    fix k assume "k \<in> set (lk @ rk)"
    then show "h_parent (set_hn b 7 None t) (snd k) = Some b" using hp [of "snd k"] t(2) by (auto simp: only_node_def)
  qed (use t(3) n in \<open>auto simp: ptrs_def\<close>)
  moreover have "only_node b s1 (set_hn b 7 None t)" using t(2) by simp
  moreover have "?n - 1 = length (lk @ rk)" by simp
  ultimately show ?thesis using t(1) by metis
qed

text \<open>The whole tree after the deletion, and after a value was replaced.\<close>

lemma whole_leaf:
  assumes w: "whole s (plug K (Node b (lk @ x # rk) [])) res" and wf: "ctx_wf K"
    and nd: "node_at s' b (ctx_parent K) (lk @ rk) (ptrs (lk @ rk) [])" and o: "only_node b s s'"
  shows "whole s' (plug K (Node b (lk @ rk) [])) res"
proof -
  have da: "distinct (b # ctx_addrs K @ res)"
  proof -
    have "mset (addrs (plug K (Node b (lk @ x # rk) [])) @ res) = mset (b # ctx_addrs K @ res)" by (simp add: mset_addrs_plug)
    then show ?thesis using w mset_eq_imp_distinct_iff unfolding whole_def by blast
  qed
  have "ctx_repr s' b K = ctx_repr s b K" using o da by (intro ctx_repr_cong) (auto simp: only_node_def)
  then have "bt_repr s' None (plug K (Node b (lk @ rk) []))" using w nd by (simp add: whole_def bt_repr_plug)
  moreover have "mset (addrs (plug K (Node b (lk @ rk) [])) @ res) = mset (b # ctx_addrs K @ res)" by (simp add: mset_addrs_plug)
  then have "distinct (addrs (plug K (Node b (lk @ rk) [])) @ res)" using da mset_eq_imp_distinct_iff by blast
  moreover have "res_list s' (sn_reserve s) res = res_list s (sn_reserve s) res" using o da by (intro res_list_cong) (auto simp: only_node_def)
  moreover have "leftaddr (plug K (Node b (lk @ rk) [])) = leftaddr (plug K (Node b (lk @ x # rk) []))" by (intro leftaddr_plug_cong) simp
  moreover have "distinct (map snd (inorder (plug K (Node b (lk @ rk) []))))" using w wf by (auto simp: whole_def inorder_plug)
  ultimately show ?thesis using w o by (simp add: whole_def baddr_plug only_node_def same_top_def same_hdr_def)
qed

lemma whole_key:
  assumes w: "whole s (plug K (Node a (lk @ x # rk) cs)) res" and y: "snd y \<notin> thnds (plug K (Node a (lk @ x # rk) cs))"
    and sa: "s_hn (septs s' a) = (s_hn (septs s a))(length lk := Some (snd y))" "s_prio (septs s' a) = (s_prio (septs s a))(length lk := fst y)"
      "s_ch (septs s' a) = s_ch (septs s a)" "s_parent (septs s' a) = s_parent (septs s a)"
    and sx: "\<And>z. z \<noteq> a \<Longrightarrow> septs s' z = septs s z" and hp: "\<And>g. h_parent s' g = (if g = snd y then Some a else h_parent s g)"
    and st: "same_top s s'" and di: "distinct (map snd (inorder (plug K (Node a (lk @ y # rk) cs))))"
  shows "whole s' (plug K (Node a (lk @ y # rk) cs)) res"
proof -
  have da: "distinct (a # concat (map addrs cs) @ ctx_addrs K @ res)"
  proof -
    have "mset (addrs (plug K (Node a (lk @ x # rk) cs)) @ res) = mset (a # concat (map addrs cs) @ ctx_addrs K @ res)" by (simp add: mset_addrs_plug)
    then show ?thesis using w mset_eq_imp_distinct_iff unfolding whole_def by blast
  qed
  have n: "node_at s a (ctx_parent K) (lk @ x # rk) (ptrs (lk @ x # rk) cs)" "\<forall>c \<in> set cs. bt_repr s (Some a) c" "ctx_repr s a K"
    using w by (simp_all add: whole_def bt_repr_plug)
  have yn: "snd y \<notin> hnds lk" "snd y \<notin> hnds rk" "\<forall>c \<in> set cs. snd y \<notin> thnds c" "snd y \<notin> ctx_hnds K"
    using y by (auto simp: thnds_plug)
  have p: "ptrs (lk @ y # rk) cs = ptrs (lk @ x # rk) cs" by (simp add: ptrs_def)
  have "node_at s' a (ctx_parent K) (lk @ y # rk) (ptrs (lk @ y # rk) cs)"
    unfolding p using sa(4) node_atD(1) [OF n(1)] handles_at [OF n(1)]
    by (intro node_replace [OF n(1) sa(1-3)]) (auto simp: hp)
  moreover have "bt_repr s' (Some a) c" if c: "c \<in> set cs" for c
  proof -
    have ac: "a \<notin> set (addrs c)" using c da by simp
    have "bt_repr s' (Some a) c = bt_repr s (Some a) c"
    proof (rule bt_repr_cong)
      show "\<forall>z \<in> set (addrs c). septs s' z = septs s z" using ac sx by metis
      show "\<forall>g \<in> thnds c. h_parent s' g = h_parent s g" using yn(3) c hp by metis
    qed
    then show ?thesis using n(2) c by simp
  qed
  moreover have "ctx_repr s' a K = ctx_repr s a K"
  proof (rule ctx_repr_cong)
    have "a \<notin> set (ctx_addrs K)" using da by simp
    then show "\<forall>z \<in> set (ctx_addrs K). septs s' z = septs s z" using sx by metis
    show "\<forall>g \<in> ctx_hnds K. h_parent s' g = h_parent s g" using yn(4) hp by metis
  qed
  ultimately have "bt_repr s' None (plug K (Node a (lk @ y # rk) cs))" using n(3) by (simp add: bt_repr_plug)
  moreover have "mset (addrs (plug K (Node a (lk @ y # rk) cs)) @ res) = mset (addrs (plug K (Node a (lk @ x # rk) cs)) @ res)" by (simp add: mset_addrs_plug)
  then have "distinct (addrs (plug K (Node a (lk @ y # rk) cs)) @ res)" using w mset_eq_imp_distinct_iff unfolding whole_def by blast
  moreover have "res_list s' (sn_reserve s) res = res_list s (sn_reserve s) res" using sx da by (intro res_list_cong) (auto, metis)
  moreover have "leftaddr (plug K (Node a (lk @ y # rk) cs)) = leftaddr (plug K (Node a (lk @ x # rk) cs))"
    by (intro leftaddr_plug_cong) (cases cs, simp_all)
  ultimately show ?thesis using w st di by (simp add: whole_def baddr_plug same_top_def same_hdr_def)
qed

section \<open>Removal\<close>

definition same_cnt :: "('h, 'p, 't) btree_set \<Rightarrow> ('h, 'p, 't) btree_set \<Rightarrow> bool" where
  "same_cnt s s' \<longleftrightarrow> live s' = live s \<and> h_data s' = h_data s \<and> num_alloced s' = num_alloced s \<and> num_septs s' = num_septs s \<and>
     num_septs_needed s' = num_septs_needed s \<and> next_sept s' = next_sept s"

definition rem_done ::
  "('h, 'p, 't) btree_set \<Rightarrow> ('h, 'p, 't) btree_set \<Rightarrow> ('p \<times> 'h) list \<Rightarrow> nat list \<Rightarrow> bool" where
  "rem_done s s' es xs \<longleftrightarrow> (\<exists>T res. root_sept s' = map_option baddr T \<and> left_sept s' = map_option leftaddr T \<and>
     (\<forall>t. T = Some t \<longrightarrow> bt_repr s' None t \<and> (\<exists>d. shape 1 d t)) \<and> ents T = es \<and> res_list s' (sn_reserve s') res \<and>
     mset (taddrs T @ res) = mset xs) \<and> same_cnt s s' \<and> (\<forall>g. g \<notin> hnds es \<longrightarrow> h_parent s' g = h_parent s g)"

lemma balanced_done: "balanced s s' t res \<Longrightarrow> rem_done s s' (inorder t) (addrs t @ res)"
proof -
  assume "balanced s s' t res"
  then obtain t' res' d where "rebal s s' t t' res res'" "shape 1 d t'" by (auto simp: balanced_def)
  then show ?thesis unfolding rem_done_def rebal_def whole_def
    by (intro conjI exI [of _ "Some t'"] exI [of _ res']) (auto simp: same_hdr_def same_cnt_def)
qed

lemma rem_done_trans:
  "rem_done s' s'' es xs \<Longrightarrow> same_hdr s s' \<Longrightarrow> (\<And>g. g \<notin> hnds es \<Longrightarrow> h_parent s' g = h_parent s g) \<Longrightarrow> rem_done s s'' es xs"
  by (auto simp: rem_done_def same_cnt_def same_hdr_def)

text \<open>A leaf after the deletion of a value: what \<open>remove\<close> does next.\<close>

lemma after_delete:
  assumes w: "whole s (plug K (Node b ms [])) res" and K: "ctx_shape 0 K" and n: "least K \<le> Suc (length ms)" "length ms \<le> 7"
  shows "\<exists>s'. (if length ms < N div 2 then repop_node b (length ms) s else Some s) = Some s' \<and>
    rem_done s s' (inorder (plug K (Node b ms []))) (addrs (plug K (Node b ms [])) @ res)"
proof (cases "length ms < 4 \<and> (K \<noteq> [] \<or> ms \<noteq> [])")
  case True
  then have "if K = [] then ms \<noteq> [] \<and> length ms \<le> 8 else length ms = 3" using n by auto
  then obtain s' where "repop_node b (length ms) s = Some s'" "balanced s s' (plug K (Node b ms [])) res"
    using repop_ok [OF w _ K] by (auto simp: kids_ok_def)
  then show ?thesis using balanced_done True by (auto simp: N_def)
next
  case False
  show ?thesis
  proof (cases "K = [] \<and> ms = []")
    case True
    then have wr: "bt_repr s None (Node b [] [])" "b \<notin> set res" "res_list s (sn_reserve s) res" using w by (simp_all add: whole_def)
    let ?t = "s\<lparr>root_sept := None, left_sept := None\<rparr>"
    have "res_list ?t (sn_reserve ?t) res = res_list s (sn_reserve s) res" by (simp, rule res_list_cong) simp
    note rel = release_sept_ok [of ?t res b, OF _ wr(2), unfolded this, OF wr(3)]
    obtain ps where nb: "node_at s b None ([] :: ('b \<times> 'a) list) ps" using wr(1) by auto
    have "repop_node b 0 s = Some (release_sept b ?t)"
      using node_atD(1) [OF nb] node_hn_None [OF nb, of 0] by (subst repop_node.simps) simp
    moreover have "rem_done s (release_sept b ?t) [] (b # res)"
      unfolding rem_done_def using rel by (intro conjI exI [of _ None] exI [of _ "b # res"]) (simp_all add: same_cnt_def)
    ultimately show ?thesis using True by (simp add: N_def)
  next
    case f: False
    then have "4 \<le> length ms" using False by auto
    then have "shape (least K) 0 (Node b ms [])" using n by auto
    then have "balanced s s (plug K (Node b ms [])) res"
      unfolding balanced_def using rebal_refl [OF w] shape_plug [OF K] by blast
    then show ?thesis using balanced_done \<open>4 \<le> length ms\<close> by (auto simp: N_def)
  qed
qed

lemma remove_leaf:
  assumes w: "whole s (plug K (Node a (lk @ (p, h) # rk) [])) res" and K: "ctx_shape 0 K"
    and n: "least K \<le> length (lk @ (p, h) # rk)" "length (lk @ (p, h) # rk) \<le> 8"
  shows "\<exists>s'. remove_at h a (length lk) s = Some s' \<and>
    rem_done s s' (ctx_left K @ lk @ rk @ ctx_right K) (a # ctx_addrs K @ res)"
proof -
  have nd: "node_at s a (ctx_parent K) (lk @ (p, h) # rk) (ptrs (lk @ (p, h) # rk) [])" using w by (simp add: whole_def bt_repr_plug)
  have wf: "ctx_wf K" using K by (rule ctx_shape_wf)
  note d = node_atD [OF nd]
  have nx: "s_ch (septs s a) (length lk + 1) = None" using d(7) [of "Suc (length lk)"] by (simp add: ptrs_def del: replicate_Suc)
  then have lm: "leftmost s a (s_ch (septs s a) (length lk + 1)) = Some a" by (simp add: leftmost.simps [of s a])
  have "s_hn (septs s a) = (s_hn (septs s a))(length lk := Some h)" using d(4) [of "length lk"] by (simp add: fun_upd_idem)
  then obtain t where t: "del_loop a (length lk) s = (length (lk @ rk), t)" "only_node a s (set_hn a 7 None t)"
      "node_at (set_hn a 7 None t) a (ctx_parent K) (lk @ rk) (ptrs (lk @ rk) [])"
    using leaf_deleted [OF nd, of s h] d(1) handles_at [OF nd] by auto
  let ?t = "set_hn a 7 None t"
  have w': "whole ?t (plug K (Node a (lk @ rk) [])) res" using whole_leaf [OF w wf t(3,2)] .
  obtain s' where s': "(if length (lk @ rk) < N div 2 then repop_node a (length (lk @ rk)) ?t else Some ?t) = Some s'"
      "rem_done ?t s' (inorder (plug K (Node a (lk @ rk) []))) (addrs (plug K (Node a (lk @ rk) [])) @ res)"
    using after_delete [OF w' K] n by auto
  have "remove_at h a (length lk) s = Some s'" using lm t(1) s'(1) by (auto simp: remove_at_def Let_def N_def split: if_splits)
  moreover have "rem_done s s' (inorder (plug K (Node a (lk @ rk) []))) (addrs (plug K (Node a (lk @ rk) [])) @ res)"
    using t(2) by (intro rem_done_trans [OF s'(2)]) (simp_all add: only_node_def same_top_def)
  then have "rem_done s s' (ctx_left K @ lk @ rk @ ctx_right K) (a # ctx_addrs K @ res)"
    unfolding rem_done_def inorder_plug [OF wf] by (simp add: mset_addrs_plug)
  ultimately show ?thesis by blast
qed

text \<open>
  The exchange with the successor \<open>y\<close>, the first value of leaf \<open>b\<close>, and its deletion there; \<open>sv\<close> is the memory with the
  deletion only.
\<close>

lemma swap_delete:
  assumes nb: "node_at s b pb (y # ms) (ptrs (y # ms) [])" and ab: "a \<noteq> b" and hy: "snd y \<notin> hnds ms"
    and s1: "s1 = set_hn b 0 (Some h) (own (Some (snd y)) a (set_prio a i (fst y) (set_hn a i (Some (snd y)) s)))"
  shows "\<exists>t sv. del_loop b 0 s1 = (length ms, t) \<and> node_at sv b pb ms (ptrs ms []) \<and> only_node b s sv \<and>
    s_hn (septs (set_hn b 7 None t) a) = (s_hn (septs sv a))(i := Some (snd y)) \<and>
    s_prio (septs (set_hn b 7 None t) a) = (s_prio (septs sv a))(i := fst y) \<and> s_ch (septs (set_hn b 7 None t) a) = s_ch (septs sv a) \<and>
    s_parent (septs (set_hn b 7 None t) a) = s_parent (septs sv a) \<and> (\<forall>z. z \<noteq> a \<longrightarrow> septs (set_hn b 7 None t) z = septs sv z) \<and>
    (\<forall>g. h_parent (set_hn b 7 None t) g = (if g = snd y then Some a else h_parent sv g)) \<and> same_top sv (set_hn b 7 None t)"
proof -
  have nb': "node_at s b pb ([] @ y # ms) (ptrs ([] @ y # ms) [])" using nb by simp
  have b1: "s_hn (septs s1 b) = (s_hn (septs s b))(length [] := Some h)" "s_prio (septs s1 b) = s_prio (septs s b)"
      "s_ch (septs s1 b) = s_ch (septs s b)" "s_parent (septs s1 b) = pb" using ab node_atD(1) [OF nb] by (simp_all add: s1)
  have hp1: "h_parent s1 g = (if g = snd y then Some a else h_parent s g)" for g by (auto simp: s1)
  have "h_parent s1 g = Some b" if "g \<in> hnds ([] @ ms)" for g
    using that hy handles_at [OF nb, of g] by (cases "g = snd y") (simp_all add: hp1)
  from leaf_deleted [OF nb' b1 this] obtain t where t: "del_loop b 0 s1 = (length ms, t)" "only_node b s1 (set_hn b 7 None t)"
      "node_at (set_hn b 7 None t) b pb ms (ptrs ms [])" by auto
  define s3 where "s3 = set_hn b 7 None t"
  define sv where "sv = s\<lparr>septs := (septs s)(b := septs s3 b)\<rparr>"
  have o: "\<And>z. z \<noteq> b \<Longrightarrow> septs s3 z = septs s1 z" "h_parent s3 = h_parent s1" "same_top s1 s3" "same_top s s1"
    using t(2) by (simp_all add: only_node_def s3_def [symmetric] s1)
  have "h_parent sv g = h_parent s3 g" if "g \<in> hnds ms" for g using that hy by (cases "g = snd y") (simp_all add: sv_def o(2) hp1)
  then have "node_at sv b pb ms (ptrs ms []) = node_at s3 b pb ms (ptrs ms [])" by (intro node_at_cong) (simp_all add: sv_def)
  then have "node_at sv b pb ms (ptrs ms [])" using t(3) by (simp add: s3_def)
  moreover have "only_node b s sv" by (simp add: only_node_def sv_def same_top_def same_hdr_def)
  moreover have "s_hn (septs s3 a) = (s_hn (septs sv a))(i := Some (snd y))" "s_prio (septs s3 a) = (s_prio (septs sv a))(i := fst y)"
      "s_ch (septs s3 a) = s_ch (septs sv a)" "s_parent (septs s3 a) = s_parent (septs sv a)"
    using ab o(1) [of a] by (simp_all add: sv_def s1)
  moreover have "septs s3 z = septs sv z" if "z \<noteq> a" for z
  proof (cases "z = b")
    case False
    then have "septs s1 z = septs s z" using that by (intro sept_eqI) (simp_all add: s1)
    then show ?thesis using False o(1) [of z] by (simp add: sv_def)
  qed (simp add: sv_def)
  moreover have "h_parent s3 g = (if g = snd y then Some a else h_parent sv g)" for g by (simp add: o(2) hp1 sv_def)
  moreover have "same_top sv s3" using same_trans(2) [OF o(4,3)] by (simp add: sv_def same_top_def same_hdr_def)
  ultimately show ?thesis using t(1) unfolding s3_def by blast
qed

lemma ctx_addrs_append: "ctx_addrs (K @ L) = ctx_addrs K @ ctx_addrs L"
proof (induction K)
  case (Cons F K)
  then show ?case by (cases F) simp
qed simp

lemma ctx_shape_key: "ctx_shape d (K @ Frame a (lk @ [x]) lc rk rc # L) = ctx_shape d (K @ Frame a (lk @ [y]) lc rk rc # L)"
proof (induction K arbitrary: d)
  case (Cons F K)
  then show ?case by (cases F) auto
qed simp

lemma remove_from_inner:
  assumes w: "whole s (plug K (Node a (lk @ (p, h) # rk) (lc @ c # rc))) res" and sh: "shape 1 d (plug K (Node a (lk @ (p, h) # rk) (lc @ c # rc)))"
    and wf: "ctx_wf K" and l: "length lc = Suc (length lk)" "length rc = length rk"
  defines "t \<equiv> plug K (Node a (lk @ (p, h) # rk) (lc @ c # rc))"
  shows "\<exists>s' X Y. remove_at h a (length lk) s = Some s' \<and> inorder t = X @ (p, h) # Y \<and> rem_done s s' (X @ Y) (addrs t @ res)"
proof -
  obtain e where e: "ctx_shape e K" "shape (least K) e (Node a (lk @ (p, h) # rk) (lc @ c # rc))" using plug_shape [OF sh wf] by blast
  then obtain e' where c: "shape 4 e' c" by (cases e) auto
  have na: "node_at s a (ctx_parent K) (lk @ (p, h) # rk) (map (Some \<circ> baddr) (lc @ c # rc))" "bt_repr s (Some a) c"
    using whole_at(1) [OF w e(1)] by (simp_all add: ptrs_def)
  obtain K2 b ks where K2: "leftmost s a (Some (baddr c)) = Some b" "c = plug K2 (Node b ks [])" "ctx_wf K2" "ctx_left K2 = []"
    using leftmost_ok [OF na(2) c] by blast
  define F where "F x = Frame a (lk @ [x]) lc rk rc" for x :: "'b \<times> 'a"
  have pl: "plug (K2 @ F x # K) u = plug K (Node a (lk @ x # rk) (lc @ plug K2 u # rc))" for x u by (simp add: F_def plug_append)
  have wfB: "ctx_wf (K2 @ F x # K)" for x using K2(3) wf l by (simp add: ctx_append F_def)
  define T where "T x u = plug (K2 @ F x # K) (Node b u [])" for x u
  have tT: "t = T (p, h) ks" by (simp add: t_def T_def pl K2(2))
  obtain e0 where e0: "ctx_shape e0 (K2 @ F (p, h) # K)" "shape (least (K2 @ F (p, h) # K)) e0 (Node b ks [])"
    using plug_shape [of d "K2 @ F (p, h) # K" "Node b ks []"] sh wfB tT by (auto simp: t_def T_def)
  then have "e0 = 0" by (cases e0) auto
  then have sB: "ctx_shape 0 (K2 @ F x # K)" "4 \<le> length ks" "length ks \<le> 8" for x
    using e0 ctx_shape_key [of 0 K2 a lk "(p, h)" lc rk rc K x] by (auto simp: F_def)
  then obtain y ms where y: "ks = y # ms" by (cases ks) auto
  define X where "X = ctx_left K @ weave (map inorder lc) lk"
  define Y where "Y = ctx_right (K2 @ F (p, h) # K)"
  have io: "inorder (T x u) = X @ x # u @ Y" for x u
    unfolding T_def inorder_plug [OF wfB] using l weave_snoc(1) [of "map inorder lc" lk x]
    by (simp add: ctx_append K2(4) F_def X_def Y_def)
  have dh: "distinct (map snd (X @ (p, h) # (y # ms) @ Y))" using w io [of "(p, h)" ks] tT by (simp add: whole_def t_def y)
  have wB: "whole s (T (p, h) ([] @ y # ms)) res" using w tT by (simp add: t_def y)
  have at: "node_at s b (ctx_parent (K2 @ F (p, h) # K)) (y # ms) (ptrs (y # ms) [])" "distinct (b # ctx_addrs (K2 @ F (p, h) # K))"
    using whole_at(1,5) [OF wB [unfolded T_def] sB(1)] by simp_all
  have "a \<in> set (ctx_addrs (K2 @ F (p, h) # K))" by (simp add: ctx_addrs_append F_def)
  then have ab: "a \<noteq> b" using at(2) by auto
  define s1 where "s1 = set_hn b 0 (Some h) (own (Some (snd y)) a (set_prio a (length lk) (fst y) (set_hn a (length lk) (Some (snd y)) s)))"
  have "snd y \<notin> hnds ms" using dh by auto
  from swap_delete [OF at(1) ab this s1_def] obtain t' sv where sv: "del_loop b 0 s1 = (length ms, t')"
    "node_at sv b (ctx_parent (K2 @ F (p, h) # K)) ms (ptrs ms [])" "only_node b s sv"
    "s_hn (septs (set_hn b 7 None t') a) = (s_hn (septs sv a))(length lk := Some (snd y))"
    "s_prio (septs (set_hn b 7 None t') a) = (s_prio (septs sv a))(length lk := fst y)" "s_ch (septs (set_hn b 7 None t') a) = s_ch (septs sv a)"
    "s_parent (septs (set_hn b 7 None t') a) = s_parent (septs sv a)" "\<And>z. z \<noteq> a \<Longrightarrow> septs (set_hn b 7 None t') z = septs sv z"
    "\<And>g. h_parent (set_hn b 7 None t') g = (if g = snd y then Some a else h_parent sv g)" "same_top sv (set_hn b 7 None t')" by auto
  define s3 where "s3 = set_hn b 7 None t'"
  have w1: "whole sv (T (p, h) ms) res"
    using whole_leaf [OF wB [unfolded T_def] wfB, of sv] sv(2,3) by (simp add: T_def)
  have "twf (T (p, h) ks)" using shape_twf [OF sh] tT by (simp add: t_def)
  then have "twf (T (p, h) ms)" using twf_plug unfolding T_def by fastforce
  then have "snd y \<notin> thnds (T (p, h) ms)" using dh by (auto simp: thnds_twf io)
  moreover have "distinct (map snd (inorder (T y ms)))" using dh by (auto simp: io)
  ultimately have w3: "whole s3 (T y ms) res"
    using whole_key [OF w1 [unfolded T_def pl] _ sv(4-10), folded s3_def] unfolding T_def pl by blast
  obtain s' where s': "(if length ms < N div 2 then repop_node b (length ms) s3 else Some s3) = Some s'"
      "rem_done s3 s' (inorder (T y ms)) (addrs (T y ms) @ res)"
    using after_delete [OF w3 [unfolded T_def] sB(1)] sB(2,3) unfolding T_def y by auto
  have ch: "s_ch (septs s a) (length lk + 1) = Some (baddr c)"
    using node_atD(7) [OF na(1), of "length lk + 1"] l by (simp add: nth_append)
  have hb: "s_hn (septs s b) 0 = Some (snd y)" "s_prio (septs s b) 0 = fst y" using node_atD(4) [OF at(1), of 0] node_atD(6) [OF at(1), of 0] by simp_all
  have "remove_at h a (length lk) s = Some s'"
    using K2(1) ch hb ab sv(1) s'(1) by (auto simp: remove_at_def Let_def s1_def s3_def N_def split: if_splits)
  moreover have "rem_done s s' (X @ y # ms @ Y) (addrs t @ res)"
  proof -
    have "mset (addrs (T y ms) @ res) = mset (addrs t @ res)"
      unfolding tT T_def by (simp add: mset_addrs_plug ctx_addrs_append F_def)
    then have "rem_done s3 s' (X @ y # ms @ Y) (addrs t @ res)" using s'(2) by (simp add: rem_done_def io)
    then show ?thesis
    proof (rule rem_done_trans)
      show "same_hdr s s3" using sv(3,10) by (auto simp: s3_def only_node_def same_top_def same_hdr_def)
      show "h_parent s3 g = h_parent s g" if "g \<notin> hnds (X @ y # ms @ Y)" for g
        using that sv(3) sv(9) [of g] by (auto simp: s3_def only_node_def)
    qed
  qed
  moreover have "inorder t = X @ (p, h) # (y # ms @ Y)" by (simp add: tT io y)
  ultimately show ?thesis by blast
qed

text \<open>The invariant after a removal.\<close>

lemma rem_done_inv:
  assumes r: "rem_done s s' es xs" and so: "sorted_wrt klt es" "distinct (map snd es)"
    and me: "distinct xs" "live s = set xs" "num_septs s = length xs" and o: "counts_ok s" "finite A" "card A = num_alloced s" "hnds es \<subseteq> A"
  shows "bset_inv s' A (map_of es)" "h_data s' = h_data s"
proof -
  obtain T res where T: "root_sept s' = map_option baddr T" "left_sept s' = map_option leftaddr T"
     "\<forall>t. T = Some t \<longrightarrow> bt_repr s' None t \<and> (\<exists>d. shape 1 d t)" "ents T = es" "res_list s' (sn_reserve s') res"
     "mset (taddrs T @ res) = mset xs" and c: "same_cnt s s'" using r by (auto simp: rem_done_def)
  have "tree_ok s' T" using T so by (simp add: tree_ok_def)
  moreover have "distinct (taddrs T @ res)" "set (taddrs T @ res) = set xs" "length (taddrs T @ res) = length xs"
    using T(6) me(1) mset_eq_imp_distinct_iff mset_eq_setD mset_eq_length by blast+
  then have "mem_ok s' (taddrs T) res" using T(5) me c unfolding mem_ok_def same_cnt_def by simp
  ultimately show "bset_inv s' A (map_of es)"
    using T(4) c o unfolding bset_inv_def same_cnt_def counts_ok_def by auto
  show "h_data s' = h_data s" using c by (simp add: same_cnt_def)
qed

lemma rem_done_mset: "rem_done s s' es xs \<Longrightarrow> mset xs = mset ys \<Longrightarrow> rem_done s s' es ys"
  by (simp add: rem_done_def)

lemma remove_at_ok:
  assumes w: "whole s t res" and sh: "shape 1 d t" and k: "t = plug K (Node a (lk @ (q, h) # rk) cs)" "ctx_wf K"
  shows "\<exists>s' X Y. remove_at h a (length lk) s = Some s' \<and> inorder t = X @ (q, h) # Y \<and> rem_done s s' (X @ Y) (addrs t @ res)"
proof -
  obtain e where e: "ctx_shape e K" "shape (least K) e (Node a (lk @ (q, h) # rk) cs)" using plug_shape [OF sh [unfolded k(1)] k(2)] by blast
  show ?thesis
  proof (cases e)
    case 0
    then have cs: "cs = []" and n: "least K \<le> length (lk @ (q, h) # rk)" "length (lk @ (q, h) # rk) \<le> 8" using e(2) by simp_all
    obtain s' where s': "remove_at h a (length lk) s = Some s'" "rem_done s s' (ctx_left K @ lk @ rk @ ctx_right K) (a # ctx_addrs K @ res)"
      using remove_leaf [OF w [unfolded k(1) cs] e(1) [unfolded 0] n] by blast
    have "rem_done s s' ((ctx_left K @ lk) @ rk @ ctx_right K) (addrs t @ res)"
      using rem_done_mset [OF s'(2)] by (simp add: k(1) cs mset_addrs_plug)
    moreover have "inorder t = (ctx_left K @ lk) @ (q, h) # rk @ ctx_right K" using inorder_plug [OF k(2)] by (simp add: k(1) cs)
    ultimately show ?thesis using s'(1) by blast
  next
    case (Suc e')
    define lc where "lc = take (Suc (length lk)) cs"
    have l: "length cs = Suc (length lk + Suc (length rk))" using e(2) Suc by simp
    then obtain c rc where rc: "drop (Suc (length lk)) cs = c # rc" by (cases "drop (Suc (length lk)) cs") auto
    then have cs: "cs = lc @ c # rc" using append_take_drop_id [of "Suc (length lk)" cs] by (simp add: lc_def)
    have ll: "length lc = Suc (length lk)" "length rc = length rk"
      using l arg_cong [OF rc, of length] by (simp_all add: lc_def)
    show ?thesis using remove_from_inner [OF w [unfolded k(1) cs] sh [unfolded k(1) cs] k(2) ll] by (simp add: k(1) cs)
  qed
qed

lemma remove_inv:
  assumes i: "bset_inv s A m" and h: "m p = Some h"
  shows "\<exists>s'. bset_remove h s = Some s' \<and> bset_inv s' A (m(p := None)) \<and> h_data s' = h_data s \<and>
    (\<forall>g. g \<notin> ran m - {h} \<longrightarrow> h_parent s' g = h_parent s g)"
proof -
  obtain T res where T: "tree_ok s T" "mem_ok s (taddrs T) res" "m = map_of (ents T)" "hnds (ents T) \<subseteq> A"
    and o: "counts_ok s" "finite A" "card A = num_alloced s" using i by (auto simp: bset_inv_def)
  have ph: "(p, h) \<in> set (ents T)" using h T(3) map_of_SomeD by metis
  obtain t d where t: "T = Some t" "bt_repr s None t" "shape 1 d t" "root_sept s = Some (baddr t)" "left_sept s = Some (leftaddr t)"
      "sorted_wrt klt (inorder t)" "distinct (map snd (inorder t))" using T(1) ph by (cases T) (auto simp: tree_ok_def)
  have me: "res_list s (sn_reserve s) res" "distinct (addrs t @ res)" "live s = set (addrs t @ res)" "num_septs s = length (addrs t @ res)"
    using T(2) by (simp_all add: mem_ok_def t(1))
  have w: "whole s t res" using t me by (simp add: whole_def)
  have "h \<in> thnds t" using thnds_twf [OF shape_twf [OF t(3)]] ph t(1) by force
  then obtain K a lk q rk cs where k: "t = plug K (Node a (lk @ (q, h) # rk) cs)" "ctx_wf K" using locate [OF t(3)] by blast
  obtain s' X Y where s': "remove_at h a (length lk) s = Some s'" "inorder t = X @ (q, h) # Y" "rem_done s s' (X @ Y) (addrs t @ res)"
    using remove_at_ok [OF w t(3) k] by blast
  have nd: "node_at s a (ctx_parent K) (lk @ (q, h) # rk) (ptrs (lk @ (q, h) # rk) cs)" using t(2) by (simp add: k(1) bt_repr_plug)
  have "a \<in># mset (addrs t)" by (simp only: k(1) mset_addrs_plug) simp
  then have al: "a \<in> live s" using me(3) by simp
  have "distinct (map snd (weave (map inorder cs) (lk @ (q, h) # rk)))" using t(7) by (simp add: k(1) inorder_plug [OF k(2)])
  moreover have "mset (map snd (weave (map inorder cs) (lk @ (q, h) # rk))) =
      mset (map snd (concat (map inorder cs)) @ map snd (lk @ (q, h) # rk))" by (simp add: mset_weave)
  ultimately have dk: "distinct (map snd (lk @ (q, h) # rk))" using mset_eq_imp_distinct_iff distinct_append by metis
  have "h_parent s h = Some a" using handles_at [OF nd, of h] by simp
  then have "bset_remove h s = Some s'" using al handle_index [OF nd dk] s'(1) by (simp add: bset_remove_def)
  moreover have pq: "p = q" using ph t(1,7) s'(2) by (auto simp: image_iff) 
  have "sorted_wrt klt (X @ Y)" "distinct (map snd (X @ Y))" "hnds (X @ Y) \<subseteq> A" using t(6,7) T(4) by (auto simp: s'(2) t(1) sorted_wrt_append)
  note v = rem_done_inv [OF s'(3) this(1,2) me(2-4) o this(3)]
  moreover have "p \<notin> dom (map_of (X @ Y))"
    using sorted_distinct [OF t(6)] pq by (auto simp: s'(2) dom_map_of_conv_image_fst simp del: map_of_append)
  then have "map_of (X @ Y) = m(p := None)"
    using map_of_insert [of X q h Y] t(6) pq by (auto simp: T(3) t(1) s'(2) fun_eq_iff simp del: map_of_append)
  moreover have "ran m - {h} = hnds (X @ Y)" using ran_ents(1) [OF t(6)] t(7) by (auto simp: T(3) t(1) s'(2))
  ultimately show ?thesis using s'(3) by (auto simp: rem_done_def)
qed

end
