(* ===== verification/Btree_Props.thy ===== *)
theory Btree_Props
  imports Btree_Remove
begin

text \<open>
  What \<open>btree_set\<close> promises its clients: the interface \<open>handle_map\<close>, a finite map from keys to handles of which some are
  allocated, its interpretation on the B-tree, the states a client can bring the set to, and the destructor.
\<close>

section \<open>The interface\<close>

locale handle_map =
  fixes inv :: "'s \<Rightarrow> 'h set \<Rightarrow> ('p \<Rightarrow> 'h option) \<Rightarrow> bool"
    and find_op :: "'p \<Rightarrow> 's \<Rightarrow> 'h option option"
    and insert_op :: "'h \<Rightarrow> 'p \<Rightarrow> 's \<Rightarrow> (bool \<times> 's) option"
    and remove_op :: "'h \<Rightarrow> 's \<Rightarrow> 's option"
    and dealloc_op :: "'h \<Rightarrow> 's \<Rightarrow> 's option"
    and data :: "'s \<Rightarrow> 'h \<Rightarrow> 't"
    and linked :: "'h \<Rightarrow> 's \<Rightarrow> bool"
  assumes find_law: "inv s A m \<Longrightarrow> find_op p s = Some (m p)"
    and insert_law: "inv s A m \<Longrightarrow> h \<in> A \<Longrightarrow> h \<notin> ran m \<Longrightarrow> m p = None \<Longrightarrow>
      \<exists>s'. insert_op h p s = Some (True, s') \<and> inv s' A (m(p \<mapsto> h)) \<and> data s' = data s"
    and present_law: "inv s A m \<Longrightarrow> h \<in> A \<Longrightarrow> h \<notin> ran m \<Longrightarrow> m p \<noteq> None \<Longrightarrow> insert_op h p s = Some (False, s)"
    and remove_law: "inv s A m \<Longrightarrow> m p = Some h \<Longrightarrow>
      \<exists>s'. remove_op h s = Some s' \<and> inv s' A (m(p := None)) \<and> data s' = data s \<and> linked h s'"
    and dealloc_law: "inv s A m \<Longrightarrow> h \<in> A \<Longrightarrow> h \<notin> ran m \<Longrightarrow> \<exists>s'. dealloc_op h s = Some s' \<and> inv s' (A - {h}) m \<and> data s' = data s"
    and handles_law: "inv s A m \<Longrightarrow> finite A \<and> ran m \<subseteq> A \<and> finite (dom m) \<and> inj_on m (dom m)"
begin

lemma removed_ran: "inv s A m \<Longrightarrow> m p = Some h \<Longrightarrow> h \<notin> ran (m(p := None))"
  using handles_law [of s A m] by (auto simp: ran_def inj_on_def dom_def split: if_splits)

text \<open>A value inserted is found, and its removal restores the map; the slot can then be given back.\<close>

lemma insert_remove:
  assumes i: "inv s A m" and h: "h \<in> A" "h \<notin> ran m" and p: "m p = None"
  shows "\<exists>s1 s2 s3. insert_op h p s = Some (True, s1) \<and> find_op p s1 = Some (Some h) \<and> (\<forall>q. q \<noteq> p \<longrightarrow> find_op q s1 = find_op q s) \<and>
    remove_op h s1 = Some s2 \<and> (\<forall>q. find_op q s2 = find_op q s) \<and> dealloc_op h s2 = Some s3 \<and> (\<forall>q. find_op q s3 = find_op q s) \<and>
    data s3 = data s"
proof -
  obtain s1 where s1: "insert_op h p s = Some (True, s1)" "inv s1 A (m(p \<mapsto> h))" "data s1 = data s" using insert_law [OF i h p] by blast
  obtain s2 where s2: "remove_op h s1 = Some s2" "inv s2 A ((m(p \<mapsto> h))(p := None))" "data s2 = data s1" using remove_law [OF s1(2), of p h] by auto
  have "(m(p \<mapsto> h))(p := None) = m" using p by (simp add: fun_upd_idem)
  then have i2: "inv s2 A m" using s2(2) by simp
  obtain s3 where s3: "dealloc_op h s2 = Some s3" "inv s3 (A - {h}) m" "data s3 = data s2" using dealloc_law [OF i2 h] by blast
  show ?thesis
    using s1 s2(1,3) s3 find_law [OF i] find_law [OF s1(2)] find_law [OF i2] find_law [OF s3(2)] by auto
qed

text \<open>A look-up and the removal of what it finds.\<close>

lemma find_remove:
  assumes "inv s A m"
  shows "(case m p of None \<Rightarrow> find_op p s = Some None
    | Some h \<Rightarrow> \<exists>s'. find_op p s = Some (Some h) \<and> remove_op h s = Some s' \<and> inv s' A (m(p := None)) \<and> data s' = data s)"
  using find_law [OF assms, of p] remove_law [OF assms, of p] by (auto split: option.split)

end

lemma handles_inv: "bset_inv s A m \<Longrightarrow> finite A \<and> ran m \<subseteq> A \<and> finite (dom m) \<and> inj_on m (dom m)"
proof -
  assume "bset_inv s A m"
  then obtain T where T: "tree_ok s T" "m = map_of (ents T)" "hnds (ents T) \<subseteq> A" "finite A" by (auto simp: bset_inv_def)
  have so: "sorted_wrt klt (ents T)" and d: "distinct (map snd (ents T))" using T(1) by (simp_all add: tree_ok_def)
  have "p = q" if "m p = Some h" "m q = Some h" for p q h
  proof -
    have "(p, h) \<in> set (ents T)" "(q, h) \<in> set (ents T)" using that T(2) by (auto dest: map_of_SomeD)
    then show ?thesis using d by (metis distinct_map inj_onD snd_conv Pair_inject)
  qed
  then have "inj_on m (dom m)" by (auto simp: inj_on_def)
  then show ?thesis using T ran_ents(1) [OF so] finite_dom_map_of [of "ents T"] by simp
qed

lemma removed_linked: "bset_inv s A m \<Longrightarrow> m p = Some h \<Longrightarrow> h_parent s' h = h_parent s h \<Longrightarrow> bset_is_queued h s'"
  using queued_inv [of s A m h] by (auto simp: bset_is_queued_def ran_def)

interpretation bset: handle_map bset_inv bset_find bset_insert bset_remove bset_deallocate h_data bset_is_queued
proof
  fix s :: "('h, 'p::linorder, 't) btree_set" and A m p h
  assume i: "bset_inv s A m"
  show "bset_find p s = Some (m p)" by (rule find_inv [OF i])
  show "finite A \<and> ran m \<subseteq> A \<and> finite (dom m) \<and> inj_on m (dom m)" by (rule handles_inv [OF i])
  { assume "m p = Some h"
    from remove_inv [OF i this] removed_linked [OF i this]
    show "\<exists>s'. bset_remove h s = Some s' \<and> bset_inv s' A (m(p := None)) \<and> h_data s' = h_data s \<and> bset_is_queued h s'" by fastforce }
  assume h: "h \<in> A" "h \<notin> ran m"
  show "\<exists>s'. bset_deallocate h s = Some s' \<and> bset_inv s' (A - {h}) m \<and> h_data s' = h_data s" using deallocate_inv [OF i h] by blast
  show "\<exists>s'. bset_insert h p s = Some (True, s') \<and> bset_inv s' A (m(p \<mapsto> h)) \<and> h_data s' = h_data s" if "m p = None"
    using insert_inv [OF i h, of p] that by auto
  show "bset_insert h p s = Some (False, s)" if "m p \<noteq> None" using insert_inv [OF i h, of p] that by auto
qed

section \<open>Reachable states\<close>

text \<open>
  The states of a set, with the handles allocated and the map the calls define, under the client's contract: a handle is
  allocated once before it is used, inserted when it is not in the set, removed when it is, and deallocated after its removal.
\<close>

inductive bset_reach ::
  "(nat set \<Rightarrow> nat option) \<Rightarrow> ('h, 'p::linorder, 't) btree_set \<Rightarrow> 'h set \<Rightarrow> ('p \<Rightarrow> 'h option) \<Rightarrow> bool" for new_at where
  reach_new: "bset_reach new_at (bset_new garbage d) {} Map.empty"
| reach_allocate: "bset_reach new_at s A m \<Longrightarrow> h \<notin> A \<Longrightarrow> card A + 1 < 2 ^ 31 \<Longrightarrow> bset_allocate new_at h d s = (None, s') \<Longrightarrow>
    bset_reach new_at s' (insert h A) m"
| reach_bad_alloc: "bset_reach new_at s A m \<Longrightarrow> h \<notin> A \<Longrightarrow> card A + 1 < 2 ^ 31 \<Longrightarrow> bset_allocate new_at h d s = (Some e, s') \<Longrightarrow>
    bset_reach new_at s' A m"
| reach_deallocate: "bset_reach new_at s A m \<Longrightarrow> h \<in> A \<Longrightarrow> h \<notin> ran m \<Longrightarrow> bset_deallocate h s = Some s' \<Longrightarrow>
    bset_reach new_at s' (A - {h}) m"
| reach_insert: "bset_reach new_at s A m \<Longrightarrow> h \<in> A \<Longrightarrow> h \<notin> ran m \<Longrightarrow> bset_insert h p s = Some (b, s') \<Longrightarrow>
    bset_reach new_at s' A (if m p = None then m(p \<mapsto> h) else m)"
| reach_remove: "bset_reach new_at s A m \<Longrightarrow> m p = Some h \<Longrightarrow> bset_remove h s = Some s' \<Longrightarrow> bset_reach new_at s' A (m(p := None))"
| reach_data: "bset_reach new_at s A m \<Longrightarrow> h \<in> A \<Longrightarrow> bset_reach new_at (s\<lparr>h_data := (h_data s)(h := d)\<rparr>) A m"

lemma data_inv: "bset_inv s A m \<Longrightarrow> bset_inv (s\<lparr>h_data := d\<rparr>) A m"
proof -
  assume "bset_inv s A m"
  then obtain T res where T: "tree_ok s T" "mem_ok s (taddrs T) res" "m = map_of (ents T)" "hnds (ents T) \<subseteq> A"
    and o: "counts_ok s" "finite A" "card A = num_alloced s" by (auto simp: bset_inv_def)
  have "tree_ok (s\<lparr>h_data := d\<rparr>) T" "mem_ok (s\<lparr>h_data := d\<rparr>) (taddrs T) res" by (rule ok_cong [OF _ _ _ _ _ _ _ T(1,2)]; simp)+
  then show ?thesis using T(3,4) o unfolding bset_inv_def counts_ok_def by auto
qed

lemma reach_inv:
  assumes na: "\<And>X a. new_at X = Some a \<Longrightarrow> a \<notin> X"
  shows "bset_reach new_at s A m \<Longrightarrow> bset_inv s A m"
proof (induction rule: bset_reach.induct)
  case (reach_allocate s A m h d s')
  then show ?case using allocate_inv [OF reach_allocate.IH, of h new_at d] na by auto
next
  case (reach_bad_alloc s A m h d e s')
  then show ?case using allocate_inv [OF reach_bad_alloc.IH, of h new_at d] na by auto
next
  case (reach_insert s A m h p b s')
  then show ?case using insert_inv [OF reach_insert.IH, of h p] by (auto split: if_splits)
next
  case (reach_remove s A m p h s')
  then show ?case using remove_inv [OF reach_remove.IH, of p h] by (metis option.inject)
next
  case (reach_deallocate s A m h s')
  then show ?case using deallocate_inv [OF reach_deallocate.IH, of h] by auto
qed (auto intro: bset_inv_new data_inv)

section \<open>Destruction\<close>

lemma destroy_reserve_ok:
  "res_list s (sn_reserve s) res \<Longrightarrow> distinct res \<Longrightarrow> set res \<subseteq> live s \<Longrightarrow>
   \<exists>s'. destroy_reserve s = Some s' \<and> live s' = live s - set res \<and> h_data s' = h_data s"
proof (induction res arbitrary: s)
  case Nil
  then show ?case by (simp add: destroy_reserve.simps)
next
  case (Cons r res)
  let ?s = "s\<lparr>sn_reserve := s_parent (septs s r), live := live s - {r}\<rparr>"
  have r: "sn_reserve s = Some r" "res_list s (s_parent (septs s r)) res" using Cons.prems(1) by auto
  have "res_list ?s (sn_reserve ?s) res = res_list s (sn_reserve ?s) res" by (rule res_list_cong) simp
  then obtain s' where "destroy_reserve ?s = Some s'" "live s' = live ?s - set res" "h_data s' = h_data ?s"
    using Cons.IH [of ?s] r(2) Cons.prems(2,3) by auto
  moreover have "destroy_reserve s = destroy_reserve ?s" using r(1) Cons.prems(3) by (subst destroy_reserve.simps) simp
  ultimately show ?case by auto
qed

lemma first_value: "bt_repr s par t \<Longrightarrow> shape r d t \<Longrightarrow> 1 \<le> r \<Longrightarrow> \<exists>h. s_hn (septs s (leftaddr t)) 0 = Some h \<and> h \<in> thnds t"
proof (induction t arbitrary: par r d)
  case (Node a ks cs)
  show ?case
  proof (cases cs)
    case Nil
    obtain k ks' where k: "ks = k # ks'" using Node.prems(2,3) by (cases ks; cases d) auto
    then show ?thesis using Node.prems(1) node_atD(4) [of s a par ks "ptrs ks cs" 0] by (auto simp: Nil)
  next
    case (Cons c cs')
    then obtain d' where "shape 4 d' c" using Node.prems(2) by (cases d) auto
    then obtain h where "s_hn (septs s (leftaddr c)) 0 = Some h" "h \<in> thnds c"
      using Node.IH [of c "Some a" 4 d'] Node.prems(1) Cons by auto
    then show ?thesis using Cons by auto
  qed
qed

lemma destroy_inv: "bset_inv s A m \<Longrightarrow> \<exists>s'. bset_destroy s = Some s' \<and> live s' = {} \<and> h_data s' = h_data s"
proof (induction "card (dom m)" arbitrary: s m rule: less_induct)
  case less
  obtain T res where T: "tree_ok s T" "mem_ok s (taddrs T) res" "m = map_of (ents T)" using less.prems by (auto simp: bset_inv_def)
  show ?case
  proof (cases T)
    case None
    then have "bset_destroy s = destroy_reserve s" using T(1) by (simp add: tree_ok_def bset_destroy.simps)
    then show ?thesis using T(2) destroy_reserve_ok [of s res] by (auto simp: None mem_ok_def)
  next
    case (Some t)
    obtain d where t: "bt_repr s None t" "shape 1 d t" "left_sept s = Some (leftaddr t)" "sorted_wrt klt (inorder t)"
      using T(1) by (auto simp: Some tree_ok_def)
    obtain h where h: "s_hn (septs s (leftaddr t)) 0 = Some h" "h \<in> thnds t" using first_value [OF t(1,2)] by auto
    have "h \<in> ran m" using h(2) thnds_twf [OF shape_twf [OF t(2)]] ran_ents(1) [OF t(4)] by (simp add: T(3) Some)
    then obtain p where p: "m p = Some h" by (auto simp: ran_def)
    obtain s' where s': "bset_remove h s = Some s'" "bset_inv s' A (m(p := None))" "h_data s' = h_data s"
      using remove_inv [OF less.prems p] by blast
    have "card (dom m - {p}) < card (dom m)" using p handles_inv [OF less.prems] by (intro card_Diff1_less) auto
    then have "card (dom (m(p := None))) < card (dom m)" by simp
    from less.hyps [OF this s'(2)] show ?thesis using t(3) h(1) s'(1,3) by (auto simp: bset_destroy.simps [of s])
  qed
qed

section \<open>Properties\<close>

text \<open>
  C10: Refinement. In every state that calls within the contract reach, the B-tree is the map \<open>m\<close>: \<open>find\<close> returns what \<open>m\<close> has;
  \<open>insert\<close> of an allocated handle that is not in the set returns whether the key was absent, never needs memory, and
  makes the map \<open>m(p \<mapsto> h)\<close>, or keeps it; \<open>remove\<close> of a handle in the set makes it \<open>m(p := None)\<close>. All calls return, without
  following a null or dangling pointer, and keep the client's data.
\<close>

theorem bset_refines_map:
  assumes "\<forall>X a. new_at X = Some a \<longrightarrow> a \<notin> X" and "bset_reach new_at s A m"
  shows "bset_find p s = Some (m p) \<and> (bset_empty s \<longleftrightarrow> m = Map.empty) \<and>
    (h \<in> A \<and> h \<notin> ran m \<longrightarrow> (\<exists>s'. bset_insert h p s = Some (m p = None, s') \<and> h_data s' = h_data s \<and>
       (\<forall>q. bset_find q s' = Some ((if m p = None then m(p \<mapsto> h) else m) q)))) \<and>
    (m p = Some h \<longrightarrow> (\<exists>s'. bset_remove h s = Some s' \<and> h_data s' = h_data s \<and> (\<forall>q. bset_find q s' = Some ((m(p := None)) q))))"
proof -
  have i: "bset_inv s A m" using reach_inv [of new_at s A m] assms by blast
  have "\<exists>s'. bset_insert h p s = Some (m p = None, s') \<and> h_data s' = h_data s \<and>
      (\<forall>q. bset_find q s' = Some ((if m p = None then m(p \<mapsto> h) else m) q))" if "h \<in> A" "h \<notin> ran m"
  proof (cases "m p")
    case None
    then show ?thesis using bset.insert_law [OF i that None] bset.find_law by fastforce
  next
    case (Some g)
    then show ?thesis using bset.present_law [OF i that, of p] bset.find_law [OF i] by auto
  qed
  moreover have "\<exists>s'. bset_remove h s = Some s' \<and> h_data s' = h_data s \<and> (\<forall>q. bset_find q s' = Some ((m(p := None)) q))" if "m p = Some h"
    using bset.remove_law [OF i that] bset.find_law by metis
  ultimately show ?thesis using find_inv [OF i] empty_inv [OF i] by blast
qed

definition first_only :: "nat set \<Rightarrow> nat option" where
  "first_only X = (if X = {} then Some 0 else None)"

definition sample_set :: "(nat, int, int) btree_set" where
  "sample_set = bset_new (\<lambda>_. \<lparr>s_prio = \<lambda>_. 0, s_hn = \<lambda>_. None, s_ch = \<lambda>_. None, s_parent = None\<rparr>) (\<lambda>_. 0)"

lemma sample_reach: "\<exists>s. bset_reach first_only s {7, 8} Map.empty \<and> bset_allocate first_only 8 2 (snd (bset_allocate first_only 7 1 sample_set)) = (None, s)"
proof -
  obtain s1 where s1: "bset_allocate first_only 7 1 sample_set = (None, s1)" "num_alloced s1 = 1" "next_sept s1 = 5"
    by (simp add: bset_allocate_def alloc_slot_def new_reserve_def release_sept_def set_parent_def upn_def sample_set_def bset_new_def
      first_only_def u32_def N_def Let_def)
  obtain s2 where s2: "bset_allocate first_only 8 2 s1 = (None, s2)" using s1(2,3) by (simp add: bset_allocate_def alloc_slot_def Let_def)
  have "bset_reach first_only s1 {7} Map.empty"
    using reach_allocate [OF reach_new, of 7 first_only 1] s1(1) unfolding sample_set_def by simp
  then have "bset_reach first_only s2 (insert 8 {7}) Map.empty" by (rule reach_allocate [OF _ _ _ s2]) simp_all
  then show ?thesis using s1(1) s2 by (auto simp: insert_commute)
qed

lemma first_only_fresh: "\<forall>X a. first_only X = Some a \<longrightarrow> a \<notin> X"
  by (simp add: first_only_def)

theorem bset_refines_map_witness:
  "\<exists>s s'. bset_allocate first_only 8 2 (snd (bset_allocate first_only 7 1 sample_set)) = (None, s) \<and>
    bset_insert 8 100 s = Some (True, s') \<and> bset_find 100 s' = Some (Some 8) \<and> bset_find 99 s' = Some None"
proof -
  obtain s where s: "bset_reach first_only s {7, 8} Map.empty"
      "bset_allocate first_only 8 2 (snd (bset_allocate first_only 7 1 sample_set)) = (None, s)" using sample_reach by blast
  have "\<exists>s'. bset_insert 8 100 s = Some (True, s') \<and> bset_find 100 s' = Some (Some 8) \<and> bset_find 99 s' = Some None"
    using bset_refines_map [OF first_only_fresh s(1), of 100 8] by auto
  then show ?thesis using s(2) by blast
qed

text \<open>
  C21: Round trip. In every reachable state, inserting an allocated handle under a new key, finding it, removing it and
  deallocating it gives a set that holds what it held before: every look-up has the result it had, at every step.
\<close>

theorem bset_roundtrip:
  assumes "\<forall>X a. new_at X = Some a \<longrightarrow> a \<notin> X" and "bset_reach new_at s A m" and "h \<in> A" "h \<notin> ran m" and "bset_find p s = Some None"
  shows "\<exists>s1 s2 s3. bset_insert h p s = Some (True, s1) \<and> bset_find p s1 = Some (Some h) \<and>
    (\<forall>q. q \<noteq> p \<longrightarrow> bset_find q s1 = bset_find q s) \<and> bset_remove h s1 = Some s2 \<and> (\<forall>q. bset_find q s2 = bset_find q s) \<and>
    bset_deallocate h s2 = Some s3 \<and> (\<forall>q. bset_find q s3 = bset_find q s) \<and> h_data s3 = h_data s"
proof -
  have i: "bset_inv s A m" using reach_inv [of new_at s A m] assms(1,2) by blast
  moreover have "m p = None" using bset.find_law [OF i, of p] assms(5) by simp
  ultimately show ?thesis using assms(3,4) by (intro bset.insert_remove)
qed

theorem bset_roundtrip_witness:
  "\<exists>s s1 s2. bset_allocate first_only 8 2 (snd (bset_allocate first_only 7 1 sample_set)) = (None, s) \<and>
    bset_insert 7 (- 3) s = Some (True, s1) \<and> bset_find (- 3) s1 = Some (Some 7) \<and> bset_remove 7 s1 = Some s2 \<and> bset_find (- 3) s2 = Some None"
proof -
  obtain s where s: "bset_reach first_only s {7, 8} Map.empty"
      "bset_allocate first_only 8 2 (snd (bset_allocate first_only 7 1 sample_set)) = (None, s)" using sample_reach by blast
  have "bset_inv s {7, 8} Map.empty" using s(1) first_only_fresh by (intro reach_inv) auto
  then have f: "bset_find (- 3) s = Some None" using bset.find_law by fastforce
  from bset_roundtrip [OF first_only_fresh s(1) _ _ f, of 7] show ?thesis using s(2) f by auto
qed

text \<open>
  C40: Destruction. In every reachable state, the destructor's loops end, follow no null or dangling pointer, and free every node
  that was allocated.
\<close>

theorem bset_destroy_frees:
  assumes "\<forall>X a. new_at X = Some a \<longrightarrow> a \<notin> X" and "bset_reach new_at s A m"
  shows "\<exists>s'. bset_destroy s = Some s' \<and> live s' = {}"
  using destroy_inv [OF reach_inv [of new_at s A m]] assms by blast

theorem bset_destroy_frees_witness:
  "\<exists>s s'. bset_allocate first_only 8 2 (snd (bset_allocate first_only 7 1 sample_set)) = (None, s) \<and> bset_destroy s = Some s' \<and> live s' = {}"
proof -
  obtain s where s: "bset_reach first_only s {7, 8} Map.empty"
      "bset_allocate first_only 8 2 (snd (bset_allocate first_only 7 1 sample_set)) = (None, s)" using sample_reach by blast
  from bset_destroy_frees [OF first_only_fresh s(1)] show ?thesis using s(2) by blast
qed

end
