(* ===== verification/Childproc_Props.thy ===== *)
theory Childproc_Props
  imports Childproc Epoll_Props Btree_Props
begin

text \<open>
  The child watches: the map of process ids keeps every watch that was added, and \<open>SIGCHLD\<close> reports each terminated child to
  its watcher once. The mixin is one part of a mechanism's state; the lemmas on it are proved for any such part in the
  locale \<open>child_mixin\<close>, which is interpreted on the state of the epoll mechanism.
\<close>

section \<open>The map of process ids\<close>

text \<open>The handles \<open>A\<close> are reserved, \<open>m\<close> maps the watched process ids to their watchers.\<close>

definition waiters_ok :: "pid_map \<Rightarrow> waddr set \<Rightarrow> (int \<Rightarrow> waddr option) \<Rightarrow> bool" where
  "waiters_ok w A m \<longleftrightarrow> bset_inv w A m \<and> (\<forall>h \<in> ran m. h_data w h = Some h)"

lemma pid_get_ok: "waiters_ok w A m \<Longrightarrow> pid_get pid w = Some (m pid \<noteq> None, m pid)"
  using bset.find_law [of w A m pid] by (auto simp: waiters_ok_def pid_get_def ran_def split: option.split)

lemma ran_del: "ran (m(p := None)) \<subseteq> ran m"
  by (auto simp: ran_def)

lemma pid_remove_ok:
  assumes "waiters_ok w A m"
  shows "\<exists>w'. pid_remove pid w = Some ((m pid \<noteq> None, m pid), w') \<and> waiters_ok w' A (m(pid := None))"
proof (cases "m pid")
  case None
  then have "m(pid := None) = m" by (simp add: fun_upd_idem)
  then show ?thesis using assms None bset.find_law [of w A m pid] by (simp add: waiters_ok_def pid_remove_def)
next
  case (Some h)
  have i: "bset_inv w A m" "\<forall>h \<in> ran m. h_data w h = Some h" using assms by (simp_all add: waiters_ok_def)
  obtain w' where w': "bset_find pid w = Some (Some h)" "bset_remove h w = Some w'" "bset_inv w' A (m(pid := None))" "h_data w' = h_data w"
    using bset.find_remove [OF i(1), of pid] Some by auto
  moreover have "h_data w h = Some h" using i(2) Some by (auto simp: ran_def)
  moreover have "waiters_ok w' A (m(pid := None))" using w'(3,4) i(2) ran_del [of m pid] by (auto simp: waiters_ok_def)
  ultimately show ?thesis using Some by (simp add: pid_remove_def)
qed

lemma pid_reserve_ok:
  assumes "waiters_ok w A m" "a \<notin> A" "card A + 1 < 2 ^ 31" "\<forall>X x. new_at X = Some x \<longrightarrow> x \<notin> X"
  shows "pid_reserve new_at a w = (Some Bad_alloc, w) \<or> (\<exists>w'. pid_reserve new_at a w = (None, w') \<and> waiters_ok w' (insert a A) m)"
proof -
  have i: "bset_inv w A m" "\<forall>h \<in> ran m. h_data w h = Some h" using assms(1) by (simp_all add: waiters_ok_def)
  have "a \<notin> ran m" using bset.handles_law [OF i(1)] assms(2) by blast
  then show ?thesis using allocate_inv [OF i(1) assms(2,3), of new_at None] assms(4) i(2) by (auto simp: pid_reserve_def waiters_ok_def)
qed

lemma set_node_data_ok: "waiters_ok w A m \<Longrightarrow> a \<notin> ran m \<Longrightarrow> bset_inv (set_node_data a v w) A m \<and> (\<forall>h \<in> ran m. h_data (set_node_data a v w) h = Some h)"
  by (auto simp: waiters_ok_def set_node_data_def intro: data_inv)

lemma pid_add_from_reserve_ok:
  assumes "waiters_ok w A m" "a \<in> A" "a \<notin> ran m"
  shows "\<exists>w'. pid_add_from_reserve a pid (Some a) w = Some w' \<and> waiters_ok w' A (if m pid = None then m(pid \<mapsto> a) else m)"
proof -
  have s: "bset_inv (set_node_data a (Some a) w) A m" "\<forall>h \<in> ran m. h_data (set_node_data a (Some a) w) h = Some h"
    using set_node_data_ok [OF assms(1,3)] by blast+
  show ?thesis
  proof (cases "m pid")
    case None
    obtain w' where w': "bset_insert a pid (set_node_data a (Some a) w) = Some (True, w')" "bset_inv w' A (m(pid \<mapsto> a))"
        "h_data w' = h_data (set_node_data a (Some a) w)" using bset.insert_law [OF s(1) assms(2,3) None] by blast
    then have "waiters_ok w' A (m(pid \<mapsto> a))" using s(2) None by (auto simp: waiters_ok_def ran_map_upd set_node_data_def)
    then show ?thesis using w'(1) None by (simp add: pid_add_from_reserve_def)
  next
    case (Some g)
    then show ?thesis
      using bset.present_law [OF s(1) assms(2,3), of pid] s by (simp add: pid_add_from_reserve_def waiters_ok_def)
  qed
qed

lemma pid_add_ok:
  assumes "waiters_ok w A m" "a \<notin> A" "card A + 1 < 2 ^ 31" "\<forall>X x. new_at X = Some x \<longrightarrow> x \<notin> X"
  shows "pid_add new_at a pid (Some a) w = Some (Some Bad_alloc, w) \<or>
    (\<exists>w'. pid_add new_at a pid (Some a) w = Some (None, w') \<and> waiters_ok w' (insert a A) (if m pid = None then m(pid \<mapsto> a) else m))"
  using pid_reserve_ok [OF assms]
proof (elim disjE exE conjE)
  fix w' assume w': "pid_reserve new_at a w = (None, w')" "waiters_ok w' (insert a A) m"
  have "a \<notin> ran m" using bset.handles_law assms(1,2) by (auto simp: waiters_ok_def)
  then obtain w'' where w'': "pid_add_from_reserve a pid (Some a) w' = Some w''"
      "waiters_ok w'' (insert a A) (if m pid = None then m(pid \<mapsto> a) else m)" using pid_add_from_reserve_ok [OF w'(2)] by blast
  then have "pid_add new_at a pid (Some a) w = Some (None, w'')" using w'(1) by (auto simp: pid_add_def pid_add_from_reserve_def)
  then show ?thesis using w''(2) by blast
qed (simp add: pid_add_def)

lemma pid_remove_handle_ok:
  assumes "waiters_ok w A m" "m p = Some a"
  shows "\<exists>w'. pid_remove_handle a w = Some w' \<and> waiters_ok w' A (m(p := None))"
proof -
  have i: "bset_inv w A m" "\<forall>h \<in> ran m. h_data w h = Some h" using assms(1) by (simp_all add: waiters_ok_def)
  have "bset_is_queued a w" using assms(2) by (intro queued_inv [OF i(1)]) (auto simp: ran_def)
  then show ?thesis using bset.remove_law [OF i(1) assms(2)] i(2) ran_del [of m p] by (fastforce simp: pid_remove_handle_def waiters_ok_def)
qed

lemma pid_unreserve_ok: "waiters_ok w A m \<Longrightarrow> a \<in> A \<Longrightarrow> a \<notin> ran m \<Longrightarrow> \<exists>w'. pid_unreserve a w = Some w' \<and> waiters_ok w' (A - {a}) m"
  using bset.dealloc_law [of w A m a] by (auto simp: waiters_ok_def pid_unreserve_def)

section \<open>Reaping\<close>

text \<open>\<open>zombies Y zs k k'\<close>: \<open>waitid\<close> reports the processes \<open>zs\<close> and then none, in state \<open>k'\<close>.\<close>

fun zombies :: "'k proc_sys \<Rightarrow> child_info list \<Rightarrow> 'k \<Rightarrow> 'k \<Rightarrow> bool" where
  "zombies Y [] k k' \<longleftrightarrow> (\<forall>buf. si_pid buf = 0 \<longrightarrow> (\<exists>ok buf'. waitid Y buf k = ((ok, buf'), k') \<and> (ok \<longrightarrow> si_pid buf' = 0)))"
| "zombies Y (z # zs) k k' \<longleftrightarrow> si_pid z \<noteq> 0 \<and> (\<exists>k1. (\<forall>buf. waitid Y buf k = ((True, z), k1)) \<and> zombies Y zs k1 k')"

definition status_of :: "child_info \<Rightarrow> proc_status" where
  "status_of z = \<lparr>wait_si_code = si_code z, wait_si_status = si_status z\<rparr>"

text \<open>The watchers of the processes \<open>zs\<close>, and the map without them.\<close>

definition reported :: "(int \<Rightarrow> waddr option) \<Rightarrow> child_info list \<Rightarrow> waddr set" where
  "reported m zs = {h. \<exists>z \<in> set zs. m (si_pid z) = Some h}"

definition without :: "(int \<Rightarrow> waddr option) \<Rightarrow> child_info list \<Rightarrow> int \<Rightarrow> waddr option" where
  "without m zs p = (if p \<in> si_pid ` set zs then None else m p)"

lemma without_simps [simp]: "without m [] = m" "without m (z # zs) = without (m(si_pid z := None)) zs"
  by (auto simp: without_def fun_eq_iff)

lemma reported_Nil [simp]: "reported m [] = {}"
  by (simp add: reported_def)

lemma reported_None: "m (si_pid z) = None \<Longrightarrow> reported m (z # zs) = reported m zs"
  by (auto simp: reported_def)

lemma reported_Some: "inj_on m (dom m) \<Longrightarrow> m (si_pid z) = Some h \<Longrightarrow> reported m (z # zs) = insert h (reported (m(si_pid z := None)) zs)"
  by (auto simp: reported_def) (metis option.inject)

lemma reported_ran: "reported m zs \<subseteq> ran m"
  by (auto simp: reported_def ran_def)

lemma receive_child_ok:
  fixes st :: proc_status
  assumes "reg_ok E A s" "a \<in> A" "\<not> is_queued s a"
  defines "s' \<equiv> receive_child_stat E st a s"
  shows "reg_ok E A s'" "is_queued s' a" "fault s' = fault s" "lock_held s' = lock_held s"
    "b \<in> A \<Longrightarrow> b \<noteq> a \<Longrightarrow> is_queued s' b = is_queued s b"
    "mem s' = (mem s)(a := (mem s a)\<lparr>child_status := st, child_termd := True\<rparr>)"
proof -
  let ?s = "upd a (\<lambda>w. w\<lparr>child_status := st, child_termd := True\<rparr>) s"
  have s: "reg_ok E A ?s" "\<not> is_queued ?s a" using assms by simp_all
  note q = queue_ok [OF s(1) assms(2) s(2)]
  show "reg_ok E A s'" "is_queued s' a" "fault s' = fault s" "lock_held s' = lock_held s"
    "mem s' = (mem s)(a := (mem s a)\<lparr>child_status := st, child_termd := True\<rparr>)"
    using q(1-3) by (simp_all add: s'_def receive_child_stat_def)
  show "b \<in> A \<Longrightarrow> b \<noteq> a \<Longrightarrow> is_queued s' b = is_queued s b" using q(4) by (simp add: s'_def receive_child_stat_def)
qed

lemma receive_child_mech [simp]: "mech (receive_child_stat E st a s) = mech s" "removed (receive_child_stat E st a s) = removed s"
  by (simp_all add: receive_child_stat_def)

lemma child_do_simps [simp]:
  "event_queue (child_do P f s) = event_queue s" "mem (child_do P f s) = mem s" "removed (child_do P f s) = removed s"
  "lock_held (child_do P f s) = lock_held s" "fault (child_do P f s) = fault s"
  "mech (child_do P f s) = put_part P (f (part_of P (mech s))) (mech s)"
  "attn_busy (child_do P f s) = attn_busy s" "reg_ok E A (child_do P f s) = reg_ok E A s"
  "is_queued (child_do P f s) a = is_queued s a"
  by (simp_all add: child_do_def reg_ok_def is_queued_def)

text \<open>What reaping the processes \<open>zs\<close> does to the watchers and to the mixin's part of the state.\<close>

definition reaped ::
  "heap_env \<Rightarrow> waddr set \<Rightarrow> (int \<Rightarrow> waddr option) \<Rightarrow> child_info list \<Rightarrow> 'm loop \<Rightarrow> 'm loop \<Rightarrow> bool" where
  "reaped E B m zs s s' \<longleftrightarrow> reg_ok E B s' \<and> fault s' = fault s \<and> lock_held s' = lock_held s \<and> removed s' = removed s \<and>
     (\<forall>b \<in> B. is_queued s' b \<longleftrightarrow> is_queued s b \<or> b \<in> reported m zs) \<and>
     (\<forall>b. b \<notin> reported m zs \<longrightarrow> mem s' b = mem s b) \<and>
     (\<forall>z h. m (si_pid z) = Some h \<longrightarrow> find (\<lambda>y. si_pid y = si_pid z) zs = Some z \<longrightarrow>
        mem s' h = (mem s h)\<lparr>child_status := status_of z, child_termd := True\<rparr>)"

lemma reaped_trans:
  assumes "reaped E B m [z] s u" "reaped E B (m(si_pid z := None)) zs u s'" "inj_on m (dom m)"
  shows "reaped E B m (z # zs) s s'"
proof (cases "m (si_pid z)")
  case None
  then have "m(si_pid z := None) = m" by (simp add: fun_upd_idem)
  then show ?thesis using assms(1,2) None reported_None [of m z] unfolding reaped_def by (auto split: if_splits)
next
  case (Some h)
  let ?m = "m(si_pid z := None)"
  have r: "reported m (z # zs) = insert h (reported ?m zs)" "reported m [z] = {h}" using reported_Some [OF assms(3) Some] by simp_all
  have hn: "h \<notin> reported ?m zs"
    using assms(3) Some by (auto simp: reported_def inj_on_def split: if_splits) (metis domI option.inject)
  have one: "mem u h = (mem s h)\<lparr>child_status := status_of z, child_termd := True\<rparr>" "\<And>b. b \<noteq> h \<Longrightarrow> mem u b = mem s b"
    using assms(1) Some unfolding reaped_def r by auto
  have "mem s' g = (mem s g)\<lparr>child_status := status_of y, child_termd := True\<rparr>"
    if y: "m (si_pid y) = Some g" "find (\<lambda>x. si_pid x = si_pid y) (z # zs) = Some y" for y g
  proof (cases "si_pid z = si_pid y")
    case True
    then have "g = h" "y = z" using y Some by simp_all
    then show ?thesis using assms(2) hn one(1) by (simp add: reaped_def)
  next
    case False
    then have "mem s' g = (mem u g)\<lparr>child_status := status_of y, child_termd := True\<rparr>" using assms(2) y by (auto simp: reaped_def)
    moreover have "g \<noteq> h" using False y(1) Some assms(3) by (metis domI inj_onD)
    ultimately show ?thesis using one(2) by simp
  qed
  then show ?thesis using assms(1,2) unfolding reaped_def r by auto
qed

lemma reaped_one:
  assumes t: "reg_ok E B t" "mem t = mem s" "fault t = fault s" "lock_held t = lock_held s" "removed t = removed s"
      "\<And>b. is_queued t b = is_queued s b" and h: "\<And>h. m (si_pid z) = Some h \<Longrightarrow> h \<in> B \<and> \<not> is_queued t h"
  shows "reaped E B m [z] s (case m (si_pid z) of None \<Rightarrow> t | Some a \<Rightarrow> receive_child_stat E (status_of z) a t)"
proof (cases "m (si_pid z)")
  case None
  then show ?thesis using t by (auto simp: reaped_def reported_def)
next
  case (Some a)
  then have a: "a \<in> B" "\<not> is_queued t a" using h by auto
  note r = receive_child_ok [OF t(1) a, where st = "status_of z"]
  show ?thesis using r(1-4,6) r(5) t(2-6) Some by (auto simp: reaped_def reported_def)
qed

locale child_mixin = state_part "part_of P" "put_part P" for P :: "('m, 'k) child_part"
begin

lemma reap_stop:
  assumes "zombies Y [] (proc_kern (part_of P (mech s))) k'" "si_pid buf = 0"
  shows "reap_loop E Y P buf s = Some (child_do P (proc_kern_update (\<lambda>_. k')) s)"
proof -
  obtain ok buf' where "waitid Y buf (proc_kern (part_of P (mech s))) = ((ok, buf'), k')" "ok \<longrightarrow> si_pid buf' = 0" using assms by auto
  then show ?thesis by (subst reap_loop.simps) simp
qed

lemma reap_step:
  assumes "waitid Y buf (proc_kern (part_of P (mech s))) = ((True, z), k)" "si_pid z \<noteq> 0"
    and "pid_remove (si_pid z) (child_waiters (part_of P (mech s))) = Some ((x \<noteq> None, x), w)"
  defines "t \<equiv> child_do P (\<lambda>c. c\<lparr>proc_kern := k, child_waiters := w\<rparr>) s"
  shows "reap_loop E Y P buf s =
    reap_loop E Y P (z\<lparr>si_pid := 0\<rparr>) (case x of None \<Rightarrow> t | Some a \<Rightarrow> receive_child_stat E (status_of z) a t)"
proof -
  have t: "child_do P (child_waiters_update (\<lambda>_. w)) (child_do P (proc_kern_update (\<lambda>_. k)) s) = t"
    by (simp add: child_do_def t_def part_put put_put)
  show ?thesis using assms(1-3) by (subst reap_loop.simps) (simp add: part_put t status_of_def Let_def split: option.split)
qed

lemma reap_ok:
  assumes "zombies Y zs (proc_kern (part_of P (mech s))) k'" "si_pid buf = 0"
    and "waiters_ok (child_waiters (part_of P (mech s))) A m" "reg_ok E B s" "ran m \<subseteq> B" "\<forall>h \<in> ran m. \<not> is_queued s h"
  shows "\<exists>s' w'. reap_loop E Y P buf s = Some s' \<and> reaped E B m zs s s' \<and> waiters_ok w' A (without m zs) \<and>
    mech s' = put_part P ((part_of P (mech s))\<lparr>proc_kern := k', child_waiters := w'\<rparr>) (mech s)"
  using assms
proof (induction zs arbitrary: s m buf)
  case Nil
  have "reap_loop E Y P buf s = Some (child_do P (proc_kern_update (\<lambda>_. k')) s)" by (rule reap_stop [OF Nil.prems(1,2)])
  then show ?case using Nil.prems by (auto simp: reaped_def intro!: exI [of _ "child_waiters (part_of P (mech s))"])
next
  case (Cons z zs)
  let ?c = "part_of P (mech s)" and ?x = "m (si_pid z)" and ?m = "m(si_pid z := None)"
  obtain k where k: "si_pid z \<noteq> 0" "waitid Y buf (proc_kern ?c) = ((True, z), k)" "zombies Y zs k k'" using Cons.prems(1) by auto
  obtain w where w: "pid_remove (si_pid z) (child_waiters ?c) = Some ((?x \<noteq> None, ?x), w)" "waiters_ok w A ?m"
    using pid_remove_ok [OF Cons.prems(3)] by blast
  define t where "t = child_do P (\<lambda>c. c\<lparr>proc_kern := k, child_waiters := w\<rparr>) s"
  define u where "u = (case ?x of None \<Rightarrow> t | Some a \<Rightarrow> receive_child_stat E (status_of z) a t)"
  have step: "reap_loop E Y P buf s = reap_loop E Y P (z\<lparr>si_pid := 0\<rparr>) u" unfolding u_def t_def by (rule reap_step [OF k(2,1) w(1)])
  have mu: "mech u = put_part P (?c\<lparr>proc_kern := k, child_waiters := w\<rparr>) (mech s)" by (simp add: u_def t_def split: option.split)
  have inj: "inj_on m (dom m)" using Cons.prems(3) bset.handles_law by (auto simp: waiters_ok_def)
  have one: "reaped E B m [z] s u"
    unfolding u_def using Cons.prems(4-6) by (intro reaped_one) (auto simp: t_def ran_def)
  have rB: "ran ?m \<subseteq> B" using Cons.prems(5) ran_del [of m "si_pid z"] by blast
  have ru: "reg_ok E B u" using one by (simp add: reaped_def)
  have "\<not> is_queued u h" if hr: "h \<in> ran ?m" for h
  proof -
    obtain p where p: "m p = Some h" "p \<noteq> si_pid z" using hr by (auto simp: ran_def split: if_splits)
    then have "h \<in> B" "\<not> is_queued s h" using Cons.prems(5,6) by (auto simp: ran_def)
    moreover have "m (si_pid z) \<noteq> Some h" using p inj by (metis domI inj_onD)
    then have "h \<notin> reported m [z]" by (simp add: reported_def)
    ultimately show ?thesis using one by (simp add: reaped_def)
  qed
  with ru obtain s' w' where s': "reap_loop E Y P (z\<lparr>si_pid := 0\<rparr>) u = Some s'" "reaped E B ?m zs u s'" "waiters_ok w' A (without ?m zs)"
      "mech s' = put_part P ((part_of P (mech u))\<lparr>proc_kern := k', child_waiters := w'\<rparr>) (mech u)"
    using Cons.IH [of u "z\<lparr>si_pid := 0\<rparr>" ?m, unfolded mu part_put] k(3) w(2) rB by (simp add: mu part_put del: fun_upd_apply) blast
  have "reaped E B m (z # zs) s s'" by (rule reaped_trans [OF one s'(2) inj])
  then show ?case using step s'(1,3,4) by (auto simp: mu part_put put_put)
qed

text \<open>The reaping of \<open>SIGCHLD\<close>, under the reaper lock.\<close>

lemma receive_sigchld:
  assumes "zombies Y zs (proc_kern (part_of P (mech s))) k'" "\<not> reaper_locked (part_of P (mech s))"
    and "waiters_ok (child_waiters (part_of P (mech s))) A m" "reg_ok E B s" "ran m \<subseteq> B" "\<forall>h \<in> ran m. \<not> is_queued s h"
  shows "\<exists>s' w'. cp_receive_signal E Y P junk base_rs SIGCHLD u s = (False, s') \<and> reaped E B m zs s s' \<and> waiters_ok w' A (without m zs) \<and>
    mech s' = put_part P ((part_of P (mech s))\<lparr>proc_kern := k', child_waiters := w'\<rparr>) (mech s)"
proof -
  let ?s = "lock_reaper P s" and ?c = "part_of P (mech s)"
  have l: "mech ?s = put_part P (?c\<lparr>reaper_locked := True\<rparr>) (mech s)" "fault ?s = fault s" "mem ?s = mem s" "lock_held ?s = lock_held s"
      "removed ?s = removed s" "reg_ok E B ?s = reg_ok E B s" "\<And>b. is_queued ?s b = is_queued s b"
    using assms(2) by (simp_all add: lock_reaper_def reg_ok_def is_queued_def)
  have "\<exists>t w'. reap_loop E Y P (junk\<lparr>si_pid := 0\<rparr>) ?s = Some t \<and> reaped E B m zs ?s t \<and> waiters_ok w' A (without m zs) \<and>
    mech t = put_part P ((part_of P (mech ?s))\<lparr>proc_kern := k', child_waiters := w'\<rparr>) (mech ?s)"
    using assms by (intro reap_ok) (simp_all add: l part_put)
  then obtain t w' where t: "reap_loop E Y P (junk\<lparr>si_pid := 0\<rparr>) ?s = Some t" "reaped E B m zs ?s t" "waiters_ok w' A (without m zs)"
    "mech t = put_part P (?c\<lparr>reaper_locked := True, proc_kern := k', child_waiters := w'\<rparr>) (mech s)" by (auto simp: l part_put put_put)
  have "reaped E B m zs s (unlock_reaper P t)" using t(2) by (simp add: reaped_def l unlock_reaper_def)
  moreover have "?c\<lparr>proc_kern := k', child_waiters := w', reaper_locked := False\<rparr> = ?c\<lparr>proc_kern := k', child_waiters := w'\<rparr>"
    using assms(2) by simp
  then have "mech (unlock_reaper P t) = put_part P (?c\<lparr>proc_kern := k', child_waiters := w'\<rparr>) (mech s)"
    by (simp add: unlock_reaper_def t(4) part_put put_put)
  ultimately show ?thesis using t(1,3) by (auto simp: cp_receive_signal_def Let_def)
qed

lemma waiters_do_Some: "f (child_waiters (part_of P m)) = Some w \<Longrightarrow> waiters_do P f m = put_part P ((part_of P m)\<lparr>child_waiters := w\<rparr>) m"
  by (simp add: waiters_do_def)

text \<open>A watch is reserved, added from the reserve and removed.\<close>

lemma watch_cycle:
  assumes w: "waiters_ok (child_waiters (part_of P m0)) A m" and a: "a \<notin> A" "card A + 1 < 2 ^ 31"
    and na: "\<forall>X x. new_at X = Some x \<longrightarrow> x \<notin> X" and p: "m pid = None"
  shows "cp_reserve_child_watch_nolock new_at P a m0 = (Some Bad_alloc, m0) \<or>
    (\<exists>m1 w2 w3. cp_reserve_child_watch_nolock new_at P a m0 = (None, m1) \<and>
      cp_add_reserved_child_watch_nolock P pid a m1 = put_part P ((part_of P m0)\<lparr>child_waiters := w2\<rparr>) m0 \<and>
      waiters_ok w2 (insert a A) (m(pid \<mapsto> a)) \<and>
      cp_remove_child_watch_nolock P a (put_part P ((part_of P m0)\<lparr>child_waiters := w2\<rparr>) m0) = put_part P ((part_of P m0)\<lparr>child_waiters := w3\<rparr>) m0 \<and>
      waiters_ok w3 A m)"
  using pid_reserve_ok [OF w a na]
proof (elim disjE exE conjE)
  assume "pid_reserve new_at a (child_waiters (part_of P m0)) = (Some Bad_alloc, child_waiters (part_of P m0))"
  then show ?thesis by (simp add: cp_reserve_child_watch_nolock_def put_get)
next
  fix w1 assume w1: "pid_reserve new_at a (child_waiters (part_of P m0)) = (None, w1)" "waiters_ok w1 (insert a A) m"
  let ?c = "part_of P m0"
  have ar: "a \<notin> ran m" using w a(1) bset.handles_law by (auto simp: waiters_ok_def)
  obtain w2 where w2: "pid_add_from_reserve a pid (Some a) w1 = Some w2" "waiters_ok w2 (insert a A) (m(pid \<mapsto> a))"
    using pid_add_from_reserve_ok [OF w1(2) _ ar, of pid] p by auto
  obtain w3 where w3: "pid_remove_handle a w2 = Some w3" "waiters_ok w3 (insert a A) ((m(pid \<mapsto> a))(pid := None))"
    using pid_remove_handle_ok [OF w2(2), of pid a] by auto
  have m: "(m(pid \<mapsto> a))(pid := None) = m" using p by (simp add: fun_upd_idem)
  obtain w4 where w4: "pid_unreserve a w3 = Some w4" "waiters_ok w4 (insert a A - {a}) m"
    using pid_unreserve_ok [OF w3(2) [unfolded m] _ ar] by auto
  have A: "insert a A - {a} = A" using a(1) by auto
  have "cp_reserve_child_watch_nolock new_at P a m0 = (None, put_part P (?c\<lparr>child_waiters := w1\<rparr>) m0)"
    using w1(1) by (simp add: cp_reserve_child_watch_nolock_def)
  moreover have "cp_add_reserved_child_watch_nolock P pid a (put_part P (?c\<lparr>child_waiters := w1\<rparr>) m0) = put_part P (?c\<lparr>child_waiters := w2\<rparr>) m0"
    using w2(1) by (simp add: cp_add_reserved_child_watch_nolock_def waiters_do_def part_put put_put)
  moreover have "cp_remove_child_watch_nolock P a (put_part P (?c\<lparr>child_waiters := w2\<rparr>) m0) = put_part P (?c\<lparr>child_waiters := w4\<rparr>) m0"
    using w3(1) w4(1) by (simp add: cp_remove_child_watch_nolock_def waiters_do_def part_put put_put)
  ultimately show ?thesis using w2(2) w4(2) unfolding A by blast
qed

end

text \<open>The epoll mechanism: the mixin's state is part of what \<open>kern\<close> holds.\<close>

definition epoll_part :: "('k child_proc epoll_loop, 'k) child_part" where
  "epoll_part = \<lparr>part_of = kern, put_part = \<lambda>c m. m\<lparr>kern := c\<rparr>\<rparr>"

lemma epoll_part_simps [simp]: "part_of epoll_part m = kern m" "put_part epoll_part c m = m\<lparr>kern := c\<rparr>"
  by (simp_all add: epoll_part_def)

interpretation epoll_child: child_mixin epoll_part
  by unfold_locales simp_all

section \<open>Properties\<close>

text \<open>
  C11: reaping. When \<open>SIGCHLD\<close> is received and \<open>waitid\<close> reports the terminated processes \<open>zs\<close> (also processes that are not
  watched), the loop ends, and exactly the watchers of those processes are queued, each with the status that was reported first for
  its process and marked as terminated; the other watchers are not touched. The watches of the processes are out of the map, their
  slots stay reserved, the reaper lock is free again, and the signal watch stays enabled.
\<close>

theorem sigchld_reaps:
  assumes "zombies Y zs (proc_kern (kern (mech s))) k'" "\<not> reaper_locked (kern (mech s))"
    and "waiters_ok (child_waiters (kern (mech s))) A m" "reg_ok E B s" "ran m \<subseteq> B" "\<forall>h \<in> ran m. \<not> is_queued s h"
  shows "\<exists>s' w'. cp_receive_signal E Y epoll_part junk base_rs SIGCHLD u s = (False, s') \<and> reg_ok E B s' \<and> fault s' = fault s \<and>
    (\<forall>b \<in> B. is_queued s' b \<longleftrightarrow> is_queued s b \<or> b \<in> reported m zs) \<and> (\<forall>b. b \<notin> reported m zs \<longrightarrow> mem s' b = mem s b) \<and>
    (\<forall>z h. m (si_pid z) = Some h \<longrightarrow> find (\<lambda>y. si_pid y = si_pid z) zs = Some z \<longrightarrow>
       mem s' h = (mem s h)\<lparr>child_status := status_of z, child_termd := True\<rparr>) \<and>
    waiters_ok w' A (without m zs) \<and> mech s' = (mech s)\<lparr>kern := (kern (mech s))\<lparr>proc_kern := k', child_waiters := w'\<rparr>\<rparr>"
proof -
  obtain s' w' where r: "cp_receive_signal E Y epoll_part junk base_rs SIGCHLD u s = (False, s')" "reaped E B m zs s s'"
      "waiters_ok w' A (without m zs)" "mech s' = (mech s)\<lparr>kern := (kern (mech s))\<lparr>proc_kern := k', child_waiters := w'\<rparr>\<rparr>"
    using epoll_child.receive_sigchld [of Y zs s k' A m E B junk base_rs u] assms by auto
  show ?thesis using r(2) unfolding reaped_def by (intro exI [of _ s'] exI [of _ w'] conjI) (use r in blast)+
qed

text \<open>A kernel whose state is the list of terminated processes; a map with one watch.\<close>

definition list_procs :: "child_info list proc_sys" where
  "list_procs = \<lparr>waitid = \<lambda>buf k. case k of [] \<Rightarrow> ((True, buf), []) | z # k \<Rightarrow> ((True, z), k), get_sigmask = \<lambda>k. {},
     set_sigmask = \<lambda>ms k. k, set_handler = \<lambda>sg k. k\<rparr>"

definition no_waiters :: pid_map where
  "no_waiters = bset_new (\<lambda>_. \<lparr>s_prio = \<lambda>_. 0, s_hn = \<lambda>_. None, s_ch = \<lambda>_. None, s_parent = None\<rparr>) (\<lambda>_. None)"

lemma no_waiters_ok: "waiters_ok no_waiters {} Map.empty"
  by (simp add: waiters_ok_def no_waiters_def bset_inv_new)

lemma one_waiter: "\<exists>w. pid_add first_only (W 0) 77 (Some (W 0)) no_waiters = Some (None, w) \<and> waiters_ok w {W 0} [77 \<mapsto> W 0]"
proof -
  have "pid_add first_only (W 0) 77 (Some (W 0)) no_waiters \<noteq> Some (Some Bad_alloc, no_waiters)"
    by (auto simp: pid_add_def pid_reserve_def no_waiters_def bset_allocate_def alloc_slot_def new_reserve_def bset_new_def first_only_def u32_def
      N_def Let_def release_sept_def set_parent_def upn_def split: prod.splits)
  then show ?thesis using pid_add_ok [OF no_waiters_ok, of "W 0" first_only 77] first_only_fresh by auto
qed

definition child_loop :: "pid_map \<Rightarrow> child_info list \<Rightarrow> child_info list child_proc ep_state" where
  "child_loop w zs =
     \<lparr>event_queue =
        \<lparr>Base = \<lparr>hvec = \<lparr>array = [], size_v = 0, capacity_v = 8\<rparr>, num_nodes = 2,
           handles = \<lambda>_. \<lparr>hd_u = (), heap_index = size_max\<rparr>\<rparr>, sequence = 0\<rparr>,
      mem = \<lambda>_. idle_watcher, removed = [], lock_held = True, fault = False,
      mech = \<lparr>epfd = 3, sigfd = 4, sigmask = {}, sigdataMap = Map.empty,
        kern = \<lparr>child_waiters = w, reaper_locked = False, ub = False, proc_kern = zs\<rparr>\<rparr>,
      attn_busy = False\<rparr>"

lemma child_reg: "reg_ok (henv sample_env) {W 0, W 1} (child_loop w zs)"
  by (simp add: child_loop_def reg_ok_def heap_wf_def svec_inv_def elems_def queued_def indexed_def svec_max_size_16)

theorem sigchld_reaps_witness:
  "\<exists>w s'. pid_add first_only (W 0) 77 (Some (W 0)) no_waiters = Some (None, w) \<and>
    cp_receive_signal (henv sample_env) list_procs epoll_part \<lparr>si_pid = 5, si_code = 0, si_status = 0\<rparr> (\<lambda>_ _ s. (True, s)) SIGCHLD sigchld_handler
      (child_loop w [\<lparr>si_pid = 76, si_code = 2, si_status = 9\<rparr>, \<lparr>si_pid = 77, si_code = 1, si_status = 3\<rparr>]) = (False, s') \<and>
    is_queued s' (W 0) \<and> \<not> is_queued s' (W 1) \<and> child_status (mem s' (W 0)) = \<lparr>wait_si_code = 1, wait_si_status = 3\<rparr>"
proof -
  let ?zs = "[\<lparr>si_pid = 76, si_code = 2, si_status = 9\<rparr>, \<lparr>si_pid = 77, si_code = 1, si_status = 3\<rparr>]"
  obtain w where w: "pid_add first_only (W 0) 77 (Some (W 0)) no_waiters = Some (None, w)" "waiters_ok w {W 0} [77 \<mapsto> W 0]" using one_waiter by blast
  let ?s = "child_loop w ?zs"
  have k: "zombies list_procs ?zs (proc_kern (kern (mech ?s))) []" "\<not> reaper_locked (kern (mech ?s))"
      "waiters_ok (child_waiters (kern (mech ?s))) {W 0} [77 \<mapsto> W 0]" "ran [77 \<mapsto> W 0] \<subseteq> {W 0, W 1}" "\<And>h. \<not> is_queued ?s h"
    using w(2) by (auto simp: child_loop_def list_procs_def is_queued_def stable_is_queued_def dary_is_queued_def)
  have m: "reported [77 \<mapsto> W 0] ?zs = {W 0}" by (auto simp: reported_def)
  obtain s' where s': "cp_receive_signal (henv sample_env) list_procs epoll_part \<lparr>si_pid = 5, si_code = 0, si_status = 0\<rparr> (\<lambda>_ _ s. (True, s))
      SIGCHLD sigchld_handler ?s = (False, s')" "\<forall>b \<in> {W 0, W 1}. is_queued s' b \<longleftrightarrow> is_queued ?s b \<or> b \<in> {W 0}"
      "\<forall>z h. [77 \<mapsto> W 0] (si_pid z) = Some h \<longrightarrow> find (\<lambda>y. si_pid y = si_pid z) ?zs = Some z \<longrightarrow>
       mem s' h = (mem ?s h)\<lparr>child_status := status_of z, child_termd := True\<rparr>"
    using sigchld_reaps [OF k(1-3) child_reg k(4), unfolded m] k(5) by blast
  have "child_status (mem s' (W 0)) = \<lparr>wait_si_code = 1, wait_si_status = 3\<rparr>"
    using s'(3) [rule_format, of "\<lparr>si_pid = 77, si_code = 1, si_status = 3\<rparr>" "W 0"] by (simp add: status_of_def)
  then show ?thesis using w(1) s'(1,2) k(5) by auto
qed

text \<open>
  C20: errors of a reservation and the cycle of a watch. Reserving a watch either throws \<open>bad_alloc\<close> and changes nothing, or
  succeeds; then adding the watch of a process from the reserve cannot fail, whatever the size of the map: the process is found with
  its watcher and no other entry changes; and removing the watch makes every entry what it was, follows no dangling pointer and
  gives the slot back.
\<close>

theorem reserved_child_watch:
  assumes "waiters_ok (child_waiters (kern m0)) A m" "a \<notin> A" "card A + 1 < 2 ^ 31"
    and "\<forall>X x. new_at X = Some x \<longrightarrow> x \<notin> X" "pid_get pid (child_waiters (kern m0)) = Some (False, None)" "\<not> ub (kern m0)"
  shows "cp_reserve_child_watch_nolock new_at epoll_part a m0 = (Some Bad_alloc, m0) \<or>
    (\<exists>m1 m2 m3. cp_reserve_child_watch_nolock new_at epoll_part a m0 = (None, m1) \<and>
      m2 = cp_add_reserved_child_watch_nolock epoll_part pid a m1 \<and> \<not> ub (kern m2) \<and>
      pid_get pid (child_waiters (kern m2)) = Some (True, Some a) \<and>
      (\<forall>q. q \<noteq> pid \<longrightarrow> pid_get q (child_waiters (kern m2)) = pid_get q (child_waiters (kern m0))) \<and>
      m3 = cp_remove_child_watch_nolock epoll_part a m2 \<and> \<not> ub (kern m3) \<and> waiters_ok (child_waiters (kern m3)) A m \<and>
      (\<forall>q. pid_get q (child_waiters (kern m3)) = pid_get q (child_waiters (kern m0))))"
proof -
  have "m pid = None" using pid_get_ok [OF assms(1), of pid] assms(5) by simp
  note c = epoll_child.watch_cycle [of m0 A m a new_at pid, unfolded epoll_part_simps, OF assms(1-4) this]
  show ?thesis using c
  proof (elim disjE exE conjE, goal_cases)
    case (2 m1 w2 w3)
    let ?m2 = "m0\<lparr>kern := (kern m0)\<lparr>child_waiters := w2\<rparr>\<rparr>" and ?m3 = "m0\<lparr>kern := (kern m0)\<lparr>child_waiters := w3\<rparr>\<rparr>"
    show ?case
      using 2 assms(6) pid_get_ok [OF 2(3)] pid_get_ok [OF 2(5)] pid_get_ok [OF assms(1)]
      by (intro disjI2 exI [of _ m1] exI [of _ ?m2] exI [of _ ?m3]) simp
  qed simp_all
qed

theorem reserved_child_watch_witness:
  "\<exists>m1. cp_reserve_child_watch_nolock first_only epoll_part (W 0) (mech (child_loop no_waiters [])) = (None, m1) \<and>
     pid_get 77 (child_waiters (kern (cp_add_reserved_child_watch_nolock epoll_part 77 (W 0) m1))) = Some (True, Some (W 0))"
proof -
  let ?m = "mech (child_loop no_waiters [])"
  have w: "waiters_ok (child_waiters (kern ?m)) {} Map.empty" "\<not> ub (kern ?m)" using no_waiters_ok by (simp_all add: child_loop_def)
  have p: "pid_get 77 (child_waiters (kern ?m)) = Some (False, None)" using pid_get_ok [OF w(1)] by simp
  have "fst (cp_reserve_child_watch_nolock first_only epoll_part (W 0) ?m) = None"
    by (simp add: cp_reserve_child_watch_nolock_def pid_reserve_def child_loop_def no_waiters_def bset_allocate_def alloc_slot_def new_reserve_def
      bset_new_def first_only_def u32_def N_def Let_def release_sept_def set_parent_def upn_def)
  then show ?thesis using reserved_child_watch [OF w(1) _ _ first_only_fresh p w(2), of "W 0"] by auto
qed

section \<open>A handle after its process was reaped\<close>

text \<open>
  \<open>remove\<close> leaves the handle's pointer to its node. Nine watches are reserved, the process of the first is watched and
  reaped, and five other reservations are given back: the set frees the node. Stopping or removing the first watch then finds it
  marked as queued and reads the freed node.
\<close>

definition count_new :: "nat set \<Rightarrow> nat option" where
  "count_new X = (if card X \<in> X then None else Some (card X))"

definition nine_reserved :: pid_map where
  "nine_reserved = fold (\<lambda>i w. snd (pid_reserve count_new (W i) w)) [0..<9] no_waiters"

definition nine_counts :: "pid_map \<Rightarrow> bool" where
  "nine_counts w \<longleftrightarrow> num_alloced w = 9 \<and> num_septs w = 3 \<and> num_septs_needed w = 3 \<and> next_sept w = 13 \<and> live w = {0, 1, 2} \<and>
     h_parent w (W 0) = Some 2"

lemma nine_reserved_eq:
  "nine_reserved = no_waiters\<lparr>septs := (septs no_waiters)(0 := (septs no_waiters 0)\<lparr>s_parent := None\<rparr>,
     1 := (septs no_waiters 0)\<lparr>s_parent := Some 0\<rparr>, 2 := (septs no_waiters 0)\<lparr>s_parent := Some 1\<rparr>), live := {0, 1, 2},
     sn_reserve := Some 2, num_alloced := 9, num_septs := 3, num_septs_needed := 3, next_sept := 13\<rparr>"
  unfolding nine_reserved_def
  by (simp add: upt_rec pid_reserve_def bset_allocate_def alloc_slot_def new_reserve_def release_sept_def set_parent_def upn_def u32_def
    N_def Let_def count_new_def no_waiters_def bset_new_def fun_eq_iff) auto

lemma nine_add:
  "\<exists>w. pid_add_from_reserve (W 0) 77 (Some (W 0)) nine_reserved = Some w \<and> nine_counts w \<and> sn_reserve w = Some 1 \<and>
     s_hn (septs w 2) 0 = Some (W 0) \<and> (\<forall>i. 0 < i \<longrightarrow> s_hn (septs w 2) i = None) \<and> (\<forall>i. s_ch (septs w 2) i = None) \<and>
     s_parent (septs w 2) = None \<and> s_prio (septs w 2) 0 = 77 \<and> root_sept w = Some 2 \<and> h_data w (W 0) = Some (W 0)"
  unfolding nine_reserved_eq nine_counts_def
  by (simp add: pid_add_from_reserve_def set_node_data_def bset_insert_def alloc_sept_def no_waiters_def bset_new_def upn_def sept_init_def N_def
     descend.simps is_leaf_def insert_at_leaf_def num_vals_def num_vals_loop.simps eval_nat_numeral Let_def bsearch.simps split_loop.simps
     insert_nonfull_def ins_loop.simps set_prio_def set_hn_def set_ch_def own_def)

lemma nine_remove:
  assumes "nine_counts w" "sn_reserve w = Some 1" "s_hn (septs w 2) 0 = Some (W 0)" "\<forall>i. 0 < i \<longrightarrow> s_hn (septs w 2) i = None"
    "\<forall>i. s_ch (septs w 2) i = None" "s_parent (septs w 2) = None"
  shows "\<exists>w'. bset_remove (W 0) w = Some w' \<and> nine_counts w' \<and> sn_reserve w' = Some 2 \<and> h_data w' = h_data w"
  using assms unfolding nine_counts_def
  by (simp add: bset_remove_def remove_at_def N_def upt_rec leftmost.simps [of w 2] del_loop.simps set_hn_def set_prio_def upn_def Let_def
    repop_node.simps release_sept_def set_parent_def)

lemma nine_unreserve:
  assumes "nine_counts w" "sn_reserve w = Some 2"
  shows "\<exists>w'. fold (\<lambda>i w. Option.bind w (pid_unreserve (W i))) [1..<6] (Some w) = Some w' \<and> bset_is_queued (W 0) w' \<and> bset_remove (W 0) w' = None"
  using assms unfolding nine_counts_def
  by (simp add: upt_rec pid_unreserve_def bset_deallocate_def size_dec_def u32_def N_def Let_def bset_remove_def bset_is_queued_def)

lemma reaped_handle_dangles:
  "\<exists>w1 w2 w3. pid_add_from_reserve (W 0) 77 (Some (W 0)) nine_reserved = Some w1 \<and> pid_remove 77 w1 = Some ((True, Some (W 0)), w2) \<and>
     fold (\<lambda>i w. Option.bind w (pid_unreserve (W i))) [1..<6] (Some w2) = Some w3 \<and> pid_remove_handle (W 0) w3 = None"
proof -
  obtain w1 where w1: "pid_add_from_reserve (W 0) 77 (Some (W 0)) nine_reserved = Some w1" "nine_counts w1" "sn_reserve w1 = Some 1"
     "s_hn (septs w1 2) 0 = Some (W 0)" "\<forall>i. 0 < i \<longrightarrow> s_hn (septs w1 2) i = None" "\<forall>i. s_ch (septs w1 2) i = None"
     "s_parent (septs w1 2) = None" "s_prio (septs w1 2) 0 = 77" "root_sept w1 = Some 2" "h_data w1 (W 0) = Some (W 0)" using nine_add by blast
  obtain w2 where w2: "bset_remove (W 0) w1 = Some w2" "nine_counts w2" "sn_reserve w2 = Some 2" "h_data w2 = h_data w1"
    using nine_remove [OF w1(2-7)] by blast
  have "bset_find 77 w1 = Some (Some (W 0))"
    using w1(2,4,8,9) by (simp add: bset_find_def find_from.simps nine_counts_def find_scan.simps N_def)
  then have "pid_remove 77 w1 = Some ((True, Some (W 0)), w2)" using w2(1,4) w1(10) by (simp add: pid_remove_def)
  moreover obtain w3 where "fold (\<lambda>i w. Option.bind w (pid_unreserve (W i))) [1..<6] (Some w2) = Some w3" "bset_is_queued (W 0) w3"
      "bset_remove (W 0) w3 = None" using nine_unreserve [OF w2(2,3)] by blast
  ultimately show ?thesis using w1(1) by (auto simp: pid_remove_handle_def)
qed

text \<open>\<open>unreserve\<close> of the loop takes the base lock that it holds.\<close>

lemma unreserve_locks_twice: "fault (el_unreserve E a s)"
  by (simp add: el_unreserve_def)

end
