(* ===== verification/Interrupt.thy ===== *)
theory Interrupt
  imports Epoll
begin

text \<open>
  \<open>interrupt.h\<close>: the mixin \<open>interrupt_channel\<close>, by which a thread makes another return from a poll: an eventfd
  (\<open>DASYNQ_HAVE_EVENTFD\<close>) or a pipe whose reading end the mechanism watches. In a single-threaded loop \<open>interrupt_wait\<close> does
  nothing.

  The mixin's part of a mechanism's state is read and written by \<open>chan_of\<close> and \<open>put_chan\<close>. The system calls are the record
  \<open>chan_sys\<close>; the results of reading and writing are ignored by the code and not modelled.
\<close>

record 'k interrupt_channel =
  pipe_r_fd :: int
  pipe_w_fd :: int
  chan_kern :: 'k

record ('m, 'k) chan_part =
  chan_of :: "'m \<Rightarrow> 'k interrupt_channel"
  put_chan :: "'k interrupt_channel \<Rightarrow> 'm \<Rightarrow> 'm"

record 'k chan_sys =
  have_eventfd :: bool
  pipe2 :: "'k \<Rightarrow> (int + int \<times> int) \<times> 'k"
  eventfd :: "'k \<Rightarrow> (int + int) \<times> 'k"
  close_end :: "int \<Rightarrow> 'k \<Rightarrow> 'k"
  read_bytes :: "int \<Rightarrow> nat \<Rightarrow> 'k \<Rightarrow> 'k"
  eventfd_read :: "int \<Rightarrow> 'k \<Rightarrow> 'k"
  write_bytes :: "int \<Rightarrow> nat \<Rightarrow> 'k \<Rightarrow> 'k"
  eventfd_write :: "int \<Rightarrow> nat \<Rightarrow> 'k \<Rightarrow> 'k"

text \<open>The address of the member \<open>pipe_r_fd\<close>, as user data.\<close>

definition pipe_r_ptr :: ep_ptr where "pipe_r_ptr = Other 64"

definition chan_do :: "('m, 'k) chan_part \<Rightarrow> ('k \<Rightarrow> 'k) \<Rightarrow> 'm \<Rightarrow> 'm" where
  "chan_do P f m = (let c = chan_of P m in put_chan P (c\<lparr>chan_kern := f (chan_kern c)\<rparr>) m)"

text \<open>The descriptors of the channel: an error number, or its two ends.\<close>

definition open_channel :: "'k chan_sys \<Rightarrow> 'k interrupt_channel \<Rightarrow> int option \<times> 'k interrupt_channel" where
  "open_channel Y c =
     (if \<not> have_eventfd Y then
        (case pipe2 Y (chan_kern c) of
           (Inl e, k) \<Rightarrow> (Some e, c\<lparr>chan_kern := k\<rparr>)
         | (Inr (r, w), k) \<Rightarrow> (None, c\<lparr>pipe_r_fd := r, pipe_w_fd := w, chan_kern := k\<rparr>))
      else
        (case eventfd Y (chan_kern c) of
           (Inl e, k) \<Rightarrow> (Some e, c\<lparr>pipe_r_fd := - 1, chan_kern := k\<rparr>)
         | (Inr fd, k) \<Rightarrow> (None, c\<lparr>pipe_r_fd := fd, chan_kern := k\<rparr>)))"

definition ch_init ::
  "'k chan_sys \<Rightarrow> ('m, 'k) chan_part \<Rightarrow> (int \<Rightarrow> ep_ptr \<Rightarrow> 32 word \<Rightarrow> 'm \<Rightarrow> exn option \<times> 'm) \<Rightarrow> ('m \<Rightarrow> exn option \<times> 'm) \<Rightarrow>
   'm \<Rightarrow> exn option \<times> 'm" where
  "ch_init Y P add_fd base_init m =
     (case open_channel Y (chan_of P m) of
        (Some e, c) \<Rightarrow> (Some (System_error e), put_chan P c m)
      | (None, c) \<Rightarrow>
          (case add_fd (pipe_r_fd c) pipe_r_ptr IN_EVENTS (put_chan P c m) of
             (Some e, m) \<Rightarrow>
               let m = chan_do P (close_end Y (pipe_r_fd (chan_of P m))) m in
               (Some e, if \<not> have_eventfd Y then chan_do P (close_end Y (pipe_w_fd (chan_of P m))) m else m)
           | (None, m) \<Rightarrow> base_init m))"

text \<open>\<open>non_oneshot\<close>: the trait \<open>supports_non_oneshot_fd\<close>; \<open>base_rf\<close>: \<open>receive_fd_event\<close> of the base class.\<close>

definition ch_receive_fd_event ::
  "'k chan_sys \<Rightarrow> ('m, 'k) chan_part \<Rightarrow> bool \<Rightarrow> (ep_ptr \<Rightarrow> 32 word \<Rightarrow> 'm loop \<Rightarrow> (32 word \<times> int) \<times> 'm loop) \<Rightarrow>
   ep_ptr \<Rightarrow> 32 word \<Rightarrow> 'm loop \<Rightarrow> (32 word \<times> int) \<times> 'm loop" where
  "ch_receive_fd_event Y P non_oneshot base_rf u flags s =
     (if u = pipe_r_ptr then
        let fd = pipe_r_fd (chan_of P (mech s));
            s = mech_do (chan_do P (if \<not> have_eventfd Y then read_bytes Y fd 64 else eventfd_read Y fd)) s
        in ((if non_oneshot then 0 else IN_EVENTS, pipe_r_fd (chan_of P (mech s))), s)
      else base_rf u flags s)"

definition ch_interrupt_wait :: "'k chan_sys \<Rightarrow> ('m, 'k) chan_part \<Rightarrow> 'm \<Rightarrow> 'm" where
  "ch_interrupt_wait Y P m =
     chan_do P
       (if \<not> have_eventfd Y then write_bytes Y (pipe_w_fd (chan_of P m)) 1
        else eventfd_write Y (pipe_r_fd (chan_of P m)) 1) m"

definition null_interrupt_wait :: "'m \<Rightarrow> 'm" where
  "null_interrupt_wait m = m"

definition interrupt_ops :: "'k chan_sys \<Rightarrow> ('m, 'k) chan_part \<Rightarrow> 'm mech_ops \<Rightarrow> 'm mech_ops" where
  "interrupt_ops Y P other = other\<lparr>interrupt_wait := ch_interrupt_wait Y P\<rparr>"

end
