(* ===== verification/Interrupt_Props.thy ===== *)
theory Interrupt_Props
  imports Interrupt Epoll_Props
begin

text \<open>
  The interrupt channel: an interruption makes the watched descriptor readable, so that the poll returns, and the report is taken by
  the channel itself. Proved for any place of the channel in a mechanism's state (the locale \<open>channel_mixin\<close>), and interpreted on
  that of the epoll mechanism.
\<close>

text \<open>
  What the kernel does to the amount \<open>level\<close> of data in the channel with the ends \<open>r\<close> and \<open>w\<close>: a write adds up to the capacity
  (the descriptors do not block), a read takes, and reading an eventfd takes all.
\<close>

definition chan_kernel :: "'k chan_sys \<Rightarrow> int \<Rightarrow> int \<Rightarrow> nat \<Rightarrow> ('k \<Rightarrow> nat) \<Rightarrow> bool" where
  "chan_kernel Y r w cap level \<longleftrightarrow>
     (\<forall>k. level (write_bytes Y w 1 k) = min cap (level k + 1)) \<and> (\<forall>k. level (eventfd_write Y r 1 k) = min cap (level k + 1)) \<and>
     (\<forall>n k. level (read_bytes Y r n k) = level k - n) \<and> (\<forall>k. level (eventfd_read Y r k) = 0)"

locale channel_mixin = state_part "chan_of P" "put_chan P" for P :: "('m, 'k) chan_part"
begin

lemma interrupts:
  assumes "chan_kernel Y (pipe_r_fd (chan_of P m)) (pipe_w_fd (chan_of P m)) cap level" "level (chan_kern (chan_of P m)) \<le> cap"
  shows "\<exists>k. (ch_interrupt_wait Y P ^^ n) m = put_chan P ((chan_of P m)\<lparr>chan_kern := k\<rparr>) m \<and>
    level k = min cap (level (chan_kern (chan_of P m)) + n)"
proof (induction n)
  case 0
  show ?case using assms(2) by (intro exI [of _ "chan_kern (chan_of P m)"]) (simp add: put_get)
next
  case (Suc n)
  then obtain k where k: "(ch_interrupt_wait Y P ^^ n) m = put_chan P ((chan_of P m)\<lparr>chan_kern := k\<rparr>) m"
    "level k = min cap (level (chan_kern (chan_of P m)) + n)" by blast
  let ?k = "if \<not> have_eventfd Y then write_bytes Y (pipe_w_fd (chan_of P m)) 1 k else eventfd_write Y (pipe_r_fd (chan_of P m)) 1 k"
  have "(ch_interrupt_wait Y P ^^ Suc n) m = put_chan P ((chan_of P m)\<lparr>chan_kern := ?k\<rparr>) m"
    by (simp add: k(1) ch_interrupt_wait_def chan_do_def part_put put_put)
  moreover have "level ?k = min cap (level (chan_kern (chan_of P m)) + Suc n)" using assms(1) k(2) by (auto simp: chan_kernel_def)
  ultimately show ?case by blast
qed

lemma interrupt_received:
  assumes "chan_kernel Y (pipe_r_fd (chan_of P (mech s))) w cap level"
  shows "\<exists>k. ch_receive_fd_event Y P nos base_rf pipe_r_ptr flags s =
      ((if nos then 0 else IN_EVENTS, pipe_r_fd (chan_of P (mech s))),
       s\<lparr>mech := put_chan P ((chan_of P (mech s))\<lparr>chan_kern := k\<rparr>) (mech s)\<rparr>) \<and>
    level k = (if have_eventfd Y then 0 else level (chan_kern (chan_of P (mech s))) - 64)"
  using assms by (auto simp: ch_receive_fd_event_def chan_do_def Let_def mech_do_def part_put chan_kernel_def)

text \<open>A failure to watch the descriptor closes the channel.\<close>

lemma init_closes:
  assumes "open_channel Y (chan_of P m) = (None, c)" "add_fd (pipe_r_fd c) pipe_r_ptr IN_EVENTS (put_chan P c m) = (Some e, put_chan P c m)"
  shows "ch_init Y P add_fd base_init m = (Some e, put_chan P (c\<lparr>chan_kern :=
    (if have_eventfd Y then close_end Y (pipe_r_fd c) (chan_kern c)
     else close_end Y (pipe_w_fd c) (close_end Y (pipe_r_fd c) (chan_kern c)))\<rparr>) m)"
  using assms by (simp add: ch_init_def chan_do_def Let_def part_put put_put)

end

definition epoll_chan :: "('k interrupt_channel epoll_loop, 'k) chan_part" where
  "epoll_chan = \<lparr>chan_of = kern, put_chan = \<lambda>c m. m\<lparr>kern := c\<rparr>\<rparr>"

lemma epoll_chan_simps [simp]: "chan_of epoll_chan m = kern m" "put_chan epoll_chan c m = m\<lparr>kern := c\<rparr>"
  by (simp_all add: epoll_chan_def)

interpretation epoll_channel: channel_mixin epoll_chan
  by unfold_locales simp_all

text \<open>
  C12: interruption of a poll. After \<open>n\<close> interruptions the channel holds as much data, up to its capacity, so that with one at least
  the watched descriptor is readable and the poll returns. Processing the report of the descriptor (the watch is persistent under
  epoll, and is not re-armed) empties an eventfd and takes 64 bytes off a pipe, queues no watcher, calls no watcher and touches
  nothing else of the mechanism: no interruption is lost, and more than 64 at once only make the next poll return again.
\<close>

theorem interrupt_wakes_poll:
  assumes "chan_kernel Y (pipe_r_fd (kern m)) (pipe_w_fd (kern m)) cap level" "level (chan_kern (kern m)) \<le> cap" "0 < cap" "0 < n"
    and "mech s = (ch_interrupt_wait Y epoll_chan ^^ n) m" "\<not> lock_held s"
  shows "0 < level (chan_kern (kern (mech s))) \<and>
    (\<exists>k. ep_process_events Z rs (ch_receive_fd_event Y epoll_chan True base_rf) [\<lparr>events = ev, ptr = pipe_r_ptr\<rparr>] s =
        Some (s\<lparr>mech := m\<lparr>kern := (kern m)\<lparr>chan_kern := k\<rparr>\<rparr>\<rparr>) \<and>
      level k = (if have_eventfd Y then 0 else min cap (level (chan_kern (kern m)) + n) - 64))"
proof -
  obtain k0 where k0: "mech s = m\<lparr>kern := (kern m)\<lparr>chan_kern := k0\<rparr>\<rparr>" "level k0 = min cap (level (chan_kern (kern m)) + n)"
    using epoll_channel.interrupts [of Y m cap level n] assms(1,2,5) by auto
  have "chan_kernel Y (pipe_r_fd (chan_of epoll_chan (mech (lock_base s)))) (pipe_w_fd (kern m)) cap level" using assms(1) by (simp add: k0(1))
  from epoll_channel.interrupt_received [OF this, of True base_rf "ep_flags ev"] obtain k where
    k: "ch_receive_fd_event Y epoll_chan True base_rf pipe_r_ptr (ep_flags ev) (lock_base s) =
      ((0, pipe_r_fd (kern m)), (lock_base s)\<lparr>mech := m\<lparr>kern := (kern m)\<lparr>chan_kern := k\<rparr>\<rparr>\<rparr>)"
      "level k = (if have_eventfd Y then 0 else level k0 - 64)" by (auto simp: k0(1))
  have "pipe_r_ptr \<noteq> Sigfd" by (simp add: pipe_r_ptr_def)
  moreover have "unlock_base ((lock_base s)\<lparr>mech := m\<lparr>kern := (kern m)\<lparr>chan_kern := k\<rparr>\<rparr>\<rparr>) = s\<lparr>mech := m\<lparr>kern := (kern m)\<lparr>chan_kern := k\<rparr>\<rparr>\<rparr>"
    using assms(6) by (simp add: lock_base_def unlock_base_def)
  ultimately have "ep_process_events Z rs (ch_receive_fd_event Y epoll_chan True base_rf) [\<lparr>events = ev, ptr = pipe_r_ptr\<rparr>] s =
        Some (s\<lparr>mech := m\<lparr>kern := (kern m)\<lparr>chan_kern := k\<rparr>\<rparr>\<rparr>)" using k(1) by (simp add: ep_process_events_def)
  then show ?thesis using assms(3,4) k0 k(2) by auto
qed

text \<open>A kernel with one channel, of which only the amount of data is kept.\<close>

definition level_sys :: "bool \<Rightarrow> nat chan_sys" where
  "level_sys ev = \<lparr>have_eventfd = ev, pipe2 = \<lambda>k. (Inr (5, 6), k), eventfd = \<lambda>k. (Inr 5, k), close_end = \<lambda>fd k. k,
     read_bytes = \<lambda>fd n k. k - n, eventfd_read = \<lambda>fd k. 0, write_bytes = \<lambda>fd n k. min 65536 (k + n),
     eventfd_write = \<lambda>fd n k. min 65536 (k + n)\<rparr>"

lemma level_kernel: "chan_kernel (level_sys ev) r w 65536 (\<lambda>k. k)"
  by (simp add: chan_kernel_def level_sys_def)

definition chan_mech :: "nat interrupt_channel epoll_loop" where
  "chan_mech = \<lparr>epfd = 3, sigfd = 4, sigmask = {}, sigdataMap = Map.empty, kern = \<lparr>pipe_r_fd = 5, pipe_w_fd = 6, chan_kern = 0\<rparr>\<rparr>"

definition chan_loop :: "nat \<Rightarrow> nat interrupt_channel ep_state" where
  "chan_loop n =
     \<lparr>event_queue =
        \<lparr>Base = \<lparr>hvec = \<lparr>array = [], size_v = 0, capacity_v = 8\<rparr>, num_nodes = 2,
           handles = \<lambda>_. \<lparr>hd_u = (), heap_index = size_max\<rparr>\<rparr>, sequence = 0\<rparr>,
      mem = \<lambda>_. idle_watcher, removed = [], lock_held = False, fault = False,
      mech = (ch_interrupt_wait (level_sys False) epoll_chan ^^ n) chan_mech, attn_busy = False\<rparr>"

definition no_signals :: "nat interrupt_channel ep_sys" where
  "no_signals = \<lparr>epoll_create1 = \<lambda>k. (Inr 3, k), epoll_ctl_add = \<lambda>ep fd e k. (None, k), epoll_ctl_mod = \<lambda>ep fd e k. (None, k),
     epoll_ctl_del = \<lambda>ep fd k. (None, k), epoll_wait = \<lambda>ep w k. ([], k), signalfd = \<lambda>fd ms k. (Inr 4, k),
     read_sig = \<lambda>fd k. (None, k), close_fd = \<lambda>fd k. k\<rparr>"

theorem interrupt_wakes_poll_witness:
  "\<exists>s'. ep_process_events no_signals (\<lambda>_ _ s. (True, s)) (ch_receive_fd_event (level_sys False) epoll_chan True (\<lambda>_ _ s. ((0, 0), s)))
      [\<lparr>events = EPOLLIN, ptr = pipe_r_ptr\<rparr>] (chan_loop 70) = Some s' \<and> chan_kern (kern (mech s')) = 6"
proof -
  have "chan_kernel (level_sys False) (pipe_r_fd (kern chan_mech)) (pipe_w_fd (kern chan_mech)) 65536 (\<lambda>k. k)" by (rule level_kernel)
  from interrupt_wakes_poll [OF this, of 70 "chan_loop 70" no_signals "\<lambda>_ _ s. (True, s)" "\<lambda>_ _ s. ((0, 0), s)" EPOLLIN]
  show ?thesis by (force simp: chan_loop_def chan_mech_def level_sys_def)
qed

end
