(* ===== verification/Pairingheap.thy ===== *)
theory Pairingheap
  imports Prelude "HOL-Library.Monad_Syntax"
begin

text \<open>
  \<^verbatim>\<open>dasynq-pairingheap.h\<close>: a pairing heap whose nodes are linked by their first child, their next sibling and, backwards,
  their previous sibling or parent.

  A node is a member of the client's handle, so the handle's address \<open>'h\<close> names it; \<open>pnodes\<close> is the memory, \<open>live\<close> the
  handles with a constructed node. A null pointer is \<open>None\<close>. An operation that follows a null pointer or reaches a node that
  is not alive has the result \<open>None\<close>, as has a loop that does not end. \<open>prio\<close> of a constructed node is not initialised.
\<close>

record ('h, 'p, 't) ph_node =
  pn_data :: 't
  pn_prio :: 'p
  next_sibling :: "'h option"
  prev_sibling :: "'h option"
  first_child :: "'h option"

record ('h, 'p, 't) pairing_heap =
  pnodes :: "'h \<Rightarrow> ('h, 'p, 't) ph_node"
  live :: "'h set"
  ph_root :: "'h option"

definition ph_new :: "('h \<Rightarrow> ('h, 'p, 't) ph_node) \<Rightarrow> ('h, 'p, 't) pairing_heap" where
  "ph_new garbage = \<lparr>pnodes = garbage, live = {}, ph_root = None\<rparr>"

section \<open>Access\<close>

definition rd :: "'h option \<Rightarrow> ('h, 'p, 't) pairing_heap \<Rightarrow> ('h, 'p, 't) ph_node option" where
  "rd p s = (case p of None \<Rightarrow> None | Some a \<Rightarrow> if a \<in> live s then Some (pnodes s a) else None)"

definition put_node :: "'h \<Rightarrow> ('h, 'p, 't) ph_node \<Rightarrow> ('h, 'p, 't) pairing_heap \<Rightarrow> ('h, 'p, 't) pairing_heap" where
  "put_node a n s = s\<lparr>pnodes := (pnodes s)(a := n)\<rparr>"

definition wr ::
  "'h option \<Rightarrow> (('h, 'p, 't) ph_node \<Rightarrow> ('h, 'p, 't) ph_node) \<Rightarrow> ('h, 'p, 't) pairing_heap \<Rightarrow> ('h, 'p, 't) pairing_heap option" where
  "wr p f s = (case p of None \<Rightarrow> None | Some a \<Rightarrow> if a \<in> live s then Some (put_node a (f (pnodes s a)) s) else None)"

abbreviation set_next :: "'h option \<Rightarrow> 'h option \<Rightarrow> ('h, 'p, 't) pairing_heap \<Rightarrow> ('h, 'p, 't) pairing_heap option" where
  "set_next p v \<equiv> wr p (\<lambda>n. n\<lparr>next_sibling := v\<rparr>)"

abbreviation set_prev :: "'h option \<Rightarrow> 'h option \<Rightarrow> ('h, 'p, 't) pairing_heap \<Rightarrow> ('h, 'p, 't) pairing_heap option" where
  "set_prev p v \<equiv> wr p (\<lambda>n. n\<lparr>prev_sibling := v\<rparr>)"

abbreviation set_child :: "'h option \<Rightarrow> 'h option \<Rightarrow> ('h, 'p, 't) pairing_heap \<Rightarrow> ('h, 'p, 't) pairing_heap option" where
  "set_child p v \<equiv> wr p (\<lambda>n. n\<lparr>first_child := v\<rparr>)"

text \<open>\<open>if (p != nullptr) p->prev_sibling = v\<close>\<close>

definition set_prev_opt :: "'h option \<Rightarrow> 'h option \<Rightarrow> ('h, 'p, 't) pairing_heap \<Rightarrow> ('h, 'p, 't) pairing_heap option" where
  "set_prev_opt p v s = (if p \<noteq> None then set_prev p v s else Some s)"

section \<open>Merging\<close>

definition ph_merge :: "('p \<Rightarrow> 'p \<Rightarrow> bool) \<Rightarrow> 'h \<Rightarrow> ('h, 'p, 't) pairing_heap \<Rightarrow> (bool \<times> ('h, 'p, 't) pairing_heap) option" where
  "ph_merge lt node s =
     (if ph_root s = None then Some (True, s\<lparr>ph_root := Some node\<rparr>)
      else do {
        r \<leftarrow> rd (ph_root s) s;
        n \<leftarrow> rd (Some node) s;
        if lt (pn_prio r) (pn_prio n) then do {
          let root_fc = first_child r;
          s \<leftarrow> set_next (Some node) root_fc s;
          s \<leftarrow> set_prev_opt root_fc (Some node) s;
          s \<leftarrow> set_prev (Some node) (ph_root s) s;
          s \<leftarrow> set_child (ph_root s) (Some node) s;
          Some (False, s)
        } else do {
          let indx_fc = first_child n;
          s \<leftarrow> set_next (ph_root s) indx_fc s;
          s \<leftarrow> set_prev_opt indx_fc (ph_root s) s;
          s \<leftarrow> set_child (Some node) (ph_root s) s;
          s \<leftarrow> set_prev (ph_root s) (Some node) s;
          Some (True, s\<lparr>ph_root := Some node\<rparr>)
        }
      })"

text \<open>The end of \<open>merge_pair\<close>, when \<open>i1\<close> is the lesser node.\<close>

definition make_first_child :: "'h \<Rightarrow> 'h \<Rightarrow> ('h, 'p, 't) pairing_heap \<Rightarrow> ('h \<times> ('h, 'p, 't) pairing_heap) option" where
  "make_first_child i1 i2 s = do {
     n1 \<leftarrow> rd (Some i1) s;
     let i1_firstchild = first_child n1;
     s \<leftarrow> set_next (Some i2) i1_firstchild s;
     s \<leftarrow> set_prev_opt i1_firstchild (Some i2) s;
     s \<leftarrow> set_child (Some i1) (Some i2) s;
     s \<leftarrow> set_prev (Some i2) (Some i1) s;
     Some (i1, s)
   }"

definition merge_pair ::
  "('p \<Rightarrow> 'p \<Rightarrow> bool) \<Rightarrow> 'h option \<Rightarrow> 'h option \<Rightarrow> ('h, 'p, 't) pairing_heap \<Rightarrow> ('h \<times> ('h, 'p, 't) pairing_heap) option" where
  "merge_pair lt p1 p2 s = do {
     i1 \<leftarrow> p1;
     i2 \<leftarrow> p2;
     n1 \<leftarrow> rd (Some i1) s;
     n2 \<leftarrow> rd (Some i2) s;
     if lt (pn_prio n2) (pn_prio n1) then do {
       let (i1, i2) = (i2, i1);
       let i2_prevsibling = prev_sibling n1;
       s \<leftarrow> (if i2_prevsibling \<noteq> None then do {
               pv \<leftarrow> rd i2_prevsibling s;
               if first_child pv = Some i2 then set_child i2_prevsibling (Some i1) s
               else set_next i2_prevsibling (Some i1) s
             } else Some s);
       s \<leftarrow> set_prev (Some i1) i2_prevsibling s;
       make_first_child i1 i2 s
     } else do {
       let i2_nextsibling = next_sibling n2;
       s \<leftarrow> set_next (Some i1) i2_nextsibling s;
       s \<leftarrow> set_prev_opt i2_nextsibling (Some i1) s;
       make_first_child i1 i2 s
     }
   }"

text \<open>One iteration of the first loop of \<open>merge_pairs\<close>, which merges neighbours and lines up the results in reverse.\<close>

definition pair_step ::
  "('p \<Rightarrow> 'p \<Rightarrow> bool) \<Rightarrow> 'h option \<Rightarrow> 'h option \<Rightarrow> 'h option \<Rightarrow> ('h, 'p, 't) pairing_heap \<Rightarrow>
   ('h option \<times> 'h option \<times> 'h option \<times> ('h, 'p, 't) pairing_heap) option" where
  "pair_step lt node sibling prev_pair s = do {
     (r, s) \<leftarrow> merge_pair lt node sibling s;
     n \<leftarrow> rd (Some r) s;
     let node = next_sibling n;
     s \<leftarrow> (if prev_pair \<noteq> None then do {
             s \<leftarrow> set_next (Some r) prev_pair s;
             set_prev prev_pair (Some r) s
           } else set_next (Some r) None s);
     s \<leftarrow> set_prev (Some r) None s;
     if node \<noteq> None then do {
       s \<leftarrow> set_prev node None s;
       n \<leftarrow> rd node s;
       Some (node, next_sibling n, Some r, s)
     } else Some (node, None, Some r, s)
   }"

partial_function (option) pair_loop ::
  "('p \<Rightarrow> 'p \<Rightarrow> bool) \<Rightarrow> 'h option \<Rightarrow> 'h option \<Rightarrow> 'h option \<Rightarrow> ('h, 'p, 't) pairing_heap \<Rightarrow>
   ('h option \<times> 'h option \<times> ('h, 'p, 't) pairing_heap) option" where
  "pair_loop lt node sibling prev_pair s =
     (if sibling = None then Some (node, prev_pair, s)
      else do {
        (node, sibling, prev_pair, s) \<leftarrow> pair_step lt node sibling prev_pair s;
        pair_loop lt node sibling prev_pair s
      })"

partial_function (option) fold_loop ::
  "('p \<Rightarrow> 'p \<Rightarrow> bool) \<Rightarrow> 'h option \<Rightarrow> 'h option \<Rightarrow> ('h, 'p, 't) pairing_heap \<Rightarrow>
   ('h option \<times> ('h, 'p, 't) pairing_heap) option" where
  "fold_loop lt node sibling s =
     (if sibling = None then Some (node, s)
      else do {
        (r, s) \<leftarrow> merge_pair lt node sibling s;
        n \<leftarrow> rd (Some r) s;
        fold_loop lt (Some r) (next_sibling n) s
      })"

text \<open>An unpaired node at the end is put before the pairs.\<close>

definition add_unpaired ::
  "'h option \<Rightarrow> 'h option \<Rightarrow> ('h, 'p, 't) pairing_heap \<Rightarrow> ('h option \<times> ('h, 'p, 't) pairing_heap) option" where
  "add_unpaired node prev_pair s =
     (if node \<noteq> None then do {
        s \<leftarrow> set_prev node None s;
        s \<leftarrow> set_next node prev_pair s;
        s \<leftarrow> set_prev prev_pair node s;
        Some (node, s)
      } else do {
        s \<leftarrow> set_prev prev_pair None s;
        Some (prev_pair, s)
      })"

definition merge_pairs ::
  "('p \<Rightarrow> 'p \<Rightarrow> bool) \<Rightarrow> 'h option \<Rightarrow> ('h, 'p, 't) pairing_heap \<Rightarrow> ('h option \<times> ('h, 'p, 't) pairing_heap) option" where
  "merge_pairs lt node s =
     (if node = None then Some (None, s)
      else do {
        n \<leftarrow> rd node s;
        if next_sibling n = None then Some (node, s)
        else do {
          (node, prev_pair, s) \<leftarrow> pair_loop lt node (next_sibling n) None s;
          (prev_pair, s) \<leftarrow> add_unpaired node prev_pair s;
          n \<leftarrow> rd prev_pair s;
          fold_loop lt prev_pair (next_sibling n) s
        }
      })"

section \<open>The operations\<close>

definition ph_node_data :: "'h \<Rightarrow> ('h, 'p, 't) pairing_heap \<Rightarrow> 't option" where
  "ph_node_data h s = map_option pn_data (rd (Some h) s)"

definition ph_allocate :: "'h \<Rightarrow> 't \<Rightarrow> ('h, 'p, 't) pairing_heap \<Rightarrow> ('h, 'p, 't) pairing_heap" where
  "ph_allocate h d s =
     (put_node h \<lparr>pn_data = d, pn_prio = pn_prio (pnodes s h), next_sibling = None, prev_sibling = None, first_child = None\<rparr> s)
       \<lparr>live := insert h (live s)\<rparr>"

definition ph_deallocate :: "'h \<Rightarrow> ('h, 'p, 't) pairing_heap \<Rightarrow> ('h, 'p, 't) pairing_heap option" where
  "ph_deallocate h s = (if h \<in> live s then Some (s\<lparr>live := live s - {h}\<rparr>) else None)"

definition ph_insert ::
  "('p \<Rightarrow> 'p \<Rightarrow> bool) \<Rightarrow> 'h \<Rightarrow> 'p \<Rightarrow> ('h, 'p, 't) pairing_heap \<Rightarrow> (bool \<times> ('h, 'p, 't) pairing_heap) option" where
  "ph_insert lt node pval s = do {
     s \<leftarrow> wr (Some node) (\<lambda>n. n\<lparr>pn_prio := pval\<rparr>) s;
     ph_merge lt node s
   }"

definition ph_pull_root ::
  "('p \<Rightarrow> 'p \<Rightarrow> bool) \<Rightarrow> ('h, 'p, 't) pairing_heap \<Rightarrow> ('h option \<times> ('h, 'p, 't) pairing_heap) option" where
  "ph_pull_root lt s = do {
     r \<leftarrow> rd (ph_root s) s;
     (nr, s) \<leftarrow> merge_pairs lt (first_child r) s;
     s \<leftarrow> set_child (ph_root s) None s;
     Some (nr, s\<lparr>ph_root := nr\<rparr>)
   }"

text \<open>The node is taken out of the list of its siblings.\<close>

definition ph_unlink :: "'h \<Rightarrow> ('h, 'p, 't) pairing_heap \<Rightarrow> ('h, 'p, 't) pairing_heap option" where
  "ph_unlink node s = do {
     n \<leftarrow> rd (Some node) s;
     pv \<leftarrow> rd (prev_sibling n) s;
     s \<leftarrow> (if first_child pv = Some node then set_child (prev_sibling n) (next_sibling n) s
          else set_next (prev_sibling n) (next_sibling n) s);
     s \<leftarrow> set_prev_opt (next_sibling n) (prev_sibling n) s;
     s \<leftarrow> set_next (Some node) None s;
     s \<leftarrow> set_prev (Some node) None s;
     set_child (Some node) None s
   }"

definition ph_remove :: "('p \<Rightarrow> 'p \<Rightarrow> bool) \<Rightarrow> 'h \<Rightarrow> ('h, 'p, 't) pairing_heap \<Rightarrow> ('h, 'p, 't) pairing_heap option" where
  "ph_remove lt node s =
     (if ph_root s = Some node then map_option snd (ph_pull_root lt s)
      else do {
        n \<leftarrow> rd (Some node) s;
        s \<leftarrow> ph_unlink node s;
        if first_child n \<noteq> None then do {
          s \<leftarrow> set_next (ph_root s) (first_child n) s;
          s \<leftarrow> set_prev (first_child n) (ph_root s) s;
          (r, s) \<leftarrow> merge_pairs lt (ph_root s) s;
          Some (s\<lparr>ph_root := r\<rparr>)
        } else Some s
      })"

definition ph_set_priority ::
  "('p \<Rightarrow> 'p \<Rightarrow> bool) \<Rightarrow> 'h \<Rightarrow> 'p \<Rightarrow> ('h, 'p, 't) pairing_heap \<Rightarrow> (bool \<times> ('h, 'p, 't) pairing_heap) option" where
  "ph_set_priority lt index pval s = do {
     s \<leftarrow> ph_remove lt index s;
     ph_insert lt index pval s
   }"

definition ph_get_root :: "('h, 'p, 't) pairing_heap \<Rightarrow> 'h option" where
  "ph_get_root s = ph_root s"

definition ph_get_root_priority :: "('h, 'p, 't) pairing_heap \<Rightarrow> 'p option" where
  "ph_get_root_priority s = map_option pn_prio (rd (ph_root s) s)"

definition ph_is_queued :: "'h \<Rightarrow> ('h, 'p, 't) pairing_heap \<Rightarrow> bool option" where
  "ph_is_queued h s = map_option (\<lambda>n. prev_sibling n \<noteq> None \<or> ph_root s = Some h) (rd (Some h) s)"

definition ph_empty :: "('h, 'p, 't) pairing_heap \<Rightarrow> bool" where
  "ph_empty s \<longleftrightarrow> ph_root s = None"

end
