(* ===== verification/Pairing_Repr.thy ===== *)
theory Pairing_Repr
  imports Pairingheap "HOL-Library.Tree_Multiset"
begin

text \<open>
  The abstraction of the pairing heap. First child and next sibling make the nodes a binary tree, in which the backward
  pointer is the parent: \<open>rep f pv p t\<close> relates the memory \<open>f\<close>, a pointer \<open>p\<close> and the pointer its node has back to a tree
  of addresses and priorities. On the trees, the operations are a few equations, and order and contents are by induction;
  the loops of \<open>merge_pairs\<close> are shown to implement them.
\<close>

type_synonym ('h, 'p) ptree = "('h \<times> 'p) tree"

section \<open>The operations on trees\<close>

definition link :: "('p \<Rightarrow> 'p \<Rightarrow> bool) \<Rightarrow> ('h, 'p) ptree \<Rightarrow> 'h \<times> 'p \<Rightarrow> ('h, 'p) ptree \<Rightarrow> 'h \<times> 'p \<Rightarrow> ('h, 'p) ptree \<Rightarrow> ('h, 'p) ptree" where
  "link lt l x m y r = (if lt (snd y) (snd x) then Node (Node l x m) y r else Node (Node m y l) x r)"

fun pair_up :: "('p \<Rightarrow> 'p \<Rightarrow> bool) \<Rightarrow> ('h, 'p) ptree \<Rightarrow> ('h, 'p) ptree \<Rightarrow> ('h, 'p) ptree" where
  "pair_up lt Leaf acc = acc"
| "pair_up lt (Node l x Leaf) acc = Node l x acc"
| "pair_up lt (Node l x (Node m y r)) acc = pair_up lt r (link lt l x m y acc)"

fun fold_up :: "('p \<Rightarrow> 'p \<Rightarrow> bool) \<Rightarrow> ('h, 'p) ptree \<Rightarrow> 'h \<times> 'p \<Rightarrow> ('h, 'p) ptree \<Rightarrow> ('h, 'p) ptree" where
  "fold_up lt l x Leaf = Node l x Leaf"
| "fold_up lt l x (Node m y r) =
     (if lt (snd y) (snd x) then fold_up lt (Node l x m) y r else fold_up lt (Node m y l) x r)"

definition unite :: "('p \<Rightarrow> 'p \<Rightarrow> bool) \<Rightarrow> ('h, 'p) ptree \<Rightarrow> ('h, 'p) ptree" where
  "unite lt t = (case pair_up lt t Leaf of Leaf \<Rightarrow> Leaf | Node l x r \<Rightarrow> fold_up lt l x r)"

text \<open>The tree without the node at \<open>a\<close> and what is below it, and what is below it.\<close>

fun cut :: "'h \<Rightarrow> ('h, 'p) ptree \<Rightarrow> ('h, 'p) ptree" where
  "cut a Leaf = Leaf"
| "cut a (Node l x r) = (if fst x = a then r else Node (cut a l) x (cut a r))"

fun below :: "'h \<Rightarrow> ('h, 'p) ptree \<Rightarrow> ('h, 'p) ptree" where
  "below a Leaf = Leaf"
| "below a (Node l x r) = (if fst x = a then l else if a \<in> fst ` set_tree l then below a l else below a r)"

abbreviation addrs :: "('h, 'p) ptree \<Rightarrow> 'h set" where
  "addrs t \<equiv> fst ` set_tree t"

fun apart :: "('h, 'p) ptree \<Rightarrow> bool" where
  "apart Leaf = True"
| "apart (Node l x r) \<longleftrightarrow> fst x \<notin> addrs l \<and> fst x \<notin> addrs r \<and> addrs l \<inter> addrs r = {} \<and> apart l \<and> apart r"

fun pheap :: "('p \<Rightarrow> 'p \<Rightarrow> bool) \<Rightarrow> ('h, 'p) ptree \<Rightarrow> bool" where
  "pheap lt Leaf = True"
| "pheap lt (Node l x r) \<longleftrightarrow> (\<forall>y \<in> set_tree l. \<not> lt (snd y) (snd x)) \<and> pheap lt l \<and> pheap lt r"

lemma mset_link: "mset_tree (link lt l x m y r) = mset_tree l + mset_tree m + mset_tree r + {#x, y#}"
  by (simp add: link_def)

lemma mset_pair_up: "mset_tree (pair_up lt t acc) = mset_tree t + mset_tree acc"
  by (induction lt t acc rule: pair_up.induct) (simp_all add: mset_link)

lemma mset_fold_up: "mset_tree (fold_up lt l x r) = mset_tree l + mset_tree r + {#x#}"
  by (induction lt l x r rule: fold_up.induct) simp_all

lemma mset_unite: "mset_tree (unite lt t) = mset_tree t"
proof -
  have "mset_tree (pair_up lt t Leaf) = mset_tree t" by (simp add: mset_pair_up)
  then show ?thesis by (auto simp: unite_def mset_fold_up split: tree.split)
qed

lemma apart_inorder: "apart t \<longleftrightarrow> distinct (map fst (inorder t))"
  by (induction t) auto

lemma apart_mset: "mset_tree t = mset_tree u \<Longrightarrow> apart t = apart u"
  unfolding apart_inorder by (rule mset_eq_imp_distinct_iff) (simp add: mset_map)

lemma set_mset_eq: "mset_tree t = mset_tree u \<Longrightarrow> set_tree t = set_tree u"
  by (metis set_mset_tree)

lemma unite_simps [simp]: "set_tree (unite lt t) = set_tree t" "apart (unite lt t) \<longleftrightarrow> apart t"
  by (rule set_mset_eq [OF mset_unite] apart_mset [OF mset_unite])+

lemma set_link: "set_tree (link lt l x m y r) = {x, y} \<union> set_tree l \<union> set_tree m \<union> set_tree r"
  by (auto simp: link_def)

lemma fold_up_root: "\<exists>l' x'. fold_up lt l x r = Node l' x' Leaf"
  by (induction lt l x r rule: fold_up.induct) simp_all

lemma unite_root: "unite lt t = Leaf \<or> (\<exists>l x. unite lt t = Node l x Leaf)"
  using fold_up_root by (fastforce simp: unite_def split: tree.split)

lemma set_cut_subset: "set_tree (cut a t) \<subseteq> set_tree t"
  by (induction t) auto

lemma cut_absent: "a \<notin> addrs t \<Longrightarrow> cut a t = t"
  by (induction t) auto

context strict_weak_order
begin

lemma pheap_link:
  assumes "pheap lt l" "pheap lt m" "pheap lt r" "\<forall>z \<in> set_tree l. \<not> lt (snd z) (snd x)" "\<forall>z \<in> set_tree m. \<not> lt (snd z) (snd y)"
  shows "pheap lt (link lt l x m y r)"
proof (cases "lt (snd y) (snd x)")
  case True
  have "\<not> lt (snd z) (snd y)" if "z \<in> set_tree l" for z using assms(4) that True trans by blast
  with True assms asym show ?thesis by (auto simp: link_def)
next
  case False
  have "\<not> lt (snd z) (snd x)" if "z \<in> set_tree m" for z using assms(5) that False incomp_trans by blast
  with False assms show ?thesis by (auto simp: link_def)
qed

lemma pheap_pair_up: "lt' = lt \<Longrightarrow> pheap lt' t \<Longrightarrow> pheap lt' acc \<Longrightarrow> pheap lt' (pair_up lt' t acc)"
proof (induction lt' t acc rule: pair_up.induct)
  case (3 lt' l x m y r acc)
  then have "pheap lt (link lt l x m y acc)" by (intro pheap_link) auto
  with 3 show ?case by simp
qed auto

lemma pheap_fold_up: "pheap lt l \<Longrightarrow> pheap lt r \<Longrightarrow> \<forall>z \<in> set_tree l. \<not> lt (snd z) (snd x) \<Longrightarrow> pheap lt (fold_up lt l x r)"
proof (induction r arbitrary: l x)
  case (Node m y r)
  have "pheap lt (link lt l x m y r)" using Node.prems by (intro pheap_link) auto
  then show ?case using Node.IH(2) by (auto simp: link_def split: if_splits)
qed simp

lemma pheap_unite: "pheap lt t \<Longrightarrow> pheap lt (unite lt t)"
  using pheap_pair_up [of lt t Leaf] pheap_fold_up by (fastforce simp: unite_def split: tree.split)

lemma pheap_subtrees: "pheap lt t \<Longrightarrow> pheap lt (cut a t) \<and> pheap lt (below a t)"
  using set_cut_subset by (induction t) (simp, fastforce)

end

lemma mset_cut: "(a, x) \<in> set_tree t \<Longrightarrow> apart t \<Longrightarrow> mset_tree t = mset_tree (cut a t) + mset_tree (below a t) + {#(a, x)#}"
proof (induction t)
  case (Node l y r)
  have addr: "a \<in> addrs u" if "(a, x) \<in> set_tree u" for u using that by (metis fst_conv image_eqI)
  show ?case
  proof (cases "fst y = a")
    case True
    with Node.prems addr [of l] addr [of r] have "y = (a, x)" by auto
    then show ?thesis by simp
  next
    case False
    with Node.prems addr [of l] addr [of r] consider "(a, x) \<in> set_tree l" "a \<in> addrs l" "a \<notin> addrs r" | "(a, x) \<in> set_tree r" "a \<notin> addrs l" by auto
    then show ?thesis
    proof cases
      case 1
      with False Node.IH(1) Node.prems(2) show ?thesis by (simp add: cut_absent)
    next
      case 2
      with False Node.IH(2) Node.prems(2) show ?thesis by (simp add: cut_absent)
    qed
  qed
qed simp

section \<open>Representation\<close>

fun rep :: "('h \<Rightarrow> ('h, 'p, 't) ph_node) \<Rightarrow> 'h option \<Rightarrow> 'h option \<Rightarrow> ('h, 'p) ptree \<Rightarrow> bool" where
  "rep f pv p Leaf \<longleftrightarrow> p = None"
| "rep f pv p (Node l x r) \<longleftrightarrow> p = Some (fst x) \<and> pn_prio (f (fst x)) = snd x \<and> prev_sibling (f (fst x)) = pv \<and>
     rep f (Some (fst x)) (first_child (f (fst x))) l \<and> rep f (Some (fst x)) (next_sibling (f (fst x))) r"

text \<open>The nodes outside \<open>A\<close> are unchanged, but for the first child of those in \<open>B\<close>.\<close>

definition changes :: "'h set \<Rightarrow> 'h set \<Rightarrow> ('h, 'p, 't) pairing_heap \<Rightarrow> ('h, 'p, 't) pairing_heap \<Rightarrow> bool" where
  "changes A B s s' \<longleftrightarrow> live s' = live s \<and> ph_root s' = ph_root s \<and> (\<forall>h. pn_data (pnodes s' h) = pn_data (pnodes s h)) \<and>
     (\<forall>h. h \<notin> A \<longrightarrow> (if h \<in> B then pnodes s' h\<lparr>first_child := None\<rparr> = pnodes s h\<lparr>first_child := None\<rparr> else pnodes s' h = pnodes s h))"

lemma changes_refl [simp]: "changes A B s s"
  by (simp add: changes_def)

lemma changes_trans:
  assumes "changes A B s s'" "changes A' B' s' s''" "A \<subseteq> A''" "A' \<subseteq> A''" "B \<subseteq> B''" "B' \<subseteq> B''"
  shows "changes A'' B'' s s''"
proof -
  have "if h \<in> B'' then pnodes s'' h\<lparr>first_child := None\<rparr> = pnodes s h\<lparr>first_child := None\<rparr> else pnodes s'' h = pnodes s h"
    if h: "h \<notin> A''" for h
  proof -
    have "h \<notin> A" "h \<notin> A'" using h assms(3,4) by auto
    then have "if h \<in> B then pnodes s' h\<lparr>first_child := None\<rparr> = pnodes s h\<lparr>first_child := None\<rparr> else pnodes s' h = pnodes s h"
      "if h \<in> B' then pnodes s'' h\<lparr>first_child := None\<rparr> = pnodes s' h\<lparr>first_child := None\<rparr> else pnodes s'' h = pnodes s' h"
      using assms(1,2) by (simp_all add: changes_def)
    moreover have "h \<in> B \<Longrightarrow> h \<in> B''" "h \<in> B' \<Longrightarrow> h \<in> B''" using assms(5,6) by auto
    ultimately show ?thesis by (simp split: if_splits)
  qed
  with assms(1,2) show ?thesis by (simp add: changes_def)
qed

lemma rep_cong: "\<forall>a \<in> addrs t. f a = g a \<Longrightarrow> rep f pv p t = rep g pv p t"
  by (induction t arbitrary: pv p) auto

lemma rep_upd [simp]: "a \<notin> addrs t \<Longrightarrow> rep (f(a := n)) pv p t = rep f pv p t"
  by (rule rep_cong) auto

lemma rep_None: "rep f pv None t \<longleftrightarrow> t = Leaf"
  by (cases t) auto

lemma changes_rep:
  assumes "changes A B s s'" "addrs t \<inter> A = {}" "addrs t \<inter> B = {}"
  shows "rep (pnodes s') pv p t = rep (pnodes s) pv p t"
proof (rule rep_cong, rule ballI)
  fix a
  assume "a \<in> addrs t"
  with assms(2,3) have "a \<notin> A" "a \<notin> B" by blast+
  with assms(1) show "pnodes s' a = pnodes s a" unfolding changes_def by metis
qed

lemma rep_ptr: "rep f pv p t \<Longrightarrow> set_option p \<subseteq> addrs t"
  by (cases t) auto

definition reprev :: "'h option \<Rightarrow> 'h option \<Rightarrow> ('h \<Rightarrow> ('h, 'p, 't) ph_node) \<Rightarrow> 'h \<Rightarrow> ('h, 'p, 't) ph_node" where
  "reprev p v f a = (if p = Some a then f a\<lparr>prev_sibling := v\<rparr> else f a)"

lemma reprev_Some: "reprev (Some b) v f = f(b := f b\<lparr>prev_sibling := v\<rparr>)"
  by (auto simp: reprev_def fun_eq_iff)

lemma set_prev_opt_eq: "set_option p \<subseteq> live s \<Longrightarrow> set_prev_opt p v s = Some (s\<lparr>pnodes := reprev p v (pnodes s)\<rparr>)"
  by (cases p) (auto simp: set_prev_opt_def wr_def put_node_def reprev_def fun_eq_iff)

lemma wr_eq [simp]: "a \<in> live s \<Longrightarrow> wr (Some a) u s = Some (s\<lparr>pnodes := (pnodes s)(a := u (pnodes s a))\<rparr>)"
  by (simp add: wr_def put_node_def)

lemma rd_eq [simp]: "a \<in> live s \<Longrightarrow> rd (Some a) s = Some (pnodes s a)"
  by (simp add: rd_def)

lemma reprev_other [simp]: "p \<noteq> Some a \<Longrightarrow> reprev p v f a = f a"
  by (simp add: reprev_def)

lemma rep_reprev_other: "set_option p \<inter> addrs t = {} \<Longrightarrow> rep (reprev p v f) pv q t = rep f pv q t"
  by (rule rep_cong) (auto simp: reprev_def)

lemma rep_reprev: "rep f pv p t \<Longrightarrow> apart t \<Longrightarrow> rep (reprev p v f) v p t"
  by (cases t) (auto simp: reprev_def rep_reprev_other)

lemma reprev_data [simp]: "pn_data (reprev p v f a) = pn_data (f a)"
  by (simp add: reprev_def)

lemma changes_nodes:
  "changes A B s (s\<lparr>pnodes := g\<rparr>) \<longleftrightarrow> (\<forall>h. pn_data (g h) = pn_data (pnodes s h)) \<and>
     (\<forall>h. h \<notin> A \<longrightarrow> (if h \<in> B then g h\<lparr>first_child := None\<rparr> = pnodes s h\<lparr>first_child := None\<rparr> else g h = pnodes s h))"
  by (simp add: changes_def)

lemma merge_pair_less:
  assumes r: "rep f pv (Some a) (Node l (a, u) (Node m (b, v) r))" and ap: "apart (Node l (a, u) (Node m (b, v) r))"
    and lv: "addrs (Node l (a, u) (Node m (b, v) r)) \<subseteq> live s" and f: "pnodes s = f" and nl: "\<not> lt v u"
  shows "\<exists>g. merge_pair lt (Some a) (Some b) s = Some (a, s\<lparr>pnodes := g\<rparr>) \<and> rep g pv (Some a) (Node (Node m (b, v) l) (a, u) r) \<and>
    changes (addrs (Node l (a, u) (Node m (b, v) r))) {} s (s\<lparr>pnodes := g\<rparr>)"
proof -
  define pl pm pr where "pl = first_child (f a)" and "pm = first_child (f b)" and "pr = next_sibling (f b)"
  have sub: "rep f (Some a) pl l" "rep f (Some b) pm m" "rep f (Some b) pr r"
    using r by (simp_all add: pl_def pm_def pr_def)
  note ptr = sub [THEN rep_ptr]
  have ne: "a \<noteq> b" "pl \<noteq> Some a" "pl \<noteq> Some b" "pr \<noteq> Some a" "pr \<noteq> Some b" using ap ptr by auto
  have fresh: "a \<notin> addrs l" "a \<notin> addrs m" "a \<notin> addrs r" "b \<notin> addrs l" "b \<notin> addrs m" "b \<notin> addrs r" using ap by auto
  have dis: "addrs l \<inter> addrs m = {}" "addrs l \<inter> addrs r = {}" "addrs m \<inter> addrs r = {}"
    using ap by (simp_all add: image_Un Int_Un_distrib)
  have dj: "set_option pl \<inter> addrs m = {}" "set_option pl \<inter> addrs r = {}" "set_option pr \<inter> addrs m = {}" "set_option pr \<inter> addrs l = {}"
    using ptr dis by blast+
  have live: "a \<in> live s" "b \<in> live s" "set_option pl \<subseteq> live s" "set_option pr \<subseteq> live s" using lv ptr by (auto simp: image_Un)
  define g1 where "g1 = reprev pr (Some a) (f(a := f a\<lparr>next_sibling := pr\<rparr>))"
  define g2 where "g2 = reprev pl (Some b) (g1(b := f b\<lparr>next_sibling := pl\<rparr>))"
  define g where "g = g2(a := g2 a\<lparr>first_child := Some b\<rparr>, b := g2 b\<lparr>prev_sibling := Some a\<rparr>)"
  have "merge_pair lt (Some a) (Some b) s = Some (a, s\<lparr>pnodes := g\<rparr>)"
    using r nl ne live by (simp add: Let_def merge_pair_def make_first_child_def set_prev_opt_eq f g_def g2_def g1_def pl_def pr_def)
  moreover have "rep g pv (Some a) (Node (Node m (b, v) l) (a, u) r)"
    using r sub ne fresh dj ap by (simp add: g_def g2_def g1_def pl_def pr_def pm_def rep_reprev_other rep_reprev [where pv = "Some a"] rep_reprev [where pv = "Some b"])
  moreover have "changes (addrs (Node l (a, u) (Node m (b, v) r))) {} s (s\<lparr>pnodes := g\<rparr>)"
    using ptr by (auto simp: image_Un changes_nodes g_def g2_def g1_def f reprev_def)
  ultimately show ?thesis by blast
qed

text \<open>The pointer to the first node is in its predecessor \<open>c\<close>, which is not part of the list, or there is none.\<close>

lemma merge_pair_swap:
  assumes r: "rep f pv (Some a) (Node l (a, u) (Node m (b, v) r))" and ap: "apart (Node l (a, u) (Node m (b, v) r))"
    and lv: "addrs (Node l (a, u) (Node m (b, v) r)) \<subseteq> live s" and f: "pnodes s = f" and nl: "lt v u"
    and c: "\<And>c. pv = Some c \<Longrightarrow> c \<in> live s \<and> c \<notin> addrs (Node l (a, u) (Node m (b, v) r)) \<and> first_child (f c) = Some a"
  shows "\<exists>g. merge_pair lt (Some a) (Some b) s = Some (b, s\<lparr>pnodes := g\<rparr>) \<and> rep g pv (Some b) (Node (Node l (a, u) m) (b, v) r) \<and>
    changes (addrs (Node l (a, u) (Node m (b, v) r))) (set_option pv) s (s\<lparr>pnodes := g\<rparr>)"
proof -
  define pl pm pr where "pl = first_child (f a)" and "pm = first_child (f b)" and "pr = next_sibling (f b)"
  have sub: "rep f (Some a) pl l" "rep f (Some b) pm m" "rep f (Some b) pr r"
    using r by (simp_all add: pl_def pm_def pr_def)
  note ptr = sub [THEN rep_ptr]
  have ne: "a \<noteq> b" "pm \<noteq> Some a" "pm \<noteq> Some b" using ap ptr by auto
  have fresh: "a \<notin> addrs l" "a \<notin> addrs m" "a \<notin> addrs r" "b \<notin> addrs l" "b \<notin> addrs m" "b \<notin> addrs r" using ap by auto
  have dis: "addrs l \<inter> addrs m = {}" "addrs l \<inter> addrs r = {}" "addrs m \<inter> addrs r = {}"
    using ap by (simp_all add: image_Un Int_Un_distrib)
  have dj: "set_option pm \<inter> addrs l = {}" "set_option pm \<inter> addrs r = {}" using ptr dis by blast+
  have live: "a \<in> live s" "b \<in> live s" "set_option pm \<subseteq> live s" using lv ptr by (auto simp: image_Un)
  have out: "pm \<noteq> Some c" "c \<noteq> a" "c \<noteq> b" "c \<notin> addrs l" "c \<notin> addrs m" "c \<notin> addrs r" "c \<in> live s" "first_child (f c) = Some a"
    if "pv = Some c" for c
    using c [OF that] ptr by (auto simp: image_Un)
  define g0 where "g0 = (case pv of None \<Rightarrow> f | Some c \<Rightarrow> f(c := f c\<lparr>first_child := Some b\<rparr>))"
  define g1 where "g1 = g0(b := f b\<lparr>prev_sibling := pv\<rparr>)"
  define g2 where "g2 = reprev pm (Some a) (g1(a := f a\<lparr>next_sibling := pm\<rparr>))"
  define g where "g = g2(b := g2 b\<lparr>first_child := Some a\<rparr>, a := g2 a\<lparr>prev_sibling := Some b\<rparr>)"
  have "merge_pair lt (Some a) (Some b) s = Some (b, s\<lparr>pnodes := g\<rparr>)"
    using r nl ne live out
    by (cases pv) (simp_all add: Let_def merge_pair_def make_first_child_def set_prev_opt_eq f g_def g2_def g1_def g0_def pm_def)
  moreover have "rep g pv (Some b) (Node (Node l (a, u) m) (b, v) r)"
    using r sub ne fresh dj ap out
    by (cases pv) (simp_all add: g_def g2_def g1_def g0_def pl_def pr_def pm_def rep_reprev_other rep_reprev [where pv = "Some a"] rep_reprev [where pv = "Some b"])
  moreover have "changes (addrs (Node l (a, u) (Node m (b, v) r))) (set_option pv) s (s\<lparr>pnodes := g\<rparr>)"
    using ptr out by (cases pv) (auto simp: changes_nodes g_def g2_def g1_def g0_def f reprev_def)
  ultimately show ?thesis by blast
qed

text \<open>
  \<open>turns lt t\<close>: merging the first two trees of the list makes the second the first. Then the predecessor of the list is
  written to; \<open>pv_ok\<close> says that it is not in the list and points to it.
\<close>

definition turns :: "('p \<Rightarrow> 'p \<Rightarrow> bool) \<Rightarrow> ('h, 'p) ptree \<Rightarrow> bool" where
  "turns lt t \<longleftrightarrow> (case t of Node l x (Node m y r) \<Rightarrow> lt (snd y) (snd x) | _ \<Rightarrow> False)"

lemma turns_simps [simp]: "\<not> turns lt Leaf" "\<not> turns lt (Node l x Leaf)" "turns lt (Node l x (Node m y r)) \<longleftrightarrow> lt (snd y) (snd x)"
  by (simp_all add: turns_def)

definition pv_ok :: "('h, 'p, 't) pairing_heap \<Rightarrow> 'h option \<Rightarrow> 'h option \<Rightarrow> ('h, 'p) ptree \<Rightarrow> bool" where
  "pv_ok s pv p t \<longleftrightarrow> (\<forall>c. pv = Some c \<longrightarrow> c \<in> live s \<and> c \<notin> addrs t \<and> first_child (pnodes s c) = p)"

abbreviation pv_set :: "('p \<Rightarrow> 'p \<Rightarrow> bool) \<Rightarrow> ('h, 'p) ptree \<Rightarrow> 'h option \<Rightarrow> 'h set" where
  "pv_set lt t pv \<equiv> (if turns lt t then set_option pv else {})"

lemma pv_set_None [simp]: "(if b then set_option None else {}) = {}"
  by simp

lemma merge_pair_rep:
  assumes "rep (pnodes s) pv p (Node l x (Node m y r))" "apart (Node l x (Node m y r))"
    and "addrs (Node l x (Node m y r)) \<subseteq> live s" "turns lt (Node l x (Node m y r)) \<Longrightarrow> pv_ok s pv p (Node l x (Node m y r))"
  shows "\<exists>w g. merge_pair lt p (next_sibling (pnodes s (fst x))) s = Some (w, s\<lparr>pnodes := g\<rparr>) \<and> rep g pv (Some w) (link lt l x m y r) \<and>
    changes (addrs (Node l x (Node m y r))) (pv_set lt (Node l x (Node m y r)) pv) s (s\<lparr>pnodes := g\<rparr>)"
proof -
  obtain a u b v where xy: "x = (a, u)" "y = (b, v)" by (metis prod.exhaust)
  have p: "p = Some a" "next_sibling (pnodes s a) = Some b" using assms(1) by (simp_all add: xy)
  have a: "rep (pnodes s) pv (Some a) (Node l (a, u) (Node m (b, v) r))" "apart (Node l (a, u) (Node m (b, v) r))"
    "addrs (Node l (a, u) (Node m (b, v) r)) \<subseteq> live s" using assms(1-3) by (simp_all add: xy p)
  show ?thesis
  proof (cases "lt v u")
    case True
    with assms(4) have "c \<in> live s \<and> c \<notin> addrs (Node l (a, u) (Node m (b, v) r)) \<and> first_child (pnodes s c) = Some a" if "pv = Some c" for c
      using that by (simp add: xy p pv_ok_def)
    from merge_pair_swap [OF a refl, of lt, OF True this] True show ?thesis by (fastforce simp: xy p link_def)
  next
    case False
    from merge_pair_less [OF a refl, of lt, OF False] False show ?thesis by (fastforce simp: xy p link_def)
  qed
qed

section \<open>The loops\<close>

lemma link_Node: "\<exists>q z. link lt l x m y r = Node q z r \<and> insert (fst z) (addrs q) = {fst x, fst y} \<union> addrs l \<union> addrs m \<and>
    (apart (Node l x (Node m y r)) \<longrightarrow> apart (Node q z r))"
proof (cases "lt (snd y) (snd x)")
  case True
  then show ?thesis by (intro exI [of _ "Node l x m"] exI [of _ y]) (auto simp: link_def image_Un)
next
  case False
  then show ?thesis by (intro exI [of _ "Node m y l"] exI [of _ x]) (auto simp: link_def image_Un)
qed

lemma next_step:
  assumes "rep g0 pv (Some w) (Node q z r)" "rep g0 None pp acc" "apart (Node q z r)" "apart acc"
    and "addrs acc \<inter> addrs (Node q z r) = {}"
  defines "nd \<equiv> next_sibling (g0 w)"
  defines "g1 \<equiv> reprev pp (Some w) (g0(w := g0 w\<lparr>next_sibling := pp\<rparr>))"
  defines "g \<equiv> reprev nd None (g1(w := g1 w\<lparr>prev_sibling := None\<rparr>))"
  shows "rep g None (Some w) (Node q z acc)" "rep g None nd r" "set_option nd \<subseteq> addrs r" "set_option pp \<subseteq> addrs acc" "w = fst z"
    "nd \<noteq> None \<Longrightarrow> next_sibling (g (the nd)) = next_sibling (g0 (the nd))"
proof -
  have w: "w = fst z" using assms(1) by simp
  have sub: "rep g0 (Some w) (first_child (g0 w)) q" "rep g0 (Some w) nd r" using assms(1) by (simp_all add: nd_def)
  note ptr = sub [THEN rep_ptr] assms(2) [THEN rep_ptr]
  have dis: "addrs acc \<inter> addrs q = {}" "addrs acc \<inter> addrs r = {}" "addrs q \<inter> addrs r = {}" "w \<notin> addrs q" "w \<notin> addrs r" "w \<notin> addrs acc"
    using assms(3,5) by (auto simp: w image_Un)
  then have dj: "set_option nd \<inter> addrs acc = {}" "set_option nd \<inter> addrs q = {}" "set_option pp \<inter> addrs q = {}" "set_option pp \<inter> addrs r = {}"
    using ptr by blast+
  have ne: "nd \<noteq> Some w" "pp \<noteq> Some w" using dis ptr by auto
  show "w = fst z" "set_option nd \<subseteq> addrs r" "set_option pp \<subseteq> addrs acc" by (fact w ptr)+
  show "rep g None (Some w) (Node q z acc)"
    using assms(1,2,4) sub dis dj ne w by (simp add: g_def g1_def rep_reprev_other rep_reprev [where pv = None])
  show "rep g None nd r"
    using assms(3) sub(2) dis dj ne w by (simp add: g_def g1_def rep_reprev_other rep_reprev [where pv = "Some w"])
  show "next_sibling (g (the nd)) = next_sibling (g0 (the nd))" if "nd \<noteq> None" using that ne by (auto simp: g_def g1_def reprev_def)
qed

abbreviation sib :: "'h option \<Rightarrow> ('h, 'p, 't) pairing_heap \<Rightarrow> 'h option" where
  "sib p s \<equiv> (if p = None then None else next_sibling (pnodes s (the p)))"

lemma pair_step_rep:
  assumes "rep (pnodes s) pv p (Node l x (Node m y r))" "rep (pnodes s) None pp acc" "apart (Node l x (Node m y r))" "apart acc"
    and "addrs acc \<inter> addrs (Node l x (Node m y r)) = {}" "addrs (Node l x (Node m y r)) \<union> addrs acc \<subseteq> live s"
    and "turns lt (Node l x (Node m y r)) \<Longrightarrow> pv_ok s pv p (Node l x (Node m y r))"
    and "pv_set lt (Node l x (Node m y r)) pv \<inter> addrs acc = {}"
  shows "\<exists>nd w g. pair_step lt p (next_sibling (pnodes s (fst x))) pp s =
      Some (nd, sib nd (s\<lparr>pnodes := g\<rparr>), Some w, s\<lparr>pnodes := g\<rparr>) \<and>
    rep g None nd r \<and> rep g None (Some w) (link lt l x m y acc) \<and>
    changes (addrs (Node l x (Node m y r)) \<union> addrs acc) (pv_set lt (Node l x (Node m y r)) pv) s (s\<lparr>pnodes := g\<rparr>)"
proof -
  let ?t = "Node l x (Node m y r)"
  obtain w g0 where mp: "merge_pair lt p (next_sibling (pnodes s (fst x))) s = Some (w, s\<lparr>pnodes := g0\<rparr>)"
    and r0: "rep g0 pv (Some w) (link lt l x m y r)" and ch: "changes (addrs ?t) (pv_set lt ?t pv) s (s\<lparr>pnodes := g0\<rparr>)"
    using merge_pair_rep [OF assms(1,3)] assms(6,7) by (metis le_sup_iff)
  obtain q z where l: "link lt l x m y r = Node q z r" "apart (Node q z r)"
    and q: "insert (fst z) (addrs q) = {fst x, fst y} \<union> addrs l \<union> addrs m"
    using link_Node [of lt l x m y r] assms(3) by auto
  have lacc: "link lt l x m y acc = Node q z acc" using l(1) by (auto simp: link_def split: if_splits)
  have at: "addrs ?t = addrs (Node q z r)" using q by (auto simp: image_Un)
  have acc0: "rep g0 None pp acc" using changes_rep [OF ch assms(5)] assms(2,8) by (simp add: Int_commute)
  have dj: "addrs acc \<inter> addrs (Node q z r) = {}" using assms(5) by (simp only: at)
  define nd where "nd = next_sibling (g0 w)"
  define g1 where "g1 = reprev pp (Some w) (g0(w := g0 w\<lparr>next_sibling := pp\<rparr>))"
  define g where "g = reprev nd None (g1(w := g1 w\<lparr>prev_sibling := None\<rparr>))"
  note n = next_step [OF r0 [unfolded l(1)] acc0 l(2) assms(4) dj, folded nd_def, folded g1_def, folded g_def]
  have lv: "w \<in> live s" "set_option nd \<subseteq> live s" "set_option pp \<subseteq> live s"
    using n(3,4,5) assms(6) unfolding at by (auto simp: image_Un)
  have ne: "nd \<noteq> Some w" "pp \<noteq> Some w" using n(3,4,5) l(2) dj by (auto simp: image_Un)
  have "pair_step lt p (next_sibling (pnodes s (fst x))) pp s =
      Some (nd, sib nd (s\<lparr>pnodes := g\<rparr>), Some w, s\<lparr>pnodes := g\<rparr>)"
    using mp lv ne by (cases pp; cases nd) (simp_all add: pair_step_def Let_def nd_def g_def g1_def reprev_def fun_eq_iff)
  moreover have "changes (addrs ?t \<union> addrs acc) (pv_set lt ?t pv) s (s\<lparr>pnodes := g\<rparr>)"
  proof (rule changes_trans [OF ch])
    show "changes (addrs ?t \<union> addrs acc) {} (s\<lparr>pnodes := g0\<rparr>) (s\<lparr>pnodes := g\<rparr>)"
      using n(3,4,5) unfolding at by (auto simp: changes_def g_def g1_def reprev_def)
  qed auto
  ultimately show ?thesis using n(1,2) lacc by metis
qed

lemma add_unpaired_rep:
  assumes "rep (pnodes s) pv p (Node l x Leaf)" "rep (pnodes s) None pp acc" "apart (Node l x Leaf)" "apart acc" "acc \<noteq> Leaf"
    and "addrs acc \<inter> addrs (Node l x Leaf) = {}" "addrs (Node l x Leaf) \<union> addrs acc \<subseteq> live s"
  shows "\<exists>w g. add_unpaired p pp s = Some (Some w, s\<lparr>pnodes := g\<rparr>) \<and> rep g None (Some w) (Node l x acc) \<and>
    changes (addrs (Node l x Leaf) \<union> addrs acc) {} s (s\<lparr>pnodes := g\<rparr>)"
proof -
  obtain a b where p: "p = Some a" "a = fst x" and pp: "pp = Some b" using assms(1,2,5) by (cases acc) auto
  note ptr = assms(2) [THEN rep_ptr] rep_ptr [of "pnodes s" "Some a" "first_child (pnodes s a)" l]
  have sub: "rep (pnodes s) (Some a) (first_child (pnodes s a)) l" using assms(1) by (simp add: p)
  have dj: "b \<notin> addrs l" "a \<noteq> b" "a \<notin> addrs acc" "a \<notin> addrs l" "b \<in> addrs acc"
    using ptr assms(3,6) by (auto simp: p pp)
  have lv: "a \<in> live s" "b \<in> live s" using assms(7) dj(5) by (auto simp: p)
  define g where "g = reprev pp (Some a) ((pnodes s)(a := pnodes s a\<lparr>prev_sibling := None, next_sibling := pp\<rparr>))"
  have "add_unpaired p pp s = Some (Some a, s\<lparr>pnodes := g\<rparr>)"
    using lv dj by (simp add: add_unpaired_def p pp g_def reprev_def fun_eq_iff)
  moreover have "rep g None (Some a) (Node l x acc)"
    using assms(1,2,4) sub dj by (simp add: g_def p pp rep_reprev_other rep_reprev [where pv = None])
  moreover have "changes (addrs (Node l x Leaf) \<union> addrs acc) {} s (s\<lparr>pnodes := g\<rparr>)"
    using dj by (auto simp: changes_nodes g_def reprev_def p pp)
  ultimately show ?thesis by blast
qed

lemma pair_loop_rep:
  assumes "rep (pnodes s) pv p t" "rep (pnodes s) None pp acc" "apart t" "apart acc" "addrs acc \<inter> addrs t = {}"
    and "addrs t \<union> addrs acc \<subseteq> live s" "pv_set lt t pv \<inter> addrs acc = {}" "turns lt t \<Longrightarrow> pv_ok s pv p t"
    and "acc \<noteq> Leaf \<or> (\<exists>l x m y r. t = Node l x (Node m y r))"
  shows "\<exists>w g. do { (node, pp, s) \<leftarrow> pair_loop lt p (sib p s) pp s; add_unpaired node pp s } = Some (Some w, s\<lparr>pnodes := g\<rparr>) \<and>
    rep g None (Some w) (pair_up lt t acc) \<and> changes (addrs t \<union> addrs acc) (pv_set lt t pv) s (s\<lparr>pnodes := g\<rparr>)"
  using assms
proof (induction lt t acc arbitrary: s pv p pp rule: pair_up.induct)
  case (1 lt acc)
  then obtain b where b: "pp = Some b" "b \<in> addrs acc" "b \<in> live s" by (cases acc) auto
  have "rep ((pnodes s)(b := pnodes s b\<lparr>prev_sibling := None\<rparr>)) None (Some b) acc"
    using rep_reprev [OF 1(2,4), of None] by (simp add: b reprev_Some)
  moreover have "changes (addrs Leaf \<union> addrs acc) (pv_set lt Leaf pv) s (s\<lparr>pnodes := (pnodes s)(b := pnodes s b\<lparr>prev_sibling := None\<rparr>)\<rparr>)"
    using b(2) by (simp add: changes_nodes)
  moreover have "p = None" using 1(1) by simp
  ultimately show ?case using b by (fastforce simp: pair_loop.simps add_unpaired_def)
next
  case (2 lt l x acc)
  then have "p = Some (fst x)" "sib p s = None" by auto
  then show ?case using add_unpaired_rep [OF 2(1-4) _ 2(5,6)] 2(9)
    by (fastforce simp: pair_loop.simps elim: changes_trans)
next
  case (3 lt l x m y r acc)
  let ?t = "Node l x (Node m y r)"
  have p: "p = Some (fst x)" "sib p s \<noteq> None" using 3(2) by auto
  obtain nd w g where st: "pair_step lt p (next_sibling (pnodes s (fst x))) pp s =
      Some (nd, sib nd (s\<lparr>pnodes := g\<rparr>), Some w, s\<lparr>pnodes := g\<rparr>)"
    and g: "rep g None nd r" "rep g None (Some w) (link lt l x m y acc)"
    and ch: "changes (addrs ?t \<union> addrs acc) (pv_set lt ?t pv) s (s\<lparr>pnodes := g\<rparr>)"
    using pair_step_rep [OF 3(2-6), of lt] 3(7-9) by blast
  have ap: "apart r" "apart (link lt l x m y acc)"
    using 3(4-6) link_Node [of lt l x m y acc] by (auto simp: image_Un)
  have sub: "addrs r \<subseteq> addrs ?t" "addrs (link lt l x m y acc) \<subseteq> addrs ?t \<union> addrs acc" "addrs (link lt l x m y acc) \<inter> addrs r = {}"
    using 3(4,6) by (auto simp: set_link image_Un)
  have lv: "addrs r \<subseteq> live s" "addrs (link lt l x m y acc) \<subseteq> live s" using sub(1,2) 3(7) by blast+
  have ne: "link lt l x m y acc \<noteq> Leaf" by (simp add: link_def)
  let ?s = "s\<lparr>pnodes := g\<rparr>"
  obtain w' g' where e: "do { (node, pp, s) \<leftarrow> pair_loop lt nd (sib nd ?s) (Some w) ?s; add_unpaired node pp s } = Some (Some w', s\<lparr>pnodes := g'\<rparr>)"
    and r: "rep g' None (Some w') (pair_up lt r (link lt l x m y acc))"
    and ch': "changes (addrs r \<union> addrs (link lt l x m y acc)) {} ?s (s\<lparr>pnodes := g'\<rparr>)"
    using 3(1) [of ?s None nd "Some w"] g ap sub(3) lv ne by (auto simp: pv_ok_def)
  have "changes (addrs ?t \<union> addrs acc) (pv_set lt ?t pv) s (s\<lparr>pnodes := g'\<rparr>)"
    by (rule changes_trans [OF ch ch']) (use sub in blast)+
  moreover have "pair_loop lt p (sib p s) pp s = pair_loop lt nd (sib nd ?s) (Some w) ?s"
    by (subst pair_loop.simps) (use p st in auto)
  ultimately show ?case using e r by (simp only: pair_up.simps) blast
qed

lemma fold_loop_rep:
  assumes "rep (pnodes s) None (Some (fst x)) (Node l x r)" "apart (Node l x r)" "addrs (Node l x r) \<subseteq> live s"
  shows "\<exists>w g. fold_loop lt (Some (fst x)) (sib (Some (fst x)) s) s = Some (Some w, s\<lparr>pnodes := g\<rparr>) \<and>
    rep g None (Some w) (fold_up lt l x r) \<and> changes (addrs (Node l x r)) {} s (s\<lparr>pnodes := g\<rparr>)"
  using assms
proof (induction r arbitrary: s l x)
  case Leaf
  then have "changes (addrs (Node l x Leaf)) {} s (s\<lparr>pnodes := pnodes s\<rparr>)" by (simp add: changes_nodes)
  with Leaf show ?case by (intro exI [of _ "fst x"] exI [of _ "pnodes s"]) (simp add: fold_loop.simps)
next
  case (Node m y r)
  let ?t = "Node l x (Node m y r)"
  obtain w g where mp: "merge_pair lt (Some (fst x)) (next_sibling (pnodes s (fst x))) s = Some (w, s\<lparr>pnodes := g\<rparr>)"
    and g: "rep g None (Some w) (link lt l x m y r)" and ch: "changes (addrs ?t) {} s (s\<lparr>pnodes := g\<rparr>)"
    using merge_pair_rep [OF Node.prems, of lt] by (auto simp: pv_ok_def)
  obtain q z where q: "link lt l x m y r = Node q z r" "apart (Node q z r)" "insert (fst z) (addrs q) = {fst x, fst y} \<union> addrs l \<union> addrs m"
    using link_Node [of lt l x m y r] Node.prems(2) by blast
  have "addrs (Node q z r) = insert (fst z) (addrs q) \<union> addrs r" by (auto simp: image_Un)
  also have "... = addrs ?t" unfolding q(3) by (auto simp: image_Un)
  finally have l: "link lt l x m y r = Node q z r" "apart (Node q z r)" "addrs (Node q z r) = addrs ?t" using q by auto
  let ?s = "s\<lparr>pnodes := g\<rparr>"
  have w: "w = fst z" using g by (simp add: l(1))
  have lv: "addrs (Node q z r) \<subseteq> live s" using Node.prems(3) by (simp only: l(3))
  obtain w' g' where e: "fold_loop lt (Some (fst z)) (sib (Some (fst z)) ?s) ?s = Some (Some w', s\<lparr>pnodes := g'\<rparr>)"
    and r: "rep g' None (Some w') (fold_up lt q z r)" and ch': "changes (addrs (Node q z r)) {} ?s (s\<lparr>pnodes := g'\<rparr>)"
    using Node.IH(2) [of ?s z q] g l(2) lv by (auto simp: l(1) w)
  have "fst z \<in> live s" using lv by simp
  then have "fold_loop lt (Some (fst x)) (sib (Some (fst x)) s) s = Some (Some w', s\<lparr>pnodes := g'\<rparr>)"
    using Node.prems(1) mp e by (subst fold_loop.simps) (simp add: w)
  moreover have "fold_up lt l x (Node m y r) = fold_up lt q z r" using l(1) by (auto simp: link_def split: if_splits)
  moreover have "changes (addrs ?t) {} s (s\<lparr>pnodes := g'\<rparr>)" by (rule changes_trans [OF ch ch' [unfolded l(3)]]) simp_all
  ultimately show ?case using r by auto
qed

lemma merge_pairs_rep:
  assumes "rep (pnodes s) pv p t" "apart t" "addrs t \<subseteq> live s"
    and "turns lt t \<Longrightarrow> pv_ok s pv p t"
  shows "\<exists>p' pv' g. merge_pairs lt p s = Some (p', s\<lparr>pnodes := g\<rparr>) \<and> rep g pv' p' (unite lt t) \<and>
    changes (addrs t) (pv_set lt t pv) s (s\<lparr>pnodes := g\<rparr>)"
proof (cases t)
  case Leaf
  with assms(1) show ?thesis
    by (intro exI [of _ None] exI [of _ "pnodes s"]) (simp add: merge_pairs_def unite_def changes_nodes)
next
  case (Node l x r)
  show ?thesis
  proof (cases r)
    case Leaf
    with assms(1,3) Node show ?thesis
      by (intro exI [of _ p] exI [of _ pv] exI [of _ "pnodes s"]) (simp add: merge_pairs_def unite_def changes_nodes)
  next
    case r: (Node m y r')
    have p: "p = Some (fst x)" "fst x \<in> live s" "next_sibling (pnodes s (fst x)) \<noteq> None" using assms(1,3) by (simp_all add: Node r)
    obtain w g where e: "do { (node, pp, s) \<leftarrow> pair_loop lt p (sib p s) None s; add_unpaired node pp s } = Some (Some w, s\<lparr>pnodes := g\<rparr>)"
      and g: "rep g None (Some w) (pair_up lt t Leaf)" and ch: "changes (addrs t) (pv_set lt t pv) s (s\<lparr>pnodes := g\<rparr>)"
      using pair_loop_rep [OF assms(1) _ assms(2), of None Leaf lt] assms(3,4) by (fastforce simp: Node r)
    obtain q z u where u: "pair_up lt t Leaf = Node q z u" and w: "w = fst z" using g by (cases "pair_up lt t Leaf") auto
    have ms: "mset_tree (Node q z u) = mset_tree t" using mset_pair_up [of lt t Leaf] by (simp add: u)
    have st: "addrs (Node q z u) = addrs t" using set_mset_eq [OF ms] by (simp only:)
    have ap: "apart (Node q z u)" using assms(2) apart_mset [OF ms] by (simp only:)
    obtain w' g' where f: "fold_loop lt (Some (fst z)) (next_sibling (g (fst z))) (s\<lparr>pnodes := g\<rparr>) = Some (Some w', s\<lparr>pnodes := g'\<rparr>)"
      and g': "rep g' None (Some w') (fold_up lt q z u)" and ch': "changes (addrs t) {} (s\<lparr>pnodes := g\<rparr>) (s\<lparr>pnodes := g'\<rparr>)"
      using fold_loop_rep [of "s\<lparr>pnodes := g\<rparr>" z q u lt] g ap assms(3) unfolding st u w by auto
    have zl: "fst z \<in> live s" using st assms(3) by auto
    have "merge_pairs lt p s = Some (Some w', s\<lparr>pnodes := g'\<rparr>)"
      using e f p zl by (cases "pair_loop lt p (sib p s) None s") (auto simp: merge_pairs_def w)
    moreover have "unite lt t = fold_up lt q z u" by (simp add: unite_def u)
    moreover have "changes (addrs t) (pv_set lt t pv) s (s\<lparr>pnodes := g'\<rparr>)" by (rule changes_trans [OF ch ch']) auto
    ultimately show ?thesis using g' by metis
  qed
qed

end
