(* ===== verification/Pairing_Props.thy ===== *)
theory Pairing_Props
  imports Pairing_Repr Prio_Queue
begin

text \<open>
  What the operations of the pairing heap do: each returns, follows no null or dangling pointer, and acts on the queue as
  on a finite map from the queued handles to their priorities, with the root a least one.
\<close>

section \<open>The invariant\<close>

text \<open>A node that is not queued has no siblings after it and no children; its backward pointer can be stale.\<close>

definition ph_inv :: "('p \<Rightarrow> 'p \<Rightarrow> bool) \<Rightarrow> ('h, 'p, 't) pairing_heap \<Rightarrow> ('h, 'p) ptree \<Rightarrow> bool" where
  "ph_inv lt s t \<longleftrightarrow> (\<exists>pv. rep (pnodes s) pv (ph_root s) t) \<and> (t = Leaf \<or> (\<exists>l x. t = Node l x Leaf)) \<and> apart t \<and> pheap lt t \<and>
     addrs t \<subseteq> live s \<and> (\<forall>h \<in> live s - addrs t. next_sibling (pnodes s h) = None \<and> first_child (pnodes s h) = None)"

definition ph_ok :: "('p \<Rightarrow> 'p \<Rightarrow> bool) \<Rightarrow> ('h, 'p, 't) pairing_heap \<Rightarrow> 'h set \<Rightarrow> ('h \<Rightarrow> 'p option) \<Rightarrow> bool" where
  "ph_ok lt s A m \<longleftrightarrow> (\<exists>t. ph_inv lt s t \<and> live s = A \<and> (\<forall>h p. m h = Some p \<longleftrightarrow> (h, p) \<in> set_tree t))"

lemma rep_root: "rep f pv p t \<Longrightarrow> p = (case t of Leaf \<Rightarrow> None | Node l x r \<Rightarrow> Some (fst x))"
  by (cases t) auto

lemma ents_dom: "\<forall>h p. m h = Some p \<longleftrightarrow> (h, p) \<in> set_tree t \<Longrightarrow> dom m = addrs t"
  by force

lemma apart_add:
  assumes "mset_tree t' = add_mset (h, p) (mset_tree t)"
  shows "apart t' \<longleftrightarrow> h \<notin> addrs t \<and> apart t" "set_tree t' = insert (h, p) (set_tree t)"
proof -
  have "mset_tree t' = mset_tree (Node Leaf (h, p) t)" using assms by simp
  from apart_mset [OF this] set_mset_eq [OF this]
  show "apart t' \<longleftrightarrow> h \<notin> addrs t \<and> apart t" "set_tree t' = insert (h, p) (set_tree t)" by auto
qed

lemma ents_add:
  assumes "\<forall>h p. m h = Some p \<longleftrightarrow> (h, p) \<in> set_tree t" "mset_tree t' = add_mset (h, p) (mset_tree t)" "h \<notin> addrs t"
  shows "\<forall>g q. (m(h \<mapsto> p)) g = Some q \<longleftrightarrow> (g, q) \<in> set_tree t'"
  using assms(1,3) apart_add(2) [OF assms(2)] by force

lemma ents_del:
  assumes "\<forall>h p. m h = Some p \<longleftrightarrow> (h, p) \<in> set_tree t" "mset_tree t = add_mset (h, p) (mset_tree t')" "apart t"
  shows "\<forall>g q. (m(h := None)) g = Some q \<longleftrightarrow> (g, q) \<in> set_tree t'"
  using assms(1,3) apart_add [OF assms(2)] by force

lemma ph_invD:
  assumes "ph_inv lt s (Node l (a, u) Leaf)"
  shows "\<exists>pv. rep (pnodes s) pv (Some a) (Node l (a, u) Leaf)" "ph_root s = Some a" "pn_prio (pnodes s a) = u"
    "next_sibling (pnodes s a) = None" "rep (pnodes s) (Some a) (first_child (pnodes s a)) l" "a \<notin> addrs l" "apart l" "a \<in> live s"
    "addrs l \<subseteq> live s" "pheap lt l" "\<forall>y \<in> set_tree l. \<not> lt (snd y) u"
    "\<And>g. g \<in> live s \<Longrightarrow> g \<noteq> a \<Longrightarrow> g \<notin> addrs l \<Longrightarrow> next_sibling (pnodes s g) = None \<and> first_child (pnodes s g) = None"
  using assms by (auto simp: ph_inv_def)

section \<open>Insertion\<close>

text \<open>The effect of \<open>ph_insert\<close> when the new node becomes a child of the root, and when it becomes the root.\<close>

lemma insert_child:
  assumes i: "ph_inv lt s (Node l (a, u) Leaf)" and h: "h \<in> live s" "h \<noteq> a" "h \<notin> addrs l" and lt: "lt u p" "\<not> lt p u"
  shows "\<exists>s'. ph_insert lt h p s = Some (False, s') \<and> ph_inv lt s' (Node (Node Leaf (h, p) l) (a, u) Leaf) \<and> live s' = live s \<and>
    (\<forall>g. pn_data (pnodes s' g) = pn_data (pnodes s g))"
proof -
  let ?f = "pnodes s"
  note r = ph_invD [OF i]
  obtain pv where rp: "rep ?f pv (Some a) (Node l (a, u) Leaf)" using r(1) by blast
  have ptr: "set_option (first_child (?f a)) \<subseteq> addrs l" by (rule rep_ptr [OF r(5)])
  have ne: "first_child (?f a) \<noteq> Some a" "first_child (?f a) \<noteq> Some h" "set_option (first_child (?f a)) \<subseteq> live s"
    using ptr r(6,9) h by auto
  define g where "g = (reprev (first_child (?f a)) (Some h) (?f(h := ?f h\<lparr>pn_prio := p, next_sibling := first_child (?f a)\<rparr>)))
    (h := ?f h\<lparr>pn_prio := p, next_sibling := first_child (?f a), prev_sibling := Some a\<rparr>, a := ?f a\<lparr>first_child := Some h\<rparr>)"
  let ?t = "Node (Node Leaf (h, p) l) (a, u) Leaf"
  have "ph_insert lt h p s = Some (False, s\<lparr>pnodes := g\<rparr>)"
    using lt h ne r(2,3,8) by (simp add: ph_insert_def ph_merge_def Let_def set_prev_opt_eq g_def)
  moreover have "rep g pv (Some a) ?t"
    using rp h ne ptr r(3-7) r(12) [of h] by (simp add: g_def rep_reprev [where pv = "Some a"])
  moreover have "next_sibling (g b) = None \<and> first_child (g b) = None" if "b \<in> live s" "b \<notin> addrs ?t" for b
    using that r(12) [of b] ptr by (auto simp: g_def reprev_def)
  moreover have "pheap lt ?t" using r(10,11) lt by auto
  ultimately show ?thesis using h r(2,6-9) by (intro exI [of _ "s\<lparr>pnodes := g\<rparr>"]) (auto simp: ph_inv_def g_def)
qed

lemma insert_root:
  assumes i: "ph_inv lt s (Node l (a, u) Leaf)" and h: "h \<in> live s" "h \<noteq> a" "h \<notin> addrs l" and lt: "\<not> lt u p"
    and least: "\<forall>y \<in> set_tree l. \<not> lt (snd y) p"
  shows "\<exists>s'. ph_insert lt h p s = Some (True, s') \<and> ph_inv lt s' (Node (Node l (a, u) Leaf) (h, p) Leaf) \<and> live s' = live s \<and>
    (\<forall>g. pn_data (pnodes s' g) = pn_data (pnodes s g))"
proof -
  let ?f = "pnodes s"
  note r = ph_invD [OF i]
  obtain pv where rp: "rep ?f pv (Some a) (Node l (a, u) Leaf)" using r(1) by blast
  define g where "g = ?f(h := ?f h\<lparr>pn_prio := p, first_child := Some a\<rparr>, a := ?f a\<lparr>next_sibling := None, prev_sibling := Some h\<rparr>)"
  let ?t = "Node (Node l (a, u) Leaf) (h, p) Leaf"
  let ?s = "s\<lparr>pnodes := g, ph_root := Some h\<rparr>"
  have "ph_insert lt h p s = Some (True, ?s)"
    using lt h r(2,3,8) r(12) [of h] by (simp add: ph_insert_def ph_merge_def Let_def set_prev_opt_def g_def)
  moreover have "rep g (prev_sibling (?f h)) (Some h) ?t" using rp h r(6) r(12) [of h] by (simp add: g_def)
  moreover have "next_sibling (g b) = None \<and> first_child (g b) = None" if "b \<in> live s" "b \<notin> addrs ?t" for b
    using that r(12) [of b] by (auto simp: g_def)
  moreover have "pheap lt ?t" using r(10,11) lt least by auto
  ultimately show ?thesis using h r(6-9) by (intro exI [of _ ?s]) (auto simp: ph_inv_def g_def)
qed

lemma insert_tree:
  assumes i: "ph_inv lt s t" and h: "h \<in> live s" "h \<notin> addrs t" and swo: "strict_weak_order lt"
  shows "\<exists>b s' t'. ph_insert lt h p s = Some (b, s') \<and> ph_inv lt s' t' \<and> live s' = live s \<and> mset_tree t' = add_mset (h, p) (mset_tree t) \<and>
    (b \<longleftrightarrow> (\<forall>q \<in> snd ` set_tree t. \<not> lt q p)) \<and> (\<forall>g. pn_data (pnodes s' g) = pn_data (pnodes s g))"
proof (cases t)
  case Leaf
  then have r: "ph_root s = None" using i by (auto simp: ph_inv_def dest: rep_root)
  let ?s = "s\<lparr>pnodes := (pnodes s)(h := pnodes s h\<lparr>pn_prio := p\<rparr>), ph_root := Some h\<rparr>"
  have "ph_insert lt h p s = Some (True, ?s)" using r h by (simp add: ph_insert_def ph_merge_def)
  moreover have "ph_inv lt ?s (Node Leaf (h, p) Leaf)" using i h by (auto simp: ph_inv_def Leaf)
  ultimately show ?thesis using Leaf by force
next
  case (Node l x r)
  then obtain a u where t: "t = Node l (a, u) Leaf" using i by (cases x) (auto simp: ph_inv_def)
  note i' = i [unfolded t]
  have hn: "h \<noteq> a" "h \<notin> addrs l" using h(2) by (simp_all add: t)
  show ?thesis
  proof (cases "lt u p")
    case True
    have "\<not> lt p u" by (rule strict_weak_order.asym [OF swo True])
    from insert_child [where lt = lt, OF i' h(1) hn True this] True show ?thesis by (fastforce simp: t)
  next
    case False
    have least: "\<forall>y \<in> set_tree l. \<not> lt (snd y) p"
      using ph_invD(11) [OF i'] strict_weak_order.incomp_trans [OF swo _ False] by blast
    from insert_root [where lt = lt, OF i' h(1) hn False this] False least show ?thesis by (fastforce simp: t)
  qed
qed

section \<open>Removal\<close>

lemma pull_tree:
  assumes i: "ph_inv lt s (Node l (a, u) Leaf)" and swo: "strict_weak_order lt"
  shows "\<exists>s'. ph_pull_root lt s = Some (ph_root s', s') \<and> ph_inv lt s' (unite lt l) \<and> live s' = live s \<and>
    (\<forall>g. pn_data (pnodes s' g) = pn_data (pnodes s g))"
proof -
  let ?f = "pnodes s"
  obtain pv where rp: "rep ?f pv (Some a) (Node l (a, u) Leaf)" and ra: "ph_root s = Some a"
    using i by (auto simp: ph_inv_def)
  have ap: "a \<notin> addrs l" "apart l" and lv: "a \<in> live s" "addrs l \<subseteq> live s" and hp: "pheap lt l" using i by (auto simp: ph_inv_def)
  have idle: "\<And>g. g \<in> live s \<Longrightarrow> g \<noteq> a \<Longrightarrow> g \<notin> addrs l \<Longrightarrow> next_sibling (?f g) = None \<and> first_child (?f g) = None"
    using i by (auto simp: ph_inv_def)
  have "rep ?f (Some a) (first_child (?f a)) l" using rp by simp
  moreover have "pv_ok s (Some a) (first_child (?f a)) l" using ap lv by (simp add: pv_ok_def)
  ultimately obtain p' pv' g where mp: "merge_pairs lt (first_child (?f a)) s = Some (p', s\<lparr>pnodes := g\<rparr>)"
    and g: "rep g pv' p' (unite lt l)" and ch: "changes (addrs l) (pv_set lt l (Some a)) s (s\<lparr>pnodes := g\<rparr>)"
    using merge_pairs_rep [of s "Some a" "first_child (?f a)" l lt] ap lv by blast
  let ?g = "g(a := g a\<lparr>first_child := None\<rparr>)"
  let ?s = "s\<lparr>pnodes := ?g, ph_root := p'\<rparr>"
  have "ph_pull_root lt s = Some (ph_root ?s, ?s)" using mp lv ra by (simp add: ph_pull_root_def)
  moreover have "next_sibling (?g b) = None \<and> first_child (?g b) = None" if b: "b \<in> live s" "b \<notin> addrs l" for b
  proof (cases "b = a")
    case True
    have "g a\<lparr>first_child := None\<rparr> = ?f a\<lparr>first_child := None\<rparr>" using ch ap by (auto simp: changes_nodes split: if_splits)
    from arg_cong [OF this, of next_sibling] rp True show ?thesis by simp
  next
    case False
    then have "g b = ?f b" using ch b by (auto simp: changes_nodes split: if_splits)
    with idle [of b] b False show ?thesis by simp
  qed
  moreover have "\<forall>h. pn_data (?g h) = pn_data (?f h)" using ch by (simp add: changes_nodes)
  moreover have "pheap lt (unite lt l)" by (rule strict_weak_order.pheap_unite [OF swo hp])
  ultimately show ?thesis using g ap lv unite_root [of lt l] by (intro exI [of _ ?s]) (auto simp: ph_inv_def)
qed

text \<open>The memory after \<open>ph_unlink\<close>.\<close>

definition unlinked :: "'h \<Rightarrow> ('h \<Rightarrow> ('h, 'p, 't) ph_node) \<Rightarrow> 'h \<Rightarrow> ('h, 'p, 't) ph_node" where
  "unlinked h f =
     (let b = the (prev_sibling (f h)); nx = next_sibling (f h);
          f1 = f(b := (if first_child (f b) = Some h then f b\<lparr>first_child := nx\<rparr> else f b\<lparr>next_sibling := nx\<rparr>));
          f2 = reprev nx (Some b) f1
      in f2(h := f2 h\<lparr>next_sibling := None, prev_sibling := None, first_child := None\<rparr>))"

lemma unlinked_other: "a \<noteq> h \<Longrightarrow> prev_sibling (f h) \<noteq> Some a \<Longrightarrow> prev_sibling (f h) \<noteq> None \<Longrightarrow> next_sibling (f h) \<noteq> Some a \<Longrightarrow> unlinked h f a = f a"
  by (auto simp: unlinked_def Let_def)

lemma unlinked_frame:
  assumes "h \<notin> addrs t" "prev_sibling (f h) = Some b" "b \<notin> addrs t" "set_option (next_sibling (f h)) \<inter> addrs t = {}"
  shows "rep (unlinked h f) pv p t = rep f pv p t"
proof (rule rep_cong, rule ballI)
  fix a
  assume "a \<in> addrs t"
  with assms(1,3,4) have "a \<noteq> h" "a \<noteq> b" "next_sibling (f h) \<noteq> Some a" by auto
  with assms(2) show "unlinked h f a = f a" by (intro unlinked_other) auto
qed

text \<open>The first of a list of siblings after the node \<open>a\<close>.\<close>

lemma unlinked_first:
  assumes "rep f (Some a) (Some h) t" "apart t" "a \<notin> addrs t"
  shows "rep (unlinked h f) (Some a) (next_sibling (f h)) (cut h t)" "rep (unlinked h f) (Some h) (first_child (f h)) (below h t)"
    "prev_sibling (f h) = Some a" "set_option (next_sibling (f h)) \<subseteq> addrs t - {h}" "h \<in> addrs t"
proof -
  obtain m v r where t: "t = Node m (h, v) r" using assms(1) by (cases t) auto
  have sub: "rep f (Some h) (first_child (f h)) m" "rep f (Some h) (next_sibling (f h)) r" and pv: "prev_sibling (f h) = Some a"
    using assms(1) by (simp_all add: t)
  note ptr = sub [THEN rep_ptr]
  have ap: "h \<notin> addrs m" "h \<notin> addrs r" "addrs m \<inter> addrs r = {}" "apart r" "a \<noteq> h" "a \<notin> addrs m" "a \<notin> addrs r"
    using assms(2,3) by (auto simp: t)
  show "prev_sibling (f h) = Some a" "set_option (next_sibling (f h)) \<subseteq> addrs t - {h}" "h \<in> addrs t"
    using pv ptr ap by (auto simp: t)
  have nx: "set_option (next_sibling (f h)) \<inter> addrs m = {}" using ptr ap by blast
  show "rep (unlinked h f) (Some h) (first_child (f h)) (below h t)"
    using sub ap unlinked_frame [where f = f and h = h, OF ap(1) pv ap(6) nx] by (simp add: t)
  have "unlinked h f b = reprev (next_sibling (f h)) (Some a) f b" if "b \<noteq> h" "b \<noteq> a" for b
    using that pv by (simp add: unlinked_def Let_def reprev_def)
  with ap(2,7) have eq: "rep (unlinked h f) pv' p' r = rep (reprev (next_sibling (f h)) (Some a) f) pv' p' r" for pv' p'
    by (intro rep_cong) metis
  show "rep (unlinked h f) (Some a) (next_sibling (f h)) (cut h t)"
    using rep_reprev [OF sub(2) ap(4), of "Some a"] eq by (simp add: t)
qed

lemma unlinked_rep:
  assumes "rep f pv p t" "apart t" "h \<in> addrs t" "p \<noteq> Some h"
  shows "rep (unlinked h f) pv p (cut h t) \<and> rep (unlinked h f) (Some h) (first_child (f h)) (below h t) \<and>
    (\<exists>b. prev_sibling (f h) = Some b \<and> b \<in> addrs t \<and> b \<noteq> h) \<and> set_option (next_sibling (f h)) \<subseteq> addrs t - {h}"
  using assms
proof (induction t arbitrary: pv p)
  case (Node l x r)
  obtain a u where x: "x = (a, u)" by (cases x)
  have p: "p = Some a" "a \<noteq> h" and sub: "rep f (Some a) (first_child (f a)) l" "rep f (Some a) (next_sibling (f a)) r"
    and fa: "prev_sibling (f a) = pv" "pn_prio (f a) = u" using Node.prems by (auto simp: x)
  note ptr = sub [THEN rep_ptr]
  have ap: "a \<notin> addrs l" "a \<notin> addrs r" "addrs l \<inter> addrs r = {}" "apart l" "apart r" using Node.prems(2) by (auto simp: x)
  have hlr: "h \<in> addrs l \<or> h \<in> addrs r" using Node.prems(3) p by (auto simp: x)
  consider (lf) "first_child (f a) = Some h" | (li) "h \<in> addrs l" "first_child (f a) \<noteq> Some h"
    | (rf) "next_sibling (f a) = Some h" "h \<notin> addrs l" "first_child (f a) \<noteq> Some h"
    | (ri) "h \<in> addrs r" "h \<notin> addrs l" "next_sibling (f a) \<noteq> Some h" "first_child (f a) \<noteq> Some h"
    using hlr ptr by fastforce
  then show ?case
  proof cases
    case lf
    note n = unlinked_first [OF sub(1) [unfolded lf] ap(4,1)]
    have "rep (unlinked h f) pv' p' r = rep f pv' p' r" for pv' p'
      using n(4,5) ap by (intro unlinked_frame [where f = f and h = h, OF _ n(3)]) blast+
    moreover have "unlinked h f a = f a\<lparr>first_child := next_sibling (f h)\<rparr>"
      using n(3,4) lf p(2) ap(1) by (auto simp: unlinked_def Let_def reprev_def)
    moreover have "h \<notin> addrs r" using n(5) ap(3) by blast
    ultimately show ?thesis using n p sub fa by (auto simp: x cut_absent)
  next
    case li
    from Node.IH(1) [OF sub(1) ap(4) li] obtain b where n: "rep (unlinked h f) (Some a) (first_child (f a)) (cut h l)"
      "rep (unlinked h f) (Some h) (first_child (f h)) (below h l)" "prev_sibling (f h) = Some b" "b \<in> addrs l" "b \<noteq> h"
      "set_option (next_sibling (f h)) \<subseteq> addrs l - {h}" by blast
    have "rep (unlinked h f) pv' p' r = rep f pv' p' r" for pv' p'
      using n(4,6) li(1) ap by (intro unlinked_frame [where f = f and h = h, OF _ n(3)]) blast+
    moreover have "unlinked h f a = f a" using n(3,4,6) p(2) ap(1) by (intro unlinked_other) auto
    moreover have "h \<notin> addrs r" using li(1) ap(3) by blast
    ultimately show ?thesis using n p sub fa li(1) by (auto simp: x cut_absent)
  next
    case rf
    note n = unlinked_first [OF sub(2) [unfolded rf(1)] ap(5,2)]
    have "rep (unlinked h f) pv' p' l = rep f pv' p' l" for pv' p'
      using n(4,5) ap by (intro unlinked_frame [where f = f and h = h, OF _ n(3)]) blast+
    moreover have "unlinked h f a = f a\<lparr>next_sibling := next_sibling (f h)\<rparr>"
      using n(3,4) rf p(2) ap(2) by (auto simp: unlinked_def Let_def reprev_def)
    ultimately show ?thesis using n p sub fa rf by (auto simp: x cut_absent)
  next
    case ri
    from Node.IH(2) [OF sub(2) ap(5) ri(1,3)] obtain b where n: "rep (unlinked h f) (Some a) (next_sibling (f a)) (cut h r)"
      "rep (unlinked h f) (Some h) (first_child (f h)) (below h r)" "prev_sibling (f h) = Some b" "b \<in> addrs r" "b \<noteq> h"
      "set_option (next_sibling (f h)) \<subseteq> addrs r - {h}" by blast
    have "rep (unlinked h f) pv' p' l = rep f pv' p' l" for pv' p'
      using n(4,6) ri(1) ap by (intro unlinked_frame [where f = f and h = h, OF _ n(3)]) blast+
    moreover have "unlinked h f a = f a" using n(3,4,6) p(2) ap(2) by (intro unlinked_other) auto
    ultimately show ?thesis using n p sub fa ri by (auto simp: x cut_absent)
  qed
qed simp

lemma unlink_eq:
  assumes "h \<in> live s" "prev_sibling (pnodes s h) = Some b" "b \<in> live s" "b \<noteq> h" "next_sibling (pnodes s h) \<noteq> Some h"
    and "set_option (next_sibling (pnodes s h)) \<subseteq> live s"
  shows "ph_unlink h s = Some (s\<lparr>pnodes := unlinked h (pnodes s)\<rparr>)"
  using assms by (simp add: ph_unlink_def set_prev_opt_eq unlinked_def Let_def)

lemma unlinked_idle:
  assumes "prev_sibling (f h) = Some b" "g \<noteq> h" "g \<noteq> b" "next_sibling (f h) \<noteq> Some g"
  shows "unlinked h f g = f g"
  using assms by (intro unlinked_other) auto

lemma unlinked_data: "pn_data (unlinked h f g) = pn_data (f g)"
  by (simp add: unlinked_def Let_def reprev_def)

lemma unlinked_self: "next_sibling (unlinked h f h) = None" "first_child (unlinked h f h) = None"
  by (simp_all add: unlinked_def Let_def)

lemma unlink_tree:
  assumes i: "ph_inv lt s (Node l (a, u) Leaf)" and h: "h \<in> addrs l"
  defines "g \<equiv> unlinked h (pnodes s)"
  shows "ph_unlink h s = Some (s\<lparr>pnodes := g\<rparr>)" "\<exists>pv. rep g pv (Some a) (Node (cut h l) (a, u) Leaf)"
    "rep g (Some h) (first_child (pnodes s h)) (below h l)" "\<forall>k. pn_data (g k) = pn_data (pnodes s k)"
    "k \<in> live s \<Longrightarrow> k \<noteq> a \<Longrightarrow> k \<notin> addrs l \<or> k = h \<Longrightarrow> next_sibling (g k) = None \<and> first_child (g k) = None"
proof -
  let ?t = "Node l (a, u) Leaf"
  obtain pv where rp: "rep (pnodes s) pv (Some a) ?t" and ra: "ph_root s = Some a"
    using i by (auto simp: ph_inv_def)
  have ap: "apart ?t" "a \<noteq> h" and lv: "addrs ?t \<subseteq> live s" using i h by (auto simp: ph_inv_def)
  from unlinked_rep [OF rp ap(1), of h] h ap(2) obtain b where n: "rep g pv (Some a) (cut h ?t)"
    "rep g (Some h) (first_child (pnodes s h)) (below h ?t)" "prev_sibling (pnodes s h) = Some b" "b \<in> addrs ?t" "b \<noteq> h"
    "set_option (next_sibling (pnodes s h)) \<subseteq> addrs ?t - {h}" by (auto simp: g_def)
  have hl: "h \<in> live s" "b \<in> live s" "next_sibling (pnodes s h) \<noteq> Some h" "set_option (next_sibling (pnodes s h)) \<subseteq> live s"
    using n(4,6) lv h by auto
  show "ph_unlink h s = Some (s\<lparr>pnodes := g\<rparr>)" unfolding g_def by (rule unlink_eq [OF hl(1) n(3) hl(2) n(5) hl(3,4)])
  show "\<exists>pv. rep g pv (Some a) (Node (cut h l) (a, u) Leaf)" using n(1) ap(2) by auto
  show "rep g (Some h) (first_child (pnodes s h)) (below h l)" using n(2) ap(2) h by auto
  show "\<forall>k. pn_data (g k) = pn_data (pnodes s k)" by (simp add: g_def unlinked_data)
  assume k: "k \<in> live s" "k \<noteq> a" "k \<notin> addrs l \<or> k = h"
  show "next_sibling (g k) = None \<and> first_child (g k) = None"
  proof (cases "k = h")
    case False
    then have kt: "k \<notin> addrs ?t" using k by auto
    then have "g k = pnodes s k" unfolding g_def using n(4,6) False by (intro unlinked_idle [where f = "pnodes s" and h = h, OF n(3)]) auto
    then show ?thesis using i k(1) kt by (simp add: ph_inv_def)
  qed (simp add: g_def unlinked_self)
qed

lemma remove_inner_tree:
  assumes i: "ph_inv lt s (Node l (a, u) Leaf)" and h: "(h, p) \<in> set_tree l" and swo: "strict_weak_order lt"
  shows "\<exists>s' t'. ph_remove lt h s = Some s' \<and> ph_inv lt s' t' \<and> live s' = live s \<and>
    mset_tree (Node l (a, u) Leaf) = add_mset (h, p) (mset_tree t') \<and> (\<forall>g. pn_data (pnodes s' g) = pn_data (pnodes s g))"
proof -
  let ?f = "pnodes s"
  define g where "g = unlinked h ?f"
  have ha: "h \<in> addrs l" using h by force
  note un = unlink_tree [OF i ha, folded g_def]
  obtain pv where rg: "rep g pv (Some a) (Node (cut h l) (a, u) Leaf)" using un(2) by blast
  have ra: "ph_root s = Some a" and ap: "a \<notin> addrs l" "apart l" and lv: "a \<in> live s" "addrs l \<subseteq> live s" "h \<in> live s"
    and hp: "pheap lt (Node l (a, u) Leaf)" using i ha by (auto simp: ph_inv_def)
  have ms: "mset_tree l = add_mset (h, p) (mset_tree (cut h l) + mset_tree (below h l))" using mset_cut [OF h ap(2)] by simp
  then have "set_mset (mset_tree l) = insert (h, p) (set_mset (mset_tree (cut h l) + mset_tree (below h l)))" by simp
  then have st: "set_tree l = insert (h, p) (set_tree (cut h l) \<union> set_tree (below h l))" by simp
  let ?u = "Node (cut h l) (a, u) (below h l)"
  have apu: "h \<notin> addrs ?u" "apart ?u"
    using apart_add(1) [of "Node l (a, u) Leaf" h p ?u] ms ap by simp_all
  have hpu: "pheap lt (cut h l)" "pheap lt (below h l)" using strict_weak_order.pheap_subtrees [OF swo, of l h] hp by auto
  have least: "\<forall>y \<in> set_tree (cut h l) \<union> set_tree (below h l). \<not> lt (snd y) u" using hp st by auto
  have hne: "ph_root s \<noteq> Some h" using ra ap(1) ha by auto
  have au: "insert h (addrs ?u) = insert a (addrs l)" using arg_cong [OF st, of "image fst"] by (auto simp: image_Un)
  have lvu: "addrs ?u \<subseteq> live s"
    by (rule subset_trans [OF subset_insertI [of _ h]], unfold au) (use lv in simp)
  show ?thesis
  proof (cases "below h l")
    case Leaf
    then have c: "first_child (?f h) = None" using un(3) by simp
    let ?s = "s\<lparr>pnodes := g\<rparr>" and ?t = "Node (cut h l) (a, u) Leaf"
    have "ph_remove lt h s = Some ?s" using un(1) hne lv c by (simp add: ph_remove_def)
    moreover have "next_sibling (g k) = None \<and> first_child (g k) = None" if "k \<in> live s" "k \<notin> addrs ?t" for k
    proof (rule un(5) [OF that(1)])
      show "k \<noteq> a" using that by simp
      show "k \<notin> addrs l \<or> k = h" using that st by (auto simp: Leaf)
    qed
    ultimately show ?thesis using rg ra apu hpu least lvu ms un(4)
      by (intro exI [of _ ?s] exI [of _ ?t]) (auto simp: ph_inv_def Leaf)
  next
    case (Node m y r)
    obtain c where c: "first_child (?f h) = Some c" "c \<in> addrs (below h l)"
      using un(3) by (auto simp: Node)
    have cl: "c \<in> live s" "c \<noteq> a" using c(2) lvu apu by auto
    define g1 where "g1 = reprev (Some c) (Some a) (g(a := g a\<lparr>next_sibling := Some c\<rparr>))"
    have cd: "c \<notin> addrs (cut h l)" "a \<notin> addrs (cut h l)" "a \<notin> addrs (below h l)" "apart (below h l)" using apu c(2) by auto
    have r1: "rep g1 pv (Some a) ?u"
      using rg un(3) cl cd unfolding g1_def by (simp add: c rep_reprev_other rep_reprev [where pv = "Some h"])
    have nt: "\<not> turns lt ?u" using least by (simp add: Node)
    obtain p' pv' g2 where mp: "merge_pairs lt (Some a) (s\<lparr>pnodes := g1\<rparr>) = Some (p', s\<lparr>pnodes := g2\<rparr>)"
      and r2: "rep g2 pv' p' (unite lt ?u)" and ch: "changes (addrs ?u) (pv_set lt ?u pv) (s\<lparr>pnodes := g1\<rparr>) (s\<lparr>pnodes := g2\<rparr>)"
      using merge_pairs_rep [of "s\<lparr>pnodes := g1\<rparr>" pv "Some a" ?u lt] r1 apu(2) lvu nt by auto
    let ?s = "s\<lparr>pnodes := g2, ph_root := p'\<rparr>"
    have "ph_remove lt h s = Some ?s" using un(1) hne lv c cl mp ra by (simp add: ph_remove_def g1_def reprev_Some)
    moreover have "next_sibling (g2 k) = None \<and> first_child (g2 k) = None" if k: "k \<in> live s" "k \<notin> addrs ?u" for k
    proof -
      have "g2 k = g1 k" using ch k(2) nt unfolding changes_def by auto
      moreover have "g1 k = g k" using k(2) c(2) by (auto simp: g1_def reprev_def)
      moreover have "next_sibling (g k) = None \<and> first_child (g k) = None"
        by (rule un(5) [OF k(1)]) (use k(2) au in auto)
      ultimately show ?thesis by simp
    qed
    moreover have "\<forall>k. pn_data (g2 k) = pn_data (?f k)" using ch un(4) by (auto simp: changes_def g1_def reprev_def)
    moreover have "pheap lt (unite lt ?u)" using hpu least by (intro strict_weak_order.pheap_unite [OF swo]) simp
    moreover have "mset_tree (Node l (a, u) Leaf) = add_mset (h, p) (mset_tree (unite lt ?u))" using ms by (simp add: mset_unite)
    ultimately show ?thesis using r2 lvu apu unite_root [of lt ?u]
      by (intro exI [of _ ?s] exI [of _ "unite lt ?u"]) (auto simp: ph_inv_def)
  qed
qed

section \<open>The operations on the map\<close>

lemma ph_ok_new: "ph_ok lt (ph_new garbage) {} Map.empty"
  unfolding ph_ok_def by (intro exI [of _ Leaf]) (simp add: ph_inv_def ph_new_def)

lemma ok_dom: "ph_ok lt s A m \<Longrightarrow> dom m \<subseteq> A \<and> finite (dom m)"
  unfolding ph_ok_def ph_inv_def by (elim exE conjE, frule ents_dom) simp

lemma allocate_ok:
  assumes "ph_ok lt s A m" "h \<notin> A"
  shows "ph_ok lt (ph_allocate h d s) (insert h A) m"
proof -
  obtain t where t: "ph_inv lt s t" "live s = A" "\<forall>h p. m h = Some p \<longleftrightarrow> (h, p) \<in> set_tree t" using assms(1) by (auto simp: ph_ok_def)
  then have "h \<notin> addrs t" using assms(2) by (auto simp: ph_inv_def)
  then have "ph_inv lt (ph_allocate h d s) t" using t(1) by (auto simp: ph_inv_def ph_allocate_def put_node_def)
  moreover have "live (ph_allocate h d s) = insert h A" using t(2) by (simp add: ph_allocate_def put_node_def)
  ultimately show ?thesis using t(3) by (auto simp: ph_ok_def)
qed

lemma deallocate_ok:
  assumes "ph_ok lt s A m" "h \<in> A" "h \<notin> dom m"
  shows "\<exists>s'. ph_deallocate h s = Some s' \<and> ph_ok lt s' (A - {h}) m"
proof -
  obtain t where t: "ph_inv lt s t" "live s = A" "\<forall>h p. m h = Some p \<longleftrightarrow> (h, p) \<in> set_tree t" using assms(1) by (auto simp: ph_ok_def)
  have "h \<notin> addrs t" using assms(3) ents_dom [OF t(3)] by simp
  then have "ph_inv lt (s\<lparr>live := live s - {h}\<rparr>) t" using t(1) by (auto simp: ph_inv_def)
  then show ?thesis using assms(2) t(2,3) by (auto simp: ph_deallocate_def ph_ok_def)
qed

lemma insert_ok:
  assumes "strict_weak_order lt" "ph_ok lt s A m" "h \<in> A" "h \<notin> dom m"
  shows "\<exists>s'. ph_insert lt h p s = Some (\<forall>q \<in> ran m. \<not> lt q p, s') \<and> ph_ok lt s' A (m(h \<mapsto> p)) \<and>
    (\<forall>g. pn_data (pnodes s' g) = pn_data (pnodes s g))"
proof -
  obtain t where t: "ph_inv lt s t" "live s = A" "\<forall>h p. m h = Some p \<longleftrightarrow> (h, p) \<in> set_tree t" using assms(2) by (auto simp: ph_ok_def)
  have h: "h \<in> live s" "h \<notin> addrs t" using assms(3,4) ents_dom [OF t(3)] t(2) by auto
  obtain b s' t' where i: "ph_insert lt h p s = Some (b, s')" "ph_inv lt s' t'" "live s' = live s"
    "mset_tree t' = add_mset (h, p) (mset_tree t)" "b \<longleftrightarrow> (\<forall>q \<in> snd ` set_tree t. \<not> lt q p)"
    "\<forall>g. pn_data (pnodes s' g) = pn_data (pnodes s g)" using insert_tree [OF t(1) h assms(1), of p] by blast
  have "ran m = snd ` set_tree t" using t(3) by (force simp: ran_def)
  moreover have "ph_ok lt s' A (m(h \<mapsto> p))" using i(2,3) t(2) ents_add [OF t(3) i(4) h(2)] unfolding ph_ok_def by blast
  ultimately show ?thesis using i(1,5,6) by simp
qed

lemma pull_ok:
  assumes "strict_weak_order lt" "ph_ok lt s A m" "m \<noteq> Map.empty"
  shows "\<exists>h p s'. ph_root s = Some h \<and> m h = Some p \<and> ph_get_root_priority s = Some p \<and> (\<forall>q \<in> ran m. \<not> lt q p) \<and>
    ph_pull_root lt s = Some (ph_root s', s') \<and> ph_ok lt s' A (m(h := None)) \<and> (\<forall>g. pn_data (pnodes s' g) = pn_data (pnodes s g))"
proof -
  obtain t where t: "ph_inv lt s t" "live s = A" "\<forall>h p. m h = Some p \<longleftrightarrow> (h, p) \<in> set_tree t" using assms(2) by (auto simp: ph_ok_def)
  have "t \<noteq> Leaf" using assms(3) t(3) by fastforce
  with t(1) obtain l a u where te: "t = Node l (a, u) Leaf" by (auto simp: ph_inv_def)
  have mh: "m a = Some u" using t(3) te by simp
  have root: "ph_root s = Some a" "ph_get_root_priority s = Some u" using t(1) by (auto simp: ph_inv_def te ph_get_root_priority_def)
  have ms: "mset_tree t = add_mset (a, u) (mset_tree (unite lt l))" by (simp add: te mset_unite)
  have ap: "apart t" using t(1) by (simp add: ph_inv_def)
  have "ran m = snd ` set_tree t" using t(3) by (force simp: ran_def)
  moreover have "\<forall>y \<in> set_tree l. \<not> lt (snd y) u" using t(1) by (simp add: ph_inv_def te)
  ultimately have least: "\<forall>q \<in> ran m. \<not> lt q u" using strict_weak_order.irrefl [OF assms(1)] by (auto simp: te)
  from pull_tree [OF t(1) [unfolded te] assms(1)] obtain s' where s': "ph_pull_root lt s = Some (ph_root s', s')" "ph_inv lt s' (unite lt l)"
    "live s' = live s" "\<forall>g. pn_data (pnodes s' g) = pn_data (pnodes s g)" by blast
  have "ph_ok lt s' A (m(a := None))" using s'(2,3) t(2) ents_del [OF t(3) ms ap] unfolding ph_ok_def by blast
  with s' root mh least show ?thesis by blast
qed

lemma remove_ok:
  assumes "strict_weak_order lt" "ph_ok lt s A m" "h \<in> dom m"
  shows "\<exists>s'. ph_remove lt h s = Some s' \<and> ph_ok lt s' A (m(h := None)) \<and> (\<forall>g. pn_data (pnodes s' g) = pn_data (pnodes s g))"
proof -
  obtain t where t: "ph_inv lt s t" "live s = A" "\<forall>h p. m h = Some p \<longleftrightarrow> (h, p) \<in> set_tree t" using assms(2) by (auto simp: ph_ok_def)
  obtain p where p: "m h = Some p" using assms(3) by auto
  show ?thesis
  proof (cases "ph_root s = Some h")
    case True
    then show ?thesis using pull_ok [OF assms(1,2)] assms(3) by (fastforce simp: ph_remove_def)
  next
    case False
    have "t \<noteq> Leaf" using p t(3) by fastforce
    with t(1) obtain l a u where te: "t = Node l (a, u) Leaf" by (auto simp: ph_inv_def)
    have "ph_root s = Some a" using t(1) by (auto simp: ph_inv_def te)
    with False p t(3) have "(h, p) \<in> set_tree l" by (auto simp: te)
    moreover have ap: "apart t" using t(1) by (simp add: ph_inv_def)
    ultimately show ?thesis using remove_inner_tree [OF t(1) [unfolded te] _ assms(1), of h p] ents_del [OF t(3) _ ap, of h p] t(2)
      unfolding te ph_ok_def by metis
  qed
qed

lemma set_priority_ok:
  assumes "strict_weak_order lt" "ph_ok lt s A m" "h \<in> dom m"
  shows "\<exists>b s'. ph_set_priority lt h p s = Some (b, s') \<and> ph_ok lt s' A (m(h \<mapsto> p)) \<and> (\<forall>g. pn_data (pnodes s' g) = pn_data (pnodes s g))"
proof -
  have "h \<in> A" using assms(3) ok_dom [OF assms(2)] by blast
  obtain s1 where s1: "ph_remove lt h s = Some s1" "ph_ok lt s1 A (m(h := None))" "\<forall>g. pn_data (pnodes s1 g) = pn_data (pnodes s g)"
    using remove_ok [OF assms] by blast
  from insert_ok [OF assms(1) s1(2) \<open>h \<in> A\<close>, of p] show ?thesis by (auto simp: ph_set_priority_def s1)
qed

lemma empty_ok: "ph_ok lt s A m \<Longrightarrow> ph_empty s \<longleftrightarrow> m = Map.empty"
  unfolding ph_ok_def ph_inv_def ph_empty_def by (fastforce simp: rep_None fun_eq_iff)

lemma queued_ok:
  assumes "ph_ok lt s A m" "h \<in> dom m"
  shows "ph_is_queued h s = Some True"
proof -
  obtain t pv where t: "rep (pnodes s) pv (ph_root s) t" "apart t" "addrs t \<subseteq> live s" "\<forall>h p. m h = Some p \<longleftrightarrow> (h, p) \<in> set_tree t"
    using assms(1) by (auto simp: ph_ok_def ph_inv_def)
  have "h \<in> addrs t" using assms(2) ents_dom [OF t(4)] by simp
  with unlinked_rep [OF t(1,2), of h] t(3) show ?thesis by (cases "ph_root s = Some h") (auto simp: ph_is_queued_def)
qed

section \<open>Reachable states\<close>

text \<open>
  The states of a heap, with the handles allocated and the queue the calls define, under the client's contract: a handle is
  allocated before it is used, inserted when it is not queued, removed or given a priority when it is, and deallocated when it is not.
\<close>

inductive ph_reach :: "('p \<Rightarrow> 'p \<Rightarrow> bool) \<Rightarrow> ('h, 'p, 't) pairing_heap \<Rightarrow> 'h set \<Rightarrow> ('h \<Rightarrow> 'p option) \<Rightarrow> bool" for lt where
  ph_reach_new: "ph_reach lt (ph_new garbage) {} Map.empty"
| ph_reach_allocate: "ph_reach lt s A m \<Longrightarrow> h \<notin> A \<Longrightarrow> ph_reach lt (ph_allocate h d s) (insert h A) m"
| ph_reach_deallocate: "ph_reach lt s A m \<Longrightarrow> h \<in> A \<Longrightarrow> h \<notin> dom m \<Longrightarrow> ph_deallocate h s = Some s' \<Longrightarrow> ph_reach lt s' (A - {h}) m"
| ph_reach_insert: "ph_reach lt s A m \<Longrightarrow> h \<in> A \<Longrightarrow> h \<notin> dom m \<Longrightarrow> ph_insert lt h p s = Some (b, s') \<Longrightarrow> ph_reach lt s' A (m(h \<mapsto> p))"
| ph_reach_remove: "ph_reach lt s A m \<Longrightarrow> h \<in> dom m \<Longrightarrow> ph_remove lt h s = Some s' \<Longrightarrow> ph_reach lt s' A (m(h := None))"
| ph_reach_pull: "ph_reach lt s A m \<Longrightarrow> ph_root s = Some h \<Longrightarrow> ph_pull_root lt s = Some (r, s') \<Longrightarrow> ph_reach lt s' A (m(h := None))"
| ph_reach_priority: "ph_reach lt s A m \<Longrightarrow> h \<in> dom m \<Longrightarrow> ph_set_priority lt h p s = Some (b, s') \<Longrightarrow> ph_reach lt s' A (m(h \<mapsto> p))"

lemma ph_reach_ok:
  assumes "strict_weak_order lt"
  shows "ph_reach lt s A m \<Longrightarrow> ph_ok lt s A m"
proof (induction rule: ph_reach.induct)
  case (ph_reach_deallocate s A m h s')
  then show ?case using deallocate_ok [OF ph_reach_deallocate.IH, of h] by (metis option.inject)
next
  case (ph_reach_insert s A m h p b s')
  then show ?case using insert_ok [OF assms ph_reach_insert.IH, of h p] by (metis Pair_inject option.inject)
next
  case (ph_reach_remove s A m h s')
  then show ?case using remove_ok [OF assms ph_reach_remove.IH, of h] by (metis option.inject)
next
  case (ph_reach_pull s A m h r s')
  have "m \<noteq> Map.empty" using empty_ok [OF ph_reach_pull.IH] ph_reach_pull.hyps(2) by (simp add: ph_empty_def)
  from pull_ok [OF assms ph_reach_pull.IH this] ph_reach_pull.hyps show ?case by (metis Pair_inject option.inject)
next
  case (ph_reach_priority s A m h p b s')
  then show ?case using set_priority_ok [OF assms ph_reach_priority.IH, of h p] by (metis Pair_inject option.inject)
qed (auto intro: ph_ok_new allocate_ok)

section \<open>The queue interface\<close>

text \<open>\<open>read_tree\<close> reads the tree from the memory.\<close>

partial_function (option) read_tree :: "('h, 'p, 't) pairing_heap \<Rightarrow> 'h option \<Rightarrow> ('h, 'p) ptree option" where
  "read_tree s p =
     (case p of None \<Rightarrow> Some Leaf
      | Some a \<Rightarrow> do {
          l \<leftarrow> read_tree s (first_child (pnodes s a));
          r \<leftarrow> read_tree s (next_sibling (pnodes s a));
          Some (Node l (a, pn_prio (pnodes s a)) r)
        })"

lemma read_rep: "rep (pnodes s) pv p t \<Longrightarrow> read_tree s p = Some t"
  by (induction t arbitrary: pv p) (auto simp: read_tree.simps)

definition ph_items :: "('h, 'p, 't) pairing_heap \<Rightarrow> ('h, 'p) heap_node multiset" where
  "ph_items s = image_mset (\<lambda>(h, p). node p h) (mset_tree (the (read_tree s (ph_root s))))"

definition ph_root_node :: "('h, 'p, 't) pairing_heap \<Rightarrow> ('h, 'p) heap_node" where
  "ph_root_node s = (let h = the (ph_get_root s) in node (pn_prio (pnodes s h)) h)"

definition ph_pull :: "('h, 'p::linorder, 't) pairing_heap \<Rightarrow> ('h, 'p, 't) pairing_heap" where
  "ph_pull s = snd (the (ph_pull_root (<) s))"

lemma ph_items_inv: "ph_inv lt s t \<Longrightarrow> ph_items s = image_mset (\<lambda>(h, p). node p h) (mset_tree t)"
  by (auto simp: ph_inv_def ph_items_def dest: read_rep)

interpretation pairing_q: prio_queue "(<) :: 'p::linorder \<Rightarrow> 'p \<Rightarrow> bool" "\<lambda>s. \<exists>t. ph_inv (<) s t" ph_items ph_empty
  ph_root_node "ph_pull :: ('h, 'p, 't) pairing_heap \<Rightarrow> ('h, 'p, 't) pairing_heap"
proof (intro prio_queue.intro prio_queue_axioms.intro swo_less)
  fix s :: "('h, 'p, 't) pairing_heap" and n
  assume "\<exists>t. ph_inv (<) s t"
  then obtain t where t: "ph_inv (<) s t" by blast
  note items = ph_items_inv [OF t]
  obtain pv where rp: "rep (pnodes s) pv (ph_root s) t" using t by (auto simp: ph_inv_def)
  show "ph_empty s \<longleftrightarrow> ph_items s = {#}" using rep_root [OF rp] by (cases t) (auto simp: items ph_empty_def)
  assume ne: "\<not> ph_empty s"
  with t obtain l a u where te: "t = Node l (a, u) Leaf" by (auto simp: ph_inv_def ph_empty_def)
  have r: "ph_root_node s = node u a" using rp by (simp add: te ph_root_node_def ph_get_root_def)
  show "ph_root_node s \<in># ph_items s" by (simp add: items r te)
  show "\<not> prio n < prio (ph_root_node s)" if "n \<in># ph_items s"
    using that t by (auto simp: items r te ph_inv_def)
  obtain s' where "ph_pull_root (<) s = Some (ph_root s', s')" and i: "ph_inv (<) s' (unite (<) l)"
    using pull_tree [OF t [unfolded te] swo_less] by blast
  then have p: "ph_pull s = s'" by (simp add: ph_pull_def)
  show "\<exists>t. ph_inv (<) (ph_pull s) t" using i by (auto simp: p)
  show "ph_items (ph_pull s) = ph_items s - {#ph_root_node s#}"
    using ph_items_inv [OF i] by (simp add: p items r te mset_unite)
qed

section \<open>Properties\<close>

text \<open>
  C13: Refinement. In every state that calls within the contract reach, the pairing heap is the finite map \<open>m\<close> from the queued handles
  to their priorities: \<open>insert\<close> makes it \<open>m(h \<mapsto> p)\<close> and returns whether no queued priority is below \<open>p\<close>; the root is a
  least element, with its priority, and \<open>pull_root\<close> removes exactly it and returns the new root; \<open>remove\<close> takes any handle out and \<open>set_priority\<close>
  replaces its priority. All calls return, without following a null or dangling pointer, and queued handles are reported as queued.
\<close>

theorem pairing_heap_refines:
  assumes "strict_weak_order lt" and "ph_reach lt s A m"
  shows "(ph_empty s \<longleftrightarrow> m = Map.empty) \<and> (h \<in> dom m \<longrightarrow> ph_is_queued h s = Some True) \<and>
    (h \<in> A \<and> h \<notin> dom m \<longrightarrow> (\<exists>s'. ph_insert lt h p s = Some (\<forall>q \<in> ran m. \<not> lt q p, s') \<and> ph_reach lt s' A (m(h \<mapsto> p)))) \<and>
    (m \<noteq> Map.empty \<longrightarrow> (\<exists>r q s'. ph_get_root s = Some r \<and> m r = Some q \<and> ph_get_root_priority s = Some q \<and> (\<forall>x \<in> ran m. \<not> lt x q) \<and>
       ph_pull_root lt s = Some (ph_get_root s', s') \<and> ph_reach lt s' A (m(r := None)))) \<and>
    (h \<in> dom m \<longrightarrow> (\<exists>s'. ph_remove lt h s = Some s' \<and> ph_reach lt s' A (m(h := None))) \<and>
       (\<exists>b s'. ph_set_priority lt h p s = Some (b, s') \<and> ph_reach lt s' A (m(h \<mapsto> p))))"
proof -
  note ok = ph_reach_ok [OF assms]
  have "\<exists>s'. ph_insert lt h p s = Some (\<forall>q \<in> ran m. \<not> lt q p, s') \<and> ph_reach lt s' A (m(h \<mapsto> p))" if "h \<in> A" "h \<notin> dom m"
    using insert_ok [OF assms(1) ok that, of p] ph_reach_insert [OF assms(2) that] by blast
  moreover have "\<exists>r q s'. ph_get_root s = Some r \<and> m r = Some q \<and> ph_get_root_priority s = Some q \<and> (\<forall>x \<in> ran m. \<not> lt x q) \<and>
      ph_pull_root lt s = Some (ph_get_root s', s') \<and> ph_reach lt s' A (m(r := None))" if "m \<noteq> Map.empty"
    using pull_ok [OF assms(1) ok that] ph_reach_pull [OF assms(2)] unfolding ph_get_root_def by blast
  moreover have "\<exists>s'. ph_remove lt h s = Some s' \<and> ph_reach lt s' A (m(h := None))" if "h \<in> dom m"
    using remove_ok [OF assms(1) ok that] ph_reach_remove [OF assms(2) that] by blast
  moreover have "\<exists>b s'. ph_set_priority lt h p s = Some (b, s') \<and> ph_reach lt s' A (m(h \<mapsto> p))" if "h \<in> dom m"
    using set_priority_ok [OF assms(1) ok that, of p] ph_reach_priority [OF assms(2) that] by blast
  ultimately show ?thesis using empty_ok [OF ok] queued_ok [OF ok, of h] by blast
qed

definition empty_heap :: "(int, int, unit) pairing_heap" where
  "empty_heap = ph_allocate 2 () (ph_allocate 1 () (ph_new
     (\<lambda>_. \<lparr>pn_data = (), pn_prio = 0, next_sibling = None, prev_sibling = None, first_child = None\<rparr>)))"

definition two_queued :: "int \<Rightarrow> int option" where
  "two_queued = [1 \<mapsto> 50, 2 \<mapsto> 7]"

lemma two_queued_simps: "dom two_queued = {1, 2}"
    "two_queued r = Some q \<longleftrightarrow> r = 1 \<and> q = 50 \<or> r = 2 \<and> q = 7" "two_queued(2 := None) = [1 \<mapsto> 50]"
  by (auto simp: two_queued_def ran_def fun_eq_iff split: if_splits)

lemma two_queued_ran: "two_queued \<noteq> Map.empty" "ran two_queued = {7, 50}"
  by (simp_all add: two_queued_def insert_commute)

lemma two_inserted:
  "\<exists>s1 s2. ph_insert (<) 1 50 empty_heap = Some (True, s1) \<and> ph_insert (<) 2 7 s1 = Some (True, s2) \<and> ph_reach (<) s2 {1, 2} two_queued"
proof -
  have i: "\<exists>s'. ph_insert (<) h p s = Some (\<forall>q \<in> ran m. \<not> q < p, s') \<and> ph_reach (<) s' A (m(h \<mapsto> p))"
    if "ph_reach (<) s A m" "h \<in> A" "h \<notin> dom m" for h p :: int and s :: "(int, int, unit) pairing_heap" and A m
    using insert_ok [OF swo_less ph_reach_ok [OF swo_less that(1)] that(2,3), of p] ph_reach_insert [OF that] by blast
  have "ph_reach (<) empty_heap {1, 2} (Map.empty :: int \<Rightarrow> int option)"
    unfolding empty_heap_def by (subst insert_commute, intro ph_reach_allocate ph_reach_new) simp_all
  from i [OF this, of 1 50] obtain s1 where s1: "ph_insert (<) 1 50 empty_heap = Some (True, s1)" "ph_reach (<) s1 {1, 2} [1 \<mapsto> 50]"
    by auto
  from i [OF s1(2), of 2 7] s1(1) show ?thesis by (auto simp: two_queued_def)
qed

theorem pairing_heap_refines_witness:
  "\<exists>s1 s2 s3. ph_insert (<) 1 50 empty_heap = Some (True, s1) \<and> ph_insert (<) 2 7 s1 = Some (True, s2) \<and>
     ph_get_root s2 = Some 2 \<and> ph_pull_root (<) s2 = Some (ph_get_root s3, s3) \<and> \<not> ph_empty s3"
proof -
  obtain s1 s2 where s: "ph_insert (<) 1 50 empty_heap = Some (True, s1)" "ph_insert (<) 2 7 s1 = Some (True, s2)"
    "ph_reach (<) s2 {1, 2} two_queued" using two_inserted by blast
  obtain r q s3 where r: "ph_get_root s2 = Some r" "two_queued r = Some q" "\<forall>x \<in> ran two_queued. \<not> x < q"
    "ph_pull_root (<) s2 = Some (ph_get_root s3, s3)" "ph_reach (<) s3 {1, 2} (two_queued(r := None))"
    using pairing_heap_refines [OF swo_less s(3)] two_queued_ran(1) by blast
  then have r2: "r = 2" by (auto simp: two_queued_simps two_queued_ran)
  have "\<not> ph_empty s3" using pairing_heap_refines [OF swo_less r(5)] by (simp add: r2 two_queued_simps)
  then show ?thesis using s(1,2) r(1,4) by (auto simp: r2)
qed

text \<open>
  Taking roots until a reachable heap is empty yields exactly the queued handles with their priorities, in ascending order.
\<close>

theorem pairing_heap_sorts:
  assumes "ph_reach (<) s A (m :: 'h \<Rightarrow> 'p::linorder option)"
  defines "ns \<equiv> drain ph_empty ph_root_node ph_pull (card (dom m)) s"
  shows "sorted (map prio ns) \<and> distinct (map hnd ns) \<and> set (map (\<lambda>n. (hnd n, prio n)) ns) = {(h, p). m h = Some p}"
proof -
  obtain t where t: "ph_inv (<) s t" "\<forall>h p. m h = Some p \<longleftrightarrow> (h, p) \<in> set_tree t"
    using ph_reach_ok [OF swo_less assms(1)] by (auto simp: ph_ok_def)
  have ap: "distinct (map fst (inorder t))" using t(1) apart_inorder [of t] by (simp add: ph_inv_def)
  have "card (dom m) = size (ph_items s)"
    using distinct_card [OF ap] by (simp add: ents_dom [OF t(2)] ph_items_inv [OF t(1)] flip: mset_inorder set_inorder)
  then have "mset ns = ph_items s" unfolding ns_def by (intro pairing_q.drain_items) (use t(1) in auto)
  then have ms: "mset (map (\<lambda>n. (hnd n, prio n)) ns) = mset (inorder t)"
    by (simp add: ph_items_inv [OF t(1)] multiset.map_comp comp_def case_prod_beta)
  have "set (map (\<lambda>n. (hnd n, prio n)) ns) = {(h, p). m h = Some p}" using mset_eq_setD [OF ms] t(2) by auto
  moreover have "distinct (map hnd ns)"
    using ap arg_cong [OF ms, of "image_mset fst"] mset_eq_imp_distinct_iff [of "map hnd ns" "map fst (inorder t)"]
    by (simp add: multiset.map_comp comp_def del: mset_inorder)
  moreover have "sorted (map prio ns)"
    using pairing_q.drain_sorted [of s "card (dom m)"] t(1) by (auto simp: ns_def sorted_map not_less)
  ultimately show ?thesis by blast
qed

theorem pairing_heap_sorts_witness:
  "\<exists>s1 s2. ph_insert (<) 1 50 empty_heap = Some (True, s1) \<and> ph_insert (<) 2 7 s1 = Some (True, s2) \<and>
     sorted (map prio (drain ph_empty ph_root_node ph_pull 2 s2)) \<and>
     set (map (\<lambda>n. (hnd n, prio n)) (drain ph_empty ph_root_node ph_pull 2 s2)) = {(1, 50), (2, 7)}"
proof -
  obtain s1 s2 where s: "ph_insert (<) 1 50 empty_heap = Some (True, s1)" "ph_insert (<) 2 7 s1 = Some (True, s2)"
    "ph_reach (<) s2 {1, 2} two_queued" using two_inserted by blast
  have "card (dom two_queued) = 2" "{(h, p). two_queued h = Some p} = {(1, 50), (2, 7)}" by (auto simp: two_queued_simps)
  then show ?thesis using s(1,2) pairing_heap_sorts [OF s(3)] by auto
qed

text \<open>
  \<open>pull_root\<close> does not clear the backward pointer that a single child of the root keeps when it becomes the root, so a
  handle that has been taken out of the queue can still be reported as queued.
\<close>

lemma pull_only_child:
  assumes "ph_root s = Some a" "a \<in> live s" "first_child (pnodes s a) = Some b" "b \<in> live s" "next_sibling (pnodes s b) = None"
  shows "ph_pull_root lt s = Some (Some b, s\<lparr>pnodes := (pnodes s)(a := pnodes s a\<lparr>first_child := None\<rparr>), ph_root := Some b\<rparr>)"
  using assms by (simp add: ph_pull_root_def merge_pairs_def)

theorem pulled_root_still_queued:
  assumes "ph_root s = Some a" "pnodes s a = \<lparr>pn_data = x, pn_prio = p, next_sibling = None, prev_sibling = pv, first_child = Some b\<rparr>"
    and "pnodes s b = \<lparr>pn_data = y, pn_prio = q, next_sibling = None, prev_sibling = Some a, first_child = None\<rparr>" "{a, b} \<subseteq> live s" "a \<noteq> b"
  shows "\<exists>s1 s2. ph_pull_root lt s = Some (Some b, s1) \<and> ph_pull_root lt s1 = Some (None, s2) \<and> ph_empty s2 \<and> ph_is_queued b s2 = Some True"
proof -
  let ?s = "s\<lparr>pnodes := (pnodes s)(a := pnodes s a\<lparr>first_child := None\<rparr>), ph_root := Some b\<rparr>"
  have "ph_pull_root lt s = Some (Some b, ?s)" using assms by (intro pull_only_child) auto
  moreover have "ph_pull_root lt ?s = Some (None, ?s\<lparr>pnodes := (pnodes ?s)(b := pnodes ?s b), ph_root := None\<rparr>)"
    using assms by (simp add: ph_pull_root_def merge_pairs_def)
  ultimately show ?thesis using assms by (fastforce simp: ph_empty_def ph_is_queued_def)
qed

end
