(* ===== verification/Lambda_Watch.thy ===== *)
theory Lambda_Watch
  imports Register_Props
begin

text \<open>
  The static \<open>add_watch\<close> and \<open>add_timer\<close> of the watcher classes of \<open>dasynq.h\<close>, which take a callable instead of a class: they allocate
  a watcher that calls it, and that deletes itself in \<open>watch_removed\<close>.

  \<open>objs\<close> are the watchers that are allocated; \<open>new_obj\<close> is the allocator, a fresh address or none. The callable is the
  argument of the \<open>lambda_...\<close> callbacks, which the dispatch methods take.
\<close>

type_synonym objects = "waddr set"

section \<open>Creation\<close>

text \<open>Whether the registration of the watcher at the address throws, the object has been allocated.\<close>

definition lambda_create ::
  "(objects \<Rightarrow> waddr option) \<Rightarrow> (waddr \<Rightarrow> 'm loop \<Rightarrow> exn option \<times> 'm loop) \<Rightarrow> objects \<Rightarrow> 'm loop \<Rightarrow> (exn + waddr) \<times> objects \<times> 'm loop" where
  "lambda_create new_obj add objs s =
     (case new_obj objs of
        None \<Rightarrow> (Inl Bad_alloc, objs, s)
      | Some a \<Rightarrow>
          (case add a s of
             (Some e, s) \<Rightarrow> (Inl e, insert a objs, s)
           | (None, s) \<Rightarrow> (Inr a, insert a objs, s)))"

definition lambda_sig_watcher ::
  "(objects \<Rightarrow> waddr option) \<Rightarrow> 'm env \<Rightarrow> int \<Rightarrow> objects \<Rightarrow> 'm loop \<Rightarrow> (exn + waddr) \<times> objects \<times> 'm loop" where
  "lambda_sig_watcher new_obj E signo = lambda_create new_obj (\<lambda>lsw. sw_add_watch E lsw signo DEFAULT_PRIORITY)"

definition lambda_fd_watcher ::
  "(objects \<Rightarrow> waddr option) \<Rightarrow> 'm env \<Rightarrow> int \<Rightarrow> 32 word \<Rightarrow> objects \<Rightarrow> 'm loop \<Rightarrow> (exn + waddr) \<times> objects \<times> 'm loop" where
  "lambda_fd_watcher new_obj E fd flags = lambda_create new_obj (\<lambda>lfd. fd_add_watch E lfd fd flags True DEFAULT_PRIORITY)"

definition lambda_bidi_watcher ::
  "(objects \<Rightarrow> waddr option) \<Rightarrow> 'm env \<Rightarrow> int \<Rightarrow> 32 word \<Rightarrow> objects \<Rightarrow> 'm loop \<Rightarrow> (exn + waddr) \<times> objects \<times> 'm loop" where
  "lambda_bidi_watcher new_obj E fd flags =
     lambda_create new_obj (\<lambda>lfd. bidi_add_watch E lfd fd flags DEFAULT_PRIORITY DEFAULT_PRIORITY)"

definition lambda_timer ::
  "(objects \<Rightarrow> waddr option) \<Rightarrow> 'm env \<Rightarrow> clock_type \<Rightarrow> bool \<Rightarrow> timespec \<Rightarrow> timespec \<Rightarrow> objects \<Rightarrow> 'm loop \<Rightarrow>
   (exn + waddr) \<times> objects \<times> 'm loop" where
  "lambda_timer new_obj E clk relative timeout interval = lambda_create new_obj (\<lambda>lt s.
     case tm_add_timer E lt clk DEFAULT_PRIORITY s of
       (Some e, s) \<Rightarrow> (Some e, s)
     | (None, s) \<Rightarrow>
         (None, if relative then el_set_timer_rel E lt timeout interval (clock (mem s lt)) s
                else el_set_timer E lt timeout interval (clock (mem s lt)) s))"

section \<open>The members\<close>

definition lambda_received :: "(int \<Rightarrow> 'm loop \<Rightarrow> rearm \<times> 'm loop) \<Rightarrow> int \<Rightarrow> 'm loop \<Rightarrow> rearm \<times> 'm loop" where
  "lambda_received watch_hndlr signo s = watch_hndlr signo s"

definition lambda_fd_event :: "(int \<Rightarrow> 32 word \<Rightarrow> 'm loop \<Rightarrow> rearm \<times> 'm loop) \<Rightarrow> int \<Rightarrow> 32 word \<Rightarrow> 'm loop \<Rightarrow> rearm \<times> 'm loop" where
  "lambda_fd_event watch_hndlr fd flags s = watch_hndlr fd flags s"

definition lambda_read_ready :: "(int \<Rightarrow> 32 word \<Rightarrow> 'm loop \<Rightarrow> rearm \<times> 'm loop) \<Rightarrow> int \<Rightarrow> 'm loop \<Rightarrow> rearm \<times> 'm loop" where
  "lambda_read_ready watch_hndlr fd s = watch_hndlr fd IN_EVENTS s"

definition lambda_write_ready :: "(int \<Rightarrow> 32 word \<Rightarrow> 'm loop \<Rightarrow> rearm \<times> 'm loop) \<Rightarrow> int \<Rightarrow> 'm loop \<Rightarrow> rearm \<times> 'm loop" where
  "lambda_write_ready watch_hndlr fd s = watch_hndlr fd OUT_EVENTS s"

definition lambda_timer_expiry :: "(int \<Rightarrow> 'm loop \<Rightarrow> rearm \<times> 'm loop) \<Rightarrow> int \<Rightarrow> 'm loop \<Rightarrow> rearm \<times> 'm loop" where
  "lambda_timer_expiry watch_hndlr n s = watch_hndlr n s"

text \<open>
  \<open>watch_removed\<close> is \<open>delete this\<close>; deleting an object twice is undefined. \<open>lambda_deletes s s' objs\<close> are the deletions by
  the calls of \<open>watch_removed\<close> between the states \<open>s\<close> and \<open>s'\<close>, for a loop all of whose watchers were made from callables.
\<close>

definition lambda_watch_removed :: "waddr \<Rightarrow> objects \<Rightarrow> objects option" where
  "lambda_watch_removed a objs = (if a \<in> objs then Some (objs - {a}) else None)"

definition lambda_deletes :: "'m loop \<Rightarrow> 'm loop \<Rightarrow> objects \<Rightarrow> objects option" where
  "lambda_deletes s s' objs =
     fold (\<lambda>a r. Option.bind r (lambda_watch_removed a)) (rev (take (length (removed s') - length (removed s)) (removed s'))) (Some objs)"

section \<open>Their life\<close>

lemma lambda_deletes_one: "removed s' = a # removed s \<Longrightarrow> a \<in> objs \<Longrightarrow> lambda_deletes s s' objs = Some (objs - {a})"
  by (simp add: lambda_deletes_def lambda_watch_removed_def)

lemma lambda_deletes_none: "removed s' = removed s \<Longrightarrow> lambda_deletes s s' objs = Some objs"
  by (simp add: lambda_deletes_def)

text \<open>The effect of the registration on the watcher and the mechanism, beside that on the handles.\<close>

lemma prepare_throws: "prepare_watcher H a s = Inl e \<Longrightarrow> e = Bad_alloc"
  by (auto simp: prepare_watcher_def stable_allocate_def dary_allocate_def svec_reserve_def Let_def split: dsq_split)

lemma register_fd_effect:
  "case register_fd E a fd eventmask en emulate s of
     (Some e, s') \<Rightarrow> mem s' = mem s \<and>
       (e = Bad_alloc \<and> mech s' = mech s \<or>
        add_fd_watch (ops E) fd a (eventmask OR ONE_SHOT) en emulate (mech s) = (Inl e, mech s'))
   | (None, s') \<Rightarrow> \<exists>ok m. add_fd_watch (ops E) fd a (eventmask OR ONE_SHOT) en emulate (mech s) = (Inr ok, m) \<and>
       mem s' = (if ok then mem s
         else (mem s)(a := (mem s a)\<lparr>emulatefd := True, emulate_enabled := en,
           event_flags := (if en then eventmask AND IO_EVENTS else event_flags (mem s a))\<rparr>)) \<and>
       mech s' = (if attn_busy s \<and> en \<and> (if ok then interrupt_after_fd_add (ops E) else eventmask AND IO_EVENTS \<noteq> 0)
                  then interrupt_wait (ops E) m else m)"
proof (cases "prepare_watcher (henv E) a (lock_base s)")
  case (Inl e)
  then show ?thesis using prepare_throws [OF Inl] by (simp add: register_fd_def Let_def)
next
  case (Inr t)
  then have t: "mem t = mem s" "mech t = mech s" "attn_busy t = attn_busy s"
    using prepare_mech [OF Inr] by (auto simp: prepare_watcher_def lock_base_def split: sum.splits)
  obtain res k where "add_fd_watch (ops E) fd a (eventmask OR ONE_SHOT) en emulate (mech s) = (res, k)" by fastforce
  with Inr t show ?thesis
    by (cases res)
       (auto simp: register_fd_def Let_def requeue_watcher_def el_interrupt_if_necessary_def mech_do_def upd_def)
qed

text \<open>
  C25: creation of a descriptor watcher from a callable, when the objects are the registered watchers. The mechanism is asked to
  watch the given descriptor for the given events, once and enabled, for a new object; on success the object
  holds the descriptor, the events and the default priority, is registered, and is an emulated, enabled watcher, queued if it is for some event,
  when the mechanism does not support the descriptor, and otherwise idle. When the allocation of the object throws
  nothing changes. When the registration throws, for want of a handle or because the mechanism throws, the registered watchers, their memory
  and the queue are as before, and the mechanism is as it was or as it left itself when it threw; but the object
  stays allocated and nothing will delete it.
\<close>

theorem lambda_fd_created:
  assumes "reg_ok (henv E) A s" "\<not> lock_held s" "\<not> fault s" and "\<forall>X a. new_obj X = Some a \<longrightarrow> a \<notin> X"
  shows "case new_obj A of
      None \<Rightarrow> lambda_fd_watcher new_obj E fd flags A s = (Inl Bad_alloc, A, s)
    | Some a \<Rightarrow>
      let w = (watcher_init (mem s a))\<lparr>priority := DEFAULT_PRIORITY, watch_fd := fd, watch_flags := flags\<rparr>;
          (res, objs, s') = lambda_fd_watcher new_obj E fd flags A s;
          added = add_fd_watch (ops E) fd a (flags OR ONE_SHOT) True True (mech s)
      in a \<notin> A \<and> objs = insert a A \<and> \<not> lock_held s' \<and> \<not> fault s' \<and> removed s' = removed s \<and>
        (\<forall>b \<in> A. is_queued s' b = is_queued s b \<and> mem s' b = mem s b) \<and>
        (case res of
           Inl e \<Rightarrow> reg_ok (henv E) A s' \<and> mem s' = (mem s)(a := w) \<and>
             (e = Bad_alloc \<and> mech s' = mech s \<or> added = (Inl e, mech s'))
         | Inr b \<Rightarrow> b = a \<and> reg_ok (henv E) (insert a A) s' \<and>
             (\<exists>ok m. added = (Inr ok, m) \<and>
               mem s' = (mem s)(a := (if ok then w
                 else w\<lparr>emulatefd := True, emulate_enabled := True, event_flags := flags AND IO_EVENTS\<rparr>)) \<and>
               (is_queued s' a \<longleftrightarrow> \<not> ok \<and> flags AND IO_EVENTS \<noteq> 0) \<and>
               mech s' = (if attn_busy s \<and> (if ok then interrupt_after_fd_add (ops E) else flags AND IO_EVENTS \<noteq> 0)
                          then interrupt_wait (ops E) m else m)))"
proof (cases "new_obj A")
  case None
  then show ?thesis by (simp add: lambda_fd_watcher_def lambda_create_def)
next
  case (Some a)
  then have a: "a \<notin> A" using assms(4) by blast
  define w where "w = (watcher_init (mem s a))\<lparr>priority := DEFAULT_PRIORITY, watch_fd := fd, watch_flags := flags\<rparr>"
  define t where "t = upd a (\<lambda>w. (watcher_init w)\<lparr>priority := DEFAULT_PRIORITY, watch_fd := fd, watch_flags := flags\<rparr>) s"
  have t: "reg_ok (henv E) A t" "\<not> lock_held t" "\<not> fault t" "\<not> emulatefd (mem t a)"
    using assms(1-3) by (simp_all add: t_def watcher_init_def)
  have m: "mem t = (mem s)(a := w)" "mech t = mech s" "attn_busy t = attn_busy s" "removed t = removed s"
    "is_queued t = is_queued s"
    by (simp_all add: t_def w_def upd_def fun_eq_iff is_queued_def)
  obtain r s' where r: "register_fd E a fd flags True True t = (r, s')" by fastforce
  have l: "lambda_fd_watcher new_obj E fd flags A s = ((case r of None \<Rightarrow> Inr a | Some e \<Rightarrow> Inl e), insert a A, s')"
    using Some r by (simp add: lambda_fd_watcher_def lambda_create_def fd_add_watch_def t_def split: option.splits)
  note f = register_fd_correct [OF t(1) a t(2-4), where fd = fd and eventmask = flags and en = True and emulate = True]
    register_fd_effect [where E = E and a = a and fd = fd and eventmask = flags and en = True and emulate = True and s = t]
  show ?thesis
  proof (cases r)
    case None
    with f r obtain ok k where g: "reg_ok (henv E) (insert a A) s'" "removed s' = removed t" "\<not> lock_held s'" "\<not> fault s'"
      "is_queued s' a \<longleftrightarrow> \<not> ok \<and> flags AND IO_EVENTS \<noteq> 0" "\<forall>b \<in> A. is_queued s' b = is_queued t b \<and> mem s' b = mem t b"
      "add_fd_watch (ops E) fd a (flags OR ONE_SHOT) True True (mech t) = (Inr ok, k)"
      "mem s' = (if ok then mem t else (mem t)(a := (mem t a)\<lparr>emulatefd := True, emulate_enabled := True,
           event_flags := flags AND IO_EVENTS\<rparr>))"
      "mech s' = (if attn_busy t \<and> (if ok then interrupt_after_fd_add (ops E) else flags AND IO_EVENTS \<noteq> 0)
                  then interrupt_wait (ops E) k else k)" by auto
    have "\<forall>b \<in> A. is_queued s' b = is_queued s b \<and> mem s' b = mem s b" using g(6) a by (auto simp: m)
    with g show ?thesis by (simp add: Some None l a m w_def [symmetric])
  next
    case r': (Some e)
    with f r have g: "reg_ok (henv E) A s'" "mem s' = mem t" "removed s' = removed t" "\<not> lock_held s'" "\<not> fault s'"
      "\<forall>b \<in> A. is_queued s' b = is_queued t b"
      "e = Bad_alloc \<and> mech s' = mech t \<or> add_fd_watch (ops E) fd a (flags OR ONE_SHOT) True True (mech t) = (Inl e, mech s')"
      by auto
    have "\<forall>b \<in> A. is_queued s' b = is_queued s b \<and> mem s' b = mem s b" using g(2,6) a by (auto simp: m)
    with g show ?thesis by (simp add: Some r' l a m w_def [symmetric])
  qed
qed

theorem lambda_fd_created_witness:
  "case lambda_fd_watcher (\<lambda>X. if X = {} then Some (W 0) else None) sample_env 100 IN_EVENTS {} (idle_loop 0 (\<lambda>_. idle_watcher)) of
     (r, objs, s') \<Rightarrow> objs = {W 0} \<and> \<not> lock_held s' \<and> \<not> fault s'"
proof -
  have ok: "reg_ok (henv sample_env) {} (idle_loop 0 (\<lambda>_. idle_watcher))" by (simp add: idle_reg)
  have "\<forall>X a. (if X = {} then Some (W 0) else None) = Some a \<longrightarrow> a \<notin> X" by simp
  from lambda_fd_created [OF ok _ _ this, of 100 IN_EVENTS] show ?thesis
    by (auto simp: lambda_fd_watcher_def lambda_create_def split: option.splits prod.splits sum.splits if_splits)
qed

text \<open>
  Removal: when the callable returns \<open>REMOVE\<close>, or has deleted the watcher, the object of exactly this watcher is deleted,
  once, by the time the dispatch is over; so the objects are again the registered watchers.
\<close>

lemma lambda_removed_once:
  assumes "watcher_dispatch (henv E) cb disp" "cb a s = (r, t)" "r \<noteq> REMOVED" "r = REMOVE \<or> deleteme (mem t a)"
    and "reg_ok (henv E) A t" "a \<in> A" "\<not> is_queued t a" "\<not> lock_held t" "\<not> fault t"
  shows "lambda_deletes t (disp a s) A = Some (A - {a})" "reg_ok (henv E) (A - {a}) (disp a s)"
  using watcher_dispatch.on_remove [OF assms] assms(6) by (auto intro: lambda_deletes_one)

theorem lambda_fd_removed:
  assumes "fd_callback (lambda_fd_event hndlr) a s = (r, t)" "r \<noteq> REMOVED" "r = REMOVE \<or> deleteme (mem t a)"
    and "reg_ok (henv E) A t" "a \<in> A" "\<not> is_queued t a" "\<not> lock_held t" "\<not> fault t"
  shows "lambda_deletes t (dispatch_fd E (lambda_fd_event hndlr) a s) A = Some (A - {a}) \<and>
    reg_ok (henv E) (A - {a}) (dispatch_fd E (lambda_fd_event hndlr) a s)"
  using lambda_removed_once [OF d_fd.watcher_dispatch_axioms assms] by simp

end
