(* ===== verification/Spec2Isabelle.thy ===== *)
theory Spec2Isabelle
  imports Timerfd Itimer Posixtimer Attn_Lock Kqueue_Props Childproc_Props Interrupt_Props Pairing_Props Lambda_Watch
begin

text \<open>
  A verification library for dasynq, an event-loop library in C++ (headers under
  \<^verbatim>\<open>src/include\<close>). It models the library down to its vectors, heap slots, node
  pointers and queue counters; what the operating system does is a parameter.

  \<^bold>\<open>The program.\<close> A client owns watchers (for descriptors, for both directions of a descriptor, for
  signals, child processes and timers) and registers them with an \<open>event_loop\<close> (\<^verbatim>\<open>dasynq.h\<close>). The
  loop's member \<open>loop_mech\<close> is a stack of mixins, each deriving from the next: at the bottom
  \<open>event_dispatch\<close>, which keeps the queue of watchers with a pending event, above it the child
  process watches, the timers, the interrupt channel, and on top one mechanism (epoll, kqueue, select or
  pselect). A poll of the mechanism calls the functions \<open>receive_...\<close> downwards: each mixin takes the
  reports that are its own (SIGCHLD, the timer descriptors, the channel's descriptor) and passes the
  others on, until \<open>event_dispatch\<close> queues the watcher. \<open>process_events\<close> takes watchers off the queue
  in order of priority, calls them, and processes the value they return (\<open>rearm\<close>). The loop can be
  used by several threads; the attention lock decides who polls.

  \<^bold>\<open>Containers.\<close>
  \<^item> \<open>Prelude\<close>: machine sizes, exceptions, the ordering contract (locale \<open>strict_weak_order\<close>), the place
    of a mixin's members in the state of a mechanism (locale \<open>state_part\<close>).
  \<^item> \<open>Svec\<close> (\<^verbatim>\<open>svec.h\<close>): the vector, whose storage is the parameter \<open>alloc\<close>.
  \<^item> \<open>Daryheap\<close> (\<^verbatim>\<open>daryheap.h\<close>): every operation of the d-ary heap. \<open>Heap_Order\<close> is the reference level,
    sift operations on a list; \<open>Daryheap_Facts\<close> shows that the loops refine it, \<open>Daryheap_Order\<close>
    which operations keep the order, \<open>Daryheap_Props\<close> the contract of each operation: \<open>insert\<close> never
    throws in allocated slots, \<open>pull_root\<close> removes a minimum. \<open>remove\<close> and \<open>set_priority\<close> keep
    the order under stated conditions only; the examples in \<open>Daryheap_Order\<close> break it without them.
  \<^item> \<open>Prio_Queue\<close>: the locale \<open>prio_queue\<close> and its client \<open>drain\<close>, which comes out sorted. \<open>Stableheap\<close>
    (\<^verbatim>\<open>stableheap.h\<close>) and the timer queues interpret it; the former is first-in first-out within a priority.
  \<^item> \<open>Btree_set\<close> (\<^verbatim>\<open>btree_set.h\<close>): the B-tree behind the map of process ids, with nodes at addresses of
    a memory and the reserve of nodes. \<open>Btree_Repr\<close> relates the memory to a datatype of trees with
    contexts, \<open>Btree_Find\<close>, \<open>Btree_Insert\<close>, \<open>Btree_Insert_Tree\<close>, \<open>Btree_Merge\<close>, \<open>Btree_Borrow\<close>,
    \<open>Btree_Repop\<close> and \<open>Btree_Remove\<close> treat the operations, \<open>Btree_Inv\<close> the counters which guarantee
    that the reserve suffices. \<open>Btree_Props\<close>: the locale \<open>handle_map\<close>, its interpretation, and the
    refinement of a finite map in every state a client can reach.
  \<^item> \<open>Pairingheap\<close> (\<^verbatim>\<open>dasynq-pairingheap.h\<close> under \<^verbatim>\<open>src/extra/heaptest\<close>): the pairing heap, an alternative to the d-ary heap, on
    nodes and pointers. \<open>Pairing_Repr\<close> relates the memory to binary trees and the loops of \<open>merge_pairs\<close> to functions on them,
    \<open>Pairing_Props\<close> shows that it is a finite map with a least root in every reachable state, and interprets \<open>prio_queue\<close> on it.

  \<^bold>\<open>Time.\<close>
  \<^item> \<open>Time_val\<close> and \<open>Timerbase\<close> (\<^verbatim>\<open>timerbase.h\<close>): time arithmetic, the binary division, the timer
    queues and their processing; \<open>Timerbase_Props\<close>: one-shot timers are reported exactly when expired,
    in order; a periodic timer alone in its queue is reported with its count, in the safe range of the division.
  \<^item> \<open>Timerfd\<close>, \<open>Posixtimer\<close>, \<open>Itimer\<close> (\<^verbatim>\<open>timerfd.h\<close>, \<^verbatim>\<open>posixtimer.h\<close>, \<^verbatim>\<open>itimer.h\<close>): the three ways to drive
    the queues; what is armed in the kernel expires no later than the first timer.

  \<^bold>\<open>The loop.\<close>
  \<^item> \<open>Waitqueue\<close> and \<open>Attn_Lock\<close> (\<^verbatim>\<open>dasynq.h\<close>): the wait queues, which simulate a list over every sequence of
    operations (locale \<open>fifo_queue\<close>), and the locking protocol as a step relation over any number of threads, with mutual exclusion, no lost wake-up,
    and the interruption of a poll, by invariance over the reachable states (locale \<open>invariant_system\<close>).
  \<^item> \<open>Event_Dispatch\<close>, \<open>Event_Loop\<close>, \<open>Dispatch\<close>, \<open>Watchers\<close> (\<^verbatim>\<open>basewatchers.h\<close>, \<^verbatim>\<open>flags.h\<close>, \<^verbatim>\<open>dasynq.h\<close>): the
    watchers in a memory of addresses (\<open>waddr\<close>), the dispatcher, registration and removal, the processing
    of \<open>rearm\<close> values, dispatch, \<open>process_events\<close>, \<open>run\<close>, \<open>poll\<close>, and the public classes. The state is
    the record \<open>loop\<close>, whose field \<open>mech\<close> is the state of any mechanism; \<open>env\<close> holds the mechanism's operations.
    A callback is a function of the state, so it may call any operation of the loop.
  \<^item> \<open>Loop_Props\<close>: the registration invariant \<open>reg_ok\<close>. \<open>Loop_Correct\<close>: deletion,
    and \<open>process_events\<close> against the reference \<open>dispatched\<close>. \<open>Dispatch_Props\<close>: what each returned value
    does (locale \<open>watcher_dispatch\<close>, interpreted for four kinds of watcher). \<open>Register_Props\<close>: registration
    succeeds or leaves the loop as it was. \<open>Lambda_Watch\<close>: the watchers made from callables, which own themselves.

  \<^bold>\<open>Mechanisms and mixins.\<close>
  \<^item> \<open>Epoll\<close>, \<open>Epoll_Props\<close> (\<^verbatim>\<open>epoll.h\<close>): a batch of events queues exactly its watchers, and re-arms a bi-directional
    one; distinct signals leave the mask until re-armed.
  \<^item> \<open>Signal\<close> (\<^verbatim>\<open>signal.h\<close>), \<open>Select\<close>, \<open>Select_Props\<close> (\<^verbatim>\<open>select.h\<close>, \<^verbatim>\<open>pselect.h\<close>): the handler and its jump
    enter as outcomes of the poll; sets and vectors are consistent (locale \<open>fd_scan\<close> for the two scans).
  \<^item> \<open>Kqueue\<close>, \<open>Kqueue_Macos\<close>, \<open>Kqueue_Props\<close> (\<^verbatim>\<open>kqueue.h\<close>, \<^verbatim>\<open>kqueue-macos.h\<close>).
  \<^item> \<open>Childproc\<close>, \<open>Childproc_Props\<close> (\<^verbatim>\<open>childproc.h\<close>): the map of process ids over the B-tree, and reaping; the
    locale \<open>child_mixin\<close> is for any place of the mixin in a mechanism and is interpreted in the epoll loop.
  \<^item> \<open>Interrupt\<close>, \<open>Interrupt_Props\<close> (\<^verbatim>\<open>interrupt.h\<close>): eventfd or pipe; the locale \<open>channel_mixin\<close> likewise.

  \<^bold>\<open>Conventions.\<close> An operation that can throw has a sum type, \<open>Inl\<close> carrying the exception, or returns
  \<open>exn option\<close> beside the state where it changes the state before it throws. Loops the code does
  not bound are \<open>partial_function (option)\<close>, so a loop without end is \<open>None\<close>; the properties show
  \<open>Some\<close>. No fuel bounds a loop of the program; the argument of \<open>drain\<close> is the number of roots taken. Undefined behaviour is \<open>None\<close>
  in the containers and a flag of the state in the loop and the mechanisms (\<open>fault\<close>, \<open>ub\<close>, \<open>sel_ub\<close>).
  \<open>size_t\<close> and generation counters keep their width. Seconds are a 64-bit \<open>time_t\<close>: the time operators have the
  result \<open>None\<close> where the signed addition, subtraction or doubling overflows, and so have the operations that use them; overflow of an \<open>int\<close>
  is \<open>None\<close> too, and \<open>fault\<close> for the expiries of a timer that \<open>event_dispatch\<close> counts. \<open>norm\<close> are the times a clock delivers.
  The nodes of the B-tree and of the pairing heap have a set of those alive; a look-up that meets another node, and a deletion of one, is \<open>None\<close>.
  An allocation that may fail (\<open>alloc\<close>, \<open>new_at\<close>, \<open>new_obj\<close>) is a parameter where the code allocates: the vectors of the heaps and of the
  select mechanism, the nodes of the B-tree, the objects of the callable watchers; only the map of epoll's signals is taken to have memory. System calls
  are the fields of a record per header, over an arbitrary state of the operating system; what a
  property needs of them is a named premise with a witness.

  \<^bold>\<open>Defects the model shows.\<close> \<open>remove\<close> and \<open>set_priority\<close> of the d-ary heap can break the order; a
  periodic timer that shares its queue is re-queued for a wrong time, and \<open>divide_timespec\<close> is wrong
  below a second and overflows near the end of the range of \<open>time_t\<close>; a queued timer that is put off can leave the timerfd armed too
  late for another (\<open>set_timer_armed_late\<close>); a bi-directional watcher deleted in its callback releases its handles twice, and an
  error report clears the mark that it is one; \<open>process_events(0)\<close> keeps the lock; the select mechanism
  can access its vectors out of bounds, also after \<open>std::bad_alloc\<close>; the kqueue mechanism can leave a write filter behind an exception; pselect unblocks the signal it just received; the B-tree leaves the removed
  handle's parent pointer, and \<open>unreserve\<close> locks the base lock twice. Each has a lemma named after it.

  \<^bold>\<open>Not modelled.\<close> \<^verbatim>\<open>config.h\<close> selects headers at compile time; \<^verbatim>\<open>mutex.h\<close> and \<^verbatim>\<open>util.h\<close> wrap the standard
  mutex and \<open>pipe2\<close> (the base lock is a flag of the dispatcher). The traits classes and friend
  declarations have no behaviour. The copy constructor and \<open>push_back\<close> of \<open>svector\<close> do not compile
  when instantiated. Of the programs under \<^verbatim>\<open>src/extra\<close>, which measure
  alternative queues and are not part of the library, only the pairing heap is.
\<close>

end
